(* ===== verification/Emu_Prelude.thy ===== *)
theory Emu_Prelude
  imports Main "HOL-Library.Word" "HOL-Library.Monad_Syntax"
begin

text \<open>
  Shared vocabulary of the development: the machine integers of
  \<^verbatim>\<open>lib/type.h\<close>, C pointers, bit fields of packed structures, and the
  generic facts about words, bit fields and lists that the component theories use.

  A C computation that can reach undefined behaviour (a NULL dereference, an access outside
  an array, a value-returning function that runs off its end) is a function into
  \<open>'a option\<close>, and \<open>None\<close> is exactly that failure.
\<close>

unbundle bit_operations_syntax

section \<open>Machine integers and pointers\<close>

type_synonym u8 = "8 word"
type_synonym u16 = "16 word"
type_synonym u32 = "32 word"
type_synonym u64 = "64 word"

type_synonym 'a ptr = "'a option"

abbreviation NULL :: "'a ptr" where
  "NULL \<equiv> None"

definition KB :: u32 where "KB = push_bit 10 1"
definition MB :: u32 where "MB = push_bit 20 1"
definition GB :: u32 where "GB = push_bit 30 1"

definition SUCCESS :: u32 where "SUCCESS = 0"
definition FAIL :: u32 where "FAIL = 1"

text \<open>The all-ones value the sources use for \<^verbatim>\<open>INVALID_ID\<close>,
  \<^verbatim>\<open>INVALID_INDEX\<close> and \<^verbatim>\<open>INVALID_VALUE\<close>.\<close>

definition INVALID_ID :: u32 where "INVALID_ID = 0xffffffff"

named_theorems const_defs \<open>definitions of the numeric constants of the sources\<close>

lemmas [const_defs] = KB_def MB_def GB_def SUCCESS_def FAIL_def INVALID_ID_def

lemma SUCCESS_neq_FAIL [simp]: "SUCCESS \<noteq> FAIL" "FAIL \<noteq> SUCCESS"
  by (simp_all add: const_defs)

lemma unat_eq_INVALID: "unat x < 2 ^ 32 - 1 \<Longrightarrow> x \<noteq> INVALID_ID" for x :: u32
  by (auto simp: INVALID_ID_def)

section \<open>Bit fields\<close>

text \<open>
  A bit field of a packed C structure is a pair of its bit offset and its width. Reading takes
  the bits out, writing replaces them and drops the bits of the value that do not fit, which is
  what a C assignment to an unsigned bit field does.
\<close>

type_synonym bitfield = "nat \<times> nat"

definition field_get :: "bitfield \<Rightarrow> 'a::len word \<Rightarrow> 'a word" where
  "field_get f x = take_bit (snd f) (drop_bit (fst f) x)"

definition field_set :: "bitfield \<Rightarrow> 'a::len word \<Rightarrow> 'a word \<Rightarrow> 'a word" where
  "field_set f v x =
     (x AND NOT (push_bit (fst f) (mask (snd f)))) OR push_bit (fst f) (take_bit (snd f) v)"

definition field_fits :: "bitfield \<Rightarrow> 'a::len itself \<Rightarrow> bool" where
  "field_fits f t \<longleftrightarrow> fst f + snd f \<le> LENGTH('a)"

definition field_disjoint :: "bitfield \<Rightarrow> bitfield \<Rightarrow> bool" where
  "field_disjoint f g \<longleftrightarrow> fst f + snd f \<le> fst g \<or> fst g + snd g \<le> fst f"

named_theorems field_simps_c \<open>reading and writing bit fields\<close>
named_theorems field_defs \<open>offsets and widths of the bit fields of the sources\<close>

lemma bit_field_get:
  "bit (field_get f x) n \<longleftrightarrow> n < snd f \<and> bit x (fst f + n)" for x :: "'a::len word"
  by (auto simp: field_get_def bit_simps dest: bit_imp_le_length)

lemma bit_field_set:
  "bit (field_set f v x) n \<longleftrightarrow>
     n < LENGTH('a) \<and>
     (if fst f \<le> n \<and> n < fst f + snd f then bit v (n - fst f) else bit x n)"
  for x :: "'a::len word"
  by (auto simp: field_set_def bit_simps dest: bit_imp_le_length)

lemma field_get_set_same [field_simps_c]:
  "field_fits f TYPE('a) \<Longrightarrow> field_get f (field_set f v x) = take_bit (snd f) v"
  for x :: "'a::len word"
  by (rule bit_word_eqI) (auto simp: bit_field_get bit_field_set bit_simps field_fits_def)

lemma field_get_set_other [field_simps_c]:
  "field_disjoint f g \<Longrightarrow> field_get f (field_set g v x) = field_get f x"
  for x :: "'a::len word"
  by (rule bit_word_eqI)
    (auto simp: bit_field_get bit_field_set field_disjoint_def dest: bit_imp_le_length)

lemma field_set_set_same [field_simps_c]:
  "field_set f v (field_set f w x) = field_set f v x" for x :: "'a::len word"
  by (rule bit_word_eqI) (auto simp: bit_field_set)

lemma field_set_commute:
  "field_disjoint f g \<Longrightarrow> field_set f v (field_set g w x) = field_set g w (field_set f v x)"
  for x :: "'a::len word"
  by (rule bit_word_eqI) (auto simp: bit_field_set field_disjoint_def)

lemma field_get_bound: "unat (field_get f x) < 2 ^ snd f" for x :: "'a::len word"
  by (simp add: field_get_def unsigned_take_bit_eq take_bit_nat_less_exp)

lemma field_get_zero [simp]: "field_get f 0 = (0 :: 'a::len word)"
  by (simp add: field_get_def)

lemma field_set_get: "field_set f (field_get f x) x = x" for x :: "'a::len word"
  by (rule bit_word_eqI) (auto simp: bit_field_set bit_field_get dest: bit_imp_le_length)

lemma take_bit_small_word:
  "unat x < 2 ^ n \<Longrightarrow> take_bit n x = x" for x :: "'a::len word"
  by (metis take_bit_nat_eq_self unsigned_take_bit_eq word_unat_eq_iff)

lemma unat_ucast_widen:
  "LENGTH('b) \<le> LENGTH('a) \<Longrightarrow> unat (ucast x :: 'a::len word) = unat x" for x :: "'b::len word"
proof -
  assume le: "LENGTH('b) \<le> LENGTH('a)"
  have "unat x < 2 ^ LENGTH('b)" by (rule unsigned_less)
  also have "\<dots> \<le> 2 ^ LENGTH('a)" using le by simp
  finally show ?thesis by (simp add: unsigned_ucast_eq take_bit_nat_eq_self)
qed

section \<open>Words as indices\<close>

lemma unat_of_nat_u32: "n < 2 ^ 32 \<Longrightarrow> unat (of_nat n :: u32) = n"
  by (simp add: unat_of_nat take_bit_nat_eq_self)

lemma unat_of_nat_u8: "n < 256 \<Longrightarrow> unat (of_nat n :: u8) = n"
  by (simp add: unat_of_nat take_bit_nat_eq_self)

lemma of_nat_u32_inj: "m < 2 ^ 32 \<Longrightarrow> n < 2 ^ 32 \<Longrightarrow> (of_nat m :: u32) = of_nat n \<longleftrightarrow> m = n"
  by (metis unat_of_nat_u32)

lemma unat_inc_less:
  fixes c r :: u32
  assumes "c < r"
  shows "unat (c + 1) = Suc (unat c)" and "unat c < unat r"
proof -
  show lt: "unat c < unat r" using assms by (simp add: word_less_nat_alt)
  have "unat r < 2 ^ 32" using unsigned_less [of r, where 'a = nat] by simp
  then show "unat (c + 1) = Suc (unat c)" using lt by (simp add: unat_word_ariths)
qed

section \<open>Lists\<close>

lemma distinct_snoc: "distinct (xs @ [x]) \<longleftrightarrow> distinct xs \<and> x \<notin> set xs"
  by simp

lemma distinct_length_le_card:
  "distinct xs \<Longrightarrow> set xs \<subseteq> A \<Longrightarrow> finite A \<Longrightarrow> length xs \<le> card A"
  by (metis card_mono distinct_card)

lemma list_snoc_cases: "(xs = [] \<Longrightarrow> P) \<Longrightarrow> (\<And>ys y. xs = ys @ [y] \<Longrightarrow> P) \<Longrightarrow> P"
  by (cases xs rule: rev_cases) auto

end
