(* ===== verification/Emu_Config.thy ===== *)
theory Emu_Config
  imports Emu_Prelude
begin

text \<open>
  The numeric configuration (\<^verbatim>\<open>config/config.h\<close>), the memory map of the simulated
  DRAM (\<^verbatim>\<open>config/mem.h\<close>), the register map of the flash controller
  (\<^verbatim>\<open>config/reg.h\<close>) and the alignment of the two base addresses
  (\<^verbatim>\<open>emu/emu_main.c\<close>, \<^verbatim>\<open>fcl/fcl.c\<close>). The lemmas show that the
  regions the components place in the DRAM do not overlap.
\<close>

section \<open>Geometry and table sizes\<close>

definition NORMAL_CHANNEL :: "u32 list" where "NORMAL_CHANNEL = [1, 1, 1, 1]"
definition TOTAL_CHANNEL :: nat where "TOTAL_CHANNEL = 4"
definition PAGE_PER_BLOCK_SLC_MODE :: nat where "PAGE_PER_BLOCK_SLC_MODE = 384"
definition BLOCK_PER_PLANE :: nat where "BLOCK_PER_PLANE = 1006"
definition PAGE_PER_BLOCK :: nat where "PAGE_PER_BLOCK = 384"
definition PLANE_PER_LUN :: nat where "PLANE_PER_LUN = 2"
definition PLANE_PER_CE :: nat where "PLANE_PER_CE = 2"
definition LUN_PER_CE :: nat where "LUN_PER_CE = 1"
definition CE_PER_CH :: nat where "CE_PER_CH = 8"
definition CH_PER_BOARD :: nat where "CH_PER_BOARD = 4"
definition TOTAL_BOARD :: nat where "TOTAL_BOARD = 1"
definition TOTAL_CH :: nat where "TOTAL_CH = TOTAL_BOARD * CH_PER_BOARD"
definition TOTAL_CE :: nat where "TOTAL_CE = TOTAL_CH * CE_PER_CH"
definition TOTAL_LUN :: nat where "TOTAL_LUN = TOTAL_CE * LUN_PER_CE"
definition TOTAL_PLANE :: nat where "TOTAL_PLANE = TOTAL_LUN * PLANE_PER_LUN"
definition TOTAL_BLOCK :: nat where "TOTAL_BLOCK = TOTAL_PLANE * BLOCK_PER_PLANE"
definition TOTAL_PAGE :: nat where "TOTAL_PAGE = TOTAL_BLOCK * PAGE_PER_BLOCK"
definition BUFFER_NUMBER :: nat where "BUFFER_NUMBER = 1500"
definition HW_QUEUE_DEPTH :: nat where "HW_QUEUE_DEPTH = 256"

lemmas geometry_defs [const_defs] = TOTAL_CHANNEL_def PAGE_PER_BLOCK_SLC_MODE_def
  BLOCK_PER_PLANE_def PAGE_PER_BLOCK_def PLANE_PER_LUN_def PLANE_PER_CE_def LUN_PER_CE_def
  CE_PER_CH_def CH_PER_BOARD_def TOTAL_BOARD_def TOTAL_CH_def TOTAL_CE_def TOTAL_LUN_def
  TOTAL_PLANE_def TOTAL_BLOCK_def TOTAL_PAGE_def BUFFER_NUMBER_def HW_QUEUE_DEPTH_def

section \<open>The memory map\<close>

text \<open>\<open>mem_base\<close> and \<open>fcl_base\<close> are global variables of the emulator, parameters here.\<close>

definition SPIN_LOCK_SZ :: u32 where "SPIN_LOCK_SZ = 4"

definition GLOBAL_SPIN_LOCK_1_ADDR :: "u32 \<Rightarrow> u32" where
  "GLOBAL_SPIN_LOCK_1_ADDR mem_base = mem_base + 5 * MB"

definition CH_SQ_SPIN_LOCK :: "u32 \<Rightarrow> u32" where
  "CH_SQ_SPIN_LOCK mem_base = GLOBAL_SPIN_LOCK_1_ADDR mem_base + 1 * SPIN_LOCK_SZ"

definition TQ_FROMCQ_SPIN_LOCK :: "u32 \<Rightarrow> u32" where
  "TQ_FROMCQ_SPIN_LOCK mem_base =
     CH_SQ_SPIN_LOCK mem_base + of_nat TOTAL_CHANNEL * SPIN_LOCK_SZ"

definition SQ_ENTRY_SZ_PER_CHANNEL :: u32 where "SQ_ENTRY_SZ_PER_CHANNEL = 4 * KB"
definition SQ_BITMAP_SZ_PER_CHANNEL :: u32 where "SQ_BITMAP_SZ_PER_CHANNEL = 32"

definition HW_CH_SQ_ENTRY_ADDR :: "u32 \<Rightarrow> u32" where
  "HW_CH_SQ_ENTRY_ADDR mem_base = mem_base + 6 * MB"

definition HW_CH_SQ_BITMAP_ADDR :: "u32 \<Rightarrow> u32" where
  "HW_CH_SQ_BITMAP_ADDR mem_base =
     HW_CH_SQ_ENTRY_ADDR mem_base + of_nat TOTAL_CHANNEL * SQ_ENTRY_SZ_PER_CHANNEL"

definition CQ_ENTRY_SZ_PER_CHANNEL :: u32 where "CQ_ENTRY_SZ_PER_CHANNEL = 4 * KB"

definition HW_CH_CQ_ENTRY_ADDR :: "u32 \<Rightarrow> u32" where
  "HW_CH_CQ_ENTRY_ADDR mem_base = mem_base + 7 * MB"

definition HCMD_BASE_ADDR :: "u32 \<Rightarrow> u32" where
  "HCMD_BASE_ADDR mem_base = mem_base + 8 * MB"

definition FTL_TASK_Q :: "u32 \<Rightarrow> u32" where
  "FTL_TASK_Q mem_base = mem_base + 9 * MB"

definition BUFFER_ENTRY_BASE_ADDR :: "u32 \<Rightarrow> u32" where
  "BUFFER_ENTRY_BASE_ADDR mem_base = mem_base + 500 * MB"

definition BUFFER_BASE_ADDR :: "u32 \<Rightarrow> u32" where
  "BUFFER_BASE_ADDR mem_base = mem_base + 600 * MB"

definition HASH_TABLE_BASE_ADDR :: "u32 \<Rightarrow> u32" where
  "HASH_TABLE_BASE_ADDR mem_base = mem_base + 750 * MB"

definition HCMD_BUFFER_TABLE_BASE_ADDR :: "u32 \<Rightarrow> u32" where
  "HCMD_BUFFER_TABLE_BASE_ADDR mem_base = mem_base + 800 * MB"

lemmas mem_map_defs = SPIN_LOCK_SZ_def GLOBAL_SPIN_LOCK_1_ADDR_def CH_SQ_SPIN_LOCK_def
  TQ_FROMCQ_SPIN_LOCK_def SQ_ENTRY_SZ_PER_CHANNEL_def SQ_BITMAP_SZ_PER_CHANNEL_def
  HW_CH_SQ_ENTRY_ADDR_def HW_CH_SQ_BITMAP_ADDR_def CQ_ENTRY_SZ_PER_CHANNEL_def
  HW_CH_CQ_ENTRY_ADDR_def HCMD_BASE_ADDR_def FTL_TASK_Q_def BUFFER_ENTRY_BASE_ADDR_def
  BUFFER_BASE_ADDR_def HASH_TABLE_BASE_ADDR_def HCMD_BUFFER_TABLE_BASE_ADDR_def

text \<open>Registers of the flash controller.\<close>

definition FCTL_BASE_SYS_REG :: "u32 \<Rightarrow> u32" where
  "FCTL_BASE_SYS_REG fcl_base = fcl_base + 0x00000000"

definition FCTL_BASE_SWQ_CMD_SRAM :: "u32 \<Rightarrow> u32" where
  "FCTL_BASE_SWQ_CMD_SRAM fcl_base = fcl_base + 0x00100000"

definition FCTL_BASE_SWQ_SDR_SRAM :: "u32 \<Rightarrow> u32" where
  "FCTL_BASE_SWQ_SDR_SRAM fcl_base = fcl_base + 0x00200000"

definition FCTL_BASE_SWQ_DDR_SRAM :: "u32 \<Rightarrow> u32" where
  "FCTL_BASE_SWQ_DDR_SRAM fcl_base = fcl_base + 0x00300000"

definition FCTL_SZ_PER_CH :: u32 where
  "FCTL_SZ_PER_CH = 1 * MB + 1 * MB"

definition FCTL_CH_REG_BASE_ADDR :: "u32 \<Rightarrow> u32" where
  "FCTL_CH_REG_BASE_ADDR fcl_base = fcl_base + 0x00800000"

definition FCTL_CH_QUEUE_BASE_ADDR :: "u32 \<Rightarrow> u32" where
  "FCTL_CH_QUEUE_BASE_ADDR fcl_base = fcl_base + 0x00900000"

lemmas reg_map_defs = FCTL_BASE_SYS_REG_def FCTL_BASE_SWQ_CMD_SRAM_def FCTL_BASE_SWQ_SDR_SRAM_def
  FCTL_BASE_SWQ_DDR_SRAM_def FCTL_SZ_PER_CH_def FCTL_CH_REG_BASE_ADDR_def
  FCTL_CH_QUEUE_BASE_ADDR_def

section \<open>Aligned bases\<close>

text \<open>
  \<^verbatim>\<open>base = ((p >> 14) << 14) + 16 * KB\<close> for \<open>p\<close> from \<^verbatim>\<open>malloc\<close>,
  in \<^verbatim>\<open>main\<close> for the DRAM and in \<^verbatim>\<open>FCL_init_flash_controller\<close>
  for the register file.
\<close>

definition align_base :: "u32 \<Rightarrow> u32" where
  "align_base p = push_bit 14 (drop_bit 14 p) + 16 * KB"

definition aligned16K :: "u32 \<Rightarrow> bool" where
  "aligned16K a \<longleftrightarrow> take_bit 14 a = 0"

lemma aligned16K_unat: "aligned16K a \<longleftrightarrow> unat a mod 2 ^ 14 = 0"
  by (simp add: aligned16K_def word_unat_eq_iff unat_mod take_bit_eq_mod)

lemma unat_drop_push: "unat (push_bit 14 (drop_bit 14 p)) = unat p - unat p mod 2 ^ 14" for p :: u32
proof -
  have lt: "unat p < 2 ^ 32" using unsigned_less [of p] by simp
  have "unat (push_bit 14 (drop_bit 14 p)) = take_bit 32 (push_bit 14 (drop_bit 14 (unat p)))"
    using lt by (simp add: unsigned_push_bit_eq unsigned_drop_bit_eq take_bit_nat_eq_self)
  also have "push_bit 14 (drop_bit 14 (unat p)) = unat p - unat p mod 2 ^ 14"
    by (simp add: push_bit_eq_mult drop_bit_eq_div minus_mod_eq_div_mult)
  finally show ?thesis using lt by (simp add: take_bit_nat_eq_self less_imp_diff_less)
qed

lemma unat_numeral_u32: "numeral k < (2 ^ 32 :: nat) \<Longrightarrow> unat (numeral k :: u32) = numeral k"
  by (metis of_nat_numeral unat_of_nat_u32)

lemma unat_add_numeral:
  fixes b :: u32
  assumes "unat b + numeral k < 2 ^ 32"
  shows "unat (b + numeral k) = unat b + numeral k" and "unat (numeral k + b) = unat b + numeral k"
proof -
  have n: "unat (numeral k :: u32) = numeral k"
    using assms by (intro unat_numeral_u32) linarith
  show "unat (b + numeral k) = unat b + numeral k"
    using assms by (simp only: unat_word_ariths(1) n) simp
  then show "unat (numeral k + b) = unat b + numeral k" by (simp only: add.commute)
qed

text \<open>
  The regions the components use: start address and length in bytes, in the order of the map.
  The lengths are the sizes of the C objects placed there on the 32-bit target
  (\<^verbatim>\<open>sizeof(host_cmd_entry) = 64\<close>, \<^verbatim>\<open>sizeof(ftl_task_queue_entry) = 1036\<close>,
  \<^verbatim>\<open>sizeof(buffer_entry) = 48\<close>, \<^verbatim>\<open>sizeof(list_head) = 8\<close>).
\<close>

definition dram_regions :: "u32 \<Rightarrow> (u32 \<times> nat) list" where
  "dram_regions b =
    [(GLOBAL_SPIN_LOCK_1_ADDR b, 4),
     (CH_SQ_SPIN_LOCK b, 4 * TOTAL_CHANNEL),
     (TQ_FROMCQ_SPIN_LOCK b, 4),
     (HW_CH_SQ_ENTRY_ADDR b, TOTAL_CHANNEL * (HW_QUEUE_DEPTH * 16)),
     (HW_CH_SQ_BITMAP_ADDR b, TOTAL_CHANNEL * (HW_QUEUE_DEPTH div 8)),
     (HW_CH_CQ_ENTRY_ADDR b, TOTAL_CHANNEL * (HW_QUEUE_DEPTH * 16)),
     (HCMD_BASE_ADDR b, 256 * 64 + 256),
     (FTL_TASK_Q b, 6 * 1036),
     (BUFFER_ENTRY_BASE_ADDR b, BUFFER_NUMBER * 48),
     (BUFFER_BASE_ADDR b, BUFFER_NUMBER * 16384),
     (HASH_TABLE_BASE_ADDR b, 1000 * 8),
     (HCMD_BUFFER_TABLE_BASE_ADDR b, 256 * (8 + 4 + 4))]"

definition before :: "u32 \<times> nat \<Rightarrow> u32 \<times> nat \<Rightarrow> bool" where
  "before r s \<longleftrightarrow> unat (fst r) + snd r \<le> unat (fst s)"

lemma align_base_bounds:
  assumes "unat p + 2 ^ 14 < 2 ^ 32"
  shows "unat p < unat (align_base p)" and "unat (align_base p) \<le> unat p + 2 ^ 14"
    and "aligned16K (align_base p)"
proof -
  let ?d = "unat p div 16384"
  have "unat p - unat p mod 16384 = 16384 * ?d" by (simp add: minus_mod_eq_mult_div)
  then have eq: "unat (align_base p) = 16384 * ?d + 16384"
    using assms unat_add_numeral(1) [of "push_bit 14 (drop_bit 14 p)"]
    by (simp add: align_base_def KB_def unat_drop_push)
  then show "unat p < unat (align_base p)" "unat (align_base p) \<le> unat p + 2 ^ 14" by simp_all
  from eq show "aligned16K (align_base p)" by (simp add: aligned16K_unat)
qed

section \<open>Properties\<close>

text \<open>For every base address that leaves room for one gigabyte, the regions that the
  components place in the simulated DRAM lie in the order of the map without overlapping, and
  the last one ends inside the gigabyte that \<^verbatim>\<open>main\<close> allocates.\<close>

theorem dram_regions_disjoint:
  assumes "unat b + 2 ^ 30 \<le> 2 ^ 32"
  shows "sorted_wrt before (dram_regions b) \<and>
    (\<forall>r \<in> set (dram_regions b). unat b \<le> unat (fst r) \<and> unat (fst r) + snd r \<le> unat b + 2 ^ 30)"
  using assms
  by (simp add: dram_regions_def before_def mem_map_defs const_defs unat_add_numeral)

theorem dram_regions_disjoint_witness:
  "sorted_wrt before (dram_regions 0x10000000) \<and>
    list_all (\<lambda>r. unat (0x10000000 :: u32) \<le> unat (fst r) \<and> unat (fst r) + snd r \<le> unat (0x10000000 :: u32) + 2 ^ 30)
      (dram_regions 0x10000000)"
  using dram_regions_disjoint [of "0x10000000"] unfolding list_all_iff by simp

end
