(* ===== verification/Slot_Bitmap.thy ===== *)
theory Slot_Bitmap
  imports Emu_Prelude
begin

text \<open>
  The bitmap scan that \<^verbatim>\<open>hcl/hcl.c\<close> (\<^verbatim>\<open>hcmd_map\<close>) and
  \<^verbatim>\<open>fcl/fcl.c\<close> (\<^verbatim>\<open>hw_sq_bitmap\<close>) use: an array of 32-bit words, one
  bit per slot, searched word by word and bit by bit. The lemmas relate the loops to the set of
  used slots.
\<close>

type_synonym bitmap = "nat \<Rightarrow> u32"

text \<open>\<^verbatim>\<open>((map[i] & (1 << j)) >> j) == 0\<close>\<close>

definition bit_free :: "u32 \<Rightarrow> nat \<Rightarrow> bool" where
  "bit_free w j \<longleftrightarrow> drop_bit j (w AND push_bit j 1) = 0"

text \<open>The inner loop over \<open>j\<close> and the outer loop over \<open>i\<close>; the first hit leaves both.\<close>

function scan_word :: "u32 \<Rightarrow> nat \<Rightarrow> nat option" where
  "scan_word w j = (if j < 32 then if bit_free w j then Some j else scan_word w (j + 1) else None)"
  by pat_completeness auto
termination by (relation "measure (\<lambda>(w, j). 32 - j)") auto

function scan_bitmap :: "nat \<Rightarrow> bitmap \<Rightarrow> nat \<Rightarrow> (nat \<times> nat) option" where
  "scan_bitmap n m i =
     (if i < n then
        case scan_word (m i) 0 of
          Some j \<Rightarrow> Some (i, j)
        | None \<Rightarrow> scan_bitmap n m (i + 1)
      else None)"
  by pat_completeness auto
termination by (relation "measure (\<lambda>(n, m, i). n - i)") auto

declare scan_word.simps [simp del] scan_bitmap.simps [simp del]

definition bitmap_set :: "nat \<Rightarrow> nat \<Rightarrow> bitmap \<Rightarrow> bitmap" where
  "bitmap_set i j m = m(i := m i OR push_bit j 1)"

definition bitmap_clear :: "nat \<Rightarrow> nat \<Rightarrow> bitmap \<Rightarrow> bitmap" where
  "bitmap_clear i j m = m(i := m i AND NOT (push_bit j 1))"

definition used_slots :: "nat \<Rightarrow> bitmap \<Rightarrow> nat set" where
  "used_slots n m = {k. k < 32 * n \<and> bit (m (k div 32)) (k mod 32)}"

lemma word_zero_bits: "x = 0 \<longleftrightarrow> (\<forall>n. \<not> bit x n)" for x :: "'a::len word"
  by (auto simp: bit_eq_iff dest: bit_imp_le_length)

lemma bit_free_iff: "j < 32 \<Longrightarrow> bit_free w j \<longleftrightarrow> \<not> bit w j"
proof -
  assume "j < 32"
  then have b: "bit (drop_bit j (w AND push_bit j 1)) n \<longleftrightarrow> n = 0 \<and> bit w j" for n :: nat
    by (auto simp: bit_simps bit_1_iff)
  have "bit_free w j \<longleftrightarrow> (\<forall>n. \<not> bit (drop_bit j (w AND push_bit j 1)) n)"
    unfolding bit_free_def by (rule word_zero_bits)
  then show ?thesis by (simp only: b) blast
qed

lemma scan_word_Some:
  "scan_word w j = Some k \<Longrightarrow> j \<le> k \<and> k < 32 \<and> \<not> bit w k \<and> (\<forall>l. j \<le> l \<longrightarrow> l < k \<longrightarrow> bit w l)"
proof (induction w j rule: scan_word.induct)
  case (1 w j)
  show ?case
  proof (cases "j < 32 \<and> \<not> bit_free w j")
    case True
    with 1 have "j + 1 \<le> k \<and> k < 32 \<and> \<not> bit w k \<and> (\<forall>l. j + 1 \<le> l \<longrightarrow> l < k \<longrightarrow> bit w l)"
      by (simp add: scan_word.simps [of w j])
    moreover have "bit w j" using True bit_free_iff by blast
    ultimately show ?thesis by (metis Suc_eq_plus1 Suc_leD le_neq_implies_less Suc_leI)
  next
    case False
    with "1.prems" show ?thesis
      by (auto simp: scan_word.simps [of w j] bit_free_iff split: if_splits)
  qed
qed

lemma scan_word_None: "scan_word w j = None \<Longrightarrow> j \<le> l \<Longrightarrow> l < 32 \<Longrightarrow> bit w l"
proof (induction w j rule: scan_word.induct)
  case (1 w j)
  then have lt: "j < 32" by simp
  with "1.prems" have nf: "\<not> bit_free w j" "scan_word w (j + 1) = None"
    by (auto simp: scan_word.simps [of w j] split: if_splits)
  show ?case
  proof (cases "l = j")
    case True
    with nf lt show ?thesis by (simp add: bit_free_iff)
  next
    case False
    with 1 lt nf show ?thesis by simp
  qed
qed

lemma scan_bitmap_Some:
  "scan_bitmap n m i = Some (a, j) \<Longrightarrow>
     i \<le> a \<and> a < n \<and> j < 32 \<and> \<not> bit (m a) j \<and> (\<forall>l<j. bit (m a) l) \<and>
     (\<forall>b. i \<le> b \<longrightarrow> b < a \<longrightarrow> (\<forall>l<32. bit (m b) l))"
proof (induction n m i rule: scan_bitmap.induct)
  case (1 n m i)
  then have lt: "i < n" by (auto simp: scan_bitmap.simps [of n m i] split: if_splits)
  show ?case
  proof (cases "scan_word (m i) 0")
    case None
    with 1 lt have IH: "i + 1 \<le> a \<and> a < n \<and> j < 32 \<and> \<not> bit (m a) j \<and> (\<forall>l<j. bit (m a) l) \<and>
      (\<forall>b. i + 1 \<le> b \<longrightarrow> b < a \<longrightarrow> (\<forall>l<32. bit (m b) l))"
      by (simp add: scan_bitmap.simps [of n m i])
    have "\<forall>l<32. bit (m i) l" using scan_word_None [OF None] by simp
    with IH show ?thesis by (metis Suc_eq_plus1 Suc_leD le_neq_implies_less Suc_leI)
  next
    case (Some k)
    with "1.prems" lt have "a = i" "j = k" by (simp_all add: scan_bitmap.simps [of n m i])
    with scan_word_Some [OF Some] lt show ?thesis by auto
  qed
qed

lemma scan_bitmap_None: "scan_bitmap n m i = None \<Longrightarrow> i \<le> a \<Longrightarrow> a < n \<Longrightarrow> l < 32 \<Longrightarrow> bit (m a) l"
proof (induction n m i rule: scan_bitmap.induct)
  case (1 n m i)
  then have n: "scan_word (m i) 0 = None" "scan_bitmap n m (i + 1) = None"
    by (auto simp: scan_bitmap.simps [of n m i] split: if_splits option.splits)
  with 1 show ?case
    by (cases "a = i") (auto dest: scan_word_None)
qed

lemma scan_bitmap_used:
  assumes "scan_bitmap n m 0 = Some (i, j)"
  shows "32 * i + j < 32 * n" and "32 * i + j \<notin> used_slots n m"
    and "\<forall>k < 32 * i + j. k \<in> used_slots n m"
proof -
  note s = scan_bitmap_Some [OF assms]
  then show *: "32 * i + j < 32 * n" by linarith
  from s show "32 * i + j \<notin> used_slots n m" by (simp add: used_slots_def)
  show "\<forall>k < 32 * i + j. k \<in> used_slots n m"
  proof (intro allI impI)
    fix k assume k: "k < 32 * i + j"
    have "bit (m (k div 32)) (k mod 32)"
    proof (cases "k div 32 = i")
      case True
      then have "k mod 32 < j" using k by (metis add_less_cancel_left mult_div_mod_eq)
      with True s show ?thesis by simp
    next
      case False
      then have "k div 32 < i" using k s by linarith
      with s show ?thesis by simp
    qed
    with k * show "k \<in> used_slots n m" by (simp add: used_slots_def)
  qed
qed

lemma scan_bitmap_full: "scan_bitmap n m 0 = None \<longleftrightarrow> used_slots n m = {..<32 * n}"
proof
  assume h: "scan_bitmap n m 0 = None"
  have "bit (m (k div 32)) (k mod 32)" if "k < 32 * n" for k
    using scan_bitmap_None [OF h, of "k div 32" "k mod 32"] that by (simp add: div_less_iff_less_mult)
  then show "used_slots n m = {..<32 * n}" by (auto simp: used_slots_def)
next
  assume h: "used_slots n m = {..<32 * n}"
  show "scan_bitmap n m 0 = None"
  proof (rule ccontr)
    assume "scan_bitmap n m 0 \<noteq> None"
    then obtain i j where "scan_bitmap n m 0 = Some (i, j)" by auto
    from scan_bitmap_used [OF this] h show False by auto
  qed
qed

lemma slot_div_mod: "j < 32 \<Longrightarrow> k div 32 = i \<and> k mod 32 = j \<longleftrightarrow> k = 32 * i + j" for k :: nat
  by auto

lemma used_slots_set:
  assumes "j < 32" and "32 * i + j < 32 * n"
  shows "used_slots n (bitmap_set i j m) = insert (32 * i + j) (used_slots n m)"
proof (rule set_eqI)
  fix k :: nat
  have "k mod 32 < 32" by simp
  then show "k \<in> used_slots n (bitmap_set i j m) \<longleftrightarrow> k \<in> insert (32 * i + j) (used_slots n m)"
    using assms slot_div_mod [of j k i]
    by (auto simp: used_slots_def bitmap_set_def bit_simps bit_1_iff)
qed

lemma used_slots_clear:
  assumes "j < 32"
  shows "used_slots n (bitmap_clear i j m) = used_slots n m - {32 * i + j}"
proof (rule set_eqI)
  fix k :: nat
  have "k mod 32 < 32" by simp
  then show "k \<in> used_slots n (bitmap_clear i j m) \<longleftrightarrow> k \<in> used_slots n m - {32 * i + j}"
    using assms slot_div_mod [of j k i]
    by (auto simp: used_slots_def bitmap_clear_def bit_simps bit_1_iff)
qed

lemma used_slots_bound: "used_slots n m \<subseteq> {..<32 * n}"
  by (auto simp: used_slots_def)

end
