(* ===== verification/Interfaces.thy ===== *)
theory Interfaces
  imports Emu_Prelude
begin

text \<open>
  The interfaces that several components of the emulator and of its load generator share.
  \<^item> \<open>fifo\<close>: a queue with a list abstraction. Providers are the ring buffers of
    \<^verbatim>\<open>ftl/ftl_taskqueue.c\<close>, the index-linked lists of
    \<^verbatim>\<open>emu/fe/shmem.h\<close>, the pointer-linked lists of \<^verbatim>\<open>lib/list.c\<close>
    as the back end uses them, and the ring of units of \<^verbatim>\<open>fio4emu/io_u_queue.h\<close>.
  \<^item> \<open>slot_pool\<close>: a fixed number of slots with a used/free bit each. Providers are the
    host command table (\<^verbatim>\<open>hcl/hcl.c\<close>) and the submission-queue bitmaps
    (\<^verbatim>\<open>fcl/fcl.c\<close>).
  \<^item> \<open>block_map\<close>: the set of blocks that a random job has used. The provider is the layered
    bitmap of \<^verbatim>\<open>fio4emu/lib/axmap.c\<close>, the client
    \<^verbatim>\<open>fio4emu/io_u.c\<close>.
\<close>

section \<open>Queues\<close>

locale fifo =
  fixes repr :: "'s \<Rightarrow> 'a list \<Rightarrow> bool"
    and enq :: "'a \<Rightarrow> 's \<Rightarrow> 's option"
    and deq :: "'s \<Rightarrow> ('a \<times> 's) option"
    and admits :: "'a \<Rightarrow> 'a list \<Rightarrow> bool"
  assumes enq_repr: "repr s xs \<Longrightarrow> admits x xs \<Longrightarrow> \<exists>s'. enq x s = Some s' \<and> repr s' (xs @ [x])"
    and deq_repr: "repr s (x # xs) \<Longrightarrow> \<exists>s'. deq s = Some (x, s') \<and> repr s' xs"
    and deq_empty: "repr s [] \<Longrightarrow> deq s = None"
begin

primrec enq_all :: "'a list \<Rightarrow> 's \<Rightarrow> 's option" where
  "enq_all [] s = Some s"
| "enq_all (x # xs) s = (case enq x s of None \<Rightarrow> None | Some s' \<Rightarrow> enq_all xs s')"

primrec deq_n :: "nat \<Rightarrow> 's \<Rightarrow> ('a list \<times> 's) option" where
  "deq_n 0 s = Some ([], s)"
| "deq_n (Suc n) s = (case deq s of None \<Rightarrow> None | Some (x, s') \<Rightarrow>
     (case deq_n n s' of None \<Rightarrow> None | Some (xs, s'') \<Rightarrow> Some (x # xs, s'')))"

primrec admits_all :: "'a list \<Rightarrow> 'a list \<Rightarrow> bool" where
  "admits_all [] xs \<longleftrightarrow> True"
| "admits_all (y # ys) xs \<longleftrightarrow> admits y xs \<and> admits_all ys (xs @ [y])"

lemma enq_all_repr:
  "repr s xs \<Longrightarrow> admits_all ys xs \<Longrightarrow> \<exists>s'. enq_all ys s = Some s' \<and> repr s' (xs @ ys)"
proof (induction ys arbitrary: s xs)
  case Nil
  then show ?case by simp
next
  case (Cons y ys)
  then obtain s1 where "enq y s = Some s1" "repr s1 (xs @ [y])"
    using enq_repr by fastforce
  with Cons show ?case by fastforce
qed

lemma deq_n_repr: "repr s (ys @ zs) \<Longrightarrow> \<exists>s'. deq_n (length ys) s = Some (ys, s') \<and> repr s' zs"
proof (induction ys arbitrary: s)
  case Nil
  then show ?case by simp
next
  case (Cons y ys)
  then obtain s1 where "deq s = Some (y, s1)" "repr s1 (ys @ zs)"
    using deq_repr by fastforce
  with Cons.IH [of s1] show ?case by fastforce
qed

text \<open>Elements come out in the order they went in, after the ones already queued.\<close>

lemma fifo_order:
  assumes "repr s xs" and "admits_all ys xs"
  shows "\<exists>s1 s2. enq_all ys s = Some s1 \<and> deq_n (length xs + length ys) s1 = Some (xs @ ys, s2) \<and>
    repr s2 []"
proof -
  obtain s1 where s1: "enq_all ys s = Some s1" "repr s1 (xs @ ys)"
    using enq_all_repr [OF assms] by blast
  then obtain s2 where "deq_n (length (xs @ ys)) s1 = Some (xs @ ys, s2)" "repr s2 []"
    using deq_n_repr [of s1 "xs @ ys" "[]"] by auto
  with s1 show ?thesis by simp
qed

end

section \<open>Pools of slots\<close>

locale slot_pool =
  fixes alloc :: "'s \<Rightarrow> nat option \<times> 's"
    and release :: "nat \<Rightarrow> 's \<Rightarrow> 's"
    and used :: "'s \<Rightarrow> nat set"
    and cap :: nat
  assumes used_bound: "used s \<subseteq> {..<cap}"
    and alloc_Some: "alloc s = (Some k, s') \<Longrightarrow>
      k < cap \<and> k \<notin> used s \<and> (\<forall>j<k. j \<in> used s) \<and> used s' = insert k (used s)"
    and alloc_None: "alloc s = (None, s') \<Longrightarrow> used s = {..<cap} \<and> used s' = used s"
    and release_used: "k < cap \<Longrightarrow> used (release k s) = used s - {k}"
begin

primrec alloc_n :: "nat \<Rightarrow> 's \<Rightarrow> nat list option \<times> 's" where
  "alloc_n 0 s = (Some [], s)"
| "alloc_n (Suc n) s = (case alloc s of
     (None, s') \<Rightarrow> (None, s')
   | (Some k, s') \<Rightarrow> (case alloc_n n s' of (None, s'') \<Rightarrow> (None, s'') | (Some ks, s'') \<Rightarrow> (Some (k # ks), s'')))"

lemma finite_used: "finite (used s)"
  by (rule finite_subset [OF used_bound]) simp

lemma alloc_fails_iff: "fst (alloc s) = None \<longleftrightarrow> used s = {..<cap}"
proof (cases "alloc s")
  case (Pair r s')
  then show ?thesis using alloc_Some [of s] alloc_None [of s s'] by (cases r) auto
qed

lemma alloc_available:
  assumes "used s \<noteq> {..<cap}"
  obtains k s' where "alloc s = (Some k, s')"
  using assms alloc_fails_iff [of s] by (cases "alloc s") auto

lemma alloc_n_distinct:
  "alloc_n n s = (Some ks, s') \<Longrightarrow>
     length ks = n \<and> distinct ks \<and> set ks \<inter> used s = {} \<and> used s' = set ks \<union> used s"
proof (induction n arbitrary: s ks)
  case 0
  then show ?case by simp
next
  case (Suc n)
  then obtain k s1 ks1 where a: "alloc s = (Some k, s1)" "alloc_n n s1 = (Some ks1, s')" "ks = k # ks1"
    by (auto split: prod.splits option.splits)
  with Suc.IH [OF a(2)] alloc_Some [OF a(1)] show ?case by auto
qed

lemma alloc_n_succeeds:
  "card (used s) + n \<le> cap \<Longrightarrow> fst (alloc_n n s) \<noteq> None"
proof (induction n arbitrary: s)
  case 0
  then show ?case by simp
next
  case (Suc n)
  have "used s \<noteq> {..<cap}"
  proof
    assume "used s = {..<cap}"
    then have "card (used s) = cap" by simp
    with Suc.prems show False by simp
  qed
  then obtain k s1 where a: "alloc s = (Some k, s1)" by (rule alloc_available)
  then have "card (used s1) = Suc (card (used s))"
    using alloc_Some [OF a] finite_used [of s] by (simp add: card_insert_disjoint)
  with Suc.prems have "card (used s1) + n \<le> cap" by simp
  then have "fst (alloc_n n s1) \<noteq> None" by (rule Suc.IH)
  with a show ?case by (auto split: prod.splits option.splits)
qed

lemma release_alloc: "alloc s = (Some k, s') \<Longrightarrow> used (release k s') = used s"
  using alloc_Some [of s k s'] release_used [of k s'] by auto

lemma alloc_after_release:
  assumes "k \<in> used s"
  shows "fst (alloc (release k s)) \<noteq> None"
proof -
  have "k < cap" using assms used_bound by auto
  then have "used (release k s) \<noteq> {..<cap}" using release_used by auto
  then show ?thesis using alloc_fails_iff by blast
qed

end

section \<open>Maps of used blocks\<close>

locale block_map =
  fixes ok :: "'s \<Rightarrow> bool"
    and blocks :: "'s \<Rightarrow> nat"
    and used :: "'s \<Rightarrow> nat set"
    and isset :: "'s \<Rightarrow> nat \<Rightarrow> bool option"
    and mark :: "nat \<Rightarrow> 's \<Rightarrow> 's option"
    and next_free :: "'s \<Rightarrow> nat \<Rightarrow> nat option option"
  assumes used_blocks: "ok s \<Longrightarrow> used s \<subseteq> {..<blocks s}"
    and isset_used: "ok s \<Longrightarrow> j < blocks s \<Longrightarrow> isset s j = Some (j \<in> used s)"
    and mark_used: "ok s \<Longrightarrow> j < blocks s \<Longrightarrow> j \<notin> used s \<Longrightarrow>
      \<exists>s'. mark j s = Some s' \<and> ok s' \<and> blocks s' = blocks s \<and> used s' = insert j (used s)"
    and next_free_Some: "ok s \<Longrightarrow> j < blocks s \<Longrightarrow> used s \<noteq> {..<blocks s} \<Longrightarrow>
      \<exists>k. next_free s j = Some (Some k) \<and> k < blocks s \<and> k \<notin> used s"
    and next_free_None: "ok s \<Longrightarrow> j < blocks s \<Longrightarrow> used s = {..<blocks s} \<Longrightarrow> next_free s j = Some None"
begin

text \<open>A job draws a block; if it is used, it takes the next free one, and marks what it got.\<close>

definition pick :: "'s \<Rightarrow> nat \<Rightarrow> nat option option" where
  "pick s j = do { b \<leftarrow> isset s j; if b then next_free s j else Some (Some j) }"

primrec picks :: "nat list \<Rightarrow> 's \<Rightarrow> (nat list \<times> 's) option" where
  "picks [] s = Some ([], s)"
| "picks (j # js) s = do {
     r \<leftarrow> pick s j;
     case r of
       None \<Rightarrow> Some ([], s)
     | Some k \<Rightarrow> do { s1 \<leftarrow> mark k s; (ks, s2) \<leftarrow> picks js s1; Some (k # ks, s2) }
   }"

lemma pick_full: "ok s \<Longrightarrow> j < blocks s \<Longrightarrow> used s = {..<blocks s} \<Longrightarrow> pick s j = Some None"
  using isset_used [of s j] next_free_None [of s j] by (simp add: pick_def)

lemma pick_free:
  assumes "ok s" and "j < blocks s" and "used s \<noteq> {..<blocks s}"
  shows "\<exists>k. pick s j = Some (Some k) \<and> k < blocks s \<and> k \<notin> used s"
  using isset_used [OF assms(1,2)] next_free_Some [OF assms] assms(2) by (cases "j \<in> used s") (auto simp: pick_def)

text \<open>No block is picked twice, and the picks go on until every block is used.\<close>

lemma picks_cover:
  "ok s \<Longrightarrow> \<forall>j \<in> set js. j < blocks s \<Longrightarrow>
     \<exists>ks s'. picks js s = Some (ks, s') \<and> ok s' \<and> blocks s' = blocks s \<and> distinct ks \<and> set ks \<inter> used s = {} \<and>
       used s' = used s \<union> set ks \<and> length ks = min (length js) (card ({..<blocks s} - used s))"
proof (induction js arbitrary: s)
  case Nil
  then show ?case by simp
next
  case (Cons j js)
  have j: "j < blocks s" using Cons.prems(2) by simp
  show ?case
  proof (cases "used s = {..<blocks s}")
    case True
    then show ?thesis using pick_full [OF Cons.prems(1) j] Cons.prems(1) by simp
  next
    case False
    obtain k where k: "pick s j = Some (Some k)" "k < blocks s" "k \<notin> used s" using pick_free [OF Cons.prems(1) j False] by blast
    obtain s1 where s1: "mark k s = Some s1" "ok s1" "blocks s1 = blocks s" "used s1 = insert k (used s)"
      using mark_used [OF Cons.prems(1) k(2,3)] by blast
    obtain ks s2 where r: "picks js s1 = Some (ks, s2)" "ok s2" "blocks s2 = blocks s1" "distinct ks" "set ks \<inter> used s1 = {}"
      "used s2 = used s1 \<union> set ks" "length ks = min (length js) (card ({..<blocks s1} - used s1))"
      using Cons.IH [OF s1(2)] Cons.prems(2) s1(3) by auto
    have "{..<blocks s} - used s = insert k ({..<blocks s1} - used s1)" using k s1(3,4) by auto
    then have "card ({..<blocks s} - used s) = Suc (card ({..<blocks s1} - used s1))" using s1(4) by simp
    then show ?thesis using k(1,3) s1 r by (intro exI [of _ "k # ks"] exI [of _ s2]) auto
  qed
qed

end

end
