(* ===== verification/HCL.thy ===== *)
theory HCL
  imports Emu_Config Slot_Bitmap Interfaces
begin

text \<open>
  The host command layer, \<^verbatim>\<open>hcl/hcl.h\<close> and \<^verbatim>\<open>hcl/hcl.c\<close>: a table of
  256 command entries and a bitmap that says which are in use. A pointer to an entry is its index
  in the table (\<open>None\<close> is NULL); its numeric value, which the sources compute with, is
  \<open>hcmd_addr\<close>.

  Shown here: the table is a slot pool (every allocation is the lowest free entry, an entry is
  never handed out twice, reclaiming makes it available again), the entry number of a pointer is
  the index it was made from, and reclaiming clears exactly one entry.
\<close>

section \<open>Data\<close>

definition HCMD_NUM :: nat where "HCMD_NUM = 256"

declare HCMD_NUM_def [const_defs]

text \<open>
  \<^verbatim>\<open>hcmd_opcode\<close>: a zeroed entry holds 0, which is none of the three enumerators, so the
  code is kept as its number.
\<close>

definition HCE_READ :: u32 where "HCE_READ = 1"
definition HCE_WRITE :: u32 where "HCE_WRITE = 2"
definition HCE_ERASE :: u32 where "HCE_ERASE = 3"

lemmas opcode_defs [const_defs] = HCE_READ_def HCE_WRITE_def HCE_ERASE_def

lemma opcodes_distinct [simp]:
  "HCE_READ \<noteq> HCE_WRITE" "HCE_WRITE \<noteq> HCE_READ" "HCE_READ \<noteq> HCE_ERASE" "HCE_ERASE \<noteq> HCE_READ"
  "HCE_WRITE \<noteq> HCE_ERASE" "HCE_ERASE \<noteq> HCE_WRITE" "HCE_READ \<noteq> 0" "HCE_WRITE \<noteq> 0"
  by (simp_all add: opcode_defs)

datatype host_cmd_entry_status =
    HCE_CHECK_CACHE | HCE_TO_SQ | HCE_DATAMOVED | HCE_FROM_CQ | HCE_FINISH | HCE_WAIT_CQ | HCE_INIT

primrec status_num :: "host_cmd_entry_status \<Rightarrow> nat" where
  "status_num HCE_CHECK_CACHE = 0"
| "status_num HCE_TO_SQ = 1"
| "status_num HCE_DATAMOVED = 2"
| "status_num HCE_FROM_CQ = 3"
| "status_num HCE_FINISH = 4"
| "status_num HCE_WAIT_CQ = 5"
| "status_num HCE_INIT = 6"

lemma status_num_inj [simp]: "status_num a = status_num b \<longleftrightarrow> a = b"
  by (cases a; cases b) simp_all

text \<open>The sources compare status values as numbers.\<close>

instantiation host_cmd_entry_status :: linorder
begin

definition less_eq_host_cmd_entry_status :: "host_cmd_entry_status \<Rightarrow> host_cmd_entry_status \<Rightarrow> bool" where
  "less_eq_host_cmd_entry_status a b \<longleftrightarrow> status_num a \<le> status_num b"

definition less_host_cmd_entry_status :: "host_cmd_entry_status \<Rightarrow> host_cmd_entry_status \<Rightarrow> bool" where
  "less_host_cmd_entry_status a b \<longleftrightarrow> status_num a < status_num b"

instance
  by standard (auto simp: less_eq_host_cmd_entry_status_def less_host_cmd_entry_status_def)

end

lemmas status_order = less_eq_host_cmd_entry_status_def less_host_cmd_entry_status_def

record host_cmd_entry =
  nvme_start_lba :: u32
  nvme_req_num :: u32
  start_lpa :: u32
  cur_lpn :: u32
  mod_start_LA :: u16
  mod_req_num :: u16
  start_unalign_sqindex :: u16
  end_unalign_sqindex :: u16
  req_num :: u32
  cur_cnt :: u32
  cpl_cnt :: u32
  send_sq_cnt :: u32
  buf_cnt :: u32
  nvme_dma_cpl :: u32
  nvme_cmd_slot :: u32
  op_code :: u32
  status :: host_cmd_entry_status
  emu_id :: u32

text \<open>An entry after \<^verbatim>\<open>memset(e, 0, sizeof(host_cmd_entry))\<close>; the structure is 64
  bytes on the 32-bit target.\<close>

definition zero_hcmd :: host_cmd_entry where
  "zero_hcmd = \<lparr>nvme_start_lba = 0, nvme_req_num = 0, start_lpa = 0, cur_lpn = 0,
     mod_start_LA = 0, mod_req_num = 0, start_unalign_sqindex = 0, end_unalign_sqindex = 0,
     req_num = 0, cur_cnt = 0, cpl_cnt = 0, send_sq_cnt = 0, buf_cnt = 0, nvme_dma_cpl = 0,
     nvme_cmd_slot = 0, op_code = 0, status = HCE_CHECK_CACHE, emu_id = 0\<rparr>"

definition sizeof_host_cmd_entry :: u32 where "sizeof_host_cmd_entry = 64"

type_synonym hcmd_ptr = "nat ptr"

record hcl_state =
  hcmd_base :: u32
  hcmd_queue :: "nat \<Rightarrow> host_cmd_entry"
  hcmd_map :: bitmap

section \<open>Operations\<close>

definition HCL_init_host_cmd_entry_queue :: "u32 \<Rightarrow> u32 \<times> hcl_state" where
  "HCL_init_host_cmd_entry_queue mem_base =
     (SUCCESS, \<lparr>hcmd_base = HCMD_BASE_ADDR mem_base, hcmd_queue = (\<lambda>_. zero_hcmd), hcmd_map = (\<lambda>_. 0)\<rparr>)"

definition HCL_hcmd_queue_empty :: "hcl_state \<Rightarrow> bool" where
  "HCL_hcmd_queue_empty s \<longleftrightarrow>
     (case scan_bitmap (HCMD_NUM div 32) (hcmd_map s) 0 of Some _ \<Rightarrow> False | None \<Rightarrow> True)"

definition HCL_get_host_cmd_entry :: "hcl_state \<Rightarrow> hcmd_ptr \<times> hcl_state" where
  "HCL_get_host_cmd_entry s =
     (let (index, m) =
        (case scan_bitmap (HCMD_NUM div 32) (hcmd_map s) 0 of
           Some (i, j) \<Rightarrow> (of_nat (i * 32 + j), bitmap_set i j (hcmd_map s))
         | None \<Rightarrow> (- 1 :: u32, hcmd_map s))
      in if index \<noteq> - 1 \<or> index < of_nat HCMD_NUM
         then (Some (unat index), s\<lparr>hcmd_map := m\<rparr>)
         else (NULL, s\<lparr>hcmd_map := m\<rparr>))"

definition hcmd_addr :: "hcl_state \<Rightarrow> hcmd_ptr \<Rightarrow> u32" where
  "hcmd_addr s p = (case p of None \<Rightarrow> 0 | Some i \<Rightarrow> hcmd_base s + sizeof_host_cmd_entry * of_nat i)"

definition HCL_get_hcmd_entry_index :: "hcl_state \<Rightarrow> hcmd_ptr \<Rightarrow> u32" where
  "HCL_get_hcmd_entry_index s p = (hcmd_addr s p - hcmd_base s) div sizeof_host_cmd_entry"

definition HCL_get_hcmd_entry_addr :: "u32 \<Rightarrow> hcmd_ptr" where
  "HCL_get_hcmd_entry_addr hcmd_id = Some (unat hcmd_id)"

text \<open>Reading and writing through an entry pointer; NULL and pointers past the table fail.\<close>

definition hcmd_read :: "hcmd_ptr \<Rightarrow> hcl_state \<Rightarrow> host_cmd_entry option" where
  "hcmd_read p s = (case p of None \<Rightarrow> None | Some i \<Rightarrow> if i < HCMD_NUM then Some (hcmd_queue s i) else None)"

definition hcmd_update ::
  "hcmd_ptr \<Rightarrow> (host_cmd_entry \<Rightarrow> host_cmd_entry) \<Rightarrow> hcl_state \<Rightarrow> hcl_state option" where
  "hcmd_update p f s = (case p of
     None \<Rightarrow> None
   | Some i \<Rightarrow> if i < HCMD_NUM then Some (s\<lparr>hcmd_queue := (hcmd_queue s)(i := f (hcmd_queue s i))\<rparr>)
              else None)"

definition HCL_reclaim_hcmd_entry :: "hcmd_ptr \<Rightarrow> hcl_state \<Rightarrow> (u32 \<times> hcl_state) option" where
  "HCL_reclaim_hcmd_entry p s =
     (let index = (hcmd_addr s p - hcmd_base s) div sizeof_host_cmd_entry;
          i = index div 32;
          j = index mod 32
      in do {
        s' \<leftarrow> hcmd_update p (\<lambda>_. zero_hcmd) (s\<lparr>hcmd_map := bitmap_clear (unat i) (unat j) (hcmd_map s)\<rparr>);
        Some (SUCCESS, s')
      })"

text \<open>\<^verbatim>\<open>HCL_set_host_cmd_entry\<close> has an empty body in the configured mode.\<close>

definition HCL_set_host_cmd_entry :: "hcl_state \<Rightarrow> u32 \<times> hcl_state" where
  "HCL_set_host_cmd_entry s = (SUCCESS, s)"

definition hcmd_used :: "hcl_state \<Rightarrow> nat set" where
  "hcmd_used s = used_slots (HCMD_NUM div 32) (hcmd_map s)"

section \<open>Lemmas\<close>

lemma HCMD_NUM_div [simp]: "HCMD_NUM div 32 = 8"
  by (simp add: HCMD_NUM_def)

lemma hcmd_index_of_pointer:
  assumes "i < HCMD_NUM"
  shows "HCL_get_hcmd_entry_index s (Some i) = of_nat i"
proof -
  have i: "unat (of_nat i :: u32) = i" using assms by (intro unat_of_nat_u32) (simp add: HCMD_NUM_def)
  have "unat (64 * of_nat i :: u32) = 64 * i"
    using assms i by (simp add: unat_word_ariths HCMD_NUM_def)
  then have "unat ((64 * of_nat i :: u32) div 64) = i" by (simp add: unat_div)
  then show ?thesis
    using i by (simp add: HCL_get_hcmd_entry_index_def hcmd_addr_def sizeof_host_cmd_entry_def
        word_unat_eq_iff)
qed

lemma hcmd_used_bound: "hcmd_used s \<subseteq> {..<HCMD_NUM}"
  using used_slots_bound [of 8 "hcmd_map s"] by (simp add: hcmd_used_def HCMD_NUM_def)

lemma HCL_get_Some:
  assumes "HCL_get_host_cmd_entry s = (Some k, s')"
  shows "k < HCMD_NUM" and "k \<notin> hcmd_used s" and "\<forall>j<k. j \<in> hcmd_used s"
    and "hcmd_used s' = insert k (hcmd_used s)" and "hcmd_queue s' = hcmd_queue s"
    and "hcmd_base s' = hcmd_base s"
proof -
  obtain i j where sc: "scan_bitmap 8 (hcmd_map s) 0 = Some (i, j)"
    and k: "k = unat (of_nat (i * 32 + j) :: u32)" and s': "s' = s\<lparr>hcmd_map := bitmap_set i j (hcmd_map s)\<rparr>"
    using assms by (auto simp: HCL_get_host_cmd_entry_def HCMD_NUM_def split: option.splits if_splits)
  note u = scan_bitmap_used [OF sc]
  have "unat (of_nat (i * 32 + j) :: u32) = i * 32 + j"
    by (rule unat_of_nat_u32) (use u(1) in simp)
  then have k': "k = 32 * i + j" using k by simp
  from scan_bitmap_Some [OF sc] have "j < 32" by simp
  then have "used_slots 8 (bitmap_set i j (hcmd_map s)) = insert k (used_slots 8 (hcmd_map s))"
    using u(1) by (simp add: used_slots_set k')
  then show "k < HCMD_NUM" "k \<notin> hcmd_used s" "\<forall>j<k. j \<in> hcmd_used s"
    "hcmd_used s' = insert k (hcmd_used s)" "hcmd_queue s' = hcmd_queue s"
    "hcmd_base s' = hcmd_base s"
    using u k' s' by (auto simp: hcmd_used_def HCMD_NUM_def)
qed

lemma HCL_get_None:
  assumes "HCL_get_host_cmd_entry s = (None, s')"
  shows "hcmd_used s = {..<HCMD_NUM}" and "s' = s"
proof -
  have "scan_bitmap 8 (hcmd_map s) 0 = None"
  proof (rule ccontr)
    assume "scan_bitmap 8 (hcmd_map s) 0 \<noteq> None"
    then obtain i j where sc: "scan_bitmap 8 (hcmd_map s) 0 = Some (i, j)" by auto
    from scan_bitmap_used(1) [OF sc] have "i * 32 + j < 256" by simp
    then have "unat (of_nat (i * 32 + j) :: u32) < 256"
      by (subst unat_of_nat_u32) simp_all
    then have "(of_nat (i * 32 + j) :: u32) < 256" by (simp only: word_less_nat_alt) simp
    with sc assms show False by (simp add: HCL_get_host_cmd_entry_def HCMD_NUM_def split: if_splits)
  qed
  then show "s' = s" using assms by (simp add: HCL_get_host_cmd_entry_def HCMD_NUM_def)
  show "hcmd_used s = {..<HCMD_NUM}"
    using \<open>scan_bitmap 8 (hcmd_map s) 0 = None\<close> by (simp add: hcmd_used_def scan_bitmap_full HCMD_NUM_def)
qed

lemma HCL_reclaim_valid:
  assumes "k < HCMD_NUM"
  shows "\<exists>s'. HCL_reclaim_hcmd_entry (Some k) s = Some (SUCCESS, s') \<and>
    hcmd_used s' = hcmd_used s - {k} \<and> hcmd_queue s' = (hcmd_queue s)(k := zero_hcmd) \<and>
    hcmd_base s' = hcmd_base s"
proof -
  have k: "unat (of_nat k :: u32) = k" using assms by (intro unat_of_nat_u32) (simp add: HCMD_NUM_def)
  have "(hcmd_addr s (Some k) - hcmd_base s) div sizeof_host_cmd_entry = of_nat k"
    using hcmd_index_of_pointer [OF assms] by (simp add: HCL_get_hcmd_entry_index_def)
  moreover have "used_slots 8 (bitmap_clear (k div 32) (k mod 32) m) = used_slots 8 m - {k}" for m
    using used_slots_clear [of "k mod 32" 8 "k div 32" m] by simp
  ultimately show ?thesis
    using assms k by (simp add: HCL_reclaim_hcmd_entry_def hcmd_update_def unat_div unat_mod hcmd_used_def)
qed

definition hcmd_release :: "nat \<Rightarrow> hcl_state \<Rightarrow> hcl_state" where
  "hcmd_release k s = (case HCL_reclaim_hcmd_entry (Some k) s of None \<Rightarrow> s | Some (_, s') \<Rightarrow> s')"

interpretation hcmd_pool: slot_pool HCL_get_host_cmd_entry hcmd_release hcmd_used HCMD_NUM
proof unfold_locales
  show "hcmd_used s \<subseteq> {..<HCMD_NUM}" for s by (rule hcmd_used_bound)
  show "k < HCMD_NUM \<and> k \<notin> hcmd_used s \<and> (\<forall>j<k. j \<in> hcmd_used s) \<and> hcmd_used s' = insert k (hcmd_used s)"
    if "HCL_get_host_cmd_entry s = (Some k, s')" for s k s'
    using HCL_get_Some [OF that] by blast
  show "hcmd_used s = {..<HCMD_NUM} \<and> hcmd_used s' = hcmd_used s"
    if "HCL_get_host_cmd_entry s = (None, s')" for s s'
    using HCL_get_None [OF that] by simp
  show "hcmd_used (hcmd_release k s) = hcmd_used s - {k}" if "k < HCMD_NUM" for k s
  proof -
    obtain s' where "HCL_reclaim_hcmd_entry (Some k) s = Some (SUCCESS, s')" "hcmd_used s' = hcmd_used s - {k}"
      using HCL_reclaim_valid [OF \<open>k < HCMD_NUM\<close>] by blast
    then show ?thesis by (simp add: hcmd_release_def)
  qed
qed

lemma hcmd_update_used: "hcmd_update p f s = Some s' \<Longrightarrow> hcmd_used s' = hcmd_used s"
  by (cases p) (auto simp: hcmd_update_def hcmd_used_def simp del: HCMD_NUM_div split: if_splits)

lemma hcmd_queue_empty_iff: "HCL_hcmd_queue_empty s \<longleftrightarrow> hcmd_used s = {..<HCMD_NUM}"
  using scan_bitmap_full [of 8 "hcmd_map s"]
  by (cases "scan_bitmap 8 (hcmd_map s) 0")
    (simp_all add: HCL_hcmd_queue_empty_def hcmd_used_def HCMD_NUM_def)

lemma hcmd_some_free: "{} \<noteq> {..<HCMD_NUM}"
proof -
  have "0 \<in> {..<HCMD_NUM}" by (simp add: HCMD_NUM_def)
  then show ?thesis by blast
qed

section \<open>Properties\<close>



text \<open>
  The entries never run out early and are never handed out twice. \<open>n\<close> allocations in a row
  succeed whenever \<open>n\<close> entries are free, with \<open>n\<close> different entries, none of
  them in use before.
\<close>

theorem hcmd_allocations:
  assumes "card (hcmd_used s) + n \<le> HCMD_NUM"
  shows "\<exists>ks s'. hcmd_pool.alloc_n n s = (Some ks, s') \<and> length ks = n \<and> distinct ks \<and>
    set ks \<inter> hcmd_used s = {} \<and> hcmd_used s' = set ks \<union> hcmd_used s"
proof -
  obtain ks s' where a: "hcmd_pool.alloc_n n s = (Some ks, s')"
    using hcmd_pool.alloc_n_succeeds [OF assms] by (cases "hcmd_pool.alloc_n n s") auto
  from hcmd_pool.alloc_n_distinct [OF a] a show ?thesis by blast
qed

theorem hcmd_allocations_witness:
  "\<exists>ks s'. hcmd_pool.alloc_n 256 (snd (HCL_init_host_cmd_entry_queue 0x4000)) = (Some ks, s') \<and> length ks = 256 \<and> distinct ks"
proof -
  have "hcmd_used (snd (HCL_init_host_cmd_entry_queue 0x4000)) = {}"
    by (simp add: HCL_init_host_cmd_entry_queue_def hcmd_used_def used_slots_def)
  then show ?thesis using hcmd_allocations [of "snd (HCL_init_host_cmd_entry_queue 0x4000)" 256] by (auto simp: HCMD_NUM_def)
qed

end
