(* ===== verification/Task_Queue.thy ===== *)
theory Task_Queue
  imports HCL
begin

text \<open>
  The task queues of \<^verbatim>\<open>ftl/ftl_taskqueue.h\<close> and
  \<^verbatim>\<open>ftl/ftl_taskqueue.c\<close>: one ring buffer of 256 entry pointers per command
  status, with 8-bit head and tail and a 16-bit count. The polling loop over the queues, which
  calls the status handlers, is in the theory of the FTL.

  Shown here: a ring with its count represents a list, adding appends to it and removing takes
  its first element (wrap-around of the 8-bit indices included), a full queue refuses and an
  empty one returns NULL without changing, and each queue is independent of the others.
\<close>

section \<open>Data and operations\<close>

definition TASK_QUEUE_MAX :: nat where "TASK_QUEUE_MAX = 256"

record ftl_task_queue_entry =
  tq_head :: u8
  tq_tail :: u8
  tq_cnt :: u16
  tq_queue :: "u8 \<Rightarrow> hcmd_ptr"
  tq_status :: host_cmd_entry_status

type_synonym task_queues = "host_cmd_entry_status \<Rightarrow> ftl_task_queue_entry"

text \<open>
  \<^verbatim>\<open>FTL_int_task_queue\<close> sets up the six queues below \<^verbatim>\<open>HCE_INIT\<close>;
  the memory after them is not touched, and stays whatever it was.
\<close>

definition FTL_int_task_queue :: "task_queues \<Rightarrow> task_queues" where
  "FTL_int_task_queue tq =
     (\<lambda>i. if i < HCE_INIT
          then \<lparr>tq_head = 0, tq_tail = 0, tq_cnt = 0, tq_queue = (\<lambda>_. NULL), tq_status = i\<rparr>
          else tq i)"

definition FTL_task_queue_is_empty :: "host_cmd_entry_status \<Rightarrow> task_queues \<Rightarrow> bool" where
  "FTL_task_queue_is_empty st tq \<longleftrightarrow> tq_cnt (tq st) = 0"

definition FTL_task_queue_is_full :: "host_cmd_entry_status \<Rightarrow> task_queues \<Rightarrow> bool" where
  "FTL_task_queue_is_full st tq \<longleftrightarrow> tq_cnt (tq st) = of_nat TASK_QUEUE_MAX"

text \<open>\<^verbatim>\<open>(x + 1) % TASK_QUEUE_MAX\<close>, computed on the promoted value and stored in a
  \<^verbatim>\<open>u8\<close>\<close>

definition ring_next :: "u8 \<Rightarrow> u8" where
  "ring_next x = of_nat ((unat x + 1) mod TASK_QUEUE_MAX)"

definition FTL_task_queue_remove_head ::
  "host_cmd_entry_status \<Rightarrow> task_queues \<Rightarrow> hcmd_ptr \<times> task_queues" where
  "FTL_task_queue_remove_head st tq =
     (if \<not> FTL_task_queue_is_empty st tq then
        let q = tq st; old_head = tq_head q
        in (tq_queue q old_head, tq(st := q\<lparr>tq_cnt := tq_cnt q - 1, tq_head := ring_next old_head\<rparr>))
      else (NULL, tq))"

definition FTL_task_queue_add_tail ::
  "hcmd_ptr \<Rightarrow> host_cmd_entry_status \<Rightarrow> task_queues \<Rightarrow> u32 \<times> task_queues" where
  "FTL_task_queue_add_tail hcmd_entry st tq =
     (if \<not> FTL_task_queue_is_full st tq then
        let q = tq st; old_tail = tq_tail q
        in (SUCCESS, tq(st := q\<lparr>tq_cnt := tq_cnt q + 1, tq_tail := ring_next old_tail,
              tq_queue := (tq_queue q)(old_tail := hcmd_entry)\<rparr>))
      else (FAIL, tq))"

definition FTL_get_taskqueue_cnt :: "host_cmd_entry_status \<Rightarrow> task_queues \<Rightarrow> u32" where
  "FTL_get_taskqueue_cnt st tq = ucast (tq_cnt (tq st))"

text \<open>
  \<^verbatim>\<open>FTL_sendhcmd\<close> reads the old status of the entry (so the pointer must be valid) and
  has no return statement for \<^verbatim>\<open>HCE_INIT\<close>: that call returns no value.
\<close>

definition FTL_sendhcmd ::
  "hcl_state \<Rightarrow> hcmd_ptr \<Rightarrow> host_cmd_entry_status \<Rightarrow> task_queues \<Rightarrow> (u32 \<times> task_queues) option" where
  "FTL_sendhcmd hcl hcmd st tq = do {
     e \<leftarrow> hcmd_read hcmd hcl;
     if st > HCE_INIT \<or> st < HCE_CHECK_CACHE then Some (FAIL, tq)
     else if HCE_CHECK_CACHE \<le> st \<and> st < HCE_INIT then Some (FTL_task_queue_add_tail hcmd st tq)
     else None
   }"

text \<open>The values that \<^verbatim>\<open>FTL_hcmd_print\<close> prints, in order.\<close>

definition FTL_hcmd_print :: "hcmd_ptr \<Rightarrow> hcl_state \<Rightarrow> u32 list option" where
  "FTL_hcmd_print hcmd hcl = do {
     e \<leftarrow> hcmd_read hcmd hcl;
     Some [start_lpa e, req_num e, nvme_start_lba e, nvme_req_num e, of_nat (status_num (status e)), send_sq_cnt e]
   }"

section \<open>The list a ring represents\<close>

definition ring_repr :: "ftl_task_queue_entry \<Rightarrow> hcmd_ptr list \<Rightarrow> bool" where
  "ring_repr q xs \<longleftrightarrow>
     length xs \<le> TASK_QUEUE_MAX \<and> unat (tq_cnt q) = length xs \<and>
     tq_tail q = tq_head q + of_nat (length xs) \<and>
     (\<forall>i < length xs. tq_queue q (tq_head q + of_nat i) = xs ! i)"

definition tq_repr :: "task_queues \<Rightarrow> (host_cmd_entry_status \<Rightarrow> hcmd_ptr list) \<Rightarrow> bool" where
  "tq_repr tq f \<longleftrightarrow> (\<forall>st. st < HCE_INIT \<longrightarrow> ring_repr (tq st) (f st))"

lemma ring_next_add1: "ring_next x = x + 1"
  by (simp add: ring_next_def TASK_QUEUE_MAX_def word_unat_eq_iff unat_word_ariths unat_of_nat
      take_bit_eq_mod)

lemma u8_offset_inj: "i < 256 \<Longrightarrow> j < 256 \<Longrightarrow> (h + of_nat i = h + of_nat j) = (i = j)" for h :: u8
  by (metis add_left_cancel unat_of_nat_u8)

lemma ring_repr_full: "ring_repr q xs \<Longrightarrow> tq_cnt q = of_nat TASK_QUEUE_MAX \<longleftrightarrow> length xs = TASK_QUEUE_MAX"
  by (auto simp: ring_repr_def TASK_QUEUE_MAX_def word_unat_eq_iff)

lemma ring_repr_empty: "ring_repr q xs \<Longrightarrow> tq_cnt q = 0 \<longleftrightarrow> xs = []"
  by (auto simp: ring_repr_def unat_eq_0)

lemma unat_u16_inc: "unat c < 256 \<Longrightarrow> unat (c + 1) = unat c + 1" for c :: u16
  by (simp add: unat_word_ariths)

lemma unat_u16_dec: "0 < unat c \<Longrightarrow> unat (c - 1) = unat c - 1" for c :: u16
  by (metis unat_minus_one unat_0 less_irrefl)

lemma ring_add:
  assumes "ring_repr q xs" and "length xs < TASK_QUEUE_MAX"
  shows "ring_repr (q\<lparr>tq_cnt := tq_cnt q + 1, tq_tail := ring_next (tq_tail q),
    tq_queue := (tq_queue q)(tq_tail q := x)\<rparr>) (xs @ [x])"
proof -
  have q: "unat (tq_cnt q) = length xs" "tq_tail q = tq_head q + of_nat (length xs)"
    "\<forall>i < length xs. tq_queue q (tq_head q + of_nat i) = xs ! i"
    using assms(1) by (auto simp: ring_repr_def)
  have lt: "length xs < 256" using assms(2) by (simp add: TASK_QUEUE_MAX_def)
  have "((tq_queue q)(tq_tail q := x)) (tq_head q + of_nat i) = (xs @ [x]) ! i"
    if "i < length (xs @ [x])" for i
    using that q lt u8_offset_inj [of i "length xs" "tq_head q"]
    by (cases "i = length xs") (auto simp: nth_append)
  then show ?thesis
    using q lt by (simp add: ring_repr_def TASK_QUEUE_MAX_def unat_u16_inc ring_next_add1 add.assoc add.commute [of 1])
qed

lemma ring_remove:
  assumes "ring_repr q (x # xs)"
  shows "tq_queue q (tq_head q) = x"
    and "ring_repr (q\<lparr>tq_cnt := tq_cnt q - 1, tq_head := ring_next (tq_head q)\<rparr>) xs"
proof -
  have q: "unat (tq_cnt q) = Suc (length xs)" "tq_tail q = tq_head q + of_nat (Suc (length xs))"
    and nth: "\<And>i. i < Suc (length xs) \<Longrightarrow> tq_queue q (tq_head q + of_nat i) = (x # xs) ! i"
    and len: "Suc (length xs) \<le> 256"
    using assms by (auto simp: ring_repr_def TASK_QUEUE_MAX_def)
  show "tq_queue q (tq_head q) = x" using nth [of 0] by simp
  have "tq_queue q (tq_head q + 1 + of_nat i) = xs ! i" if "i < length xs" for i
    using nth [of "Suc i"] that by (simp add: add.assoc)
  then show "ring_repr (q\<lparr>tq_cnt := tq_cnt q - 1, tq_head := ring_next (tq_head q)\<rparr>) xs"
    using q len by (simp add: ring_repr_def TASK_QUEUE_MAX_def unat_u16_dec ring_next_add1)
qed

text \<open>The ring buffer of one status provides the queue interface.\<close>

definition tq_enq :: "hcmd_ptr \<Rightarrow> ftl_task_queue_entry \<Rightarrow> ftl_task_queue_entry option" where
  "tq_enq x q = (let (r, tq) = FTL_task_queue_add_tail x HCE_TO_SQ (\<lambda>_. q)
                 in if r = SUCCESS then Some (tq HCE_TO_SQ) else None)"

definition tq_deq :: "ftl_task_queue_entry \<Rightarrow> (hcmd_ptr \<times> ftl_task_queue_entry) option" where
  "tq_deq q = (if FTL_task_queue_is_empty HCE_TO_SQ (\<lambda>_. q) then None
               else let (x, tq) = FTL_task_queue_remove_head HCE_TO_SQ (\<lambda>_. q) in Some (x, tq HCE_TO_SQ))"

interpretation ring: fifo ring_repr tq_enq tq_deq "\<lambda>x xs. length xs < TASK_QUEUE_MAX"
proof unfold_locales
  show "\<exists>s'. tq_enq x s = Some s' \<and> ring_repr s' (xs @ [x])"
    if "ring_repr s xs" "length xs < TASK_QUEUE_MAX" for s xs x
    using ring_add [OF that] ring_repr_full [OF that(1)] that(2)
    by (simp add: tq_enq_def FTL_task_queue_add_tail_def FTL_task_queue_is_full_def Let_def)
  show "\<exists>s'. tq_deq s = Some (x, s') \<and> ring_repr s' xs" if "ring_repr s (x # xs)" for s x xs
    using ring_remove [OF that] ring_repr_empty [OF that]
    by (simp add: tq_deq_def FTL_task_queue_remove_head_def FTL_task_queue_is_empty_def Let_def)
  show "tq_deq s = None" if "ring_repr s []" for s
    using ring_repr_empty [OF that] by (simp add: tq_deq_def FTL_task_queue_is_empty_def)
qed

section \<open>All queues together\<close>

lemma tq_repr_add:
  assumes "tq_repr tq f" and "st < HCE_INIT" and "length (f st) < TASK_QUEUE_MAX"
  shows "\<exists>tq'. FTL_task_queue_add_tail x st tq = (SUCCESS, tq') \<and> tq_repr tq' (f(st := f st @ [x]))"
proof -
  have r: "ring_repr (tq st) (f st)" using assms by (simp add: tq_repr_def)
  show ?thesis
    using assms ring_add [OF r assms(3)] ring_repr_full [OF r]
    by (auto simp: FTL_task_queue_add_tail_def FTL_task_queue_is_full_def Let_def tq_repr_def)
qed

lemma tq_repr_add_full:
  assumes "tq_repr tq f" and "st < HCE_INIT" and "length (f st) = TASK_QUEUE_MAX"
  shows "FTL_task_queue_add_tail x st tq = (FAIL, tq)"
proof -
  have "ring_repr (tq st) (f st)" using assms by (simp add: tq_repr_def)
  then show ?thesis
    using assms(3) by (simp add: FTL_task_queue_add_tail_def FTL_task_queue_is_full_def ring_repr_full)
qed

lemma tq_repr_remove:
  assumes "tq_repr tq f" and "st < HCE_INIT" and "f st = x # xs"
  shows "\<exists>tq'. FTL_task_queue_remove_head st tq = (x, tq') \<and> tq_repr tq' (f(st := xs))"
proof -
  have r: "ring_repr (tq st) (x # xs)" using assms by (metis tq_repr_def)
  show ?thesis
    using assms ring_remove [OF r] ring_repr_empty [OF r]
    by (auto simp: FTL_task_queue_remove_head_def FTL_task_queue_is_empty_def Let_def tq_repr_def)
qed

lemma tq_repr_remove_empty:
  assumes "tq_repr tq f" and "st < HCE_INIT" and "f st = []"
  shows "FTL_task_queue_remove_head st tq = (NULL, tq)"
proof -
  have "ring_repr (tq st) []" using assms by (metis tq_repr_def)
  then show ?thesis
    using ring_repr_empty by (simp add: FTL_task_queue_remove_head_def FTL_task_queue_is_empty_def)
qed

lemma tq_repr_init: "tq_repr (FTL_int_task_queue tq) (\<lambda>_. [])"
  by (simp add: tq_repr_def FTL_int_task_queue_def ring_repr_def)

lemma tq_repr_cnt: "tq_repr tq f \<Longrightarrow> st < HCE_INIT \<Longrightarrow> unat (FTL_get_taskqueue_cnt st tq) = length (f st)"
  by (simp add: FTL_get_taskqueue_cnt_def tq_repr_def ring_repr_def unat_ucast_widen)

lemma sendhcmd_eq:
  "hcmd_read hcmd hcl = Some e \<Longrightarrow> st < HCE_INIT \<Longrightarrow>
     FTL_sendhcmd hcl hcmd st tq = Some (FTL_task_queue_add_tail hcmd st tq)"
  by (cases st) (simp_all add: FTL_sendhcmd_def status_order)

lemma sendhcmd_repr:
  assumes "tq_repr tq f" and "st < HCE_INIT" and "length (f st) < TASK_QUEUE_MAX"
    and "hcmd_read hcmd hcl = Some e"
  shows "\<exists>tq'. FTL_sendhcmd hcl hcmd st tq = Some (SUCCESS, tq') \<and> tq_repr tq' (f(st := f st @ [hcmd]))"
  using tq_repr_add [OF assms(1-3), of hcmd] sendhcmd_eq [OF assms(4,2), of tq] by auto

lemma ring_room: "length xs + length ys \<le> TASK_QUEUE_MAX \<Longrightarrow> ring.admits_all ys xs"
  by (induction ys arbitrary: xs) auto

section \<open>Properties\<close>



text \<open>
  \<^verbatim>\<open>FTL_sendhcmd\<close> on every branch, for the six queues together: it appends the command
  to the queue of the given status and to no other; it reports failure and changes nothing when that
  queue is full; and for \<^verbatim>\<open>HCE_INIT\<close>, which is no queue, it ends without a return value.
\<close>

theorem sendhcmd_branches:
  assumes "tq_repr tq f" and "hcmd_read hcmd hcl = Some e"
  shows "(st < HCE_INIT \<and> length (f st) < TASK_QUEUE_MAX \<longrightarrow>
      (\<exists>tq'. FTL_sendhcmd hcl hcmd st tq = Some (SUCCESS, tq') \<and> tq_repr tq' (f(st := f st @ [hcmd])))) \<and>
    (st < HCE_INIT \<and> length (f st) = TASK_QUEUE_MAX \<longrightarrow> FTL_sendhcmd hcl hcmd st tq = Some (FAIL, tq)) \<and>
    (st = HCE_INIT \<longrightarrow> FTL_sendhcmd hcl hcmd st tq = None)"
proof (intro conjI impI)
  show "FTL_sendhcmd hcl hcmd st tq = None" if "st = HCE_INIT"
    using that assms(2) by (simp add: FTL_sendhcmd_def status_order)
qed (use sendhcmd_repr [OF assms(1) _ _ assms(2)] sendhcmd_eq [OF assms(2)] tq_repr_add_full [OF assms(1)] in auto)

definition blank_queue :: ftl_task_queue_entry where
  "blank_queue = \<lparr>tq_head = 9, tq_tail = 9, tq_cnt = 9, tq_queue = (\<lambda>_. NULL), tq_status = HCE_INIT\<rparr>"

theorem sendhcmd_branches_witness:
  "\<exists>tq'. FTL_sendhcmd (snd (HCL_init_host_cmd_entry_queue 0x4000)) (Some 7) HCE_FINISH (FTL_int_task_queue (\<lambda>_. blank_queue)) = Some (SUCCESS, tq') \<and>
     tq_repr tq' ((\<lambda>_. [])(HCE_FINISH := [Some 7]))"
  using sendhcmd_branches [OF tq_repr_init [of "\<lambda>_. blank_queue"], of "Some 7" "snd (HCL_init_host_cmd_entry_queue 0x4000)" zero_hcmd HCE_FINISH]
  by (simp add: hcmd_read_def HCL_init_host_cmd_entry_queue_def HCMD_NUM_def status_order TASK_QUEUE_MAX_def)

end
