(* ===== verification/Reg_Bus.thy ===== *)
theory Reg_Bus
  imports Emu_Prelude
begin

text \<open>
  Register accesses, \<^verbatim>\<open>emu/emu_io.h\<close>: a device on a bus, as the flash controller
  layer and the NVMe driver program it.
\<close>

section \<open>The bus\<close>

text \<open>
  The bus: the register accesses made so far, the newest first. What a read returns is up to the
  device, a function of the accesses before it. Under the emulator the register file is plain
  memory that \<^verbatim>\<open>FCL_init_flash_controller\<close> clears.
\<close>

datatype bus_event = Wr u32 u32 | Rd u32 u32

type_synonym bus = "bus_event list"
type_synonym device = "bus \<Rightarrow> u32 \<Rightarrow> u32"

definition Xil_Out32 :: "u32 \<Rightarrow> u32 \<Rightarrow> bus \<Rightarrow> bus" where
  "Xil_Out32 addr v b = Wr addr v # b"

definition Xil_In32 :: "device \<Rightarrow> u32 \<Rightarrow> bus \<Rightarrow> u32 \<times> bus" where
  "Xil_In32 dev addr b = (dev b addr, Rd addr (dev b addr) # b)"

fun mem_device :: device where
  "mem_device [] a = 0"
| "mem_device (Wr b v # tr) a = (if a = b then v else mem_device tr a)"
| "mem_device (Rd b v # tr) a = mem_device tr a"

text \<open>\<^verbatim>\<open>Xil_Out32(addr, x); addr = addr + 4;\<close> for each \<open>x\<close> in turn.\<close>

primrec out_seq :: "u32 \<Rightarrow> u32 list \<Rightarrow> bus \<Rightarrow> bus" where
  "out_seq addr [] b = b"
| "out_seq addr (x # xs) b = out_seq (addr + 4) xs (Xil_Out32 addr x b)"

section \<open>Traces\<close>

text \<open>The writes of a bus trace, oldest first, without the reads between them.\<close>

fun bus_writes :: "bus \<Rightarrow> (u32 \<times> u32) list" where
  "bus_writes [] = []"
| "bus_writes (Wr a v # b) = bus_writes b @ [(a, v)]"
| "bus_writes (Rd a v # b) = bus_writes b"

primrec seq_writes :: "u32 \<Rightarrow> u32 list \<Rightarrow> (u32 \<times> u32) list" where
  "seq_writes a [] = []"
| "seq_writes a (x # xs) = (a, x) # seq_writes (a + 4) xs"

lemma bus_writes_out [simp]: "bus_writes (Xil_Out32 a v b) = bus_writes b @ [(a, v)]"
  by (simp add: Xil_Out32_def)

lemma bus_writes_in [simp]: "bus_writes (snd (Xil_In32 dev a b)) = bus_writes b"
  by (simp add: Xil_In32_def)

lemma bus_writes_seq [simp]: "bus_writes (out_seq a xs b) = bus_writes b @ seq_writes a xs"
  by (induction xs arbitrary: a b) simp_all

text \<open>The bus after \<open>n\<close> reads of one register.\<close>

primrec polls :: "device \<Rightarrow> u32 \<Rightarrow> nat \<Rightarrow> bus \<Rightarrow> bus" where
  "polls dev a 0 b = b"
| "polls dev a (Suc n) b = polls dev a n (snd (Xil_In32 dev a b))"

end
