(* ===== verification/CList.thy ===== *)
theory CList
  imports Emu_Prelude
begin

text \<open>
  The intrusive doubly linked lists of \<^verbatim>\<open>lib/list.c\<close> and
  \<^verbatim>\<open>lib/list.h\<close>. The nodes of every list that a component keeps live in one
  heap: two pointer fields per node, \<open>None\<close> being NULL. Each C function is a heap
  transformer into \<open>option\<close>; \<open>None\<close> is a NULL dereference.

  The predicate \<open>dlist\<close> says that a circular list with a given head holds given nodes in
  a given order; the lemmas show what each operation does to it and that nodes outside the list
  keep their fields.
\<close>

section \<open>Nodes and the operations of list.c\<close>

record 'a list_heap =
  list_next :: "'a \<Rightarrow> 'a ptr"
  list_prev :: "'a \<Rightarrow> 'a ptr"

definition node_next :: "'a ptr \<Rightarrow> 'a list_heap \<Rightarrow> 'a ptr option" where
  "node_next p h = (case p of None \<Rightarrow> None | Some a \<Rightarrow> Some (list_next h a))"

definition node_prev :: "'a ptr \<Rightarrow> 'a list_heap \<Rightarrow> 'a ptr option" where
  "node_prev p h = (case p of None \<Rightarrow> None | Some a \<Rightarrow> Some (list_prev h a))"

definition set_node_next :: "'a ptr \<Rightarrow> 'a ptr \<Rightarrow> 'a list_heap \<Rightarrow> 'a list_heap option" where
  "set_node_next p v h =
     (case p of None \<Rightarrow> None | Some a \<Rightarrow> Some (h\<lparr>list_next := (list_next h)(a := v)\<rparr>))"

definition set_node_prev :: "'a ptr \<Rightarrow> 'a ptr \<Rightarrow> 'a list_heap \<Rightarrow> 'a list_heap option" where
  "set_node_prev p v h =
     (case p of None \<Rightarrow> None | Some a \<Rightarrow> Some (h\<lparr>list_prev := (list_prev h)(a := v)\<rparr>))"

definition list_add :: "'a ptr \<Rightarrow> 'a ptr \<Rightarrow> 'a ptr \<Rightarrow> 'a list_heap \<Rightarrow> 'a list_heap option" where
  "list_add new prev next h0 = do {
     h1 \<leftarrow> set_node_prev next new h0;
     h2 \<leftarrow> set_node_next new next h1;
     h3 \<leftarrow> set_node_prev new prev h2;
     set_node_next prev new h3
   }"

definition list_delete :: "'a ptr \<Rightarrow> 'a list_heap \<Rightarrow> 'a list_heap option" where
  "list_delete node h0 =
     (if node = NULL then Some h0
      else do {
        n \<leftarrow> node_next node h0;
        p \<leftarrow> node_prev node h0;
        if n = NULL \<or> p = NULL then Some h0
        else do {
          h1 \<leftarrow> set_node_next p n h0;
          n1 \<leftarrow> node_next node h1;
          p1 \<leftarrow> node_prev node h1;
          h2 \<leftarrow> set_node_prev n1 p1 h1;
          h3 \<leftarrow> set_node_prev node NULL h2;
          set_node_next node NULL h3
        }
      })"

definition list_empty :: "'a ptr \<Rightarrow> 'a list_heap \<Rightarrow> u32 option" where
  "list_empty head h = do {
     n \<leftarrow> node_next head h;
     Some (if n = head then 1 else 0)
   }"

definition list_delete_tail :: "'a ptr \<Rightarrow> 'a list_heap \<Rightarrow> 'a list_heap option" where
  "list_delete_tail head h = do { p \<leftarrow> node_prev head h; list_delete p h }"

definition list_delete_head :: "'a ptr \<Rightarrow> 'a list_heap \<Rightarrow> 'a list_heap option" where
  "list_delete_head head h = do { n \<leftarrow> node_next head h; list_delete n h }"

definition list_move_head :: "'a ptr \<Rightarrow> 'a ptr \<Rightarrow> 'a list_heap \<Rightarrow> 'a list_heap option" where
  "list_move_head node head h0 = do {
     n \<leftarrow> node_next node h0;
     p \<leftarrow> node_prev node h0;
     h1 \<leftarrow> set_node_prev n p h0;
     p1 \<leftarrow> node_prev node h1;
     n1 \<leftarrow> node_next node h1;
     h2 \<leftarrow> set_node_next p1 n1 h1;
     hn \<leftarrow> node_next head h2;
     list_add node head hn h2
   }"

definition list_move_tail_to_head :: "'a ptr \<Rightarrow> 'a list_heap \<Rightarrow> 'a list_heap option" where
  "list_move_tail_to_head head h = do { p \<leftarrow> node_prev head h; list_move_head p head h }"

definition list_add_tail :: "'a ptr \<Rightarrow> 'a ptr \<Rightarrow> 'a list_heap \<Rightarrow> 'a list_heap option" where
  "list_add_tail new head h = do { p \<leftarrow> node_prev head h; list_add new p head h }"

definition list_add_head :: "'a ptr \<Rightarrow> 'a ptr \<Rightarrow> 'a list_heap \<Rightarrow> 'a list_heap option" where
  "list_add_head new head h = do { n \<leftarrow> node_next head h; list_add new head n h }"

lemmas list_op_defs = node_next_def node_prev_def set_node_next_def set_node_prev_def
  list_add_def list_delete_def list_empty_def list_delete_tail_def list_delete_head_def
  list_move_head_def list_move_tail_to_head_def list_add_tail_def list_add_head_def

section \<open>The list a head stands for\<close>

fun lseg :: "'a list_heap \<Rightarrow> 'a \<Rightarrow> 'a list \<Rightarrow> 'a \<Rightarrow> bool" where
  "lseg h p [] q \<longleftrightarrow> list_next h p = Some q \<and> list_prev h q = Some p"
| "lseg h p (x # xs) q \<longleftrightarrow> list_next h p = Some x \<and> list_prev h x = Some p \<and> lseg h x xs q"

definition dlist :: "'a list_heap \<Rightarrow> 'a \<Rightarrow> 'a list \<Rightarrow> bool" where
  "dlist h r xs \<longleftrightarrow> lseg h r xs r \<and> distinct (r # xs)"

definition agree_off :: "'a set \<Rightarrow> 'a list_heap \<Rightarrow> 'a list_heap \<Rightarrow> bool" where
  "agree_off S h h' \<longleftrightarrow> (\<forall>a. a \<notin> S \<longrightarrow> list_next h' a = list_next h a \<and> list_prev h' a = list_prev h a)"

lemma lseg_append: "lseg h p (xs @ y # ys) q \<longleftrightarrow> lseg h p xs y \<and> lseg h y ys q"
  by (induction xs arbitrary: p) auto

lemma lseg_last: "lseg h p xs q \<Longrightarrow> list_prev h q = Some (last (p # xs))"
  by (induction xs arbitrary: p) auto

lemma lseg_first: "lseg h p xs q \<Longrightarrow> list_next h p = Some (hd (xs @ [q]))"
  by (cases xs) auto

lemma lseg_cong:
  assumes "\<And>a. a \<in> set (p # xs) \<Longrightarrow> list_next h' a = list_next h a"
    and "\<And>a. a \<in> set (xs @ [q]) \<Longrightarrow> list_prev h' a = list_prev h a"
  shows "lseg h' p xs q = lseg h p xs q"
  using assms by (induction xs arbitrary: p) auto

lemma dlist_frame:
  assumes "agree_off S h h'" and "S \<inter> set (r # xs) = {}"
  shows "dlist h' r xs = dlist h r xs"
proof -
  have "lseg h' r xs r = lseg h r xs r"
    using assms by (intro lseg_cong) (auto simp: agree_off_def)
  then show ?thesis by (simp add: dlist_def)
qed

lemma agree_off_mono: "agree_off S h h' \<Longrightarrow> S \<subseteq> T \<Longrightarrow> agree_off T h h'"
  by (auto simp: agree_off_def)

lemma agree_off_trans: "agree_off S h h' \<Longrightarrow> agree_off S h' h'' \<Longrightarrow> agree_off S h h''"
  by (auto simp: agree_off_def)

lemma agree_off_refl [simp]: "agree_off S h h"
  by (simp add: agree_off_def)

lemma dlist_distinct: "dlist h r xs \<Longrightarrow> distinct (r # xs)"
  by (simp add: dlist_def)

lemma dlist_prev_head: "dlist h r xs \<Longrightarrow> list_prev h r = Some (last (r # xs))"
  by (auto simp: dlist_def dest: lseg_last)

lemma dlist_next_head: "dlist h a xs \<Longrightarrow> list_next h a = Some (hd (xs @ [a]))"
  by (auto simp: dlist_def dest: lseg_first)

lemma dlist_list_empty: "dlist h r xs \<Longrightarrow> list_empty (Some r) h = Some (if xs = [] then 1 else 0)"
  by (cases xs) (auto simp: dlist_def list_op_defs)

lemma dlist_unique: "dlist h r xs \<Longrightarrow> dlist h r ys \<Longrightarrow> xs = ys"
proof -
  have seg: "lseg h p xs r \<Longrightarrow> lseg h p ys r \<Longrightarrow> r \<notin> set xs \<Longrightarrow> r \<notin> set ys \<Longrightarrow> xs = ys" for p
  proof (induction xs arbitrary: p ys)
    case Nil
    then show ?case by (cases ys) auto
  next
    case (Cons x xs)
    then show ?case by (cases ys) auto
  qed
  assume "dlist h r xs" and "dlist h r ys"
  then show ?thesis using seg by (auto simp: dlist_def)
qed

lemma lseg_split:
  "lseg h p (xs @ ys) q \<longleftrightarrow> lseg h p xs (hd (ys @ [q])) \<and> lseg h (last (p # xs)) ys q"
  by (induction xs arbitrary: p; cases ys) auto

lemma lseg_end:
  assumes "lseg h p xs n"
    and "\<And>a. a \<in> set (butlast (p # xs)) \<Longrightarrow> list_next h' a = list_next h a"
    and "\<And>a. a \<in> set xs \<Longrightarrow> list_prev h' a = list_prev h a"
    and "list_next h' (last (p # xs)) = Some x"
    and "list_prev h' x = Some (last (p # xs))"
  shows "lseg h' p xs x"
  using assms by (induction xs arbitrary: p) (auto split: if_splits)

lemma lseg_start:
  assumes "lseg h p ys q"
    and "\<And>a. a \<in> set ys \<Longrightarrow> list_next h' a = list_next h a"
    and "\<And>a. a \<in> set (tl (ys @ [q])) \<Longrightarrow> list_prev h' a = list_prev h a"
    and "list_next h' x = Some (hd (ys @ [q]))"
    and "list_prev h' (hd (ys @ [q])) = Some x"
  shows "lseg h' x ys q"
proof (cases ys)
  case Nil
  then show ?thesis using assms by simp
next
  case (Cons y ys')
  have "lseg h' y ys' q = lseg h y ys' q"
    using assms(2,3) Cons by (intro lseg_cong) auto
  then show ?thesis using assms Cons by simp
qed

section \<open>What the operations do to a list\<close>

lemma list_add_dlist:
  assumes "dlist h r (xs @ ys)" and "x \<notin> set (r # xs @ ys)"
  shows "\<exists>h'. list_add (Some x) (Some (last (r # xs))) (Some (hd (ys @ [r]))) h = Some h' \<and>
    dlist h' r (xs @ x # ys) \<and> agree_off (set (x # r # xs @ ys)) h h'"
proof -
  let ?p = "last (r # xs)" and ?n = "hd (ys @ [r])"
  let ?h = "h\<lparr>list_next := (list_next h)(x := Some ?n, ?p := Some x),
               list_prev := (list_prev h)(?n := Some x, x := Some ?p)\<rparr>"
  have p: "?p \<in> set (r # xs)" by (rule last_in_set) simp
  have n: "?n \<in> set (r # ys)" by (cases ys) auto
  from assms(2) p n have ne: "x \<noteq> ?p" "x \<noteq> ?n" by auto
  have d: "distinct (r # xs @ ys)" using assms(1) by (simp add: dlist_def)
  from assms(1) have seg: "lseg h r xs ?n" "lseg h ?p ys r"
    by (auto simp: dlist_def lseg_split)
  have bl: "?p \<notin> set (butlast (r # xs))"
    using d by (metis distinct_append distinct_butlast append_butlast_last_id distinct.simps(2)
        append_Cons distinct_snoc list.distinct(1))
  have py: "?p \<notin> set ys" using d p by (metis IntI append_Cons distinct_append empty_iff)
  have ty: "?n \<notin> set (tl (ys @ [r]))" using d by (cases ys) auto
  have "lseg ?h r xs x"
  proof (rule lseg_end [OF seg(1)])
    show "\<And>a. a \<in> set (butlast (r # xs)) \<Longrightarrow> list_next ?h a = list_next h a"
      using assms(2) bl by (auto dest: in_set_butlastD split: if_splits)
    show "\<And>a. a \<in> set xs \<Longrightarrow> list_prev ?h a = list_prev h a"
      using assms(2) n d by auto
  qed (use ne in auto)
  moreover have "lseg ?h x ys r"
  proof (rule lseg_start [OF seg(2)])
    show "\<And>a. a \<in> set ys \<Longrightarrow> list_next ?h a = list_next h a"
      using assms(2) py by auto
    show "\<And>a. a \<in> set (tl (ys @ [r])) \<Longrightarrow> list_prev ?h a = list_prev h a"
      using assms(2) ty by (cases ys) auto
  qed (use ne in auto)
  ultimately have "dlist ?h r (xs @ x # ys)"
    using d assms(2) by (auto simp: dlist_def lseg_append)
  moreover have "list_add (Some x) (Some ?p) (Some ?n) h = Some ?h"
    using ne by (simp add: list_op_defs fun_upd_twist)
  moreover have "agree_off (set (x # r # xs @ ys)) h ?h"
    using p n by (auto simp: agree_off_def)
  ultimately show ?thesis by blast
qed

lemma list_add_tail_dlist:
  assumes "dlist h r xs" and "x \<notin> set (r # xs)"
  shows "\<exists>h'. list_add_tail (Some x) (Some r) h = Some h' \<and>
    dlist h' r (xs @ [x]) \<and> agree_off (set (x # r # xs)) h h'"
  using list_add_dlist [of h r xs "[]" x] assms dlist_prev_head [OF assms(1)]
  by (simp add: list_add_tail_def node_prev_def)

lemma list_add_head_dlist:
  assumes "dlist h r xs" and "x \<notin> set (r # xs)"
  shows "\<exists>h'. list_add_head (Some x) (Some r) h = Some h' \<and>
    dlist h' r (x # xs) \<and> agree_off (set (x # r # xs)) h h'"
  using list_add_dlist [of h r "[]" xs x] assms dlist_next_head [OF assms(1)]
  by (simp add: list_add_head_def node_next_def)

lemma dlist_remove:
  assumes "dlist h r (xs @ x # ys)"
    and nx: "list_next h' = (list_next h)(last (r # xs) := Some (hd (ys @ [r])), x := a)"
    and pv: "list_prev h' = (list_prev h)(hd (ys @ [r]) := Some (last (r # xs)), x := b)"
  shows "dlist h' r (xs @ ys)"
proof -
  let ?p = "last (r # xs)" and ?n = "hd (ys @ [r])"
  have p: "?p \<in> set (r # xs)" by (rule last_in_set) simp
  have n: "?n \<in> set (r # ys)" by (cases ys) auto
  have d: "distinct (r # xs @ x # ys)" using assms(1) by (simp add: dlist_def)
  from d p n have ne: "x \<noteq> ?p" "x \<noteq> ?n" by auto
  from assms(1) have seg: "lseg h r xs x" "lseg h x ys r"
    by (auto simp: dlist_def lseg_append)
  have bl: "?p \<notin> set (butlast (r # xs))"
    using d by (metis distinct_append append_butlast_last_id append_Cons distinct_snoc
        list.distinct(1))
  have py: "?p \<notin> set ys" using d p by (metis IntI append_Cons distinct_append empty_iff
        list.set_intros(2))
  have ty: "?n \<notin> set (tl (ys @ [r]))" using d by (cases ys) auto
  have "lseg h' r xs ?n"
  proof (rule lseg_end [OF seg(1)])
    show "\<And>a. a \<in> set (butlast (r # xs)) \<Longrightarrow> list_next h' a = list_next h a"
      using d bl by (auto simp: nx dest: in_set_butlastD split: if_splits)
    show "\<And>a. a \<in> set xs \<Longrightarrow> list_prev h' a = list_prev h a"
      using n d by (auto simp: pv)
  qed (use ne in \<open>auto simp: nx pv\<close>)
  moreover have "lseg h' ?p ys r"
  proof (rule lseg_start [OF seg(2)])
    show "\<And>a. a \<in> set ys \<Longrightarrow> list_next h' a = list_next h a"
      using d py by (auto simp: nx)
    show "\<And>a. a \<in> set (tl (ys @ [r])) \<Longrightarrow> list_prev h' a = list_prev h a"
      using d ty by (cases ys) (auto simp: pv)
  qed (use ne in \<open>auto simp: nx pv\<close>)
  ultimately show ?thesis using d by (auto simp: dlist_def lseg_split)
qed

lemma dlist_neighbours:
  assumes "dlist h r (xs @ x # ys)"
  shows "list_next h x = Some (hd (ys @ [r]))" and "list_prev h x = Some (last (r # xs))"
  using assms by (auto simp: dlist_def lseg_append dest: lseg_last lseg_first)

lemma list_delete_dlist:
  assumes "dlist h r (xs @ x # ys)"
  shows "\<exists>h'. list_delete (Some x) h = Some h' \<and> dlist h' r (xs @ ys) \<and>
    list_next h' x = NULL \<and> list_prev h' x = NULL \<and> agree_off (set (r # xs @ x # ys)) h h'"
proof -
  let ?p = "last (r # xs)" and ?n = "hd (ys @ [r])"
  let ?h = "h\<lparr>list_next := (list_next h)(?p := Some ?n, x := NULL),
               list_prev := (list_prev h)(?n := Some ?p, x := NULL)\<rparr>"
  have p: "?p \<in> set (r # xs)" by (rule last_in_set) simp
  have n: "?n \<in> set (r # ys)" by (cases ys) auto
  have "distinct (r # xs @ x # ys)" using assms by (simp add: dlist_def)
  with p n have ne: "x \<noteq> ?p" "x \<noteq> ?n" by auto
  have "list_delete (Some x) h = Some ?h"
    using ne dlist_neighbours [OF assms] by (simp add: list_op_defs)
  moreover have "dlist ?h r (xs @ ys)" by (rule dlist_remove [OF assms]) simp_all
  moreover have "agree_off (set (r # xs @ x # ys)) h ?h"
    using p n by (auto simp: agree_off_def)
  ultimately show ?thesis by (intro exI [of _ ?h]) simp
qed

lemma list_delete_head_dlist:
  assumes "dlist h r (x # xs)"
  shows "\<exists>h'. list_delete_head (Some r) h = Some h' \<and> dlist h' r xs \<and>
    list_next h' x = NULL \<and> list_prev h' x = NULL \<and> agree_off (set (r # x # xs)) h h'"
  using list_delete_dlist [of h r "[]" x xs] assms dlist_next_head [OF assms]
  by (simp add: list_delete_head_def node_next_def)

lemma list_delete_tail_dlist:
  assumes "dlist h r (xs @ [x])"
  shows "\<exists>h'. list_delete_tail (Some r) h = Some h' \<and> dlist h' r xs \<and>
    list_next h' x = NULL \<and> list_prev h' x = NULL \<and> agree_off (set (r # xs @ [x])) h h'"
  using list_delete_dlist [of h r xs x "[]"] assms dlist_prev_head [OF assms]
  by (simp add: list_delete_tail_def node_prev_def)

lemma list_move_head_dlist:
  assumes "dlist h r (xs @ x # ys)"
  shows "\<exists>h'. list_move_head (Some x) (Some r) h = Some h' \<and> dlist h' r (x # xs @ ys) \<and>
    agree_off (set (r # xs @ x # ys)) h h'"
proof -
  let ?p = "last (r # xs)" and ?n = "hd (ys @ [r])"
  let ?h = "h\<lparr>list_prev := (list_prev h)(?n := Some ?p), list_next := (list_next h)(?p := Some ?n)\<rparr>"
  have p: "?p \<in> set (r # xs)" by (rule last_in_set) simp
  have n: "?n \<in> set (r # ys)" by (cases ys) auto
  have d: "distinct (r # xs @ x # ys)" using assms by (simp add: dlist_def)
  with p n have ne: "x \<noteq> ?p" "x \<noteq> ?n" by auto
  have rem: "dlist ?h r (xs @ ys)"
    by (rule dlist_remove [OF assms, where a = "list_next h x" and b = "list_prev h x"])
      (use ne in \<open>simp_all add: fun_upd_idem\<close>)
  have xin: "x \<notin> set (r # xs @ ys)" using d by auto
  obtain h' where h': "list_add_head (Some x) (Some r) ?h = Some h'"
    "dlist h' r (x # xs @ ys)" "agree_off (set (x # r # xs @ ys)) ?h h'"
    using list_add_head_dlist [OF rem xin] by blast
  have "list_move_head (Some x) (Some r) h = list_add_head (Some x) (Some r) ?h"
    using ne dlist_neighbours [OF assms]
    by (simp add: list_move_head_def list_add_head_def node_next_def node_prev_def
        set_node_next_def set_node_prev_def)
  moreover have "agree_off (set (r # xs @ x # ys)) h h'"
    using h'(3) p n by (auto simp: agree_off_def)
  ultimately show ?thesis using h' by simp
qed

lemma list_move_tail_to_head_dlist:
  assumes "dlist h r (xs @ [x])"
  shows "\<exists>h'. list_move_tail_to_head (Some r) h = Some h' \<and> dlist h' r (x # xs) \<and>
    agree_off (set (r # xs @ [x])) h h'"
  using list_move_head_dlist [of h r xs x "[]"] assms dlist_prev_head [OF assms]
  by (simp add: list_move_tail_to_head_def node_prev_def)

text \<open>
  An initialised head is an empty list: \<^verbatim>\<open>head = {&head, &head}\<close>.
\<close>

definition list_head_init :: "'a \<Rightarrow> 'a list_heap \<Rightarrow> 'a list_heap" where
  "list_head_init r h =
     h\<lparr>list_next := (list_next h)(r := Some r), list_prev := (list_prev h)(r := Some r)\<rparr>"

lemma list_head_init_dlist [simp]: "dlist (list_head_init r h) r []"
  by (simp add: list_head_init_def dlist_def)

lemma list_head_init_agree [simp]: "agree_off {r} h (list_head_init r h)"
  by (auto simp: list_head_init_def agree_off_def)

end
