(* ===== verification/Buffer.thy ===== *)
theory Buffer
  imports CList Emu_Config
begin

text \<open>
  The page buffer, \<^verbatim>\<open>buffer/buffer.h\<close> and \<^verbatim>\<open>buffer/buffer.c\<close>: 1500
  buffer entries that are linked, through nodes embedded in each entry, into a free list, a
  replacement list, the chains of a hash table and the per-command lists. All nodes live in one
  \<open>list_heap\<close> whose addresses name the entry (or head) and the member; the C macro
  \<^verbatim>\<open>container_of\<close> is the inverse of the constructor. The bypass variant
  (\<^verbatim>\<open>BYPASS_BUFFER == YES\<close>) is not configured and not modelled.

  Walks along a list follow the pointers the heap holds, so on a damaged heap they need not end:
  they are partial functions, and the lemmas show that on well-formed lists they return.
\<close>

section \<open>Data\<close>

definition HASH_TABLE_SIZE :: nat where "HASH_TABLE_SIZE = 1000"
definition HCMD_TABLE_SIZE :: nat where "HCMD_TABLE_SIZE = 256"

datatype buf_node =
    FreeHead | LruHead | HashHead nat | HcmdHead nat
  | FreeNode nat | LruNode nat | HashNode nat | HcmdNode nat

record buffer_entry =
  buf_lpn :: u32
  buf_id :: u32
  buf_dirty :: u32
  buf_valid :: u32

record buffer_state =
  buffer_entries :: "nat \<Rightarrow> buffer_entry"
  buf_nodes :: "buf_node list_heap"
  hcmd_buf_cnt :: "nat \<Rightarrow> u32"
  hcmd_cur_buf_id :: "nat \<Rightarrow> u32"

text \<open>\<^verbatim>\<open>container_of(ptr, buffer_entry, member)\<close> followed by a dereference: only a
  pointer to that member of one of the 1500 entries gives an entry.\<close>

definition entry_of_free :: "buf_node ptr \<Rightarrow> nat option" where
  "entry_of_free p = (case p of Some (FreeNode i) \<Rightarrow> if i < BUFFER_NUMBER then Some i else None | _ \<Rightarrow> None)"

definition entry_of_lru :: "buf_node ptr \<Rightarrow> nat option" where
  "entry_of_lru p = (case p of Some (LruNode i) \<Rightarrow> if i < BUFFER_NUMBER then Some i else None | _ \<Rightarrow> None)"

definition entry_of_hash :: "buf_node ptr \<Rightarrow> nat option" where
  "entry_of_hash p = (case p of Some (HashNode i) \<Rightarrow> if i < BUFFER_NUMBER then Some i else None | _ \<Rightarrow> None)"

definition entry_of_hcmd :: "buf_node ptr \<Rightarrow> nat option" where
  "entry_of_hcmd p = (case p of Some (HcmdNode i) \<Rightarrow> if i < BUFFER_NUMBER then Some i else None | _ \<Rightarrow> None)"

definition set_lpn :: "nat \<Rightarrow> u32 \<Rightarrow> buffer_state \<Rightarrow> buffer_state" where
  "set_lpn i lpn s = s\<lparr>buffer_entries := (buffer_entries s)(i := (buffer_entries s i)\<lparr>buf_lpn := lpn\<rparr>)\<rparr>"

definition on_nodes ::
  "(buf_node list_heap \<Rightarrow> buf_node list_heap option) \<Rightarrow> buffer_state \<Rightarrow> buffer_state option" where
  "on_nodes f s = do { h \<leftarrow> f (buf_nodes s); Some (s\<lparr>buf_nodes := h\<rparr>) }"

section \<open>The hash table\<close>

definition get_hash_code :: "u32 \<Rightarrow> u32" where
  "get_hash_code key = key mod of_nat HASH_TABLE_SIZE"

definition hash_slot :: "u32 \<Rightarrow> nat" where
  "hash_slot key = unat (get_hash_code key)"

definition init_hash_table :: "buffer_state \<Rightarrow> buffer_state" where
  "init_hash_table s =
     s\<lparr>buf_nodes := fold (\<lambda>i. list_head_init (HashHead i)) [0..<HASH_TABLE_SIZE] (buf_nodes s)\<rparr>"

definition insert_hash_table_entry :: "u32 \<Rightarrow> nat \<Rightarrow> buffer_state \<Rightarrow> buffer_state option" where
  "insert_hash_table_entry key be s =
     on_nodes (list_add_tail (Some (HashNode be)) (Some (HashHead (hash_slot key)))) s"

text \<open>The body of the two walks over a chain: from node \<open>p\<close> to the first entry with the
  key, NULL when the walk is back at the head.\<close>

partial_function (option) hash_walk ::
  "u32 \<Rightarrow> nat \<Rightarrow> buf_node ptr \<Rightarrow> buffer_state \<Rightarrow> nat ptr option" where
  "hash_walk key hv p s =
     (if p = Some (HashHead hv) then Some NULL
      else do {
        i \<leftarrow> entry_of_hash p;
        if buf_lpn (buffer_entries s i) = key then Some (Some i)
        else do { n \<leftarrow> node_next p (buf_nodes s); hash_walk key hv n s }
      })"

definition search_hash_table_entry :: "u32 \<Rightarrow> buffer_state \<Rightarrow> nat ptr option" where
  "search_hash_table_entry key s = do {
     n \<leftarrow> node_next (Some (HashHead (hash_slot key))) (buf_nodes s);
     hash_walk key (hash_slot key) n s
   }"

definition delete_hash_table_entry :: "u32 \<Rightarrow> buffer_state \<Rightarrow> buffer_state option" where
  "delete_hash_table_entry key s = do {
     n \<leftarrow> node_next (Some (HashHead (hash_slot key))) (buf_nodes s);
     r \<leftarrow> hash_walk key (hash_slot key) n s;
     case r of
       None \<Rightarrow> Some s
     | Some i \<Rightarrow> on_nodes (list_delete (Some (HashNode i))) s
   }"

section \<open>Initialisation\<close>

definition init_hcmd_buf_table :: "buffer_state \<Rightarrow> buffer_state" where
  "init_hcmd_buf_table s =
     s\<lparr>buf_nodes := fold (\<lambda>i. list_head_init (HcmdHead i)) [0..<HCMD_TABLE_SIZE] (buf_nodes s),
       hcmd_buf_cnt := (\<lambda>i. if i < HCMD_TABLE_SIZE then 0 else hcmd_buf_cnt s i),
       hcmd_cur_buf_id := (\<lambda>i. if i < HCMD_TABLE_SIZE then 0xffffffff else hcmd_cur_buf_id s i)\<rparr>"

definition clear_links :: "buf_node \<Rightarrow> buf_node list_heap \<Rightarrow> buf_node list_heap" where
  "clear_links a h =
     h\<lparr>list_next := (list_next h)(a := NULL), list_prev := (list_prev h)(a := NULL)\<rparr>"

definition init_entry :: "nat \<Rightarrow> buffer_state \<Rightarrow> buffer_state" where
  "init_entry i s =
     s\<lparr>buffer_entries := (buffer_entries s)(i := (buffer_entries s i)\<lparr>buf_lpn := 0xffffffff, buf_id := of_nat i\<rparr>),
       buf_nodes := clear_links (HashNode i) (clear_links (LruNode i) (clear_links (FreeNode i) (buf_nodes s)))\<rparr>"

fun add_free :: "nat list \<Rightarrow> buffer_state \<Rightarrow> buffer_state option" where
  "add_free [] s = Some s"
| "add_free (i # is) s = do {
     s' \<leftarrow> on_nodes (list_add_tail (Some (FreeNode i)) (Some FreeHead)) s;
     add_free is s'
   }"

text \<open>The two heads are initialised statically, before \<^verbatim>\<open>main\<close> runs.\<close>

definition static_heads :: "buffer_state \<Rightarrow> buffer_state" where
  "static_heads s = s\<lparr>buf_nodes := list_head_init LruHead (list_head_init FreeHead (buf_nodes s))\<rparr>"

definition L2P_init_buffer :: "buffer_state \<Rightarrow> buffer_state option" where
  "L2P_init_buffer s =
     add_free [0..<BUFFER_NUMBER]
       (fold init_entry [0..<BUFFER_NUMBER] (init_hcmd_buf_table (init_hash_table s)))"

section \<open>Lookup and allocation\<close>

definition L2P_check_buf_hit :: "u32 \<Rightarrow> buffer_state \<Rightarrow> u32 option" where
  "L2P_check_buf_hit lpn s = do {
     buf \<leftarrow> search_hash_table_entry lpn s;
     case buf of
       None \<Rightarrow> Some INVALID_ID
     | Some i \<Rightarrow> Some (buf_id (buffer_entries s i))
   }"

definition L2P_allocate_buf :: "u32 \<Rightarrow> buffer_state \<Rightarrow> (u32 \<times> buffer_state) option" where
  "L2P_allocate_buf lpn s = do {
     e \<leftarrow> list_empty (Some FreeHead) (buf_nodes s);
     (buf, s1) \<leftarrow>
       (if e = 1 then do {
          p \<leftarrow> node_prev (Some LruHead) (buf_nodes s);
          buf \<leftarrow> entry_of_lru p;
          s1 \<leftarrow> delete_hash_table_entry (buf_lpn (buffer_entries s buf)) s;
          s2 \<leftarrow> insert_hash_table_entry lpn buf (set_lpn buf lpn s1);
          s3 \<leftarrow> on_nodes (list_delete_tail (Some LruHead)) s2;
          s4 \<leftarrow> on_nodes (list_add_head (Some (LruNode buf)) (Some LruHead)) s3;
          Some (buf, s4)
        }
        else do {
          n \<leftarrow> node_next (Some FreeHead) (buf_nodes s);
          buf \<leftarrow> entry_of_free n;
          s1 \<leftarrow> on_nodes (list_delete_head (Some FreeHead)) s;
          s2 \<leftarrow> on_nodes (list_add_head (Some (LruNode buf)) (Some LruHead)) s1;
          s3 \<leftarrow> insert_hash_table_entry lpn buf s2;
          Some (buf, s3)
        });
     let s2 = set_lpn buf lpn s1;
     Some (buf_id (buffer_entries s2 buf), s2)
   }"

definition L2P_get_buffer_addr :: "u32 \<Rightarrow> u32 \<Rightarrow> u32" where
  "L2P_get_buffer_addr mem_base buff_id = buff_id * 16 * 1024 + BUFFER_BASE_ADDR mem_base"

text \<open>The two dump functions walk a list and print the id of each entry; the model returns the
  printed ids.\<close>

partial_function (option) dump_free_walk :: "buf_node ptr \<Rightarrow> buffer_state \<Rightarrow> u32 list option" where
  "dump_free_walk p s =
     (if p = Some FreeHead then Some []
      else do {
        i \<leftarrow> entry_of_free p;
        n \<leftarrow> node_next p (buf_nodes s);
        out \<leftarrow> dump_free_walk n s;
        Some (buf_id (buffer_entries s i) # out)
      })"

definition dump_free_buf_list :: "buffer_state \<Rightarrow> u32 list option" where
  "dump_free_buf_list s = do { n \<leftarrow> node_next (Some FreeHead) (buf_nodes s); dump_free_walk n s }"

partial_function (option) dump_lru_walk :: "buf_node ptr \<Rightarrow> buffer_state \<Rightarrow> u32 list option" where
  "dump_lru_walk p s =
     (if p = Some LruHead then Some []
      else do {
        i \<leftarrow> entry_of_lru p;
        n \<leftarrow> node_next p (buf_nodes s);
        out \<leftarrow> dump_lru_walk n s;
        Some (buf_id (buffer_entries s i) # out)
      })"

definition dump_lru_buf_list :: "buffer_state \<Rightarrow> u32 list option" where
  "dump_lru_buf_list s = do { n \<leftarrow> node_next (Some LruHead) (buf_nodes s); dump_lru_walk n s }"

section \<open>Buffers of a host command\<close>

definition L2P_get_hcmd_buff_cnt :: "u32 \<Rightarrow> buffer_state \<Rightarrow> u32 option" where
  "L2P_get_hcmd_buff_cnt hcmd_id s =
     (if unat hcmd_id < HCMD_TABLE_SIZE then Some (hcmd_buf_cnt s (unat hcmd_id)) else None)"

definition L2P_hcmd_add_buffer :: "u32 \<Rightarrow> u32 \<Rightarrow> u32 \<Rightarrow> buffer_state \<Rightarrow> buffer_state option" where
  "L2P_hcmd_add_buffer hcmd_id buffer_id lpn s =
     (let b = unat buffer_id; c = unat hcmd_id
      in if b < BUFFER_NUMBER \<and> c < HCMD_TABLE_SIZE then do {
           s1 \<leftarrow> on_nodes (list_add_tail (Some (HcmdNode b)) (Some (HcmdHead c))) (set_lpn b lpn s);
           Some (s1\<lparr>hcmd_buf_cnt := (hcmd_buf_cnt s1)(c := hcmd_buf_cnt s1 c + 1)\<rparr>)
         }
         else None)"

text \<open>The walk that both getters make: the entry at position \<open>offset\<close>, counting from
  \<open>tmp_cnt\<close>. Reaching the head ends the C function without a return value.\<close>

partial_function (option) hcmd_walk ::
  "nat \<Rightarrow> u32 \<Rightarrow> u32 \<Rightarrow> buf_node ptr \<Rightarrow> buffer_state \<Rightarrow> nat option" where
  "hcmd_walk c offset tmp_cnt p s =
     (if p = Some (HcmdHead c) then None
      else do {
        i \<leftarrow> entry_of_hcmd p;
        if offset \<le> tmp_cnt then Some i
        else do { n \<leftarrow> node_next p (buf_nodes s); hcmd_walk c offset (tmp_cnt + 1) n s }
      })"

definition L2P_hcmd_buf_get_lpn :: "u32 \<Rightarrow> u32 \<Rightarrow> buffer_state \<Rightarrow> u32 option" where
  "L2P_hcmd_buf_get_lpn hcmd_id buf_offset s =
     (if unat hcmd_id < HCMD_TABLE_SIZE then do {
        n \<leftarrow> node_next (Some (HcmdHead (unat hcmd_id))) (buf_nodes s);
        i \<leftarrow> hcmd_walk (unat hcmd_id) buf_offset 0 n s;
        Some (buf_lpn (buffer_entries s i))
      }
      else None)"

definition L2P_hcmd_get_buffer :: "u32 \<Rightarrow> u32 \<Rightarrow> buffer_state \<Rightarrow> u32 option" where
  "L2P_hcmd_get_buffer hcmd_index offset s =
     (if unat hcmd_index < HCMD_TABLE_SIZE then do {
        n \<leftarrow> node_next (Some (HcmdHead (unat hcmd_index))) (buf_nodes s);
        i \<leftarrow> hcmd_walk (unat hcmd_index) offset 0 n s;
        Some (buf_id (buffer_entries s i))
      }
      else None)"

partial_function (option) hcmd_free_loop :: "nat \<Rightarrow> buffer_state \<Rightarrow> buffer_state option" where
  "hcmd_free_loop c s = do {
     e \<leftarrow> list_empty (Some (HcmdHead c)) (buf_nodes s);
     if e = 0 then do {
       s' \<leftarrow> on_nodes (list_delete_tail (Some (HcmdHead c))) s;
       hcmd_free_loop c s'
     }
     else Some s
   }"

definition L2P_hcmd_free_buf :: "u32 \<Rightarrow> buffer_state \<Rightarrow> buffer_state option" where
  "L2P_hcmd_free_buf hcmd_index s =
     (let c = unat hcmd_index
      in if c < HCMD_TABLE_SIZE then do {
           s' \<leftarrow> hcmd_free_loop c s;
           Some (s'\<lparr>hcmd_buf_cnt := (hcmd_buf_cnt s')(c := 0)\<rparr>)
         }
         else None)"

section \<open>The lists the heap represents\<close>

text \<open>
  \<open>fs\<close>, \<open>ls\<close>: the entries of the free list and of the replacement list;
  \<open>hs\<close>, \<open>cs\<close>: those of each hash chain and of each command. Different chains, and
  the lists of different commands, share no entry.
\<close>

definition nodes_repr ::
  "buf_node list_heap \<Rightarrow> nat list \<Rightarrow> nat list \<Rightarrow> (nat \<Rightarrow> nat list) \<Rightarrow> (nat \<Rightarrow> nat list) \<Rightarrow> bool" where
  "nodes_repr h fs ls hs cs \<longleftrightarrow>
     dlist h FreeHead (map FreeNode fs) \<and> dlist h LruHead (map LruNode ls) \<and>
     (\<forall>v < HASH_TABLE_SIZE. dlist h (HashHead v) (map HashNode (hs v))) \<and>
     (\<forall>c < HCMD_TABLE_SIZE. dlist h (HcmdHead c) (map HcmdNode (cs c))) \<and>
     (\<forall>v < HASH_TABLE_SIZE. \<forall>w < HASH_TABLE_SIZE. v \<noteq> w \<longrightarrow> set (hs v) \<inter> set (hs w) = {}) \<and>
     (\<forall>c < HCMD_TABLE_SIZE. \<forall>d < HCMD_TABLE_SIZE. c \<noteq> d \<longrightarrow> set (cs c) \<inter> set (cs d) = {})"

lemma nodes_repr_chains_disjoint:
  "nodes_repr h fs ls hs cs \<Longrightarrow> v < HASH_TABLE_SIZE \<Longrightarrow> w < HASH_TABLE_SIZE \<Longrightarrow> w \<noteq> v \<Longrightarrow>
     set (hs v) \<inter> set (hs w) = {}"
  unfolding nodes_repr_def by blast

lemma nodes_repr_cmds_disjoint:
  "nodes_repr h fs ls hs cs \<Longrightarrow> c < HCMD_TABLE_SIZE \<Longrightarrow> d < HCMD_TABLE_SIZE \<Longrightarrow> d \<noteq> c \<Longrightarrow>
     set (cs c) \<inter> set (cs d) = {}"
  unfolding nodes_repr_def by blast

lemma nodes_repr_free:
  assumes "nodes_repr h fs ls hs cs" and "agree_off S h h'" and "S \<subseteq> insert FreeHead (range FreeNode)"
    and "dlist h' FreeHead (map FreeNode fs')"
  shows "nodes_repr h' fs' ls hs cs"
proof -
  have fr: "dlist h' r xs = dlist h r xs" if "insert FreeHead (range FreeNode) \<inter> set (r # xs) = {}" for r xs
    using that assms(3) by (intro dlist_frame [OF assms(2)]) blast
  have "dlist h' LruHead (map LruNode ls)"
    using assms(1) by (subst fr) (auto simp: nodes_repr_def)
  moreover have "dlist h' (HashHead v) (map HashNode (hs v))" if "v < HASH_TABLE_SIZE" for v
    using assms(1) that by (subst fr) (auto simp: nodes_repr_def)
  moreover have "dlist h' (HcmdHead c) (map HcmdNode (cs c))" if "c < HCMD_TABLE_SIZE" for c
    using assms(1) that by (subst fr) (auto simp: nodes_repr_def)
  ultimately show ?thesis using assms(1,4) by (simp add: nodes_repr_def)
qed

lemma nodes_repr_lru:
  assumes "nodes_repr h fs ls hs cs" and "agree_off S h h'" and "S \<subseteq> insert LruHead (range LruNode)"
    and "dlist h' LruHead (map LruNode ls')"
  shows "nodes_repr h' fs ls' hs cs"
proof -
  have fr: "dlist h' r xs = dlist h r xs" if "insert LruHead (range LruNode) \<inter> set (r # xs) = {}" for r xs
    using that assms(3) by (intro dlist_frame [OF assms(2)]) blast
  have "dlist h' FreeHead (map FreeNode fs)"
    using assms(1) by (subst fr) (auto simp: nodes_repr_def)
  moreover have "dlist h' (HashHead v) (map HashNode (hs v))" if "v < HASH_TABLE_SIZE" for v
    using assms(1) that by (subst fr) (auto simp: nodes_repr_def)
  moreover have "dlist h' (HcmdHead c) (map HcmdNode (cs c))" if "c < HCMD_TABLE_SIZE" for c
    using assms(1) that by (subst fr) (auto simp: nodes_repr_def)
  ultimately show ?thesis using assms(1,4) by (simp add: nodes_repr_def)
qed

lemma nodes_repr_hash:
  assumes "nodes_repr h fs ls hs cs" and "agree_off S h h'" and "S \<subseteq> insert (HashHead v) (HashNode ` A)"
    and "dlist h' (HashHead v) (map HashNode xs)" and "set xs \<subseteq> A"
    and "\<And>w. w < HASH_TABLE_SIZE \<Longrightarrow> w \<noteq> v \<Longrightarrow> A \<inter> set (hs w) = {}"
  shows "nodes_repr h' fs ls (hs(v := xs)) cs"
proof -
  have fr: "dlist h' r xs = dlist h r xs" if "insert (HashHead v) (HashNode ` A) \<inter> set (r # xs) = {}" for r xs
    using that assms(3) by (intro dlist_frame [OF assms(2)]) blast
  have "dlist h' (HashHead w) (map HashNode (hs w))" if "w < HASH_TABLE_SIZE" "w \<noteq> v" for w
    using assms(1) that assms(6) [OF that] by (subst fr) (auto simp: nodes_repr_def)
  moreover have "dlist h' FreeHead (map FreeNode fs)"
    using assms(1) by (subst fr) (auto simp: nodes_repr_def)
  moreover have "dlist h' LruHead (map LruNode ls)"
    using assms(1) by (subst fr) (auto simp: nodes_repr_def)
  moreover have "dlist h' (HcmdHead c) (map HcmdNode (cs c))" if "c < HCMD_TABLE_SIZE" for c
    using assms(1) that by (subst fr) (auto simp: nodes_repr_def)
  moreover have "set xs \<inter> set (hs w) = {}" if "w < HASH_TABLE_SIZE" "w \<noteq> v" for w
    using assms(5) assms(6) [OF that] by blast
  ultimately show ?thesis using assms(1,4) by (auto simp: nodes_repr_def)
qed

lemma nodes_repr_hcmd:
  assumes "nodes_repr h fs ls hs cs" and "agree_off S h h'" and "S \<subseteq> insert (HcmdHead c) (HcmdNode ` A)"
    and "dlist h' (HcmdHead c) (map HcmdNode xs)" and "set xs \<subseteq> A"
    and "\<And>d. d < HCMD_TABLE_SIZE \<Longrightarrow> d \<noteq> c \<Longrightarrow> A \<inter> set (cs d) = {}"
  shows "nodes_repr h' fs ls hs (cs(c := xs))"
proof -
  have fr: "dlist h' r xs = dlist h r xs" if "insert (HcmdHead c) (HcmdNode ` A) \<inter> set (r # xs) = {}" for r xs
    using that assms(3) by (intro dlist_frame [OF assms(2)]) blast
  have "dlist h' (HcmdHead d) (map HcmdNode (cs d))" if "d < HCMD_TABLE_SIZE" "d \<noteq> c" for d
    using assms(1) that assms(6) [OF that] by (subst fr) (auto simp: nodes_repr_def)
  moreover have "dlist h' FreeHead (map FreeNode fs)"
    using assms(1) by (subst fr) (auto simp: nodes_repr_def)
  moreover have "dlist h' LruHead (map LruNode ls)"
    using assms(1) by (subst fr) (auto simp: nodes_repr_def)
  moreover have "dlist h' (HashHead v) (map HashNode (hs v))" if "v < HASH_TABLE_SIZE" for v
    using assms(1) that by (subst fr) (auto simp: nodes_repr_def)
  moreover have "set xs \<inter> set (cs d) = {}" if "d < HCMD_TABLE_SIZE" "d \<noteq> c" for d
    using assms(5) assms(6) [OF that] by blast
  ultimately show ?thesis using assms(1,4) by (auto simp: nodes_repr_def)
qed

lemma free_take_head:
  assumes "nodes_repr h (f # fs) ls hs cs"
  shows "\<exists>h'. list_delete_head (Some FreeHead) h = Some h' \<and> nodes_repr h' fs ls hs cs"
proof -
  obtain h' where "list_delete_head (Some FreeHead) h = Some h'" "dlist h' FreeHead (map FreeNode fs)"
    "agree_off (set (FreeHead # FreeNode f # map FreeNode fs)) h h'"
    using list_delete_head_dlist [of h FreeHead "FreeNode f" "map FreeNode fs"] assms
    by (auto simp: nodes_repr_def)
  moreover from this(3) have "nodes_repr h' fs ls hs cs"
    by (rule nodes_repr_free [OF assms]) (use calculation in auto)
  ultimately show ?thesis by blast
qed

lemma free_add_tail:
  assumes "nodes_repr h fs ls hs cs" and "i \<notin> set fs"
  shows "\<exists>h'. list_add_tail (Some (FreeNode i)) (Some FreeHead) h = Some h' \<and>
    nodes_repr h' (fs @ [i]) ls hs cs"
proof -
  obtain h' where "list_add_tail (Some (FreeNode i)) (Some FreeHead) h = Some h'"
    "dlist h' FreeHead (map FreeNode fs @ [FreeNode i])"
    "agree_off (set (FreeNode i # FreeHead # map FreeNode fs)) h h'"
    using list_add_tail_dlist [of h FreeHead "map FreeNode fs" "FreeNode i"] assms
    by (auto simp: nodes_repr_def)
  moreover from this(3) have "nodes_repr h' (fs @ [i]) ls hs cs"
    by (rule nodes_repr_free [OF assms(1)]) (use calculation in auto)
  ultimately show ?thesis by blast
qed

lemma lru_add_head:
  assumes "nodes_repr h fs ls hs cs" and "i \<notin> set ls"
  shows "\<exists>h'. list_add_head (Some (LruNode i)) (Some LruHead) h = Some h' \<and>
    nodes_repr h' fs (i # ls) hs cs"
proof -
  obtain h' where "list_add_head (Some (LruNode i)) (Some LruHead) h = Some h'"
    "dlist h' LruHead (LruNode i # map LruNode ls)"
    "agree_off (set (LruNode i # LruHead # map LruNode ls)) h h'"
    using list_add_head_dlist [of h LruHead "map LruNode ls" "LruNode i"] assms
    by (auto simp: nodes_repr_def)
  moreover from this(3) have "nodes_repr h' fs (i # ls) hs cs"
    by (rule nodes_repr_lru [OF assms(1)]) (use calculation in auto)
  ultimately show ?thesis by blast
qed

lemma lru_drop_tail:
  assumes "nodes_repr h fs (ls @ [v]) hs cs"
  shows "\<exists>h'. list_delete_tail (Some LruHead) h = Some h' \<and> nodes_repr h' fs ls hs cs"
proof -
  obtain h' where "list_delete_tail (Some LruHead) h = Some h'" "dlist h' LruHead (map LruNode ls)"
    "agree_off (set (LruHead # map LruNode ls @ [LruNode v])) h h'"
    using list_delete_tail_dlist [of h LruHead "map LruNode ls" "LruNode v"] assms
    by (auto simp: nodes_repr_def)
  moreover from this(3) have "nodes_repr h' fs ls hs cs"
    by (rule nodes_repr_lru [OF assms]) (use calculation in auto)
  ultimately show ?thesis by blast
qed

lemma hash_add:
  assumes "nodes_repr h fs ls hs cs" and "v < HASH_TABLE_SIZE"
    and "\<And>w. w < HASH_TABLE_SIZE \<Longrightarrow> i \<notin> set (hs w)"
  shows "\<exists>h'. list_add_tail (Some (HashNode i)) (Some (HashHead v)) h = Some h' \<and>
    nodes_repr h' fs ls (hs(v := hs v @ [i])) cs"
proof -
  have "dlist h (HashHead v) (map HashNode (hs v))" using assms by (simp add: nodes_repr_def)
  then obtain h' where h': "list_add_tail (Some (HashNode i)) (Some (HashHead v)) h = Some h'"
    "dlist h' (HashHead v) (map HashNode (hs v) @ [HashNode i])"
    "agree_off (set (HashNode i # HashHead v # map HashNode (hs v))) h h'"
    using list_add_tail_dlist [of h "HashHead v" "map HashNode (hs v)" "HashNode i"] assms(2,3) by auto
  have "nodes_repr h' fs ls (hs(v := hs v @ [i])) cs"
  proof (rule nodes_repr_hash [OF assms(1) h'(3), where A = "insert i (set (hs v))"])
    show "insert i (set (hs v)) \<inter> set (hs w) = {}" if "w < HASH_TABLE_SIZE" "w \<noteq> v" for w
      using assms that by (auto simp: nodes_repr_def)
  qed (use h' in auto)
  with h' show ?thesis by blast
qed

lemma hash_del:
  assumes "nodes_repr h fs ls hs cs" and "v < HASH_TABLE_SIZE" and "hs v = xs @ i # ys"
  shows "\<exists>h'. list_delete (Some (HashNode i)) h = Some h' \<and>
    nodes_repr h' fs ls (hs(v := xs @ ys)) cs"
proof -
  have "dlist h (HashHead v) (map HashNode (hs v))" using assms(1,2) by (simp add: nodes_repr_def)
  then have "dlist h (HashHead v) (map HashNode xs @ HashNode i # map HashNode ys)"
    by (simp add: assms(3))
  from list_delete_dlist [OF this] obtain h' where h': "list_delete (Some (HashNode i)) h = Some h'"
    "dlist h' (HashHead v) (map HashNode xs @ map HashNode ys)"
    "agree_off (set (HashHead v # map HashNode xs @ HashNode i # map HashNode ys)) h h'"
    by blast
  have "nodes_repr h' fs ls (hs(v := xs @ ys)) cs"
  proof (rule nodes_repr_hash [OF assms(1) h'(3), where A = "set (hs v)"])
    show "set (hs v) \<inter> set (hs w) = {}" if "w < HASH_TABLE_SIZE" "w \<noteq> v" for w
      using assms(1,2) that by (rule nodes_repr_chains_disjoint)
  qed (use h' assms(3) in auto)
  with h' show ?thesis by blast
qed

lemma hcmd_add:
  assumes "nodes_repr h fs ls hs cs" and "c < HCMD_TABLE_SIZE"
    and "\<And>d. d < HCMD_TABLE_SIZE \<Longrightarrow> i \<notin> set (cs d)"
  shows "\<exists>h'. list_add_tail (Some (HcmdNode i)) (Some (HcmdHead c)) h = Some h' \<and>
    nodes_repr h' fs ls hs (cs(c := cs c @ [i]))"
proof -
  have "dlist h (HcmdHead c) (map HcmdNode (cs c))" using assms by (simp add: nodes_repr_def)
  then obtain h' where h': "list_add_tail (Some (HcmdNode i)) (Some (HcmdHead c)) h = Some h'"
    "dlist h' (HcmdHead c) (map HcmdNode (cs c) @ [HcmdNode i])"
    "agree_off (set (HcmdNode i # HcmdHead c # map HcmdNode (cs c))) h h'"
    using list_add_tail_dlist [of h "HcmdHead c" "map HcmdNode (cs c)" "HcmdNode i"] assms(2,3) by auto
  have "nodes_repr h' fs ls hs (cs(c := cs c @ [i]))"
  proof (rule nodes_repr_hcmd [OF assms(1) h'(3), where A = "insert i (set (cs c))"])
    show "insert i (set (cs c)) \<inter> set (cs d) = {}" if "d < HCMD_TABLE_SIZE" "d \<noteq> c" for d
      using assms that by (auto simp: nodes_repr_def)
  qed (use h' in auto)
  with h' show ?thesis by blast
qed

lemma hcmd_drop_tail:
  assumes "nodes_repr h fs ls hs cs" and "c < HCMD_TABLE_SIZE" and "cs c = xs @ [i]"
  shows "\<exists>h'. list_delete_tail (Some (HcmdHead c)) h = Some h' \<and> nodes_repr h' fs ls hs (cs(c := xs))"
proof -
  have "dlist h (HcmdHead c) (map HcmdNode (cs c))" using assms(1,2) by (simp add: nodes_repr_def)
  then have "dlist h (HcmdHead c) (map HcmdNode xs @ [HcmdNode i])" by (simp add: assms(3))
  from list_delete_tail_dlist [OF this] obtain h' where h': "list_delete_tail (Some (HcmdHead c)) h = Some h'"
    "dlist h' (HcmdHead c) (map HcmdNode xs)"
    "agree_off (set (HcmdHead c # map HcmdNode xs @ [HcmdNode i])) h h'"
    by blast
  have "nodes_repr h' fs ls hs (cs(c := xs))"
  proof (rule nodes_repr_hcmd [OF assms(1) h'(3), where A = "set (cs c)"])
    show "set (cs c) \<inter> set (cs d) = {}" if "d < HCMD_TABLE_SIZE" "d \<noteq> c" for d
      using assms(1,2) that by (rule nodes_repr_cmds_disjoint)
  qed (use h' assms(3) in auto)
  with h' show ?thesis by blast
qed

section \<open>Walks along well-formed lists\<close>

lemma hash_walk_lseg:
  assumes "lseg (buf_nodes s) q (map HashNode vs) (HashHead v)" and "\<forall>i \<in> set vs. i < BUFFER_NUMBER"
  shows "hash_walk key v (list_next (buf_nodes s) q) s =
    Some (find (\<lambda>i. buf_lpn (buffer_entries s i) = key) vs)"
  using assms
proof (induction vs arbitrary: q)
  case Nil
  then show ?case by (simp add: hash_walk.simps)
next
  case (Cons i vs)
  have "hash_walk key v (list_next (buf_nodes s) (HashNode i)) s =
      Some (find (\<lambda>i. buf_lpn (buffer_entries s i) = key) vs)"
    using Cons by (intro Cons.IH) auto
  moreover have "list_next (buf_nodes s) q = Some (HashNode i)" using Cons.prems by simp
  ultimately show ?case
    using Cons.prems(2) by (simp add: hash_walk.simps [of _ _ "Some (HashNode i)"] entry_of_hash_def node_next_def)
qed

lemma search_hash:
  assumes "dlist (buf_nodes s) (HashHead (hash_slot key)) (map HashNode vs)"
    and "\<forall>i \<in> set vs. i < BUFFER_NUMBER"
  shows "search_hash_table_entry key s = Some (find (\<lambda>i. buf_lpn (buffer_entries s i) = key) vs)"
  using assms hash_walk_lseg [of s "HashHead (hash_slot key)" vs]
  by (simp add: search_hash_table_entry_def node_next_def dlist_def)

lemma hcmd_walk_lseg:
  assumes "lseg (buf_nodes s) q (map HcmdNode vs) (HcmdHead c)" and "\<forall>i \<in> set vs. i < BUFFER_NUMBER"
    and "unat k \<le> unat off" and "unat k + length vs < 2 ^ 32"
  shows "hcmd_walk c off k (list_next (buf_nodes s) q) s =
    (if unat off - unat k < length vs then Some (vs ! (unat off - unat k)) else None)"
  using assms
proof (induction vs arbitrary: q k)
  case Nil
  then show ?case by (simp add: hcmd_walk.simps)
next
  case (Cons i vs)
  have nx: "list_next (buf_nodes s) q = Some (HcmdNode i)" using Cons.prems by simp
  have i: "entry_of_hcmd (Some (HcmdNode i)) = Some i" using Cons.prems by (simp add: entry_of_hcmd_def)
  show ?case
  proof (cases "off \<le> k")
    case True
    then have "unat off = unat k" using Cons.prems(3) by (simp add: word_le_nat_alt)
    with True nx i show ?thesis by (simp add: hcmd_walk.simps [of _ _ _ "Some (HcmdNode i)"])
  next
    case False
    then have lt: "unat k < unat off" by (simp add: word_le_nat_alt)
    have k1: "unat (k + 1) = Suc (unat k)" using Cons.prems(4) by (simp add: unat_word_ariths)
    have "hcmd_walk c off (k + 1) (list_next (buf_nodes s) (HcmdNode i)) s =
        (if unat off - unat (k + 1) < length vs then Some (vs ! (unat off - unat (k + 1))) else None)"
      using Cons.prems lt k1 by (intro Cons.IH) auto
    moreover have "unat off - unat k = Suc (unat off - unat (k + 1))" using lt k1 by simp
    ultimately show ?thesis
      using nx i False by (simp add: hcmd_walk.simps [of _ _ _ "Some (HcmdNode i)"] node_next_def)
  qed
qed

lemma hcmd_free_loop_empties:
  assumes "nodes_repr (buf_nodes s) fs ls hs cs" and "c < HCMD_TABLE_SIZE"
  shows "\<exists>s'. hcmd_free_loop c s = Some s' \<and> nodes_repr (buf_nodes s') fs ls hs (cs(c := [])) \<and>
    s' = s\<lparr>buf_nodes := buf_nodes s'\<rparr>"
  using assms
proof (induction "cs c" arbitrary: s cs rule: rev_induct)
  case Nil
  have "dlist (buf_nodes s) (HcmdHead c) (map HcmdNode (cs c))" using Nil.prems by (simp add: nodes_repr_def)
  then have "dlist (buf_nodes s) (HcmdHead c) []" by (simp add: Nil.hyps [symmetric])
  then have "list_empty (Some (HcmdHead c)) (buf_nodes s) = Some 1" using dlist_list_empty by fastforce
  moreover have "cs(c := []) = cs" using Nil.hyps by (auto simp: fun_eq_iff)
  ultimately show ?case using Nil.prems by (simp add: hcmd_free_loop.simps [of c s])
next
  case (snoc i xs)
  have cs: "cs c = xs @ [i]" using snoc.hyps(2) by simp
  have "dlist (buf_nodes s) (HcmdHead c) (map HcmdNode (cs c))" using snoc.prems by (simp add: nodes_repr_def)
  then have e: "list_empty (Some (HcmdHead c)) (buf_nodes s) = Some 0"
    using dlist_list_empty by (fastforce simp: cs)
  obtain h' where h': "list_delete_tail (Some (HcmdHead c)) (buf_nodes s) = Some h'"
    "nodes_repr h' fs ls hs (cs(c := xs))"
    using hcmd_drop_tail [OF snoc.prems cs] by blast
  obtain s' where s': "hcmd_free_loop c (s\<lparr>buf_nodes := h'\<rparr>) = Some s'"
    "nodes_repr (buf_nodes s') fs ls hs ((cs(c := xs))(c := []))"
    "s' = s\<lparr>buf_nodes := h', buf_nodes := buf_nodes s'\<rparr>"
    using snoc.hyps(1) [of "cs(c := xs)" "s\<lparr>buf_nodes := h'\<rparr>"] h'(2) snoc.prems(2) by auto
  with e h'(1) show ?case by (simp add: hcmd_free_loop.simps [of c s] on_nodes_def)
qed

section \<open>The cache the buffers implement\<close>

text \<open>
  The abstract cache: the buffers never used so far, in the order they will be handed out, and the
  cached pages with their buffers, the newest first.
\<close>

type_synonym cache = "nat list \<times> (u32 \<times> nat) list"

definition cache_lookup :: "u32 \<Rightarrow> cache \<Rightarrow> nat option" where
  "cache_lookup lpn a = map_of (snd a) lpn"

definition cache_alloc :: "u32 \<Rightarrow> cache \<Rightarrow> nat \<times> cache" where
  "cache_alloc lpn a = (case a of
     (f # fs, es) \<Rightarrow> (f, fs, (lpn, f) # es)
   | ([], es) \<Rightarrow> (snd (last es), [], (lpn, snd (last es)) # butlast es))"

definition cache_repr :: "buffer_state \<Rightarrow> cache \<Rightarrow> (nat \<Rightarrow> nat list) \<Rightarrow> bool" where
  "cache_repr s a cs \<longleftrightarrow> (case a of (fs, es) \<Rightarrow>
     (\<exists>hs. nodes_repr (buf_nodes s) fs (map snd es) hs cs \<and>
        (\<forall>v < HASH_TABLE_SIZE. set (hs v) = snd ` {e \<in> set es. hash_slot (fst e) = v})) \<and>
     distinct (fs @ map snd es) \<and> set (fs @ map snd es) = {..<BUFFER_NUMBER} \<and>
     distinct (map fst es) \<and> (\<forall>e \<in> set es. buf_lpn (buffer_entries s (snd e)) = fst e) \<and>
     (\<forall>i < BUFFER_NUMBER. buf_id (buffer_entries s i) = of_nat i) \<and>
     (\<forall>c < HCMD_TABLE_SIZE. set (cs c) \<subseteq> {..<BUFFER_NUMBER}))"

lemma cache_repr_lookup_iff:
  assumes "cache_repr s (fs, es) cs"
  shows "cache_lookup lpn (fs, es) = Some i \<longleftrightarrow> (lpn, i) \<in> set es"
  using assms by (auto simp: cache_repr_def cache_lookup_def)

lemma cache_repr_entry:
  assumes "cache_repr s (fs, es) cs" and "(l, i) \<in> set es"
  shows "i < BUFFER_NUMBER" and "buf_lpn (buffer_entries s i) = l" and "buf_id (buffer_entries s i) = of_nat i"
proof -
  have "i \<in> set (fs @ map snd es)" using assms(2) by force
  then show i: "i < BUFFER_NUMBER" using assms(1) unfolding cache_repr_def by blast
  show "buf_id (buffer_entries s i) = of_nat i" using assms(1) i by (simp add: cache_repr_def)
  show "buf_lpn (buffer_entries s i) = l" using assms by (auto simp: cache_repr_def)
qed

lemma hash_slot_bound [simp]: "hash_slot key < HASH_TABLE_SIZE"
  by (simp add: hash_slot_def get_hash_code_def HASH_TABLE_SIZE_def unat_mod)

text \<open>In the chain of \<open>key\<close> the walk stops at the buffer that caches \<open>key\<close>.\<close>

lemma find_in_chain:
  assumes "set vs = snd ` {e \<in> set es. hash_slot (fst e) = hash_slot key}"
    and "\<forall>e \<in> set es. lpn_of (snd e) = fst e" and "distinct (map fst es)" and "distinct (map snd es)"
  shows "find (\<lambda>i. lpn_of i = key) vs = map_of es key"
proof (cases "map_of es key")
  case None
  then have "\<forall>i \<in> set vs. lpn_of i \<noteq> key"
    using assms by (auto simp: map_of_eq_None_iff image_iff)
  then show ?thesis using None by (auto simp: find_None_iff)
next
  case (Some i)
  then have m: "(key, i) \<in> set es" by (rule map_of_SomeD)
  have "i \<in> set vs" unfolding assms(1) using m by force
  moreover have "lpn_of i = key" using assms(2) m by fastforce
  ultimately have "find (\<lambda>i. lpn_of i = key) vs \<noteq> None" by (auto simp: find_None_iff)
  then obtain j where j: "find (\<lambda>i. lpn_of i = key) vs = Some j" by blast
  then have "j \<in> set vs \<and> lpn_of j = key" unfolding find_Some_iff by auto
  then have "j \<in> set vs" "lpn_of j = key" by simp_all
  from this(1) obtain e where "e \<in> set es" "j = snd e" unfolding assms(1) by blast
  with \<open>lpn_of j = key\<close> have "(key, j) \<in> set es" using assms(2) by (cases e) auto
  then have "map_of es key = Some j" using assms(3) by simp
  with j show ?thesis by simp
qed

lemma cache_repr_search:
  assumes "cache_repr s a cs"
  shows "search_hash_table_entry lpn s = Some (cache_lookup lpn a)"
proof -
  obtain fs es where a: "a = (fs, es)" by force
  from assms obtain hs where hs: "nodes_repr (buf_nodes s) fs (map snd es) hs cs"
    "\<forall>v < HASH_TABLE_SIZE. set (hs v) = snd ` {e \<in> set es. hash_slot (fst e) = v}"
    unfolding cache_repr_def a by auto
  let ?vs = "hs (hash_slot lpn)"
  have vs: "set ?vs = snd ` {e \<in> set es. hash_slot (fst e) = hash_slot lpn}" using hs(2) by simp
  then have "\<forall>i \<in> set ?vs. i < BUFFER_NUMBER" using cache_repr_entry(1) [OF assms [unfolded a]] by auto
  moreover have "dlist (buf_nodes s) (HashHead (hash_slot lpn)) (map HashNode ?vs)"
    using hs(1) by (simp add: nodes_repr_def)
  ultimately have "search_hash_table_entry lpn s =
      Some (find (\<lambda>i. buf_lpn (buffer_entries s i) = lpn) ?vs)" by (intro search_hash)
  also have "find (\<lambda>i. buf_lpn (buffer_entries s i) = lpn) ?vs = map_of es lpn"
    using assms vs by (intro find_in_chain) (auto simp: cache_repr_def a)
  finally show ?thesis by (simp add: cache_lookup_def a)
qed

lemma check_buf_hit_cache:
  assumes "cache_repr s a cs"
  shows "L2P_check_buf_hit lpn s =
    Some (case cache_lookup lpn a of None \<Rightarrow> INVALID_ID | Some i \<Rightarrow> of_nat i)"
proof (cases "cache_lookup lpn a")
  case (Some i)
  obtain fs es where a: "a = (fs, es)" by force
  have "(lpn, i) \<in> set es" using Some cache_repr_lookup_iff assms by (simp add: a)
  from cache_repr_entry(3) [OF assms [unfolded a] this] show ?thesis
    using Some by (simp add: L2P_check_buf_hit_def cache_repr_search [OF assms])
qed (simp add: L2P_check_buf_hit_def cache_repr_search [OF assms])

text \<open>What both branches of the allocation end with: buffer \<open>i\<close>, in no list, becomes the
  newest cached buffer.\<close>

lemma cache_repr_insert:
  assumes "nodes_repr h fs (i # map snd es) (hs(hash_slot lpn := hs (hash_slot lpn) @ [i])) cs"
    and "\<forall>v < HASH_TABLE_SIZE. set (hs v) = snd ` {e \<in> set es. hash_slot (fst e) = v}"
    and "distinct (fs @ i # map snd es)" and "set (fs @ i # map snd es) = {..<BUFFER_NUMBER}"
    and "distinct (map fst es)" and "lpn \<notin> fst ` set es"
    and "\<forall>e \<in> set es. buf_lpn (buffer_entries s (snd e)) = fst e"
    and "\<forall>j < BUFFER_NUMBER. buf_id (buffer_entries s j) = of_nat j"
    and "\<forall>c < HCMD_TABLE_SIZE. set (cs c) \<subseteq> {..<BUFFER_NUMBER}"
    and "buf_nodes s = h"
  shows "cache_repr (set_lpn i lpn s) (fs, (lpn, i) # es) cs"
proof -
  let ?hs = "hs(hash_slot lpn := hs (hash_slot lpn) @ [i])"
  have "set (?hs v) = snd ` {e \<in> set ((lpn, i) # es). hash_slot (fst e) = v}" if "v < HASH_TABLE_SIZE" for v
  proof (cases "v = hash_slot lpn")
    case True
    then have "{e \<in> set ((lpn, i) # es). hash_slot (fst e) = v} =
        insert (lpn, i) {e \<in> set es. hash_slot (fst e) = v}" by auto
    then show ?thesis using True assms(2) by simp
  next
    case False
    then have "{e \<in> set ((lpn, i) # es). hash_slot (fst e) = v} = {e \<in> set es. hash_slot (fst e) = v}" by auto
    then show ?thesis using False assms(2) that by simp
  qed
  moreover have "\<forall>e \<in> set ((lpn, i) # es). buf_lpn (buffer_entries (set_lpn i lpn s) (snd e)) = fst e"
    using assms(3,7) by (auto simp: set_lpn_def)
  moreover have "buf_id (buffer_entries (set_lpn i lpn s) j) = of_nat j" if "j < BUFFER_NUMBER" for j
    using assms(8) that by (simp add: set_lpn_def)
  moreover have "distinct (map fst ((lpn, i) # es))" using assms(5,6) by simp
  moreover have "buf_nodes (set_lpn i lpn s) = h" by (simp add: set_lpn_def assms(10))
  ultimately show ?thesis
    using assms(1,3,4,9) unfolding cache_repr_def prod.case by (intro conjI exI [of _ ?hs]) simp_all
qed

lemma cache_reprE:
  assumes "cache_repr s (fs, es) cs"
  obtains hs where "nodes_repr (buf_nodes s) fs (map snd es) hs cs"
    "\<forall>v < HASH_TABLE_SIZE. set (hs v) = snd ` {e \<in> set es. hash_slot (fst e) = v}"
    "distinct (fs @ map snd es)" "set (fs @ map snd es) = {..<BUFFER_NUMBER}"
    "distinct (map fst es)" "\<forall>e \<in> set es. buf_lpn (buffer_entries s (snd e)) = fst e"
    "\<forall>j < BUFFER_NUMBER. buf_id (buffer_entries s j) = of_nat j"
    "\<forall>c < HCMD_TABLE_SIZE. set (cs c) \<subseteq> {..<BUFFER_NUMBER}"
  using assms unfolding cache_repr_def prod.case by blast

lemma nodes_repr_free_empty:
  "nodes_repr h fs ls hs cs \<Longrightarrow> list_empty (Some FreeHead) h = Some (if fs = [] then 1 else 0)"
  using dlist_list_empty [of h FreeHead "map FreeNode fs"] by (simp add: nodes_repr_def)

lemma allocate_from_free:
  assumes "cache_repr s (i # fs, es) cs" and "lpn \<notin> fst ` set es"
  shows "\<exists>s'. L2P_allocate_buf lpn s = Some (of_nat i, s') \<and> cache_repr s' (fs, (lpn, i) # es) cs \<and>
    hcmd_buf_cnt s' = hcmd_buf_cnt s"
proof -
  obtain hs where R: "nodes_repr (buf_nodes s) (i # fs) (map snd es) hs cs"
    and H: "\<forall>v < HASH_TABLE_SIZE. set (hs v) = snd ` {e \<in> set es. hash_slot (fst e) = v}"
    and D: "distinct ((i # fs) @ map snd es)" and S: "set ((i # fs) @ map snd es) = {..<BUFFER_NUMBER}"
    and F: "distinct (map fst es)" "\<forall>e \<in> set es. buf_lpn (buffer_entries s (snd e)) = fst e"
      "\<forall>j < BUFFER_NUMBER. buf_id (buffer_entries s j) = of_nat j"
      "\<forall>c < HCMD_TABLE_SIZE. set (cs c) \<subseteq> {..<BUFFER_NUMBER}"
    using assms(1) by (rule cache_reprE)
  have i: "i < BUFFER_NUMBER" using S by (auto simp: set_eq_iff)
  have e: "list_empty (Some FreeHead) (buf_nodes s) = Some 0" using nodes_repr_free_empty [OF R] by simp
  have n: "list_next (buf_nodes s) FreeHead = Some (FreeNode i)"
    using R by (simp add: nodes_repr_def dlist_def)
  obtain h1 where h1: "list_delete_head (Some FreeHead) (buf_nodes s) = Some h1"
    "nodes_repr h1 fs (map snd es) hs cs" using free_take_head [OF R] by blast
  obtain h2 where h2: "list_add_head (Some (LruNode i)) (Some LruHead) h1 = Some h2"
    "nodes_repr h2 fs (i # map snd es) hs cs" using lru_add_head [OF h1(2), of i] D by auto
  have "i \<notin> set (hs w)" if "w < HASH_TABLE_SIZE" for w using D H that by auto
  then obtain h3 where h3: "list_add_tail (Some (HashNode i)) (Some (HashHead (hash_slot lpn))) h2 = Some h3"
    "nodes_repr h3 fs (i # map snd es) (hs(hash_slot lpn := hs (hash_slot lpn) @ [i])) cs"
    using hash_add [OF h2(2) hash_slot_bound] by blast
  let ?s = "set_lpn i lpn (s\<lparr>buf_nodes := h3\<rparr>)"
  have "cache_repr ?s (fs, (lpn, i) # es) cs"
    using D S F assms(2) by (intro cache_repr_insert [OF h3(2) H]) auto
  moreover have "L2P_allocate_buf lpn s = Some (of_nat i, ?s)"
    using e n i h1(1) h2(1) h3(1) F(3)
    by (simp add: L2P_allocate_buf_def node_next_def entry_of_free_def on_nodes_def
        insert_hash_table_entry_def set_lpn_def)
  ultimately show ?thesis by (auto simp: set_lpn_def)
qed

lemma delete_hash_entry:
  assumes "cache_repr s (fs, es) cs" and "(l, i) \<in> set es"
    and "nodes_repr (buf_nodes s) fs ls hs cs" and "hs (hash_slot l) = xs @ i # ys"
    and "set (hs (hash_slot l)) = snd ` {e \<in> set es. hash_slot (fst e) = hash_slot l}"
  shows "\<exists>h'. delete_hash_table_entry l s = Some (s\<lparr>buf_nodes := h'\<rparr>) \<and>
    nodes_repr h' fs ls (hs(hash_slot l := xs @ ys)) cs"
proof -
  have "search_hash_table_entry l s = Some (Some i)"
    using cache_repr_search [OF assms(1)] cache_repr_lookup_iff [OF assms(1)] assms(2) by simp
  then have w: "(node_next (Some (HashHead (hash_slot l))) (buf_nodes s) \<bind>
      (\<lambda>n. hash_walk l (hash_slot l) n s)) = Some (Some i)"
    by (simp add: search_hash_table_entry_def)
  from hash_del [OF assms(3) hash_slot_bound assms(4)] obtain h' where
    "list_delete (Some (HashNode i)) (buf_nodes s) = Some h'"
    "nodes_repr h' fs ls (hs(hash_slot l := xs @ ys)) cs" by blast
  then show ?thesis
    using w by (auto simp: delete_hash_table_entry_def node_next_def on_nodes_def)
qed

lemma chain_without:
  assumes "set (xs @ i # ys) = snd ` {e \<in> set (es @ [(l, i)]). hash_slot (fst e) = hash_slot l}"
    and "distinct (xs @ i # ys)" and "i \<notin> snd ` set es"
  shows "set (xs @ ys) = snd ` {e \<in> set es. hash_slot (fst e) = hash_slot l}"
proof -
  have "{e \<in> set (es @ [(l, i)]). hash_slot (fst e) = hash_slot l} =
      insert (l, i) {e \<in> set es. hash_slot (fst e) = hash_slot l}" by auto
  then have "insert i (set (xs @ ys)) = insert i (snd ` {e \<in> set es. hash_slot (fst e) = hash_slot l})"
    using assms(1) by simp
  moreover have "i \<notin> set (xs @ ys)" using assms(2) by simp
  moreover have "i \<notin> snd ` {e \<in> set es. hash_slot (fst e) = hash_slot l}" using assms(3) by auto
  ultimately show ?thesis by (simp add: insert_ident)
qed

lemma chains_after_delete:
  assumes "\<forall>v < HASH_TABLE_SIZE. set (hs v) = snd ` {e \<in> set (es @ [(l, i)]). hash_slot (fst e) = v}"
    and "hs (hash_slot l) = xs @ i # ys" and "distinct (hs (hash_slot l))" and "i \<notin> snd ` set es"
  shows "\<forall>v < HASH_TABLE_SIZE. set ((hs(hash_slot l := xs @ ys)) v) = snd ` {e \<in> set es. hash_slot (fst e) = v}"
proof (intro allI impI)
  fix v assume v: "v < HASH_TABLE_SIZE"
  show "set ((hs(hash_slot l := xs @ ys)) v) = snd ` {e \<in> set es. hash_slot (fst e) = v}"
  proof (cases "v = hash_slot l")
    case True
    have "set (xs @ i # ys) = snd ` {e \<in> set (es @ [(l, i)]). hash_slot (fst e) = hash_slot l}"
      using assms(1) [rule_format, OF hash_slot_bound [of l]] unfolding assms(2) .
    from chain_without [OF this _ assms(4)] assms(3) show ?thesis unfolding assms(2) True by simp
  next
    case False
    then have "{e \<in> set (es @ [(l, i)]). hash_slot (fst e) = v} = {e \<in> set es. hash_slot (fst e) = v}" by auto
    then show ?thesis using assms(1) v False by simp
  qed
qed

lemma allocate_by_eviction:
  assumes "cache_repr s ([], es @ [(l, i)]) cs" and "lpn \<notin> fst ` set es"
  shows "\<exists>s'. L2P_allocate_buf lpn s = Some (of_nat i, s') \<and> cache_repr s' ([], (lpn, i) # es) cs \<and>
    hcmd_buf_cnt s' = hcmd_buf_cnt s"
proof -
  obtain hs where R: "nodes_repr (buf_nodes s) [] (map snd (es @ [(l, i)])) hs cs"
    and H: "\<forall>v < HASH_TABLE_SIZE. set (hs v) = snd ` {e \<in> set (es @ [(l, i)]). hash_slot (fst e) = v}"
    and D: "distinct ([] @ map snd (es @ [(l, i)]))" and S: "set ([] @ map snd (es @ [(l, i)])) = {..<BUFFER_NUMBER}"
    and F: "distinct (map fst (es @ [(l, i)]))" "\<forall>e \<in> set (es @ [(l, i)]). buf_lpn (buffer_entries s (snd e)) = fst e"
      "\<forall>j < BUFFER_NUMBER. buf_id (buffer_entries s j) = of_nat j"
      "\<forall>c < HCMD_TABLE_SIZE. set (cs c) \<subseteq> {..<BUFFER_NUMBER}"
    using assms(1) by (rule cache_reprE)
  have i: "i < BUFFER_NUMBER" "buf_lpn (buffer_entries s i) = l"
    using cache_repr_entry [OF assms(1), of l i] by auto
  have e: "list_empty (Some FreeHead) (buf_nodes s) = Some 1" using nodes_repr_free_empty [OF R] by simp
  have p: "list_prev (buf_nodes s) LruHead = Some (LruNode i)"
    using R dlist_prev_head [of "buf_nodes s" LruHead "map LruNode (map snd es) @ [LruNode i]"]
    by (simp add: nodes_repr_def)
  have "i \<in> set (hs (hash_slot l))" using H by force
  then obtain xs ys where c: "hs (hash_slot l) = xs @ i # ys" by (auto simp: in_set_conv_decomp)
  have "set (hs (hash_slot l)) = snd ` {e \<in> set (es @ [(l, i)]). hash_slot (fst e) = hash_slot l}" using H by simp
  from delete_hash_entry [OF assms(1) _ R c this] obtain h1 where
    h1: "delete_hash_table_entry l s = Some (s\<lparr>buf_nodes := h1\<rparr>)"
      "nodes_repr h1 [] (map snd es @ [i]) (hs(hash_slot l := xs @ ys)) cs" by auto
  let ?hs = "hs(hash_slot l := xs @ ys)"
  have "dlist (buf_nodes s) (HashHead (hash_slot l)) (map HashNode (hs (hash_slot l)))"
    using R by (simp add: nodes_repr_def)
  then have "distinct (hs (hash_slot l))" by (auto simp: dlist_def distinct_map)
  then have H': "\<forall>v < HASH_TABLE_SIZE. set (?hs v) = snd ` {e \<in> set es. hash_slot (fst e) = v}"
    using chains_after_delete [OF H c] D by auto
  have "i \<notin> set (?hs w)" if "w < HASH_TABLE_SIZE" for w using H' D that by (auto simp del: fun_upd_apply)
  then obtain h2 where h2: "list_add_tail (Some (HashNode i)) (Some (HashHead (hash_slot lpn))) h1 = Some h2"
    "nodes_repr h2 [] (map snd es @ [i]) (?hs(hash_slot lpn := ?hs (hash_slot lpn) @ [i])) cs"
    using hash_add [OF h1(2) hash_slot_bound] by blast
  obtain h3 where h3: "list_delete_tail (Some LruHead) h2 = Some h3"
    "nodes_repr h3 [] (map snd es) (?hs(hash_slot lpn := ?hs (hash_slot lpn) @ [i])) cs"
    using lru_drop_tail [OF h2(2)] by blast
  obtain h4 where h4: "list_add_head (Some (LruNode i)) (Some LruHead) h3 = Some h4"
    "nodes_repr h4 [] (i # map snd es) (?hs(hash_slot lpn := ?hs (hash_slot lpn) @ [i])) cs"
    using lru_add_head [OF h3(2), of i] D by auto
  let ?s = "set_lpn i lpn (s\<lparr>buf_nodes := h4\<rparr>)"
  have "cache_repr ?s ([], (lpn, i) # es) cs"
    using D S F assms(2) by (intro cache_repr_insert [OF h4(2) H']) auto
  moreover have "L2P_allocate_buf lpn s = Some (of_nat i, ?s)"
    using e p i h1(1) h2(1) h3(1) h4(1) F(3)
    by (simp add: L2P_allocate_buf_def node_prev_def entry_of_lru_def on_nodes_def
        insert_hash_table_entry_def set_lpn_def)
  ultimately show ?thesis by (auto simp: set_lpn_def)
qed

lemma BUFFER_NUMBER_pos: "0 < BUFFER_NUMBER"
  by (simp add: BUFFER_NUMBER_def)

lemma allocate_refines:
  assumes "cache_repr s a cs" and "cache_lookup lpn a = None"
  shows "\<exists>s'. L2P_allocate_buf lpn s = Some (of_nat (fst (cache_alloc lpn a)), s') \<and>
    cache_repr s' (snd (cache_alloc lpn a)) cs \<and> hcmd_buf_cnt s' = hcmd_buf_cnt s"
proof -
  obtain fs es where a: "a = (fs, es)" by force
  have n: "lpn \<notin> fst ` set es" using assms(2) by (simp add: a cache_lookup_def map_of_eq_None_iff)
  show ?thesis
  proof (cases fs)
    case Nil
    have "set (map snd es) = {..<BUFFER_NUMBER}" using assms(1) by (simp add: a Nil cache_repr_def)
    then have "es \<noteq> []" using BUFFER_NUMBER_pos by auto
    then obtain es' l i where es: "es = es' @ [(l, i)]" by (metis prod.exhaust rev_exhaust)
    show ?thesis
      using allocate_by_eviction [of s es' l i cs lpn] assms(1) n by (auto simp: a es Nil cache_alloc_def)
  next
    case (Cons i fs')
    then show ?thesis using allocate_from_free [of s i fs' es cs lpn] assms(1) n by (auto simp: a cache_alloc_def)
  qed
qed

lemma cache_lookup_alloc:
  "cache_lookup l (snd (cache_alloc lpn a)) =
     (if l = lpn then Some (fst (cache_alloc lpn a))
      else if fst a = [] then map_of (butlast (snd a)) l else cache_lookup l a)"
  by (cases a) (auto simp: cache_alloc_def cache_lookup_def split: list.splits)

lemma cache_size:
  assumes "cache_repr s (fs, es) cs"
  shows "length fs + length es = BUFFER_NUMBER"
proof -
  have "card (set (fs @ map snd es)) = length (fs @ map snd es)"
    using assms by (intro distinct_card) (simp add: cache_repr_def)
  then show ?thesis using assms by (simp add: cache_repr_def)
qed

section \<open>The buffers of a command\<close>

definition cmd_counts :: "buffer_state \<Rightarrow> (nat \<Rightarrow> nat list) \<Rightarrow> bool" where
  "cmd_counts s cs \<longleftrightarrow> (\<forall>c < HCMD_TABLE_SIZE. hcmd_buf_cnt s c = of_nat (length (cs c)))"

lemma cmd_length:
  assumes "cache_repr s a cs" and "c < HCMD_TABLE_SIZE"
  shows "length (cs c) \<le> BUFFER_NUMBER"
proof -
  obtain fs es where a: "a = (fs, es)" by force
  obtain hs where R: "nodes_repr (buf_nodes s) fs (map snd es) hs cs"
    using assms(1) unfolding a by (rule cache_reprE)
  then have "dlist (buf_nodes s) (HcmdHead c) (map HcmdNode (cs c))" using assms(2) by (simp add: nodes_repr_def)
  then have "distinct (cs c)" by (auto simp: dlist_def distinct_map)
  moreover have "set (cs c) \<subseteq> {..<BUFFER_NUMBER}" using assms by (simp add: cache_repr_def a)
  ultimately show ?thesis using distinct_length_le_card [of "cs c" "{..<BUFFER_NUMBER}"] by simp
qed

lemma cache_repr_cmd_nodes:
  assumes "cache_repr s (fs, es) cs"
    and "\<And>hs. nodes_repr (buf_nodes s) fs (map snd es) hs cs \<Longrightarrow> nodes_repr h' fs (map snd es) hs cs'"
    and "\<forall>c < HCMD_TABLE_SIZE. set (cs' c) \<subseteq> {..<BUFFER_NUMBER}"
    and "buf_nodes s' = h'" and "buffer_entries s' = buffer_entries s"
  shows "cache_repr s' (fs, es) cs'"
proof -
  from assms(1) obtain hs where "nodes_repr (buf_nodes s) fs (map snd es) hs cs"
    "\<forall>v < HASH_TABLE_SIZE. set (hs v) = snd ` {e \<in> set es. hash_slot (fst e) = v}" by (rule cache_reprE)
  then have "\<exists>hs. nodes_repr (buf_nodes s') fs (map snd es) hs cs' \<and>
      (\<forall>v < HASH_TABLE_SIZE. set (hs v) = snd ` {e \<in> set es. hash_slot (fst e) = v})"
    using assms(2,4) by blast
  then show ?thesis using assms(1,3,5) unfolding cache_repr_def prod.case by simp
qed

lemma hcmd_add_buffer_repr:
  assumes "cache_repr s a cs" and "unat hc < HCMD_TABLE_SIZE" and "cache_lookup lpn a = Some b"
    and "\<And>d. d < HCMD_TABLE_SIZE \<Longrightarrow> b \<notin> set (cs d)" and "cmd_counts s cs"
  shows "\<exists>s'. L2P_hcmd_add_buffer hc (of_nat b) lpn s = Some s' \<and>
    cache_repr s' a (cs(unat hc := cs (unat hc) @ [b])) \<and> cmd_counts s' (cs(unat hc := cs (unat hc) @ [b]))"
proof -
  obtain fs es where a: "a = (fs, es)" by force
  have m: "(lpn, b) \<in> set es" using assms(3) cache_repr_lookup_iff [OF assms(1) [unfolded a]] by (simp add: a)
  note b = cache_repr_entry [OF assms(1) [unfolded a] m]
  then have ub: "unat (of_nat b :: u32) = b" by (intro unat_of_nat_u32) (simp add: BUFFER_NUMBER_def)
  have same: "set_lpn b lpn s = s" using b(2) by (auto simp: set_lpn_def fun_upd_idem)
  obtain hs where R: "nodes_repr (buf_nodes s) fs (map snd es) hs cs"
    using assms(1) unfolding a by (rule cache_reprE)
  obtain h' where h': "list_add_tail (Some (HcmdNode b)) (Some (HcmdHead (unat hc))) (buf_nodes s) = Some h'"
    using hcmd_add [OF R assms(2,4)] by blast
  have R': "nodes_repr h' fs (map snd es) hs (cs(unat hc := cs (unat hc) @ [b]))"
    if "nodes_repr (buf_nodes s) fs (map snd es) hs cs" for hs
    using hcmd_add [OF that assms(2,4)] h' by auto
  let ?s = "s\<lparr>buf_nodes := h', hcmd_buf_cnt := (hcmd_buf_cnt s)(unat hc := hcmd_buf_cnt s (unat hc) + 1)\<rparr>"
  have "cache_repr ?s (fs, es) (cs(unat hc := cs (unat hc) @ [b]))"
    by (rule cache_repr_cmd_nodes [OF assms(1) [unfolded a] R'])
      (use assms(1) b(1) in \<open>auto simp: cache_repr_def a\<close>)
  moreover have "cmd_counts ?s (cs(unat hc := cs (unat hc) @ [b]))"
    using assms(2,5) by (simp add: cmd_counts_def)
  moreover have "L2P_hcmd_add_buffer hc (of_nat b) lpn s = Some ?s"
    using b(1) assms(2) h' by (simp add: L2P_hcmd_add_buffer_def Let_def ub same on_nodes_def)
  ultimately show ?thesis by (auto simp: a)
qed

lemma hcmd_get_repr:
  assumes "cache_repr s a cs" and "unat hc < HCMD_TABLE_SIZE" and "unat off < length (cs (unat hc))"
  shows "L2P_hcmd_get_buffer hc off s = Some (of_nat (cs (unat hc) ! unat off))"
    and "L2P_hcmd_buf_get_lpn hc off s = Some (buf_lpn (buffer_entries s (cs (unat hc) ! unat off)))"
proof -
  obtain fs es where a: "a = (fs, es)" by force
  let ?c = "unat hc"
  obtain hs where R: "nodes_repr (buf_nodes s) fs (map snd es) hs cs"
    using assms(1) unfolding a by (rule cache_reprE)
  then have d: "dlist (buf_nodes s) (HcmdHead ?c) (map HcmdNode (cs ?c))"
    using assms(2) by (simp add: nodes_repr_def)
  have sub: "set (cs ?c) \<subseteq> {..<BUFFER_NUMBER}" using assms(1,2) by (simp add: cache_repr_def a)
  have "length (cs ?c) < 2 ^ 32" using cmd_length [OF assms(1,2)] by (simp add: BUFFER_NUMBER_def)
  then have w: "hcmd_walk ?c off 0 (list_next (buf_nodes s) (HcmdHead ?c)) s = Some (cs ?c ! unat off)"
    using hcmd_walk_lseg [of s "HcmdHead ?c" "cs ?c" ?c 0 off] d sub assms(3) by (auto simp: dlist_def)
  have "cs ?c ! unat off < BUFFER_NUMBER" using sub assms(3) nth_mem by blast
  then have "buf_id (buffer_entries s (cs ?c ! unat off)) = of_nat (cs ?c ! unat off)"
    using assms(1) by (simp add: cache_repr_def a)
  then show "L2P_hcmd_get_buffer hc off s = Some (of_nat (cs ?c ! unat off))"
    and "L2P_hcmd_buf_get_lpn hc off s = Some (buf_lpn (buffer_entries s (cs ?c ! unat off)))"
    using w assms(2) by (simp_all add: L2P_hcmd_get_buffer_def L2P_hcmd_buf_get_lpn_def node_next_def)
qed

lemma hcmd_free_repr:
  assumes "cache_repr s a cs" and "unat hc < HCMD_TABLE_SIZE" and "cmd_counts s cs"
  shows "\<exists>s'. L2P_hcmd_free_buf hc s = Some s' \<and> cache_repr s' a (cs(unat hc := [])) \<and>
    cmd_counts s' (cs(unat hc := []))"
proof -
  obtain fs es where a: "a = (fs, es)" by force
  let ?cs = "cs(unat hc := [])"
  obtain hs where R: "nodes_repr (buf_nodes s) fs (map snd es) hs cs"
    using assms(1) unfolding a by (rule cache_reprE)
  obtain s1 where s1: "hcmd_free_loop (unat hc) s = Some s1" "s1 = s\<lparr>buf_nodes := buf_nodes s1\<rparr>"
    using hcmd_free_loop_empties [OF R assms(2)] by blast
  have R': "nodes_repr (buf_nodes s1) fs (map snd es) hs ?cs"
    if "nodes_repr (buf_nodes s) fs (map snd es) hs cs" for hs
    using hcmd_free_loop_empties [OF that assms(2)] s1(1) by auto
  have s1f: "buffer_entries s1 = buffer_entries s" "hcmd_buf_cnt s1 = hcmd_buf_cnt s"
    using s1(2) by (cases s; cases s1; simp)+
  let ?s = "s1\<lparr>hcmd_buf_cnt := (hcmd_buf_cnt s1)(unat hc := 0)\<rparr>"
  have "cache_repr ?s (fs, es) ?cs"
    by (rule cache_repr_cmd_nodes [OF assms(1) [unfolded a] R'])
      (use assms(1) s1f in \<open>auto simp: cache_repr_def a\<close>)
  moreover have "cmd_counts ?s ?cs" using assms(3) s1f(2) by (simp add: cmd_counts_def)
  moreover have "L2P_hcmd_free_buf hc s = Some ?s" using assms(2) s1(1) by (simp add: L2P_hcmd_free_buf_def Let_def)
  ultimately show ?thesis by (auto simp: a)
qed

section \<open>The initial cache\<close>

lemma dlist_self: "dlist h r [] \<longleftrightarrow> list_next h r = Some r \<and> list_prev h r = Some r"
  by (auto simp: dlist_def)

lemma fold_head_init:
  "list_next (fold (\<lambda>i. list_head_init (f i)) is h) r = (if r \<in> f ` set is then Some r else list_next h r)"
  "list_prev (fold (\<lambda>i. list_head_init (f i)) is h) r = (if r \<in> f ` set is then Some r else list_prev h r)"
  by (induction "is" arbitrary: h) (auto simp: list_head_init_def)

definition empty_heads :: "buf_node list_heap \<Rightarrow> bool" where
  "empty_heads h \<longleftrightarrow> nodes_repr h [] [] (\<lambda>_. []) (\<lambda>_. [])"

lemma init_tables_heads:
  "empty_heads (buf_nodes (init_hcmd_buf_table (init_hash_table (static_heads s))))"
  by (auto simp: empty_heads_def nodes_repr_def dlist_self init_hcmd_buf_table_def init_hash_table_def
      static_heads_def fold_head_init list_head_init_def image_iff)

lemma fold_init_entry:
  "empty_heads (buf_nodes s) \<Longrightarrow> empty_heads (buf_nodes (fold init_entry is s))"
  "hcmd_buf_cnt (fold init_entry is s) = hcmd_buf_cnt s"
  "buffer_entries (fold init_entry is s) i =
     (if i \<in> set is then (buffer_entries s i)\<lparr>buf_lpn := 0xffffffff, buf_id := of_nat i\<rparr> else buffer_entries s i)"
proof (induction "is" arbitrary: s)
  case (Cons j js)
  { case 1
    then have "empty_heads (buf_nodes (init_entry j s))"
      by (auto simp: empty_heads_def nodes_repr_def dlist_self init_entry_def clear_links_def)
    then show ?case using Cons(1) by simp
  next
    case 2
    show ?case using Cons(2) by (simp add: init_entry_def)
  next
    case 3
    show ?case using Cons(3) by (simp add: init_entry_def)
  }
qed simp_all

lemma add_free_repr:
  assumes "nodes_repr (buf_nodes s) fs ls hs cs" and "distinct (fs @ is)"
  shows "\<exists>h'. add_free is s = Some (s\<lparr>buf_nodes := h'\<rparr>) \<and> nodes_repr h' (fs @ is) ls hs cs"
  using assms
proof (induction "is" arbitrary: s fs)
  case Nil
  then show ?case by (intro exI [of _ "buf_nodes s"]) simp
next
  case (Cons i "is")
  obtain h1 where h1: "list_add_tail (Some (FreeNode i)) (Some FreeHead) (buf_nodes s) = Some h1"
    "nodes_repr h1 (fs @ [i]) ls hs cs" using free_add_tail [OF Cons.prems(1), of i] Cons.prems(2) by auto
  from Cons.IH [of "s\<lparr>buf_nodes := h1\<rparr>" "fs @ [i]"] h1(2) Cons.prems(2)
  show ?case by (auto simp: on_nodes_def h1(1))
qed

lemma init_buffer_repr:
  "\<exists>s'. L2P_init_buffer (static_heads s) = Some s' \<and> cache_repr s' ([0..<BUFFER_NUMBER], []) (\<lambda>_. []) \<and>
     cmd_counts s' (\<lambda>_. [])"
proof -
  let ?s0 = "init_hcmd_buf_table (init_hash_table (static_heads s))"
  let ?s1 = "fold init_entry [0..<BUFFER_NUMBER] ?s0"
  have "empty_heads (buf_nodes ?s1)" by (intro fold_init_entry(1) init_tables_heads)
  from add_free_repr [OF this [unfolded empty_heads_def], of "[0..<BUFFER_NUMBER]"] obtain h' where
    h': "add_free [0..<BUFFER_NUMBER] ?s1 = Some (?s1\<lparr>buf_nodes := h'\<rparr>)"
      "nodes_repr h' [0..<BUFFER_NUMBER] [] (\<lambda>_. []) (\<lambda>_. [])" by auto
  have "cache_repr (?s1\<lparr>buf_nodes := h'\<rparr>) ([0..<BUFFER_NUMBER], []) (\<lambda>_. [])"
    using h'(2) by (auto simp: cache_repr_def fold_init_entry(3))
  moreover have "cmd_counts (?s1\<lparr>buf_nodes := h'\<rparr>) (\<lambda>_. [])"
    by (simp add: cmd_counts_def fold_init_entry(2) init_hcmd_buf_table_def)
  ultimately show ?thesis using h'(1) by (simp add: L2P_init_buffer_def)
qed

section \<open>The dumps\<close>

lemma dump_free_walk_lseg:
  assumes "lseg (buf_nodes s) q (map FreeNode vs) FreeHead" and "\<forall>i \<in> set vs. i < BUFFER_NUMBER"
  shows "dump_free_walk (list_next (buf_nodes s) q) s = Some (map (\<lambda>i. buf_id (buffer_entries s i)) vs)"
  using assms
proof (induction vs arbitrary: q)
  case (Cons i vs)
  have "dump_free_walk (list_next (buf_nodes s) (FreeNode i)) s = Some (map (\<lambda>i. buf_id (buffer_entries s i)) vs)"
    using Cons by (intro Cons.IH) auto
  then show ?case
    using Cons.prems by (simp add: dump_free_walk.simps [of "Some (FreeNode i)"] entry_of_free_def node_next_def)
qed (simp add: dump_free_walk.simps)

lemma dump_lru_walk_lseg:
  assumes "lseg (buf_nodes s) q (map LruNode vs) LruHead" and "\<forall>i \<in> set vs. i < BUFFER_NUMBER"
  shows "dump_lru_walk (list_next (buf_nodes s) q) s = Some (map (\<lambda>i. buf_id (buffer_entries s i)) vs)"
  using assms
proof (induction vs arbitrary: q)
  case (Cons i vs)
  have "dump_lru_walk (list_next (buf_nodes s) (LruNode i)) s = Some (map (\<lambda>i. buf_id (buffer_entries s i)) vs)"
    using Cons by (intro Cons.IH) auto
  then show ?case
    using Cons.prems by (simp add: dump_lru_walk.simps [of "Some (LruNode i)"] entry_of_lru_def node_next_def)
qed (simp add: dump_lru_walk.simps)

lemma dumps_repr:
  assumes "cache_repr s (fs, es) cs"
  shows "dump_free_buf_list s = Some (map of_nat fs)" and "dump_lru_buf_list s = Some (map (of_nat \<circ> snd) es)"
proof -
  obtain hs where R: "nodes_repr (buf_nodes s) fs (map snd es) hs cs"
    and S: "set (fs @ map snd es) = {..<BUFFER_NUMBER}"
    and I: "\<forall>j < BUFFER_NUMBER. buf_id (buffer_entries s j) = of_nat j"
    using assms by (rule cache_reprE)
  have b: "i < BUFFER_NUMBER" if "i \<in> set fs \<union> set (map snd es)" for i using that S by auto
  have "dump_free_buf_list s = Some (map (\<lambda>i. buf_id (buffer_entries s i)) fs)"
    using dump_free_walk_lseg [of s FreeHead fs] R b
    by (simp add: dump_free_buf_list_def node_next_def nodes_repr_def dlist_def)
  moreover have "map (\<lambda>i. buf_id (buffer_entries s i)) fs = map of_nat fs" using b I by simp
  ultimately show "dump_free_buf_list s = Some (map of_nat fs)" by simp
  have "dump_lru_buf_list s = Some (map (\<lambda>i. buf_id (buffer_entries s i)) (map snd es))"
    using dump_lru_walk_lseg [of s LruHead "map snd es"] R b
    by (simp add: dump_lru_buf_list_def node_next_def nodes_repr_def dlist_def)
  moreover have "map (\<lambda>i. buf_id (buffer_entries s i)) (map snd es) = map (of_nat \<circ> snd) es" using b I by simp
  ultimately show "dump_lru_buf_list s = Some (map (of_nat \<circ> snd) es)" by simp
qed

section \<open>One buffer in the lists of two commands\<close>

text \<open>The loop of \<^verbatim>\<open>L2P_hcmd_free_buf\<close> ends only when the head's list is empty; a
  tail that \<open>list_delete\<close> leaves alone keeps it running.\<close>

lemma hcmd_free_loop_stuck:
  assumes "list_next (buf_nodes s) (HcmdHead c) \<noteq> Some (HcmdHead c)"
    and "list_delete_tail (Some (HcmdHead c)) (buf_nodes s) = Some (buf_nodes s)"
  shows "hcmd_free_loop c s = None"
proof -
  have "\<not> (list_next (buf_nodes s) (HcmdHead c) \<noteq> Some (HcmdHead c) \<and>
      list_delete_tail (Some (HcmdHead c)) (buf_nodes s) = Some (buf_nodes s))"
    if "hcmd_free_loop c s = Some s'" for s'
  proof (rule hcmd_free_loop.raw_induct [where P = "\<lambda>c s _. \<not> (list_next (buf_nodes s) (HcmdHead c) \<noteq> Some (HcmdHead c) \<and>
      list_delete_tail (Some (HcmdHead c)) (buf_nodes s) = Some (buf_nodes s))", OF _ that], goal_cases)
    case (1 f c s s')
    show ?case
      using 1(2) 1(1) [of c s s']
      by (auto simp: list_empty_def node_next_def on_nodes_def split: bind_splits if_splits)
  qed
  then show ?thesis using assms by (cases "hcmd_free_loop c s") blast+
qed

lemma shared_buffer_loops:
  assumes "dlist (buf_nodes s) (HcmdHead c) [HcmdNode b]" and "dlist (buf_nodes s) (HcmdHead d) []"
    and "c \<noteq> d" and "c < HCMD_TABLE_SIZE" and "d < HCMD_TABLE_SIZE" and "b < BUFFER_NUMBER"
  shows "\<exists>s'. L2P_hcmd_add_buffer (of_nat d) (of_nat b) lpn s = Some s' \<and> L2P_hcmd_free_buf (of_nat c) s' = None"
proof -
  have u: "unat (of_nat d :: u32) = d" "unat (of_nat b :: u32) = b" "unat (of_nat c :: u32) = c"
    using assms by (auto intro!: unat_of_nat_u32 simp: HCMD_TABLE_SIZE_def BUFFER_NUMBER_def)
  have l: "list_next (buf_nodes s) (HcmdHead c) = Some (HcmdNode b)" "list_prev (buf_nodes s) (HcmdHead c) = Some (HcmdNode b)"
    "list_prev (buf_nodes s) (HcmdHead d) = Some (HcmdHead d)"
    using assms(1,2) by (auto simp: dlist_def)
  define h1 where "h1 = the (list_add_tail (Some (HcmdNode b)) (Some (HcmdHead d)) (buf_nodes s))"
  have a: "list_add_tail (Some (HcmdNode b)) (Some (HcmdHead d)) (buf_nodes s) = Some h1"
    by (simp add: h1_def list_op_defs l)
  have h1: "list_next h1 (HcmdHead c) = Some (HcmdNode b)" "list_prev h1 (HcmdHead c) = Some (HcmdNode b)"
    "list_next h1 (HcmdNode b) = Some (HcmdHead d)" "list_prev h1 (HcmdNode b) = Some (HcmdHead d)"
    using a l assms(3) by (auto simp: list_op_defs)
  define h2 where "h2 = the (list_delete_tail (Some (HcmdHead c)) h1)"
  have b: "list_delete_tail (Some (HcmdHead c)) h1 = Some h2" by (simp add: h2_def list_op_defs h1)
  have h2: "list_next h2 (HcmdHead c) = Some (HcmdNode b)" "list_prev h2 (HcmdHead c) = Some (HcmdNode b)"
    "list_next h2 (HcmdNode b) = NULL"
    using b h1 assms(3) by (auto simp: list_op_defs)
  have k: "list_delete_tail (Some (HcmdHead c)) h2 = Some h2" by (simp add: list_op_defs h2)
  define s1 where "s1 = (set_lpn b lpn s)\<lparr>buf_nodes := h1, hcmd_buf_cnt := (hcmd_buf_cnt s)(d := hcmd_buf_cnt s d + 1)\<rparr>"
  have n1: "buf_nodes s1 = h1" by (simp add: s1_def)
  have "hcmd_free_loop c (s1\<lparr>buf_nodes := h2\<rparr>) = None"
    using h2(1) k by (intro hcmd_free_loop_stuck) auto
  then have "hcmd_free_loop c s1 = None"
    using h1(1) b n1 by (simp add: hcmd_free_loop.simps [of c s1] list_empty_def node_next_def on_nodes_def)
  moreover have "L2P_hcmd_add_buffer (of_nat d) (of_nat b) lpn s = Some s1"
    using assms(5,6) a by (simp add: L2P_hcmd_add_buffer_def Let_def u on_nodes_def s1_def set_lpn_def)
  ultimately show ?thesis using assms(4) by (simp add: L2P_hcmd_free_buf_def Let_def u)
qed

section \<open>Properties\<close>

text \<open>
  C12: the buffer module implements a cache with replacement in order of allocation. Allocating a
  buffer for a page that is not cached returns the buffer that the abstract cache returns (a fresh
  one while there are any, then the one allocated longest ago) and leaves a state that stands for
  the new abstract cache; the page is then a hit in that buffer, and while buffers are left no other
  page's answer changes.
\<close>

theorem buffer_allocation_refines_cache:
  assumes "cache_repr s a cs" and "cache_lookup lpn a = None"
  shows "\<exists>s'. L2P_allocate_buf lpn s = Some (of_nat (fst (cache_alloc lpn a)), s') \<and>
    cache_repr s' (snd (cache_alloc lpn a)) cs \<and>
    L2P_check_buf_hit lpn s' = Some (of_nat (fst (cache_alloc lpn a))) \<and>
    (\<forall>l. l \<noteq> lpn \<and> fst a \<noteq> [] \<longrightarrow> L2P_check_buf_hit l s' = L2P_check_buf_hit l s)"
proof -
  obtain s' where s': "L2P_allocate_buf lpn s = Some (of_nat (fst (cache_alloc lpn a)), s')"
    "cache_repr s' (snd (cache_alloc lpn a)) cs" using allocate_refines [OF assms] by blast
  have "L2P_check_buf_hit lpn s' = Some (of_nat (fst (cache_alloc lpn a)))"
    by (simp add: check_buf_hit_cache [OF s'(2)] cache_lookup_alloc)
  moreover have "L2P_check_buf_hit l s' = L2P_check_buf_hit l s" if "l \<noteq> lpn" "fst a \<noteq> []" for l
    using that by (simp add: check_buf_hit_cache [OF s'(2)] check_buf_hit_cache [OF assms(1)] cache_lookup_alloc)
  ultimately show ?thesis using s' by blast
qed

definition blank_buffer :: buffer_state where
  "blank_buffer = \<lparr>buffer_entries = (\<lambda>_. \<lparr>buf_lpn = 0, buf_id = 0, buf_dirty = 0, buf_valid = 0\<rparr>),
     buf_nodes = \<lparr>list_next = (\<lambda>_. NULL), list_prev = (\<lambda>_. NULL)\<rparr>, hcmd_buf_cnt = (\<lambda>_. 0), hcmd_cur_buf_id = (\<lambda>_. 0)\<rparr>"

lemma upt_BUFFER: "[0..<BUFFER_NUMBER] = 0 # [1..<BUFFER_NUMBER]"
  using upt_conv_Cons [OF BUFFER_NUMBER_pos] by simp

theorem buffer_allocation_refines_cache_witness:
  "\<exists>s s'. L2P_init_buffer (static_heads blank_buffer) = Some s \<and> L2P_allocate_buf 20 s = Some (0, s') \<and> L2P_check_buf_hit 20 s' = Some 0"
proof -
  obtain s where s: "L2P_init_buffer (static_heads blank_buffer) = Some s" "cache_repr s ([0..<BUFFER_NUMBER], []) (\<lambda>_. [])"
    using init_buffer_repr by blast
  from buffer_allocation_refines_cache [OF s(2), of 20] s(1) show ?thesis
    by (auto simp: cache_lookup_def cache_alloc_def upt_BUFFER)
qed

text \<open>Allocating buffers for several pages in a row.\<close>

primrec allocate_all :: "u32 list \<Rightarrow> buffer_state \<Rightarrow> (u32 list \<times> buffer_state) option" where
  "allocate_all [] s = Some ([], s)"
| "allocate_all (l # ls) s = do {
     (i, s1) \<leftarrow> L2P_allocate_buf l s;
     (is, s2) \<leftarrow> allocate_all ls s1;
     Some (i # is, s2)
   }"

lemma allocate_all_fresh:
  assumes "cache_repr s (fs1 @ fs2, es) cs" and "length fs1 = length ls" and "distinct ls" and "set ls \<inter> fst ` set es = {}"
  shows "\<exists>s'. allocate_all ls s = Some (map of_nat fs1, s') \<and> cache_repr s' (fs2, rev (zip ls fs1) @ es) cs"
  using assms
proof (induction ls arbitrary: s fs1 es)
  case (Cons l ls)
  then obtain x xs where fs1: "fs1 = x # xs" by (cases fs1) auto
  have n: "cache_lookup l (fs1 @ fs2, es) = None" using Cons.prems(4) by (simp add: cache_lookup_def map_of_eq_None_iff)
  obtain s1 where s1: "L2P_allocate_buf l s = Some (of_nat x, s1)" "cache_repr s1 (xs @ fs2, (l, x) # es) cs"
    using allocate_refines [OF Cons.prems(1) n] by (auto simp: fs1 cache_alloc_def)
  have "set ls \<inter> fst ` set ((l, x) # es) = {}" using Cons.prems(3,4) by auto
  from Cons.IH [OF s1(2) _ _ this] Cons.prems(2,3) s1(1) show ?case by (auto simp: fs1)
qed simp

text \<open>
  From initialisation, the first 1500 pages get the buffers 0, 1, 2, ... in order, all of them are
  hits afterwards in exactly these buffers, and no other page is a hit.
\<close>

theorem buffer_fill:
  assumes "distinct ls" and "length ls \<le> BUFFER_NUMBER"
  shows "\<exists>s s'. L2P_init_buffer (static_heads b) = Some s \<and> allocate_all ls s = Some (map of_nat [0..<length ls], s') \<and>
    (\<forall>i < length ls. L2P_check_buf_hit (ls ! i) s' = Some (of_nat i)) \<and>
    (\<forall>l. l \<notin> set ls \<longrightarrow> L2P_check_buf_hit l s' = Some INVALID_ID)"
proof -
  obtain s where s: "L2P_init_buffer (static_heads b) = Some s" "cache_repr s ([0..<BUFFER_NUMBER], []) (\<lambda>_. [])"
    using init_buffer_repr by blast
  have "[0..<BUFFER_NUMBER] = [0..<length ls] @ [length ls..<BUFFER_NUMBER]"
    using assms(2) upt_add_eq_append [of 0 "length ls" "BUFFER_NUMBER - length ls"] by simp
  then have "cache_repr s ([0..<length ls] @ [length ls..<BUFFER_NUMBER], []) (\<lambda>_. [])" using s(2) by simp
  from allocate_all_fresh [OF this _ assms(1)] obtain s' where s': "allocate_all ls s = Some (map of_nat [0..<length ls], s')"
    "cache_repr s' ([length ls..<BUFFER_NUMBER], rev (zip ls [0..<length ls])) (\<lambda>_. [])" by auto
  have d: "distinct (map fst (rev (zip ls [0..<length ls])))" using assms(1) by (simp add: rev_map [symmetric])
  have "cache_lookup (ls ! i) ([length ls..<BUFFER_NUMBER], rev (zip ls [0..<length ls])) = Some i" if "i < length ls" for i
  proof -
    have "(ls ! i, i) \<in> set (rev (zip ls [0..<length ls]))" using that by (auto simp: set_zip intro!: exI [of _ i])
    then show ?thesis using map_of_is_SomeI [OF d] by (simp add: cache_lookup_def)
  qed
  moreover have "cache_lookup l ([length ls..<BUFFER_NUMBER], rev (zip ls [0..<length ls])) = None" if "l \<notin> set ls" for l
    using that by (auto simp: cache_lookup_def map_of_eq_None_iff dest: set_zip_leftD)
  ultimately show ?thesis using s(1) s'(1) by (simp add: check_buf_hit_cache [OF s'(2)])
qed

theorem buffer_fill_witness:
  "\<exists>s s'. L2P_init_buffer (static_heads blank_buffer) = Some s \<and> allocate_all [40, 1040, 7] s = Some ([0, 1, 2], s') \<and>
     L2P_check_buf_hit 1040 s' = Some 1 \<and> L2P_check_buf_hit 2040 s' = Some INVALID_ID"
proof -
  have l: "length [40, 1040, 7 :: u32] \<le> BUFFER_NUMBER" by (simp add: BUFFER_NUMBER_def)
  obtain s s' where s: "L2P_init_buffer (static_heads blank_buffer) = Some s"
    "allocate_all [40, 1040, 7] s = Some (map of_nat [0..<length [40, 1040, 7 :: u32]], s')"
    "\<forall>i < length [40, 1040, 7 :: u32]. L2P_check_buf_hit ([40, 1040, 7] ! i) s' = Some (of_nat i)"
    "\<forall>l. l \<notin> set [40, 1040, 7] \<longrightarrow> L2P_check_buf_hit l s' = Some INVALID_ID"
    using buffer_fill [OF _ l, of blank_buffer] by auto
  have "L2P_check_buf_hit 1040 s' = Some 1" "L2P_check_buf_hit 2040 s' = Some INVALID_ID"
    using s(3) [rule_format, of 1] s(4) [rule_format, of 2040] by simp_all
  then show ?thesis using s(1,2) by (auto simp: upt_rec)
qed

text \<open>
  The buffers of a command. A cached buffer that no command holds is appended to the command's
  list: the count goes up by one, the offset after the previous last finds the buffer and its page,
  all earlier offsets find what they found before, and freeing the command's buffers ends and leaves
  it with none while the cache stays as it is.
\<close>

theorem command_buffers:
  assumes "cache_repr s a cs" and "unat hc < HCMD_TABLE_SIZE" and "cache_lookup lpn a = Some b"
    and "\<forall>d < HCMD_TABLE_SIZE. b \<notin> set (cs d)" and "cmd_counts s cs"
  shows "\<exists>s' s''. L2P_hcmd_add_buffer hc (of_nat b) lpn s = Some s' \<and>
    L2P_get_hcmd_buff_cnt hc s' = Some (of_nat (length (cs (unat hc)) + 1)) \<and>
    L2P_hcmd_get_buffer hc (of_nat (length (cs (unat hc)))) s' = Some (of_nat b) \<and>
    L2P_hcmd_buf_get_lpn hc (of_nat (length (cs (unat hc)))) s' = Some lpn \<and>
    (\<forall>off. unat off < length (cs (unat hc)) \<longrightarrow> L2P_hcmd_get_buffer hc off s' = L2P_hcmd_get_buffer hc off s) \<and>
    L2P_hcmd_free_buf hc s' = Some s'' \<and> L2P_get_hcmd_buff_cnt hc s'' = Some 0 \<and> cache_repr s'' a (cs(unat hc := []))"
proof -
  let ?n = "length (cs (unat hc))" and ?cs = "cs(unat hc := cs (unat hc) @ [b])"
  obtain fs es where a: "a = (fs, es)" by force
  obtain s' where s': "L2P_hcmd_add_buffer hc (of_nat b) lpn s = Some s'" "cache_repr s' a ?cs" "cmd_counts s' ?cs"
    using hcmd_add_buffer_repr [OF assms(1-3) _ assms(5)] assms(4) by blast
  obtain s'' where s'': "L2P_hcmd_free_buf hc s' = Some s''" "cache_repr s'' a (?cs(unat hc := []))" "cmd_counts s'' (?cs(unat hc := []))"
    using hcmd_free_repr [OF s'(2) assms(2) s'(3)] by blast
  have n: "unat (of_nat ?n :: u32) = ?n"
    using cmd_length [OF assms(1,2)] by (intro unat_of_nat_u32) (simp add: BUFFER_NUMBER_def)
  have m: "(lpn, b) \<in> set es" using assms(3) cache_repr_lookup_iff [OF assms(1) [unfolded a]] by (simp add: a)
  have new: "L2P_hcmd_get_buffer hc (of_nat ?n) s' = Some (of_nat b)" "L2P_hcmd_buf_get_lpn hc (of_nat ?n) s' = Some lpn"
    using hcmd_get_repr [OF s'(2) assms(2), of "of_nat ?n"] n cache_repr_entry(2) [OF s'(2) [unfolded a] m] by (simp_all add: nth_append)
  have old: "L2P_hcmd_get_buffer hc off s' = L2P_hcmd_get_buffer hc off s" if "unat off < ?n" for off
    using hcmd_get_repr(1) [OF s'(2) assms(2), of off] hcmd_get_repr(1) [OF assms(1,2) that] that by (simp add: nth_append)
  have cnt: "L2P_get_hcmd_buff_cnt hc s' = Some (of_nat (?n + 1))" "L2P_get_hcmd_buff_cnt hc s'' = Some 0"
    using s'(3) s''(3) assms(2) by (simp_all add: L2P_get_hcmd_buff_cnt_def cmd_counts_def)
  show ?thesis using s'(1) s''(1,2) new old cnt by (intro exI [of _ s'] exI [of _ s'']) simp
qed

theorem command_buffers_witness:
  "\<exists>s s' s''. allocate_all [40] s = Some ([0], s') \<and> L2P_hcmd_add_buffer 3 0 40 s' = Some s'' \<and> L2P_hcmd_get_buffer 3 0 s'' = Some 0"
proof -
  obtain s where s: "L2P_init_buffer (static_heads blank_buffer) = Some s" "cache_repr s ([0] @ [1..<BUFFER_NUMBER], []) (\<lambda>_. [])" "cmd_counts s (\<lambda>_. [])"
    using init_buffer_repr [of blank_buffer] by (auto simp: upt_BUFFER)
  obtain s' where s': "allocate_all [40] s = Some ([0], s')" "cache_repr s' ([1..<BUFFER_NUMBER], [(40, 0)]) (\<lambda>_. [])" "hcmd_buf_cnt s' = hcmd_buf_cnt s"
    using allocate_refines [OF s(2), of 40] by (auto simp: cache_lookup_def cache_alloc_def)
  have c: "cmd_counts s' (\<lambda>_. [])" using s(3) s'(3) by (simp add: cmd_counts_def)
  have "unat (3 :: u32) < HCMD_TABLE_SIZE" "cache_lookup 40 ([1..<BUFFER_NUMBER], [(40, 0)]) = Some 0"
    "\<forall>d < HCMD_TABLE_SIZE. 0 \<notin> set ((\<lambda>_. []) d)" by (simp_all add: HCMD_TABLE_SIZE_def cache_lookup_def)
  from command_buffers [OF s'(2) this c] s'(1) show ?thesis by auto
qed


definition shared_example :: buffer_state where
  "shared_example = blank_buffer\<lparr>buf_nodes := \<lparr>
     list_next = (\<lambda>n. NULL)(HcmdHead 0 := Some (HcmdNode 5), HcmdNode 5 := Some (HcmdHead 0), HcmdHead 1 := Some (HcmdHead 1)),
     list_prev = (\<lambda>n. NULL)(HcmdHead 0 := Some (HcmdNode 5), HcmdNode 5 := Some (HcmdHead 0), HcmdHead 1 := Some (HcmdHead 1))\<rparr>\<rparr>"


end
