(* ===== verification/FCL.thy ===== *)
theory FCL
  imports Slot_Bitmap Interfaces Reg_Bus HCL Buffer
begin

text \<open>
  The flash controller layer, \<^verbatim>\<open>fcl/fcl.h\<close> and \<^verbatim>\<open>fcl/fcl.c\<close>: the submission and completion queues of the
  four channels with their bitmaps, the packed formats of a queue entry and of a flash address,
  and the programming of the controller's registers.

  A queue entry is a 128-bit word and a flash address a 64-bit word with bit fields, in the layout
  that gcc gives the structures on the 32-bit target: fields are allocated from the low bits, and
  \<^verbatim>\<open>block\<close>, which would cross a 32-bit unit, starts the second one.
\<close>

section \<open>Packed structures\<close>

datatype cmd_space = HCMD_SPACE | GCMD_SPACE

type_synonym hw_queue_entry = "128 word"

definition sq_cur_ptr :: bitfield where "sq_cur_ptr = (0, 8)"
definition sq_t0_add_da :: bitfield where "sq_t0_add_da = (8, 1)"
definition sq_t1_add_df :: bitfield where "sq_t1_add_df = (9, 1)"
definition sq_t2_use_1a :: bitfield where "sq_t2_use_1a = (10, 1)"
definition sq_err_sum :: bitfield where "sq_err_sum = (16, 9)"
definition sq_ph :: bitfield where "sq_ph = (26, 2)"
definition sq_op :: bitfield where "sq_op = (28, 2)"
definition sq_cmd_space :: bitfield where "sq_cmd_space = (30, 1)"
definition sq_nulptr :: bitfield where "sq_nulptr = (31, 1)"
definition sq_ce :: bitfield where "sq_ce = (32, 8)"
definition sq_buf_adr :: bitfield where "sq_buf_adr = (46, 18)"
definition sq_a0 :: bitfield where "sq_a0 = (64, 8)"
definition sq_a1 :: bitfield where "sq_a1 = (72, 8)"
definition sq_a2 :: bitfield where "sq_a2 = (80, 8)"
definition sq_a3 :: bitfield where "sq_a3 = (88, 8)"
definition sq_a4 :: bitfield where "sq_a4 = (96, 8)"
definition sq_a5 :: bitfield where "sq_a5 = (104, 8)"
definition sq_hcmd_index :: bitfield where "sq_hcmd_index = (112, 8)"
definition sq_next_ptr :: bitfield where "sq_next_ptr = (120, 8)"

lemmas sq_field_defs [field_defs] = sq_cur_ptr_def sq_t0_add_da_def sq_t1_add_df_def sq_t2_use_1a_def
  sq_err_sum_def sq_ph_def sq_op_def sq_cmd_space_def sq_nulptr_def sq_ce_def sq_buf_adr_def
  sq_a0_def sq_a1_def sq_a2_def sq_a3_def sq_a4_def sq_a5_def sq_hcmd_index_def sq_next_ptr_def

type_synonym nand_flash_addr_cmd = "64 word"

definition slc_page_offset :: bitfield where "slc_page_offset = (0, 15)"
definition slc_page :: bitfield where "slc_page = (16, 9)"
definition slc_plane :: bitfield where "slc_plane = (27, 1)"
definition slc_block :: bitfield where "slc_block = (32, 10)"
definition slc_lun :: bitfield where "slc_lun = (43, 3)"
definition tlc_page_offset :: bitfield where "tlc_page_offset = (0, 15)"
definition tlc_page :: bitfield where "tlc_page = (16, 11)"
definition tlc_plane :: bitfield where "tlc_plane = (27, 1)"
definition tlc_block :: bitfield where "tlc_block = (32, 10)"
definition tlc_lun :: bitfield where "tlc_lun = (43, 3)"

definition nand_array :: "nat \<Rightarrow> bitfield" where "nand_array i = (8 * i, 8)"

lemmas nand_field_defs [field_defs] = slc_page_offset_def slc_page_def slc_plane_def slc_block_def
  slc_lun_def tlc_page_offset_def tlc_page_def tlc_plane_def tlc_block_def tlc_lun_def nand_array_def

record phy_page_addr =
  ppa_ch :: u16
  ppa_ce :: u16
  nand_flash_addr :: nand_flash_addr_cmd

record fcl_state =
  hw_SQ :: "nat \<Rightarrow> nat \<Rightarrow> hw_queue_entry"
  hw_CQ :: "nat \<Rightarrow> nat \<Rightarrow> hw_queue_entry"
  hw_sq_bitmap :: "nat \<Rightarrow> bitmap"

section \<open>Registers\<close>

definition FCL_set_hw_base_addr :: "u32 \<Rightarrow> u32 \<Rightarrow> u32 \<Rightarrow> u32 \<Rightarrow> bus \<Rightarrow> bus" where
  "FCL_set_hw_base_addr fcl_base ch sq_addr cq_addr b =
     (let b1 = Xil_Out32 (FCTL_CH_REG_BASE_ADDR fcl_base + ch * FCTL_SZ_PER_CH + 0x18) sq_addr b
      in Xil_Out32 (FCTL_CH_REG_BASE_ADDR fcl_base + ch * FCTL_SZ_PER_CH + 0x1C) cq_addr b1)"

section \<open>The queues\<close>

definition set_sq_field :: "nat \<Rightarrow> nat \<Rightarrow> bitfield \<Rightarrow> u32 \<Rightarrow> fcl_state \<Rightarrow> fcl_state" where
  "set_sq_field ch i f v s =
     s\<lparr>hw_SQ := (hw_SQ s)(ch := (hw_SQ s ch)(i := field_set f (ucast v) (hw_SQ s ch i)))\<rparr>"

definition sq_field :: "bitfield \<Rightarrow> hw_queue_entry \<Rightarrow> u32" where
  "sq_field f e = ucast (field_get f e)"

text \<open>The body of the loop over the channels.\<close>

definition init_channel :: "u32 \<Rightarrow> u32 \<Rightarrow> nat \<Rightarrow> fcl_state \<times> bus \<Rightarrow> fcl_state \<times> bus" where
  "init_channel mem_base fcl_base i = (\<lambda>(s, b).
     let sq_addr = HW_CH_SQ_ENTRY_ADDR mem_base + of_nat i * SQ_ENTRY_SZ_PER_CHANNEL;
         cq_addr = HW_CH_CQ_ENTRY_ADDR mem_base + of_nat i * CQ_ENTRY_SZ_PER_CHANNEL;
         s1 = s\<lparr>hw_SQ := (hw_SQ s)(i := (\<lambda>j. if j < HW_QUEUE_DEPTH then 0 else hw_SQ s i j))\<rparr>;
         s2 = fold (\<lambda>j t. set_sq_field i j sq_cur_ptr (of_nat j)
                (set_sq_field i j sq_next_ptr (of_nat j + 1) t)) [0..<HW_QUEUE_DEPTH] s1;
         s3 = set_sq_field i (HW_QUEUE_DEPTH - 1) sq_next_ptr (of_nat (HW_QUEUE_DEPTH - 1)) s2;
         s4 = s3\<lparr>hw_sq_bitmap := (hw_sq_bitmap s3)(i := (\<lambda>k. if k < HW_QUEUE_DEPTH div 32 then 0 else hw_sq_bitmap s3 i k)),
                hw_CQ := (hw_CQ s3)(i := (\<lambda>j. if j < HW_QUEUE_DEPTH then - 1 else hw_CQ s3 i j))\<rparr>
     in (s4, FCL_set_hw_base_addr fcl_base (of_nat i) sq_addr cq_addr b))"

definition FCL_init_hw_queue :: "u32 \<Rightarrow> u32 \<Rightarrow> fcl_state \<times> bus \<Rightarrow> fcl_state \<times> bus" where
  "FCL_init_hw_queue mem_base fcl_base = fold (init_channel mem_base fcl_base) [0..<TOTAL_CHANNEL]"

definition FCL_get_free_SQ_entry :: "u32 \<Rightarrow> fcl_state \<Rightarrow> u32 \<times> fcl_state" where
  "FCL_get_free_SQ_entry ch s =
     (case scan_bitmap (HW_QUEUE_DEPTH div 32) (hw_sq_bitmap s (unat ch)) 0 of
        Some (i, j) \<Rightarrow>
          (of_nat (32 * i + j),
           s\<lparr>hw_sq_bitmap := (hw_sq_bitmap s)(unat ch := bitmap_set i j (hw_sq_bitmap s (unat ch)))\<rparr>)
      | None \<Rightarrow> (INVALID_ID, s))"

definition FCL_SQ_empty :: "u32 \<Rightarrow> fcl_state \<Rightarrow> bool" where
  "FCL_SQ_empty ch s \<longleftrightarrow>
     (case scan_bitmap (HW_QUEUE_DEPTH div 32) (hw_sq_bitmap s (unat ch)) 0 of Some _ \<Rightarrow> False | None \<Rightarrow> True)"

definition nand_byte :: "nat \<Rightarrow> phy_page_addr \<Rightarrow> u32" where
  "nand_byte i ppa = ucast (field_get (nand_array i) (nand_flash_addr ppa))"

text \<open>\<open>None\<close>: the channel or the index is outside the queues.\<close>

definition FCL_set_SQ_entry ::
  "u32 \<Rightarrow> u32 \<Rightarrow> u32 \<Rightarrow> u32 \<Rightarrow> u32 \<Rightarrow> phy_page_addr \<Rightarrow> u32 \<Rightarrow> fcl_state \<Rightarrow> fcl_state option" where
  "FCL_set_SQ_entry mem_base hcmd_entry_index SQ_entry_index buffer_index opcode ppa cmd_sp s =
     (let ch = unat (ppa_ch ppa);
          i = unat SQ_entry_index;
          s1 = set_sq_field ch i sq_cmd_space cmd_sp
                 (set_sq_field ch i sq_t0_add_da 1 (set_sq_field ch i sq_op opcode s));
          s2 = (if opcode \<noteq> HCE_ERASE then
                  set_sq_field ch i sq_a5 (nand_byte 5 ppa)
                  (set_sq_field ch i sq_a4 (nand_byte 4 ppa)
                  (set_sq_field ch i sq_a3 (nand_byte 3 ppa)
                  (set_sq_field ch i sq_a2 (nand_byte 2 ppa)
                  (set_sq_field ch i sq_a1 (nand_byte 1 ppa)
                  (set_sq_field ch i sq_a0 (nand_byte 0 ppa)
                  (set_sq_field ch i sq_buf_adr (drop_bit 14 (L2P_get_buffer_addr mem_base buffer_index)) s1))))))
                else
                  set_sq_field ch i sq_a3 (nand_byte 5 ppa)
                  (set_sq_field ch i sq_a2 (nand_byte 4 ppa)
                  (set_sq_field ch i sq_a1 (nand_byte 3 ppa)
                  (set_sq_field ch i sq_a0 (nand_byte 2 ppa) s1))))
      in if ch < TOTAL_CHANNEL \<and> i < HW_QUEUE_DEPTH
         then Some (set_sq_field ch i sq_hcmd_index hcmd_entry_index s2)
         else None)"

definition FCL_free_SQ_entry :: "u32 \<Rightarrow> u32 \<Rightarrow> fcl_state \<Rightarrow> fcl_state" where
  "FCL_free_SQ_entry ch index s =
     s\<lparr>hw_sq_bitmap := (hw_sq_bitmap s)(unat ch :=
        bitmap_clear (unat (index div 32)) (unat (index mod 32)) (hw_sq_bitmap s (unat ch)))\<rparr>"

section \<open>Programming the controller\<close>

definition FCL_get_fifo_status :: "device \<Rightarrow> u32 \<Rightarrow> u32 \<Rightarrow> bus \<Rightarrow> u32 \<times> bus" where
  "FCL_get_fifo_status dev fcl_base ch b =
     (let (v, b1) = Xil_In32 dev (FCTL_CH_REG_BASE_ADDR fcl_base + ch * FCTL_SZ_PER_CH + 0x24) b
      in (v AND 0x000000ff, b1))"

definition FCL_set_fifo :: "u32 \<Rightarrow> u32 \<Rightarrow> u32 \<Rightarrow> u32 \<Rightarrow> bus \<Rightarrow> bus" where
  "FCL_set_fifo fcl_base index ch ce b =
     Xil_Out32 (FCTL_CH_QUEUE_BASE_ADDR fcl_base + ch * FCTL_SZ_PER_CH + 0x04 * ce) index b"

text \<open>The code of \<^verbatim>\<open>FCL_send_SQ_entry\<close> for the board, after the branch that the
  emulator takes. \<^verbatim>\<open>1 << ce\<close> is defined for \<open>ce < 32\<close>.\<close>

definition FCL_send_SQ_entry_hw :: "device \<Rightarrow> u32 \<Rightarrow> u32 \<Rightarrow> u32 \<Rightarrow> u32 \<Rightarrow> bus \<Rightarrow> u32 \<times> bus" where
  "FCL_send_SQ_entry_hw dev fcl_base index ch ce b =
     (let (reg_data, b1) = FCL_get_fifo_status dev fcl_base ch b;
          reg_data = reg_data AND 0x000000ff;
          bt = push_bit (unat ce) 1
      in if reg_data AND bt = 0 then (SUCCESS, FCL_set_fifo fcl_base index ch ce b1) else (FAIL, b1))"

definition FCL_set_timing :: "u32 \<Rightarrow> bus \<Rightarrow> bus" where
  "FCL_set_timing fcl_base b =
     (let is_bypass_ecc = (0 :: u32); is_bypass_scrm = 0;
          data = push_bit 24 is_bypass_ecc + push_bit 28 is_bypass_scrm + 0x03050F
      in fold (\<lambda>ch. out_seq (FCTL_CH_REG_BASE_ADDR fcl_base + of_nat ch * FCTL_SZ_PER_CH)
                 [data, 0x04080804, 0x04060404, 0x0404, 0x0000, 0x04040404]) [0..<TOTAL_CHANNEL] b)"

text \<open>The busy wait: read the request register until bit 0 is clear. It ends only if the device
  clears it.\<close>

partial_function (option) exec_poll :: "device \<Rightarrow> u32 \<Rightarrow> u32 \<Rightarrow> bus \<Rightarrow> bus option" where
  "exec_poll dev addr read_data b =
     (if read_data AND 0x01 \<noteq> 0
      then exec_poll dev addr (fst (Xil_In32 dev addr b)) (snd (Xil_In32 dev addr b))
      else Some b)"

definition FCL_swq_exec_req :: "device \<Rightarrow> u32 \<Rightarrow> u32 \<Rightarrow> u32 \<Rightarrow> bus \<Rightarrow> bus option" where
  "FCL_swq_exec_req dev fcl_base ch ce b =
     (let addr = FCTL_BASE_SYS_REG fcl_base + 0x0004;
          data = push_bit 16 ch + push_bit 8 ce + 0x1;
          b1 = Xil_Out32 addr data b;
          (read_data, b2) = Xil_In32 dev addr b1
      in exec_poll dev addr read_data b2)"

definition FCL_nand_reset :: "device \<Rightarrow> u32 \<Rightarrow> u32 \<Rightarrow> u32 \<Rightarrow> bus \<Rightarrow> bus option" where
  "FCL_nand_reset dev fcl_base ch ce b =
     FCL_swq_exec_req dev fcl_base ch ce
       (out_seq (FCTL_BASE_SWQ_CMD_SRAM fcl_base) [0x180000FF, 0x880000FF] b)"

definition FCL_get_rbn :: "device \<Rightarrow> u32 \<Rightarrow> u32 \<Rightarrow> u32 \<Rightarrow> u32 \<Rightarrow> bus \<Rightarrow> (u32 \<times> bus) option" where
  "FCL_get_rbn dev fcl_base ch ce is_ddr b = do {
     let b1 = out_seq (FCTL_BASE_SWQ_CMD_SRAM fcl_base)
       [0x18000070, 0x0800000F, if is_ddr \<noteq> 0 then 0x68000000 else 0x48000000, 0x88000000] b;
     b2 \<leftarrow> FCL_swq_exec_req dev fcl_base ch ce b1;
     let (data, b3) = Xil_In32 dev
       (if is_ddr \<noteq> 0 then FCTL_BASE_SWQ_DDR_SRAM fcl_base else FCTL_BASE_SWQ_SDR_SRAM fcl_base) b2;
     Some (data AND 0x00FF, b3)
   }"

partial_function (option) wait_rbn_loop ::
  "device \<Rightarrow> u32 \<Rightarrow> u32 \<Rightarrow> u32 \<Rightarrow> u32 \<Rightarrow> u32 \<Rightarrow> bus \<Rightarrow> bus option" where
  "wait_rbn_loop dev fcl_base ch ce is_ddr data b =
     (if data \<noteq> 0xe0
      then do {
        r \<leftarrow> FCL_get_rbn dev fcl_base ch ce is_ddr b;
        wait_rbn_loop dev fcl_base ch ce is_ddr (fst r) (snd r)
      }
      else Some b)"

definition FCL_wait_rbn :: "device \<Rightarrow> u32 \<Rightarrow> u32 \<Rightarrow> u32 \<Rightarrow> u32 \<Rightarrow> bus \<Rightarrow> bus option" where
  "FCL_wait_rbn dev fcl_base ch ce is_ddr b = do {
     r \<leftarrow> FCL_get_rbn dev fcl_base ch ce is_ddr b;
     wait_rbn_loop dev fcl_base ch ce is_ddr (fst r) (snd r)
   }"

definition FCL_set_mode :: "u32 \<Rightarrow> u32 \<Rightarrow> bus \<Rightarrow> bus" where
  "FCL_set_mode fcl_base mode b = Xil_Out32 (FCTL_BASE_SYS_REG fcl_base) mode b"

definition FCL_reset_ch :: "u32 \<Rightarrow> bus \<Rightarrow> bus" where
  "FCL_reset_ch fcl_base b = Xil_Out32 (FCTL_BASE_SYS_REG fcl_base + 8) 0x01010101 b"

definition FCL_release_ch :: "u32 \<Rightarrow> bus \<Rightarrow> bus" where
  "FCL_release_ch fcl_base b = Xil_Out32 (FCTL_BASE_SYS_REG fcl_base + 8) 0x0 b"

definition FCL_set_feature_ddr :: "device \<Rightarrow> u32 \<Rightarrow> u32 \<Rightarrow> u32 \<Rightarrow> bus \<Rightarrow> bus option" where
  "FCL_set_feature_ddr dev fcl_base ch ce b = do {
     b1 \<leftarrow> FCL_swq_exec_req dev fcl_base ch ce
       (out_seq (FCTL_BASE_SWQ_CMD_SRAM fcl_base)
         [0x100000EF, 0x38000002, 0x080000FF, 0x50000006, 0x50000000, 0x50000000, 0x58000000, 0x880000FF] b);
     FCL_swq_exec_req dev fcl_base ch ce
       (out_seq (FCTL_BASE_SWQ_CMD_SRAM fcl_base)
         [0x100000EF, 0x38000001, 0x080000FF, 0x50000024, 0x50000000, 0x50000000, 0x58000000, 0x880000FF] b1)
   }"

text \<open>The two nested loops over channels and chips.\<close>

definition all_chips :: "(nat \<times> nat) list" where
  "all_chips = [(ch, ce). ch \<leftarrow> [0..<TOTAL_CHANNEL], ce \<leftarrow> [0..<TOTAL_CE div TOTAL_CHANNEL]]"

primrec each_chip :: "(nat \<times> nat \<Rightarrow> bus \<Rightarrow> bus option) \<Rightarrow> (nat \<times> nat) list \<Rightarrow> bus \<Rightarrow> bus option" where
  "each_chip f [] b = Some b"
| "each_chip f (c # cs) b = do { b1 \<leftarrow> f c b; each_chip f cs b1 }"

text \<open>\<^verbatim>\<open>FCL_init_flash_controller\<close>: the emulator only allocates and clears the
  register file (\<open>p\<close> is what \<^verbatim>\<open>malloc\<close> returns); the code for the board
  programs the controller.\<close>

definition FCL_init_flash_controller :: "u32 \<Rightarrow> u32 \<times> bus" where
  "FCL_init_flash_controller p = (align_base p, [])"

definition FCL_init_flash_controller_hw :: "device \<Rightarrow> u32 \<Rightarrow> bus \<Rightarrow> bus option" where
  "FCL_init_flash_controller_hw dev fcl_base b = do {
     let b1 = FCL_set_mode fcl_base 1 (FCL_set_timing fcl_base b);
     b2 \<leftarrow> each_chip (\<lambda>(ch, ce). FCL_nand_reset dev fcl_base (of_nat ch) (of_nat ce)) all_chips b1;
     let b3 = FCL_release_ch fcl_base (FCL_reset_ch fcl_base b2);
     b4 \<leftarrow> each_chip (\<lambda>(ch, ce). FCL_set_feature_ddr dev fcl_base (of_nat ch) (of_nat ce)) all_chips b3;
     Some (FCL_set_mode fcl_base 0 b4)
   }"

section \<open>The slots of a channel\<close>

definition sq_used :: "u32 \<Rightarrow> fcl_state \<Rightarrow> nat set" where
  "sq_used ch s = used_slots (HW_QUEUE_DEPTH div 32) (hw_sq_bitmap s (unat ch))"

lemma HW_QUEUE_DEPTH_div [simp]: "HW_QUEUE_DEPTH div 32 = 8"
  by (simp add: HW_QUEUE_DEPTH_def)

lemma sq_used_bound: "sq_used ch s \<subseteq> {..<HW_QUEUE_DEPTH}"
  using used_slots_bound [of 8 "hw_sq_bitmap s (unat ch)"] by (simp add: sq_used_def HW_QUEUE_DEPTH_def)

lemma get_free_SQ_cases:
  obtains (full) "FCL_get_free_SQ_entry ch s = (INVALID_ID, s)" "sq_used ch s = {..<HW_QUEUE_DEPTH}"
  | (slot) k s' where "FCL_get_free_SQ_entry ch s = (of_nat k, s')" "k < HW_QUEUE_DEPTH" "k \<notin> sq_used ch s"
      "\<forall>j<k. j \<in> sq_used ch s" "sq_used ch s' = insert k (sq_used ch s)"
      "\<And>c. c \<noteq> ch \<Longrightarrow> sq_used c s' = sq_used c s" "hw_SQ s' = hw_SQ s" "hw_CQ s' = hw_CQ s"
proof (cases "scan_bitmap 8 (hw_sq_bitmap s (unat ch)) 0")
  case None
  then have "sq_used ch s = {..<HW_QUEUE_DEPTH}"
    using scan_bitmap_full [of 8 "hw_sq_bitmap s (unat ch)"] by (simp add: sq_used_def HW_QUEUE_DEPTH_def)
  then show ?thesis using full None by (simp add: FCL_get_free_SQ_entry_def)
next
  case (Some ij)
  then obtain i j where sc: "scan_bitmap 8 (hw_sq_bitmap s (unat ch)) 0 = Some (i, j)" by (cases ij) auto
  let ?s = "s\<lparr>hw_sq_bitmap := (hw_sq_bitmap s)(unat ch := bitmap_set i j (hw_sq_bitmap s (unat ch)))\<rparr>"
  note u = scan_bitmap_used [OF sc]
  from scan_bitmap_Some [OF sc] have "j < 32" by simp
  then have "used_slots 8 (bitmap_set i j (hw_sq_bitmap s (unat ch))) =
      insert (32 * i + j) (used_slots 8 (hw_sq_bitmap s (unat ch)))"
    using u(1) by (simp add: used_slots_set)
  then have "sq_used ch ?s = insert (32 * i + j) (sq_used ch s)" by (simp add: sq_used_def)
  moreover have "sq_used c ?s = sq_used c s" if "c \<noteq> ch" for c
    using that by (simp add: sq_used_def word_unat_eq_iff)
  ultimately show ?thesis
    using slot [of "32 * i + j" ?s] sc u by (simp add: FCL_get_free_SQ_entry_def sq_used_def HW_QUEUE_DEPTH_def)
qed

lemma free_SQ_used:
  assumes "k < HW_QUEUE_DEPTH"
  shows "sq_used ch (FCL_free_SQ_entry ch (of_nat k) s) = sq_used ch s - {k}"
proof -
  have k: "unat (of_nat k :: u32) = k" using assms by (intro unat_of_nat_u32) (simp add: HW_QUEUE_DEPTH_def)
  show ?thesis
    using used_slots_clear [of "k mod 32" 8 "k div 32" "hw_sq_bitmap s (unat ch)"] k
    by (simp add: sq_used_def FCL_free_SQ_entry_def unat_div unat_mod)
qed

lemma free_SQ_other: "c \<noteq> ch \<Longrightarrow> sq_used c (FCL_free_SQ_entry ch i s) = sq_used c s"
  by (simp add: sq_used_def FCL_free_SQ_entry_def word_unat_eq_iff)

lemma of_nat_slot_valid: "k < HW_QUEUE_DEPTH \<Longrightarrow> (of_nat k :: u32) \<noteq> INVALID_ID"
  by (rule unat_eq_INVALID) (subst unat_of_nat_u32; simp add: HW_QUEUE_DEPTH_def)

text \<open>The slots of a channel as a pool: \<^verbatim>\<open>INVALID_INDEX\<close> is the failure.\<close>

definition sq_alloc :: "u32 \<Rightarrow> fcl_state \<Rightarrow> nat option \<times> fcl_state" where
  "sq_alloc ch s = (let (r, s') = FCL_get_free_SQ_entry ch s in (if r = INVALID_ID then None else Some (unat r), s'))"

interpretation sq_pool: slot_pool "sq_alloc ch" "\<lambda>k. FCL_free_SQ_entry ch (of_nat k)" "sq_used ch" HW_QUEUE_DEPTH
  for ch :: u32
proof unfold_locales
  show "sq_used ch s \<subseteq> {..<HW_QUEUE_DEPTH}" for s by (rule sq_used_bound)
  show "k < HW_QUEUE_DEPTH \<and> k \<notin> sq_used ch s \<and> (\<forall>j<k. j \<in> sq_used ch s) \<and> sq_used ch s' = insert k (sq_used ch s)"
    if "sq_alloc ch s = (Some k, s')" for s k s'
  proof (cases rule: get_free_SQ_cases [of ch s])
    case full
    with that show ?thesis by (simp add: sq_alloc_def)
  next
    case (slot k1 s1)
    moreover have "unat (of_nat k1 :: u32) = k1"
      using slot(2) by (intro unat_of_nat_u32) (simp add: HW_QUEUE_DEPTH_def)
    ultimately show ?thesis using that of_nat_slot_valid [OF slot(2)] by (auto simp: sq_alloc_def)
  qed
  show "sq_used ch s = {..<HW_QUEUE_DEPTH} \<and> sq_used ch s' = sq_used ch s" if "sq_alloc ch s = (None, s')" for s s'
    by (cases rule: get_free_SQ_cases [of ch s])
      (use that of_nat_slot_valid in \<open>auto simp: sq_alloc_def\<close>)
  show "sq_used ch (FCL_free_SQ_entry ch (of_nat k) s) = sq_used ch s - {k}" if "k < HW_QUEUE_DEPTH" for k s
    using that by (rule free_SQ_used)
qed

lemma SQ_empty_iff: "FCL_SQ_empty ch s \<longleftrightarrow> sq_used ch s = {..<HW_QUEUE_DEPTH}"
  using scan_bitmap_full [of 8 "hw_sq_bitmap s (unat ch)"]
  by (cases "scan_bitmap 8 (hw_sq_bitmap s (unat ch)) 0")
    (simp_all add: FCL_SQ_empty_def sq_used_def HW_QUEUE_DEPTH_def)

section \<open>The contents of a queue entry\<close>

lemma sq_entry_same [simp]: "hw_SQ (set_sq_field ch i f v s) ch i = field_set f (ucast v) (hw_SQ s ch i)"
  by (simp add: set_sq_field_def)

lemma sq_entry_other: "c \<noteq> ch \<or> j \<noteq> i \<Longrightarrow> hw_SQ (set_sq_field ch i f v s) c j = hw_SQ s c j"
  by (auto simp: set_sq_field_def)

lemma set_sq_field_rest [simp]:
  "hw_sq_bitmap (set_sq_field ch i f v s) = hw_sq_bitmap s" "hw_CQ (set_sq_field ch i f v s) = hw_CQ s"
  by (simp_all add: set_sq_field_def)

lemma sq_field_set_same:
  "fst f + snd f \<le> 128 \<Longrightarrow> snd f \<le> 32 \<Longrightarrow> sq_field f (field_set f (ucast v) e) = take_bit (snd f) v"
proof -
  assume f: "fst f + snd f \<le> 128" "snd f \<le> 32"
  then have "field_get f (field_set f (ucast v) e) = take_bit (snd f) (ucast v :: 128 word)"
    by (intro field_get_set_same) (simp add: field_fits_def)
  moreover have "(ucast (take_bit (snd f) (ucast v :: 128 word)) :: u32) = take_bit (snd f) v"
    by (rule bit_word_eqI) (auto simp: bit_simps)
  ultimately show ?thesis by (simp add: sq_field_def)
qed

lemma sq_field_set_other: "field_disjoint f g \<Longrightarrow> sq_field f (field_set g v e) = sq_field f e"
  by (simp add: sq_field_def field_get_set_other)

lemmas sq_field_simps = sq_field_set_same sq_field_set_other field_disjoint_def sq_field_defs

lemma nand_byte_small: "take_bit 8 (nand_byte i ppa) = nand_byte i ppa"
  by (rule bit_word_eqI) (auto simp: nand_byte_def bit_simps bit_field_get nand_array_def)

lemma set_SQ_entry_fields:
  assumes "unat (ppa_ch ppa) < TOTAL_CHANNEL" and "unat i < HW_QUEUE_DEPTH" and "opcode \<noteq> HCE_ERASE"
  obtains s' e where "FCL_set_SQ_entry mb hc i buf opcode ppa sp s = Some s'"
    "e = hw_SQ s' (unat (ppa_ch ppa)) (unat i)"
    "sq_field sq_op e = take_bit 2 opcode" "sq_field sq_cmd_space e = take_bit 1 sp"
    "sq_field sq_hcmd_index e = take_bit 8 hc"
    "sq_field sq_buf_adr e = take_bit 18 (drop_bit 14 (L2P_get_buffer_addr mb buf))"
    "sq_field sq_a0 e = nand_byte 0 ppa" "sq_field sq_a1 e = nand_byte 1 ppa" "sq_field sq_a2 e = nand_byte 2 ppa"
    "sq_field sq_a3 e = nand_byte 3 ppa" "sq_field sq_a4 e = nand_byte 4 ppa" "sq_field sq_a5 e = nand_byte 5 ppa"
    "sq_field sq_cur_ptr e = sq_field sq_cur_ptr (hw_SQ s (unat (ppa_ch ppa)) (unat i))"
    "sq_field sq_next_ptr e = sq_field sq_next_ptr (hw_SQ s (unat (ppa_ch ppa)) (unat i))"
    "hw_sq_bitmap s' = hw_sq_bitmap s"
    "\<And>c j. c \<noteq> unat (ppa_ch ppa) \<or> j \<noteq> unat i \<Longrightarrow> hw_SQ s' c j = hw_SQ s c j"
proof -
  define s' where "s' = the (FCL_set_SQ_entry mb hc i buf opcode ppa sp s)"
  have s': "FCL_set_SQ_entry mb hc i buf opcode ppa sp s = Some s'"
    using assms by (simp add: s'_def FCL_set_SQ_entry_def Let_def)
  then have d: "s' = set_sq_field (unat (ppa_ch ppa)) (unat i) sq_hcmd_index hc
      (set_sq_field (unat (ppa_ch ppa)) (unat i) sq_a5 (nand_byte 5 ppa)
      (set_sq_field (unat (ppa_ch ppa)) (unat i) sq_a4 (nand_byte 4 ppa)
      (set_sq_field (unat (ppa_ch ppa)) (unat i) sq_a3 (nand_byte 3 ppa)
      (set_sq_field (unat (ppa_ch ppa)) (unat i) sq_a2 (nand_byte 2 ppa)
      (set_sq_field (unat (ppa_ch ppa)) (unat i) sq_a1 (nand_byte 1 ppa)
      (set_sq_field (unat (ppa_ch ppa)) (unat i) sq_a0 (nand_byte 0 ppa)
      (set_sq_field (unat (ppa_ch ppa)) (unat i) sq_buf_adr (drop_bit 14 (L2P_get_buffer_addr mb buf))
      (set_sq_field (unat (ppa_ch ppa)) (unat i) sq_cmd_space sp
      (set_sq_field (unat (ppa_ch ppa)) (unat i) sq_t0_add_da 1
      (set_sq_field (unat (ppa_ch ppa)) (unat i) sq_op opcode s))))))))))"
    using assms by (simp add: FCL_set_SQ_entry_def Let_def)
  show ?thesis
    by (rule that [OF s' refl]; unfold d) (simp_all add: sq_field_simps nand_byte_small sq_entry_other)
qed

lemma aligned16K_add: "aligned16K a \<Longrightarrow> aligned16K b \<Longrightarrow> aligned16K (a + b)"
proof -
  assume a: "aligned16K a" "aligned16K b"
  have "unat (a + b) mod 2 ^ 14 = (unat a + unat b) mod 2 ^ 32 mod 2 ^ 14" by (simp add: unat_word_ariths)
  also have "\<dots> = (unat a + unat b) mod 2 ^ 14" by (rule mod_mod_cancel) (simp add: dvd_def)
  also have "\<dots> = 0" using a unfolding aligned16K_unat by (metis add_0 mod_0 mod_add_eq)
  finally show ?thesis unfolding aligned16K_unat .
qed

lemma align_base_aligned: "aligned16K (align_base p)"
  unfolding align_base_def by (rule aligned16K_add) (simp_all add: aligned16K_def take_bit_push_bit KB_def)

lemma buffer_addr_aligned:
  assumes "aligned16K mb"
  shows "aligned16K (L2P_get_buffer_addr mb buf)"
proof -
  have "buf * 16 * 1024 = push_bit 14 buf" by (simp add: push_bit_eq_mult)
  then have "aligned16K (buf * 16 * 1024)" by (simp add: aligned16K_def take_bit_push_bit)
  moreover have "aligned16K (600 * MB)" by (simp add: aligned16K_def const_defs)
  ultimately show ?thesis
    unfolding L2P_get_buffer_addr_def BUFFER_BASE_ADDR_def using assms by (intro aligned16K_add)
qed

lemma aligned_drop_push:
  assumes "aligned16K a"
  shows "push_bit 14 (take_bit 18 (drop_bit 14 a)) = a"
proof (rule bit_word_eqI)
  fix n assume n: "n < LENGTH(32)"
  have "\<not> bit a n" if "n < 14"
    using arg_cong [OF assms [unfolded aligned16K_def], of "\<lambda>x. bit x n"] that by (simp add: bit_simps)
  then show "bit (push_bit 14 (take_bit 18 (drop_bit 14 a))) n \<longleftrightarrow> bit a n"
    using n by (cases "n < 14") (auto simp: bit_simps not_less)
qed

section \<open>Initial queues\<close>

lemma fold_set_fields:
  assumes "distinct js"
  shows "hw_SQ (fold (\<lambda>j t. set_sq_field i j f (v j) (set_sq_field i j g (w j) t)) js s) c k =
    (if c = i \<and> k \<in> set js then field_set f (ucast (v k)) (field_set g (ucast (w k)) (hw_SQ s c k)) else hw_SQ s c k)"
    and "hw_sq_bitmap (fold (\<lambda>j t. set_sq_field i j f (v j) (set_sq_field i j g (w j) t)) js s) = hw_sq_bitmap s"
    and "hw_CQ (fold (\<lambda>j t. set_sq_field i j f (v j) (set_sq_field i j g (w j) t)) js s) = hw_CQ s"
  using assms by (induction js arbitrary: s) (auto simp: set_sq_field_def)

lemma init_channel_used:
  "sq_used c (fst (init_channel mb fb i sb)) = (if unat c = i then {} else sq_used c (fst sb))"
  by (cases sb) (auto simp: init_channel_def Let_def sq_used_def fold_set_fields used_slots_def)

lemma init_channel_other:
  "c \<noteq> i \<Longrightarrow> hw_SQ (fst (init_channel mb fb i sb)) c = hw_SQ (fst sb) c"
  "c \<noteq> i \<Longrightarrow> hw_CQ (fst (init_channel mb fb i sb)) c = hw_CQ (fst sb) c"
  by (cases sb; auto simp: init_channel_def Let_def fold_set_fields sq_entry_other fun_eq_iff)+

lemma take_bit_8_index: "j < 256 \<Longrightarrow> take_bit 8 (of_nat j :: u32) = of_nat j"
  by (rule take_bit_small_word) (subst unat_of_nat_u32; simp)

lemma init_channel_entry:
  assumes "j < HW_QUEUE_DEPTH"
  shows "sq_field sq_cur_ptr (hw_SQ (fst (init_channel mb fb i (s, b))) i j) = of_nat j"
    and "sq_field sq_next_ptr (hw_SQ (fst (init_channel mb fb i (s, b))) i j) = of_nat (min (j + 1) (HW_QUEUE_DEPTH - 1))"
    and "hw_CQ (fst (init_channel mb fb i (s, b))) i j = - 1"
proof -
  let ?r = "fst (init_channel mb fb i (s, b))"
  have j: "j < 256" using assms by (simp add: HW_QUEUE_DEPTH_def)
  have e: "hw_SQ ?r i j = (if j = HW_QUEUE_DEPTH - 1 then field_set sq_next_ptr (ucast (of_nat (HW_QUEUE_DEPTH - 1) :: u32)) else id)
      (field_set sq_cur_ptr (ucast (of_nat j :: u32)) (field_set sq_next_ptr (ucast (of_nat j + 1 :: u32)) 0))"
    using assms by (auto simp: init_channel_def Let_def fold_set_fields sq_entry_other)
  show "sq_field sq_cur_ptr (hw_SQ ?r i j) = of_nat j"
    using j by (simp add: e sq_field_simps take_bit_8_index)
  show "sq_field sq_next_ptr (hw_SQ ?r i j) = of_nat (min (j + 1) (HW_QUEUE_DEPTH - 1))"
  proof (cases "j = 255")
    case True
    then have c: "j = HW_QUEUE_DEPTH - 1" by (simp add: HW_QUEUE_DEPTH_def)
    have n: "sq_field sq_next_ptr (field_set sq_next_ptr (ucast v) x) = take_bit 8 v" for v :: u32 and x
      by (simp add: sq_field_simps)
    show ?thesis unfolding e if_P [OF c] n by (simp add: c HW_QUEUE_DEPTH_def)
  next
    case False
    then have "take_bit 8 (of_nat (j + 1) :: u32) = of_nat (j + 1)" using j by (intro take_bit_8_index) simp
    then show ?thesis using False j by (simp add: e sq_field_simps HW_QUEUE_DEPTH_def add.commute)
  qed
  show "hw_CQ ?r i j = - 1" using assms by (simp add: init_channel_def Let_def)
qed

lemma fold_init_channel:
  shows "sq_used ch (fst (fold (init_channel mb fb) is sb)) = (if unat ch \<in> set is then {} else sq_used ch (fst sb))"
    and "c \<notin> set is \<Longrightarrow> hw_SQ (fst (fold (init_channel mb fb) is sb)) c = hw_SQ (fst sb) c"
    and "c \<notin> set is \<Longrightarrow> hw_CQ (fst (fold (init_channel mb fb) is sb)) c = hw_CQ (fst sb) c"
    and "c \<in> set is \<Longrightarrow> distinct is \<Longrightarrow> \<exists>tb. hw_SQ (fst (fold (init_channel mb fb) is sb)) c = hw_SQ (fst (init_channel mb fb c tb)) c \<and>
      hw_CQ (fst (fold (init_channel mb fb) is sb)) c = hw_CQ (fst (init_channel mb fb c tb)) c"
proof (induction "is" arbitrary: sb)
  case (Cons i "is")
  { case 1 show ?case using Cons.IH(1) by (simp add: init_channel_used)
  next
    case 2 then show ?case using Cons.IH(2) by (simp add: init_channel_other)
  next
    case 3 then show ?case using Cons.IH(3) by (simp add: init_channel_other)
  next
    case 4
    show ?case
    proof (cases "c = i")
      case True
      then have "c \<notin> set is" using 4 by simp
      then show ?thesis using Cons.IH(2,3) [of "init_channel mb fb i sb"] True by (intro exI [of _ sb]) simp
    next
      case False
      then show ?thesis using Cons.IH(4) [of "init_channel mb fb i sb"] 4 by simp
    qed
  }
qed simp_all

lemma init_hw_queue_free:
  "unat ch < TOTAL_CHANNEL \<Longrightarrow> sq_used ch (fst (FCL_init_hw_queue mb fb sb)) = {}"
  by (simp add: FCL_init_hw_queue_def fold_init_channel(1))

lemma init_hw_queue_entries:
  assumes "ch < TOTAL_CHANNEL" and "j < HW_QUEUE_DEPTH"
  shows "sq_field sq_cur_ptr (hw_SQ (fst (FCL_init_hw_queue mb fb sb)) ch j) = of_nat j"
    and "sq_field sq_next_ptr (hw_SQ (fst (FCL_init_hw_queue mb fb sb)) ch j) = of_nat (min (j + 1) (HW_QUEUE_DEPTH - 1))"
    and "hw_CQ (fst (FCL_init_hw_queue mb fb sb)) ch j = - 1"
proof -
  obtain s b where e: "hw_SQ (fst (FCL_init_hw_queue mb fb sb)) ch = hw_SQ (fst (init_channel mb fb ch (s, b))) ch"
    "hw_CQ (fst (FCL_init_hw_queue mb fb sb)) ch = hw_CQ (fst (init_channel mb fb ch (s, b))) ch"
    using fold_init_channel(4) [of ch "[0..<TOTAL_CHANNEL]" mb fb sb] assms(1) by (force simp: FCL_init_hw_queue_def)
  show "sq_field sq_cur_ptr (hw_SQ (fst (FCL_init_hw_queue mb fb sb)) ch j) = of_nat j"
    and "sq_field sq_next_ptr (hw_SQ (fst (FCL_init_hw_queue mb fb sb)) ch j) = of_nat (min (j + 1) (HW_QUEUE_DEPTH - 1))"
    and "hw_CQ (fst (FCL_init_hw_queue mb fb sb)) ch j = - 1"
    unfolding e using init_channel_entry [OF assms(2)] by simp_all
qed

section \<open>What the controller sees\<close>

text \<open>A device that finishes what it is asked: after finitely many polls, from any history, the
  busy bit of the request register is clear.\<close>

definition responsive :: "device \<Rightarrow> u32 \<Rightarrow> bool" where
  "responsive dev a \<longleftrightarrow> (\<forall>b. \<exists>n. dev (polls dev a n b) a AND 1 = 0)"

lemma exec_poll_returns:
  assumes "dev (polls dev a n b) a AND 1 = 0"
  shows "\<exists>b'. exec_poll dev a (dev b a) (snd (Xil_In32 dev a b)) = Some b' \<and> bus_writes b' = bus_writes b"
  using assms
proof (induction n arbitrary: b)
  case 0
  then show ?case by (simp add: exec_poll.simps)
next
  case (Suc n)
  show ?case
  proof (cases "dev b a AND 1 = 0")
    case True
    then show ?thesis by (simp add: exec_poll.simps)
  next
    case False
    let ?b1 = "snd (Xil_In32 dev a b)"
    obtain b' where "exec_poll dev a (dev ?b1 a) (snd (Xil_In32 dev a ?b1)) = Some b'" "bus_writes b' = bus_writes ?b1"
      using Suc.IH [of ?b1] Suc.prems by auto
    then show ?thesis using False by (auto simp: exec_poll.simps [of dev a "dev b a"] Xil_In32_def)
  qed
qed

lemma exec_req_returns:
  assumes "responsive dev (FCTL_BASE_SYS_REG fb + 4)"
  shows "\<exists>b'. FCL_swq_exec_req dev fb ch ce b = Some b' \<and>
    bus_writes b' = bus_writes b @ [(FCTL_BASE_SYS_REG fb + 4, push_bit 16 ch + push_bit 8 ce + 1)]"
proof -
  let ?a = "FCTL_BASE_SYS_REG fb + 4" and ?v = "push_bit 16 ch + push_bit 8 ce + 1"
  let ?b1 = "Xil_Out32 ?a ?v b"
  obtain n where "dev (polls dev ?a n ?b1) ?a AND 1 = 0" using assms unfolding responsive_def by blast
  from exec_poll_returns [of dev ?a n ?b1, OF this] obtain b' where
    "exec_poll dev ?a (dev ?b1 ?a) (snd (Xil_In32 dev ?a ?b1)) = Some b'" "bus_writes b' = bus_writes ?b1" by blast
  then show ?thesis by (simp add: FCL_swq_exec_req_def Let_def Xil_In32_def)
qed

definition exec_write :: "u32 \<Rightarrow> nat \<times> nat \<Rightarrow> u32 \<times> u32" where
  "exec_write fb c = (FCTL_BASE_SYS_REG fb + 4, push_bit 16 (of_nat (fst c)) + push_bit 8 (of_nat (snd c)) + 1)"

definition reset_writes :: "u32 \<Rightarrow> nat \<times> nat \<Rightarrow> (u32 \<times> u32) list" where
  "reset_writes fb c = seq_writes (FCTL_BASE_SWQ_CMD_SRAM fb) [0x180000FF, 0x880000FF] @ [exec_write fb c]"

definition feature_writes :: "u32 \<Rightarrow> nat \<times> nat \<Rightarrow> (u32 \<times> u32) list" where
  "feature_writes fb c =
     seq_writes (FCTL_BASE_SWQ_CMD_SRAM fb)
       [0x100000EF, 0x38000002, 0x080000FF, 0x50000006, 0x50000000, 0x50000000, 0x58000000, 0x880000FF] @
     [exec_write fb c] @
     seq_writes (FCTL_BASE_SWQ_CMD_SRAM fb)
       [0x100000EF, 0x38000001, 0x080000FF, 0x50000024, 0x50000000, 0x50000000, 0x58000000, 0x880000FF] @
     [exec_write fb c]"

definition timing_writes :: "u32 \<Rightarrow> nat \<Rightarrow> (u32 \<times> u32) list" where
  "timing_writes fb ch = seq_writes (FCTL_CH_REG_BASE_ADDR fb + of_nat ch * FCTL_SZ_PER_CH)
     [0x03050F, 0x04080804, 0x04060404, 0x0404, 0x0000, 0x04040404]"

lemma each_chip_writes:
  assumes "\<And>c b. \<exists>b'. f c b = Some b' \<and> bus_writes b' = bus_writes b @ w c"
  shows "\<exists>b'. each_chip f cs b = Some b' \<and> bus_writes b' = bus_writes b @ concat (map w cs)"
proof (induction cs arbitrary: b)
  case (Cons c cs)
  obtain b1 where "f c b = Some b1" "bus_writes b1 = bus_writes b @ w c" using assms by blast
  with Cons [of b1] show ?case by auto
qed simp

lemma nand_reset_writes:
  assumes "responsive dev (FCTL_BASE_SYS_REG fb + 4)"
  shows "\<exists>b'. (case c of (ch, ce) \<Rightarrow> FCL_nand_reset dev fb (of_nat ch) (of_nat ce)) b = Some b' \<and>
    bus_writes b' = bus_writes b @ reset_writes fb c"
  using exec_req_returns [OF assms, of "of_nat (fst c)" "of_nat (snd c)"
      "out_seq (FCTL_BASE_SWQ_CMD_SRAM fb) [0x180000FF, 0x880000FF] b"]
  by (cases c) (simp add: FCL_nand_reset_def reset_writes_def exec_write_def)

lemma set_feature_writes:
  assumes "responsive dev (FCTL_BASE_SYS_REG fb + 4)"
  shows "\<exists>b'. (case c of (ch, ce) \<Rightarrow> FCL_set_feature_ddr dev fb (of_nat ch) (of_nat ce)) b = Some b' \<and>
    bus_writes b' = bus_writes b @ feature_writes fb c"
proof -
  let ?x = "\<lambda>v1 v2. [0x100000EF, v1, 0x080000FF, v2, 0x50000000, 0x50000000, 0x58000000, 0x880000FF]"
  let ?o = "\<lambda>v1 v2. out_seq (FCTL_BASE_SWQ_CMD_SRAM fb) (?x v1 v2)"
  obtain b1 where b1: "FCL_swq_exec_req dev fb (of_nat (fst c)) (of_nat (snd c)) (?o 0x38000002 0x50000006 b) = Some b1"
    "bus_writes b1 = bus_writes (?o 0x38000002 0x50000006 b) @ [exec_write fb c]"
    using exec_req_returns [OF assms] unfolding exec_write_def by blast
  obtain b2 where b2: "FCL_swq_exec_req dev fb (of_nat (fst c)) (of_nat (snd c)) (?o 0x38000001 0x50000024 b1) = Some b2"
    "bus_writes b2 = bus_writes (?o 0x38000001 0x50000024 b1) @ [exec_write fb c]"
    using exec_req_returns [OF assms] unfolding exec_write_def by blast
  show ?thesis
    unfolding FCL_set_feature_ddr_def feature_writes_def case_prod_beta using b1 b2 by simp
qed

lemma fold_timing_writes:
  "bus_writes (fold (\<lambda>ch. out_seq (f ch) xs) cs b) = bus_writes b @ concat (map (\<lambda>ch. seq_writes (f ch) xs) cs)"
  by (induction cs arbitrary: b) simp_all

lemma init_controller_writes:
  assumes "responsive dev (FCTL_BASE_SYS_REG fb + 4)"
  shows "\<exists>b'. FCL_init_flash_controller_hw dev fb b = Some b' \<and>
    bus_writes b' = bus_writes b @ concat (map (timing_writes fb) [0..<TOTAL_CHANNEL]) @ [(FCTL_BASE_SYS_REG fb, 1)] @
      concat (map (reset_writes fb) all_chips) @
      [(FCTL_BASE_SYS_REG fb + 8, 0x01010101), (FCTL_BASE_SYS_REG fb + 8, 0)] @
      concat (map (feature_writes fb) all_chips) @ [(FCTL_BASE_SYS_REG fb, 0)]"
proof -
  let ?b1 = "FCL_set_mode fb 1 (FCL_set_timing fb b)"
  obtain b2 where b2: "each_chip (\<lambda>(ch, ce). FCL_nand_reset dev fb (of_nat ch) (of_nat ce)) all_chips ?b1 = Some b2"
    "bus_writes b2 = bus_writes ?b1 @ concat (map (reset_writes fb) all_chips)"
    using each_chip_writes [where f = "\<lambda>(ch, ce). FCL_nand_reset dev fb (of_nat ch) (of_nat ce)" and w = "reset_writes fb",
        OF nand_reset_writes [OF assms]] by blast
  let ?b3 = "FCL_release_ch fb (FCL_reset_ch fb b2)"
  obtain b4 where b4: "each_chip (\<lambda>(ch, ce). FCL_set_feature_ddr dev fb (of_nat ch) (of_nat ce)) all_chips ?b3 = Some b4"
    "bus_writes b4 = bus_writes ?b3 @ concat (map (feature_writes fb) all_chips)"
    using each_chip_writes [where f = "\<lambda>(ch, ce). FCL_set_feature_ddr dev fb (of_nat ch) (of_nat ce)" and w = "feature_writes fb",
        OF set_feature_writes [OF assms]] by blast
  have "bus_writes ?b1 = bus_writes b @ concat (map (timing_writes fb) [0..<TOTAL_CHANNEL]) @ [(FCTL_BASE_SYS_REG fb, 1)]"
    unfolding FCL_set_mode_def FCL_set_timing_def Let_def bus_writes_out fold_timing_writes timing_writes_def
    by simp
  then show ?thesis
    using b2 b4 by (simp add: FCL_init_flash_controller_hw_def FCL_set_mode_def FCL_release_ch_def FCL_reset_ch_def)
qed

text \<open>On plain memory, the emulator's register file, the busy wait reads back the request bit it
  has just set and never ends, which is why the emulator skips this code.\<close>

lemma exec_poll_mem_stuck:
  assumes "mem_device b a AND 1 \<noteq> 0"
  shows "exec_poll mem_device a v b = None \<or> v AND 1 = 0"
proof -
  have "\<not> (mem_device b a AND 1 \<noteq> 0 \<and> v AND 1 \<noteq> 0)" if "exec_poll mem_device a v b = Some b'" for b'
  proof -
    have "dev = mem_device \<longrightarrow> \<not> (mem_device b a AND 1 \<noteq> 0 \<and> v AND 1 \<noteq> 0)"
      if "exec_poll dev a v b = Some b'" for dev
    proof (rule exec_poll.raw_induct [where P = "\<lambda>dev a v b _. dev = mem_device \<longrightarrow>
        \<not> (mem_device b a AND 1 \<noteq> 0 \<and> v AND 1 \<noteq> 0)", OF _ that], goal_cases)
      case (1 f dev a v b b')
      show ?case
        using 1(2) 1(1) [of dev a "fst (Xil_In32 dev a b)" "snd (Xil_In32 dev a b)" b']
        by (auto simp: Xil_In32_def split: if_splits)
    qed
    then show ?thesis using that by blast
  qed
  then show ?thesis using assms by (cases "exec_poll mem_device a v b") auto
qed

lemma exec_req_mem_stuck: "FCL_swq_exec_req mem_device fb ch ce b = None"
proof -
  let ?v = "push_bit 16 ch + push_bit 8 ce + 1 :: u32"
  have "\<not> even ?v" by simp
  then have "?v AND 1 \<noteq> 0" by (metis and_one_eq even_iff_mod_2_eq_zero)
  then show ?thesis
    using exec_poll_mem_stuck [of "Rd (FCTL_BASE_SYS_REG fb + 4) ?v # Xil_Out32 (FCTL_BASE_SYS_REG fb + 4) ?v b"
        "FCTL_BASE_SYS_REG fb + 4" ?v]
    by (simp add: FCL_swq_exec_req_def Let_def Xil_In32_def Xil_Out32_def)
qed

lemma fifo_bit:
  fixes r :: u32
  assumes "unat ce < 8"
  shows "(r AND 0xff) AND 0xff AND push_bit (unat ce) 1 = 0 \<longleftrightarrow> \<not> bit r (unat ce)"
proof -
  have m: "(0xff :: u32) = mask 8" by (simp add: mask_eq_exp_minus_1)
  have "(r AND 0xff) AND 0xff AND push_bit (unat ce) 1 = push_bit (unat ce) (of_bool (bit r (unat ce)))"
    unfolding m using assms by (intro bit_word_eqI) (auto simp: bit_simps bit_1_iff)
  moreover have "(push_bit (unat ce) 1 :: u32) \<noteq> 0" using assms by (simp add: push_bit_eq_mult)
  ultimately show ?thesis by simp
qed

lemma send_SQ_entry_hw:
  assumes "unat ce < 8" and "st = FCTL_CH_REG_BASE_ADDR fb + ch * FCTL_SZ_PER_CH + 0x24"
  shows "FCL_send_SQ_entry_hw dev fb index ch ce b =
    (if bit (dev b st) (unat ce) then (FAIL, Rd st (dev b st) # b)
     else (SUCCESS, Wr (FCTL_CH_QUEUE_BASE_ADDR fb + ch * FCTL_SZ_PER_CH + 4 * ce) index # Rd st (dev b st) # b))"
  using fifo_bit [OF assms(1), of "dev b st"]
  by (simp add: FCL_send_SQ_entry_hw_def FCL_get_fifo_status_def FCL_set_fifo_def Xil_In32_def Xil_Out32_def assms(2) ac_simps)

section \<open>Properties\<close>

text \<open>
  \<^verbatim>\<open>FCL_get_free_SQ_entry\<close> returns \<^verbatim>\<open>INVALID_INDEX\<close> and changes nothing
  exactly when \<^verbatim>\<open>FCL_SQ_empty\<close> says that the channel has no free slot; otherwise it returns
  the channel's lowest free slot and marks it, leaves the other channels alone, and
  \<^verbatim>\<open>FCL_free_SQ_entry\<close> gives exactly that slot back.
\<close>

theorem sq_slot_allocation:
  "if FCL_SQ_empty ch s then FCL_get_free_SQ_entry ch s = (INVALID_ID, s)
   else \<exists>k s'. FCL_get_free_SQ_entry ch s = (of_nat k, s') \<and> of_nat k \<noteq> INVALID_ID \<and> k < HW_QUEUE_DEPTH \<and>
     sq_used ch s' = insert k (sq_used ch s) \<and> {..<k} \<subseteq> sq_used ch s - {k} \<and> hw_SQ s' = hw_SQ s \<and>
     {c. c \<noteq> ch \<and> sq_used c s' \<noteq> sq_used c s} = {} \<and>
     sq_used ch (FCL_free_SQ_entry ch (of_nat k) s') = sq_used ch s"
proof (cases rule: get_free_SQ_cases [of ch s])
  case full
  then show ?thesis by (simp add: SQ_empty_iff)
next
  case (slot k s')
  then have "\<not> FCL_SQ_empty ch s" by (auto simp: SQ_empty_iff)
  moreover have "sq_used ch (FCL_free_SQ_entry ch (of_nat k) s') = sq_used ch s" using slot free_SQ_used [OF slot(2), of ch s'] by auto
  ultimately show ?thesis using slot of_nat_slot_valid [OF slot(2)]
    by (intro if_not_P [THEN iffD2] exI [of _ k] exI [of _ s'] conjI) (auto simp del: of_nat_numeral)
qed

text \<open>
  \<^verbatim>\<open>FCL_set_SQ_entry\<close> writes a read or write request into the given slot and into no other:
  the operation, the number of the host command, the six address bytes, and a buffer address whose
  upper 18 bits are enough to rebuild the whole address, because buffers are 16 KB aligned.
\<close>

theorem sq_entry_contents:
  assumes "unat (ppa_ch ppa) < TOTAL_CHANNEL" and "unat i < HW_QUEUE_DEPTH" and "op = HCE_READ \<or> op = HCE_WRITE"
    and "hc < 256" and "aligned16K mb"
  shows "\<exists>s' e. FCL_set_SQ_entry mb hc i buf op ppa 0 s = Some s' \<and> e = hw_SQ s' (unat (ppa_ch ppa)) (unat i) \<and>
    sq_field sq_op e = op \<and> sq_field sq_hcmd_index e = hc \<and>
    push_bit 14 (sq_field sq_buf_adr e) = L2P_get_buffer_addr mb buf \<and>
    [sq_field sq_a0 e, sq_field sq_a1 e, sq_field sq_a2 e, sq_field sq_a3 e, sq_field sq_a4 e, sq_field sq_a5 e] =
      map (\<lambda>n. nand_byte n ppa) [0, 1, 2, 3, 4, 5] \<and>
    (\<forall>c j. c \<noteq> unat (ppa_ch ppa) \<or> j \<noteq> unat i \<longrightarrow> hw_SQ s' c j = hw_SQ s c j)"
proof -
  have ne: "op \<noteq> HCE_ERASE" using assms(3) by auto
  have op: "take_bit 2 op = op" using assms(3) by (auto simp: HCE_WRITE_def HCE_READ_def)
  have "unat hc < 256" using assms(4) by (simp add: word_less_nat_alt)
  then have hc: "take_bit 8 hc = hc" using take_bit_8_index [of "unat hc"] by simp
  show ?thesis
    by (rule set_SQ_entry_fields [OF assms(1,2) ne, of mb hc buf 0 s])
      (use op hc aligned_drop_push [OF buffer_addr_aligned [OF assms(5)]] in auto)
qed

definition blank_fcl :: fcl_state where
  "blank_fcl = \<lparr>hw_SQ = (\<lambda>_ _. 0), hw_CQ = (\<lambda>_ _. 0), hw_sq_bitmap = (\<lambda>_ _. 0)\<rparr>"

theorem sq_entry_contents_witness:
  "\<exists>s'. FCL_set_SQ_entry 0x4000 7 3 2 HCE_WRITE \<lparr>ppa_ch = 1, ppa_ce = 0, nand_flash_addr = 0\<rparr> 0 blank_fcl = Some s' \<and>
     push_bit 14 (sq_field sq_buf_adr (hw_SQ s' 1 3)) = L2P_get_buffer_addr 0x4000 2"
  using sq_entry_contents [of "\<lparr>ppa_ch = 1, ppa_ce = 0, nand_flash_addr = 0\<rparr>" 3 HCE_WRITE 7 "0x4000" 2 blank_fcl]
  by (auto simp: TOTAL_CHANNEL_def HW_QUEUE_DEPTH_def aligned16K_def)



text \<open>
  The same code on the emulator's register file, which is plain memory: the busy wait of
  \<^verbatim>\<open>FCL_swq_exec_req\<close> reads back the request bit it has just written, so no call of it ever
  returns.
\<close>

lemma exec_req_never_returns_on_memory:
  "FCL_swq_exec_req mem_device fb ch ce b = None"
  by (rule exec_req_mem_stuck)

end
