(* ===== verification/L2P.thy ===== *)
theory L2P
  imports FCL
begin

text \<open>
  The address mapping, \<^verbatim>\<open>l2p/l2p.c\<close>: from a logical page number, or an object and an
  offset, to channel, chip, plane, block and page. The C code counts through nested loops until
  the counter meets the offset; the lemmas show that this is the mixed-radix expansion of the page
  number, and that different pages of the drive get different flash pages.
  (\<^verbatim>\<open>FTL_erase_init\<close>, in the same file, is in theory \<open>Erase_Init\<close>.)
\<close>

section \<open>The loops\<close>

text \<open>What the loop body assigns when the counter meets the offset.\<close>

definition set_ppa :: "nat \<Rightarrow> nat \<Rightarrow> nat \<Rightarrow> u32 \<Rightarrow> u32 \<Rightarrow> phy_page_addr \<Rightarrow> phy_page_addr" where
  "set_ppa ch ce plane block page ppa =
     ppa\<lparr>ppa_ch := of_nat ch, ppa_ce := of_nat ce,
         nand_flash_addr :=
           field_set slc_page (ucast page)
             (field_set slc_plane (of_nat plane)
               (field_set slc_lun 0
                 (field_set slc_block (ucast block) (nand_flash_addr ppa))))\<rparr>"

text \<open>One pass over the iterations of the nested loops, in their order, with the early return.
  \<open>found\<close> decides \<^verbatim>\<open>circle_num == offset\<close>.\<close>

fun scan_loop :: "u32 list \<Rightarrow> (u32 \<Rightarrow> bool) \<Rightarrow> ('a \<times> nat) list \<Rightarrow> u32 \<Rightarrow> ('a \<times> nat) option" where
  "scan_loop normal_ch found [] circle_num = None"
| "scan_loop normal_ch found ((x, ch) # its) circle_num =
     (if normal_ch ! ch = 1
      then if found circle_num then Some (x, ch) else scan_loop normal_ch found its (circle_num + 1)
      else scan_loop normal_ch found its circle_num)"

definition obj_iterations :: "((nat \<times> nat \<times> nat) \<times> nat) list" where
  "obj_iterations =
     [((page, plane, ce), ch). page \<leftarrow> [0..<PAGE_PER_BLOCK_SLC_MODE], plane \<leftarrow> [0..<PLANE_PER_CE],
        ce \<leftarrow> [0..<CE_PER_CH], ch \<leftarrow> [0..<TOTAL_CHANNEL]]"

definition L2P_calc_obj_ppa :: "u32 \<Rightarrow> u64 \<Rightarrow> phy_page_addr \<Rightarrow> phy_page_addr" where
  "L2P_calc_obj_ppa obj_id obj_offset ppa =
     (case scan_loop NORMAL_CHANNEL (\<lambda>c. ucast c = obj_offset) obj_iterations 0 of
        Some ((page, plane, ce), ch) \<Rightarrow> set_ppa ch ce plane obj_id (of_nat page) ppa
      | None \<Rightarrow> ppa)"

definition ppa_iterations :: "((nat \<times> nat) \<times> nat) list" where
  "ppa_iterations =
     [((plane, ce), ch). plane \<leftarrow> [0..<PLANE_PER_CE], ce \<leftarrow> [0..<CE_PER_CH], ch \<leftarrow> [0..<TOTAL_CHANNEL]]"

definition valid_ch_num :: u32 where
  "valid_ch_num = fold (\<lambda>i n. if NORMAL_CHANNEL ! i = 1 then n + 1 else n) [0..<TOTAL_CHANNEL] 0"

definition L2P_calc_ppa :: "u32 \<Rightarrow> phy_page_addr \<Rightarrow> phy_page_addr" where
  "L2P_calc_ppa lpn ppa =
     (let per_row = valid_ch_num * of_nat CE_PER_CH * of_nat PLANE_PER_LUN * of_nat PAGE_PER_BLOCK_SLC_MODE;
          per_page = valid_ch_num * of_nat CE_PER_CH * of_nat PLANE_PER_LUN;
          row = lpn div per_row;
          row_offset = lpn mod per_row;
          page = row_offset div per_page;
          page_offset = row_offset mod per_page
      in case scan_loop NORMAL_CHANNEL (\<lambda>c. c = page_offset) ppa_iterations 0 of
           Some ((plane, ce), ch) \<Rightarrow> set_ppa ch ce plane row page ppa
         | None \<Rightarrow> ppa)"

text \<open>\<^verbatim>\<open>L2P_print_ppa\<close>: the six numbers printed, in order.\<close>

definition L2P_print_ppa :: "phy_page_addr \<Rightarrow> u32 list" where
  "L2P_print_ppa ppa =
     [ucast (ppa_ch ppa), ucast (ppa_ce ppa), ucast (field_get slc_lun (nand_flash_addr ppa)),
      ucast (field_get slc_plane (nand_flash_addr ppa)), ucast (field_get slc_block (nand_flash_addr ppa)),
      ucast (field_get slc_page (nand_flash_addr ppa))]"

section \<open>Closed forms\<close>

lemma NORMAL_CHANNEL_all: "ch < TOTAL_CHANNEL \<Longrightarrow> NORMAL_CHANNEL ! ch = 1"
  by (auto simp: NORMAL_CHANNEL_def TOTAL_CHANNEL_def less_Suc_eq numeral_eq_Suc)

lemma valid_ch_num_4: "valid_ch_num = 4"
  by (simp add: valid_ch_num_def NORMAL_CHANNEL_def TOTAL_CHANNEL_def upt_rec)

text \<open>With every channel usable, the pass returns the iteration whose number is the offset.\<close>

lemma scan_loop_nth:
  assumes "\<forall>it \<in> set its. snd it < TOTAL_CHANNEL" and "unat c + length its < 2 ^ 32"
    and "\<And>x. found x \<longleftrightarrow> unat x = k" and "unat c \<le> k"
  shows "scan_loop NORMAL_CHANNEL found its c = (if k - unat c < length its then Some (its ! (k - unat c)) else None)"
  using assms(1,2,4)
proof (induction its arbitrary: c)
  case (Cons it its)
  obtain x ch where it: "it = (x, ch)" by force
  have ch: "NORMAL_CHANNEL ! ch = 1" using Cons.prems(1) by (simp add: it NORMAL_CHANNEL_all)
  show ?case
  proof (cases "unat c = k")
    case True
    then show ?thesis using ch by (simp add: it assms(3) [of c])
  next
    case False
    have c1: "unat (c + 1) = Suc (unat c)" using Cons.prems(2) by (simp add: unat_word_ariths)
    have "scan_loop NORMAL_CHANNEL found its (c + 1) =
        (if k - unat (c + 1) < length its then Some (its ! (k - unat (c + 1))) else None)"
      using Cons.prems False c1 by (intro Cons.IH) auto
    moreover have "k - unat c = Suc (k - unat (c + 1))" using False Cons.prems(3) c1 by simp
    ultimately show ?thesis using ch False by (simp add: it assms(3) [of c])
  qed
qed simp

lemma concat_map_upt:
  assumes "0 < n"
  shows "concat (map (\<lambda>i. map (f i) [0..<n]) [0..<m]) = map (\<lambda>k. f (k div n) (k mod n)) [0..<m * n]"
proof (induction m)
  case (Suc m)
  have "map (\<lambda>k. f (k div n) (k mod n)) [m * n..<m * n + n] =
      map (\<lambda>k. f (k div n) (k mod n)) (map (\<lambda>j. j + m * n) [0..<n])"
    by (simp add: map_add_upt add.commute)
  also have "\<dots> = map (f m) [0..<n]" using assms by (auto simp: div_mult_self3)
  finally have "map (\<lambda>k. f (k div n) (k mod n)) [m * n..<m * n + n] = map (f m) [0..<n]" .
  moreover have "[0..<Suc m * n] = [0..<m * n] @ [m * n..<m * n + n]"
    using upt_add_eq_append [of 0 "m * n" n] by (simp add: add.commute)
  ultimately show ?case using Suc by simp
qed simp

lemma mod_mult_div: "0 < a \<Longrightarrow> k mod (a * b) div a = k div a mod b" for a b k :: nat
  by (simp add: mod_mult2_eq)

lemma ppa_iterations_eq: "ppa_iterations = map (\<lambda>k. ((k div 32, k div 4 mod 8), k mod 4)) [0..<64]"
proof -
  have 1: "concat (map (\<lambda>ce. map (\<lambda>ch. ((plane, ce), ch)) [0..<4]) [0..<8]) =
      map (\<lambda>k. ((plane, k div 4), k mod 4)) [0..<32]" for plane :: nat
    by (simp add: concat_map_upt [of 4 "\<lambda>ce ch. ((plane, ce), ch)"])
  have "ppa_iterations = concat (map (\<lambda>plane. map (\<lambda>k. ((plane, k div 4), k mod 4)) [0..<32]) [0..<2])"
    unfolding 1 [symmetric] ppa_iterations_def by (simp add: const_defs)
  also have "\<dots> = map (\<lambda>k. ((k div 32, k mod 32 div 4), k mod 32 mod 4)) [0..<64]"
    by (simp add: concat_map_upt [of 32 "\<lambda>plane k. ((plane, k div 4), k mod 4)"])
  also have "\<dots> = map (\<lambda>k. ((k div 32, k div 4 mod 8), k mod 4)) [0..<64]"
  proof (rule map_cong [OF refl])
    fix k :: nat
    have "k mod 32 div 4 = k div 4 mod 8" using mod_mult_div [of 4 k 8] by simp
    moreover have "k mod 32 mod 4 = k mod 4" by (rule mod_mod_cancel) simp
    ultimately show "((k div 32, k mod 32 div 4), k mod 32 mod 4) = ((k div 32, k div 4 mod 8), k mod 4)" by simp
  qed
  finally show ?thesis .
qed

lemma obj_iterations_eq:
  "obj_iterations = map (\<lambda>k. ((k div 64, k mod 64 div 32, k div 4 mod 8), k mod 4)) [0..<24576]"
proof -
  have e: "obj_iterations = concat (map (\<lambda>page. map (\<lambda>((plane, ce), ch). ((page, plane, ce), ch)) ppa_iterations) [0..<384])"
    unfolding obj_iterations_def ppa_iterations_def by (simp add: const_defs map_concat comp_def)
  have "obj_iterations = concat (map (\<lambda>page. map (\<lambda>k. ((page, k div 32, k div 4 mod 8), k mod 4)) [0..<64]) [0..<384])"
    unfolding e ppa_iterations_eq by (simp add: comp_def)
  also have "\<dots> = map (\<lambda>k. ((k div 64, k mod 64 div 32, k mod 64 div 4 mod 8), k mod 64 mod 4)) [0..<24576]"
    by (simp add: concat_map_upt [of 64 "\<lambda>page k. ((page, k div 32, k div 4 mod 8), k mod 4)"])
  also have "\<dots> = map (\<lambda>k. ((k div 64, k mod 64 div 32, k div 4 mod 8), k mod 4)) [0..<24576]"
  proof (rule map_cong [OF refl])
    fix k :: nat
    have "k mod 64 div 4 mod 8 = k div 4 mod 16 mod 8" using mod_mult_div [of 4 k 16] by simp
    also have "\<dots> = k div 4 mod 8" by (rule mod_mod_cancel) simp
    finally have "k mod 64 div 4 mod 8 = k div 4 mod 8" .
    moreover have "k mod 64 mod 4 = k mod 4" by (rule mod_mod_cancel) simp
    ultimately show "((k div 64, k mod 64 div 32, k mod 64 div 4 mod 8), k mod 64 mod 4) =
        ((k div 64, k mod 64 div 32, k div 4 mod 8), k mod 4)" by simp
  qed
  finally show ?thesis .
qed

lemma unat_div_of_nat: "unat (of_nat (unat x div k) :: u32) = unat x div k" for x :: u32
proof (rule unat_of_nat_u32)
  have "unat x div k \<le> unat x" by (rule div_le_dividend)
  also have "unat x < 2 ^ 32" using unsigned_less [of x, where 'a = nat] by simp
  finally show "unat x div k < 2 ^ 32" .
qed

lemma calc_obj_ppa_closed:
  "L2P_calc_obj_ppa obj off ppa =
     (if unat off < 24576
      then set_ppa (unat off mod 4) (unat off div 4 mod 8) (unat off mod 64 div 32) obj (of_nat (unat off div 64)) ppa
      else ppa)"
proof -
  let ?k = "unat off"
  have f: "(ucast c = off) = (unat c = ?k)" for c :: u32
    by (simp add: word_unat_eq_iff unat_ucast_widen)
  have "scan_loop NORMAL_CHANNEL (\<lambda>c. ucast c = off) obj_iterations 0 =
      (if ?k - unat (0 :: u32) < length obj_iterations then Some (obj_iterations ! (?k - unat (0 :: u32))) else None)"
    using f by (intro scan_loop_nth) (auto simp: obj_iterations_eq TOTAL_CHANNEL_def)
  then show ?thesis by (simp add: L2P_calc_obj_ppa_def obj_iterations_eq)
qed

lemma calc_ppa_closed:
  "L2P_calc_ppa lpn ppa =
     set_ppa (unat lpn mod 4) (unat lpn div 4 mod 8) (unat lpn div 32 mod 2)
       (of_nat (unat lpn div 24576)) (of_nat (unat lpn div 64 mod 384)) ppa"
proof -
  let ?n = "unat lpn"
  let ?k = "?n mod 64"
  have u: "unat ((lpn mod 24576) mod 64) = ?k"
    by (simp add: unat_mod) (rule mod_mod_cancel, simp)
  have pg: "(lpn mod 24576) div 64 = of_nat (?n div 64 mod 384)"
    using mod_mult_div [of 64 ?n 384] by (simp add: word_unat_eq_iff unat_mod unat_div unat_of_nat take_bit_nat_def)
  have rw: "lpn div 24576 = of_nat (?n div 24576)"
    by (simp add: word_unat_eq_iff unat_div unat_div_of_nat)
  have "scan_loop NORMAL_CHANNEL (\<lambda>c. c = (lpn mod 24576) mod 64) ppa_iterations 0 =
      (if ?k - unat (0 :: u32) < length ppa_iterations then Some (ppa_iterations ! (?k - unat (0 :: u32))) else None)"
    using u by (intro scan_loop_nth) (auto simp: ppa_iterations_eq TOTAL_CHANNEL_def word_unat_eq_iff)
  then have s: "scan_loop NORMAL_CHANNEL (\<lambda>c. c = (lpn mod 24576) mod 64) ppa_iterations 0 =
      Some ((?k div 32, ?k div 4 mod 8), ?k mod 4)"
    by (simp add: ppa_iterations_eq)
  have k: "?k div 32 = ?n div 32 mod 2" "?k mod 4 = ?n mod 4"
    using mod_mult_div [of 32 ?n 2] by (simp_all add: mod_mod_cancel)
  have "?k div 4 mod 8 = ?n div 4 mod 16 mod 8" using mod_mult_div [of 4 ?n 16] by simp
  also have "\<dots> = ?n div 4 mod 8" by (rule mod_mod_cancel) simp
  finally have q: "?k div 4 mod 8 = ?n div 4 mod 8" .
  have c: "valid_ch_num * of_nat CE_PER_CH * of_nat PLANE_PER_LUN = 64" "64 * of_nat PAGE_PER_BLOCK_SLC_MODE = (24576 :: u32)"
    by (simp_all add: valid_ch_num_4 const_defs)
  show ?thesis unfolding L2P_calc_ppa_def Let_def c s option.case prod.case k q pg rw by (rule refl)
qed

section \<open>Different pages, different addresses\<close>

definition ppa_block :: "phy_page_addr \<Rightarrow> nat" where "ppa_block p = unat (field_get slc_block (nand_flash_addr p))"
definition ppa_page :: "phy_page_addr \<Rightarrow> nat" where "ppa_page p = unat (field_get slc_page (nand_flash_addr p))"
definition ppa_plane :: "phy_page_addr \<Rightarrow> nat" where "ppa_plane p = unat (field_get slc_plane (nand_flash_addr p))"
definition ppa_lun :: "phy_page_addr \<Rightarrow> nat" where "ppa_lun p = unat (field_get slc_lun (nand_flash_addr p))"

lemmas ppa_field_defs = ppa_block_def ppa_page_def ppa_plane_def ppa_lun_def

text \<open>The page number an address stands for.\<close>

definition ppa_lpn :: "phy_page_addr \<Rightarrow> nat" where
  "ppa_lpn p = (ppa_block p * 384 + ppa_page p) * 64 + ppa_plane p * 32 + unat (ppa_ce p) * 4 + unat (ppa_ch p)"

lemma set_ppa_fields:
  assumes "ch < 4" and "ce < 8" and "plane < 2" and "unat page < 512"
  shows "unat (ppa_ch (set_ppa ch ce plane block page p)) = ch" and "unat (ppa_ce (set_ppa ch ce plane block page p)) = ce"
    and "ppa_plane (set_ppa ch ce plane block page p) = plane" and "ppa_page (set_ppa ch ce plane block page p) = unat page"
    and "ppa_lun (set_ppa ch ce plane block page p) = 0" and "ppa_block (set_ppa ch ce plane block page p) = unat block mod 1024"
proof -
  have 1: "take_bit 9 (ucast page :: 64 word) = ucast page"
    using assms(4) by (intro take_bit_small_word) (simp add: unat_ucast_widen)
  have 2: "unat (take_bit 1 (of_nat plane :: 64 word)) = plane"
  proof -
    have "plane = 0 \<or> plane = 1" using assms(3) by auto
    then show ?thesis by auto
  qed
  show "unat (ppa_ch (set_ppa ch ce plane block page p)) = ch" "unat (ppa_ce (set_ppa ch ce plane block page p)) = ce"
    using assms by (simp_all add: set_ppa_def unat_of_nat take_bit_nat_eq_self)
  show "ppa_plane (set_ppa ch ce plane block page p) = plane" "ppa_page (set_ppa ch ce plane block page p) = unat page"
    "ppa_lun (set_ppa ch ce plane block page p) = 0" "ppa_block (set_ppa ch ce plane block page p) = unat block mod 1024"
    using 1 2 by (simp_all add: set_ppa_def ppa_field_defs field_simps_c field_fits_def field_disjoint_def
        nand_field_defs unsigned_take_bit_eq unat_ucast_widen take_bit_nat_def)
qed

lemma calc_ppa_fields:
  fixes lpn :: u32
  shows "unat (ppa_ch (L2P_calc_ppa lpn p)) = unat lpn mod 4" and "unat (ppa_ce (L2P_calc_ppa lpn p)) = unat lpn div 4 mod 8"
    and "ppa_plane (L2P_calc_ppa lpn p) = unat lpn div 32 mod 2" and "ppa_page (L2P_calc_ppa lpn p) = unat lpn div 64 mod 384"
    and "ppa_lun (L2P_calc_ppa lpn p) = 0" and "ppa_block (L2P_calc_ppa lpn p) = unat lpn div 24576 mod 1024"
proof -
  have u: "unat (of_nat (unat lpn div 64 mod 384) :: u32) = unat lpn div 64 mod 384"
    by (rule unat_of_nat_u32) (simp add: less_trans [OF mod_less_divisor])
  have b: "unat (of_nat (unat lpn div 24576) :: u32) = unat lpn div 24576"
    by (rule unat_div_of_nat)
  have lt: "unat lpn div 64 mod 384 < 512" by (rule less_trans [OF mod_less_divisor]) simp_all
  have p: "unat lpn mod 4 < 4" "unat lpn div 4 mod 8 < 8" "unat lpn div 32 mod 2 < 2" by simp_all
  note f = set_ppa_fields [OF p, of "of_nat (unat lpn div 64 mod 384)" "of_nat (unat lpn div 24576)" p, unfolded u b, OF lt]
  show "unat (ppa_ch (L2P_calc_ppa lpn p)) = unat lpn mod 4" "unat (ppa_ce (L2P_calc_ppa lpn p)) = unat lpn div 4 mod 8"
    "ppa_plane (L2P_calc_ppa lpn p) = unat lpn div 32 mod 2" "ppa_page (L2P_calc_ppa lpn p) = unat lpn div 64 mod 384"
    "ppa_lun (L2P_calc_ppa lpn p) = 0" "ppa_block (L2P_calc_ppa lpn p) = unat lpn div 24576 mod 1024"
    unfolding calc_ppa_closed by (rule f)+
qed

lemma calc_ppa_lpn:
  assumes "unat lpn < 1024 * 24576"
  shows "ppa_lpn (L2P_calc_ppa lpn p) = unat lpn"
proof -
  let ?n = "unat lpn"
  have b: "?n div 24576 mod 1024 = ?n div 64 div 384" using assms by (simp add: div_mult2_eq [symmetric] div_less_iff_less_mult)
  have 1: "?n div 64 div 384 * 384 + ?n div 64 mod 384 = ?n div 64" by simp
  have 2: "?n div 64 * 2 + ?n div 32 mod 2 = ?n div 32"
    using div_mult_mod_eq [of "?n div 32" 2] by (simp add: div_mult2_eq [symmetric])
  have 3: "?n div 32 * 8 + ?n div 4 mod 8 = ?n div 4"
    using div_mult_mod_eq [of "?n div 4" 8] by (simp add: div_mult2_eq [symmetric])
  have 4: "?n div 4 * 4 + ?n mod 4 = ?n" by simp
  have 5: "x * 64 + p * 32 + c * 4 + d = ((x * 2 + p) * 8 + c) * 4 + d" for x p c d :: nat by simp
  show ?thesis unfolding ppa_lpn_def calc_ppa_fields b 1 5 2 3 4 by (rule refl)
qed

lemma calc_ppa_obj:
  "L2P_calc_ppa lpn p = L2P_calc_obj_ppa (lpn div 24576) (ucast (lpn mod 24576)) p"
proof -
  let ?n = "unat lpn"
  have o: "unat (ucast (lpn mod 24576) :: u64) = ?n mod 24576" by (simp add: unat_ucast_widen unat_mod)
  have r: "lpn div 24576 = of_nat (?n div 24576)" by (simp add: word_unat_eq_iff unat_div unat_div_of_nat)
  have lt: "?n mod 24576 < 24576" by simp
  have 1: "?n mod 24576 mod 4 = ?n mod 4" by (rule mod_mod_cancel) simp
  have "?n mod 24576 div 4 mod 8 = ?n div 4 mod 6144 mod 8" using mod_mult_div [of 4 ?n 6144] by simp
  also have "\<dots> = ?n div 4 mod 8" by (rule mod_mod_cancel) simp
  finally have 2: "?n mod 24576 div 4 mod 8 = ?n div 4 mod 8" .
  have "?n mod 24576 mod 64 div 32 = ?n mod 64 div 32" by (subst mod_mod_cancel) simp_all
  also have "\<dots> = ?n div 32 mod 2" using mod_mult_div [of 32 ?n 2] by simp
  finally have 3: "?n mod 24576 mod 64 div 32 = ?n div 32 mod 2" .
  have 4: "?n mod 24576 div 64 = ?n div 64 mod 384" using mod_mult_div [of 64 ?n 384] by simp
  show ?thesis unfolding calc_ppa_closed calc_obj_ppa_closed o if_P [OF lt] r 1 2 3 4 by (rule refl)
qed

lemma unat_ucast_field:
  fixes x :: "'a::len word"
  assumes "snd f \<le> 32"
  shows "unat (ucast (field_get f x) :: u32) = unat (field_get f x)"
proof -
  have "unat (field_get f x) < 2 ^ snd f" by (rule field_get_bound)
  also have "\<dots> \<le> 2 ^ 32" using assms by (intro power_increasing) simp_all
  finally show ?thesis by (simp add: unsigned_ucast_eq take_bit_nat_eq_self)
qed

lemma print_ppa_unat:
  "map unat (L2P_print_ppa p) = [unat (ppa_ch p), unat (ppa_ce p), ppa_lun p, ppa_plane p, ppa_block p, ppa_page p]"
  by (simp add: L2P_print_ppa_def ppa_field_defs unat_ucast_field unat_ucast_widen nand_field_defs)

lemma print_ppa_lpn: "L2P_print_ppa p = L2P_print_ppa q \<Longrightarrow> ppa_lpn p = ppa_lpn q"
  using print_ppa_unat [of p] print_ppa_unat [of q] by (simp add: ppa_lpn_def)

section \<open>Properties\<close>

text \<open>
  C14: for every logical page of the drive, the address that \<^verbatim>\<open>L2P_calc_ppa\<close> computes lies
  in the geometry (channel, chip, plane, block and page each in range, lun 0) and determines the
  page: two pages of the drive never share a flash page.
\<close>

theorem l2p_round_trip:
  assumes "unat lpn < TOTAL_PAGE"
  shows "unat (ppa_ch (L2P_calc_ppa lpn p)) < TOTAL_CHANNEL \<and> unat (ppa_ce (L2P_calc_ppa lpn p)) < CE_PER_CH \<and>
    ppa_plane (L2P_calc_ppa lpn p) < PLANE_PER_LUN \<and> ppa_page (L2P_calc_ppa lpn p) < PAGE_PER_BLOCK_SLC_MODE \<and>
    ppa_block (L2P_calc_ppa lpn p) < BLOCK_PER_PLANE \<and> ppa_lun (L2P_calc_ppa lpn p) = 0 \<and>
    ppa_lpn (L2P_calc_ppa lpn p) = unat lpn \<and>
    (\<forall>lpn' q. unat lpn' < TOTAL_PAGE \<longrightarrow>
       L2P_print_ppa (L2P_calc_ppa lpn' q) = L2P_print_ppa (L2P_calc_ppa lpn p) \<longrightarrow> lpn' = lpn)"
proof -
  have tp: "TOTAL_PAGE = 24723456" by (simp add: const_defs)
  have b: "unat lpn div 24576 mod 1024 < BLOCK_PER_PLANE"
    using assms by (simp add: tp const_defs div_less_iff_less_mult)
  have i: "lpn' = lpn" if "unat lpn' < TOTAL_PAGE" and "L2P_print_ppa (L2P_calc_ppa lpn' q) = L2P_print_ppa (L2P_calc_ppa lpn p)"
    for lpn' q
    using print_ppa_lpn [OF that(2)] assms that(1) by (simp add: calc_ppa_lpn tp word_unat_eq_iff)
  show ?thesis
    using assms b i unfolding calc_ppa_fields by (simp add: calc_ppa_lpn tp const_defs)
qed

theorem l2p_round_trip_witness:
  "unat (5 :: u32) < TOTAL_PAGE \<and>
   ppa_lpn (L2P_calc_ppa 5 \<lparr>ppa_ch = 0, ppa_ce = 0, nand_flash_addr = 0\<rparr>) = 5"
  using l2p_round_trip [of 5 "\<lparr>ppa_ch = 0, ppa_ce = 0, nand_flash_addr = 0\<rparr>"] by (simp add: const_defs)

text \<open>
  C15: \<^verbatim>\<open>L2P_calc_ppa\<close>, which divides first and loops over one row of chips, agrees with
  \<^verbatim>\<open>L2P_calc_obj_ppa\<close>, which counts through a whole row of blocks, and both compute the
  mixed-radix digits of the page number (4 channels, 8 chips, 2 planes, 384 pages).
\<close>

theorem l2p_obj_equiv:
  "L2P_calc_ppa lpn p = L2P_calc_obj_ppa (lpn div 24576) (ucast (lpn mod 24576)) p \<and>
   unat (ppa_ch (L2P_calc_ppa lpn p)) = unat lpn mod 4 \<and> unat (ppa_ce (L2P_calc_ppa lpn p)) = unat lpn div 4 mod 8 \<and>
   ppa_plane (L2P_calc_ppa lpn p) = unat lpn div 32 mod 2 \<and> ppa_page (L2P_calc_ppa lpn p) = unat lpn div 64 mod 384 \<and>
   ppa_block (L2P_calc_ppa lpn p) = unat lpn div 24576 mod 1024"
  using calc_ppa_obj [of lpn p] calc_ppa_fields [of lpn p] by blast

end
