(* ===== verification/Flash_Log.thy ===== *)
theory Flash_Log
  imports Emu_Prelude
begin

text \<open>
  The emulated flash, \<^verbatim>\<open>BE_init\<close>, \<^verbatim>\<open>BE_write_log\<close> and
  \<^verbatim>\<open>BE_read_log\<close> of \<^verbatim>\<open>emu/be/be.c\<close>: an append-only file of records, each
  a 58-byte text header with the flash address followed by the 16 KB page, searched backwards.

  The file is the list of its bytes; \<open>None\<close> is a missing file. Of the C library the model has
  what the code uses: \<^verbatim>\<open>fprintf\<close> with \<^verbatim>\<open>%4u\<close>, \<^verbatim>\<open>fscanf\<close>
  with white space, literal and \<^verbatim>\<open>%4u\<close> directives, \<^verbatim>\<open>fseek\<close>,
  \<^verbatim>\<open>fread\<close> and \<^verbatim>\<open>fwrite\<close>. A failing \<^verbatim>\<open>fopen\<close> for
  reading ends the process (\<open>Inl Exit0\<close>); disk errors on writing are not modelled.
\<close>

section \<open>Bytes and decimal numbers\<close>

type_synonym dram = "u32 \<Rightarrow> u8"

definition bytes :: "string \<Rightarrow> u8 list" where "bytes s = map of_char s"

definition is_space :: "u8 \<Rightarrow> bool" where "is_space c \<longleftrightarrow> c = 32 \<or> 9 \<le> c \<and> c \<le> 13"
definition is_digit :: "u8 \<Rightarrow> bool" where "is_digit c \<longleftrightarrow> 48 \<le> c \<and> c \<le> 57"

fun dec :: "nat \<Rightarrow> u8 list" where
  "dec n = (if n < 10 then [of_nat (48 + n)] else dec (n div 10) @ [of_nat (48 + n mod 10)])"

declare dec.simps [simp del]

text \<open>\<^verbatim>\<open>%4u\<close>\<close>

definition print_u4 :: "u32 \<Rightarrow> u8 list" where
  "print_u4 x = (let ds = dec (unat x) in replicate (4 - length ds) 32 @ ds)"

definition digits_value :: "u8 list \<Rightarrow> nat" where
  "digits_value = foldl (\<lambda>a d. 10 * a + (unat d - 48)) 0"

section \<open>The directives of fscanf\<close>

text \<open>Each directive works on the unread bytes; \<open>None\<close> in the first component is a matching
  failure, after which the function stops with the bytes that are left.\<close>

definition scan_ws :: "u8 list \<Rightarrow> u8 list" where "scan_ws = dropWhile is_space"

fun scan_lit :: "u8 list \<Rightarrow> u8 list \<Rightarrow> bool \<times> u8 list" where
  "scan_lit [] xs = (True, xs)"
| "scan_lit (c # cs) [] = (False, [])"
| "scan_lit (c # cs) (x # xs) = (if c = x then scan_lit cs xs else (False, x # xs))"

text \<open>\<^verbatim>\<open>%4u\<close> reading: white space, an optional sign that counts for the width, digits.\<close>

definition scan_u4 :: "u8 list \<Rightarrow> u32 option \<times> u8 list" where
  "scan_u4 xs =
     (let ys = scan_ws xs;
          sign = (if ys \<noteq> [] \<and> (hd ys = 43 \<or> hd ys = 45) then [hd ys] else []);
          zs = drop (length sign) ys;
          ds = takeWhile is_digit (take (4 - length sign) zs);
          rest = drop (length ds) zs;
          v = of_nat (digits_value ds)
      in if ds = [] then (None, zs) else (Some (if sign = [45] then - v else v), rest))"

text \<open>One \<^verbatim>\<open>name:%4u\<close> of the format, with the white space before it: the literal, then
  the number into the variable \<open>old\<close>.\<close>

definition scan_item :: "string \<Rightarrow> u32 \<Rightarrow> u8 list \<Rightarrow> bool \<times> u32 \<times> u8 list" where
  "scan_item lit old xs =
     (case scan_lit (bytes lit) (scan_ws xs) of
        (False, r) \<Rightarrow> (False, old, r)
      | (True, r) \<Rightarrow>
          (case scan_u4 r of
             (None, r') \<Rightarrow> (False, old, r')
           | (Some v, r') \<Rightarrow> (True, v, r')))"

type_synonym log_vars = "u32 \<times> u32 \<times> u32 \<times> u32 \<times> u32 \<times> u32"

definition scan_header :: "log_vars \<Rightarrow> u8 list \<Rightarrow> log_vars \<times> u8 list" where
  "scan_header vars xs0 = (case vars of (ch, ce, lun, plane, block, page) \<Rightarrow>
     (case scan_item ''ch:'' ch xs0 of (ok, ch, xs) \<Rightarrow> if \<not> ok then ((ch, ce, lun, plane, block, page), xs) else
     (case scan_item ''ce:'' ce xs of (ok, ce, xs) \<Rightarrow> if \<not> ok then ((ch, ce, lun, plane, block, page), xs) else
     (case scan_item ''lun:'' lun xs of (ok, lun, xs) \<Rightarrow> if \<not> ok then ((ch, ce, lun, plane, block, page), xs) else
     (case scan_item ''plane:'' plane xs of (ok, plane, xs) \<Rightarrow> if \<not> ok then ((ch, ce, lun, plane, block, page), xs) else
     (case scan_item ''block:'' block xs of (ok, block, xs) \<Rightarrow> if \<not> ok then ((ch, ce, lun, plane, block, page), xs) else
     (case scan_item ''page:'' page xs of (ok, page, xs) \<Rightarrow> if \<not> ok then ((ch, ce, lun, plane, block, page), xs) else
       ((ch, ce, lun, plane, block, page), scan_ws xs))))))))"

section \<open>The operations\<close>

definition PPA_LOG_LEN :: nat where "PPA_LOG_LEN = 58"
definition LOG_DATA_LEN :: nat where "LOG_DATA_LEN = 16 * 1024"

datatype be_exit = Exit0

definition BE_init :: "u8 list option \<Rightarrow> u8 list option" where
  "BE_init file = (case file of None \<Rightarrow> Some [] | Some f \<Rightarrow> Some f)"

definition log_header :: "log_vars \<Rightarrow> u8 list" where
  "log_header vars = (case vars of (ch, ce, lun, plane, block, page) \<Rightarrow>
     [10] @ bytes ''ch:'' @ print_u4 ch @ bytes '' ce:'' @ print_u4 ce @ bytes '' lun:'' @ print_u4 lun @
     bytes '' plane:'' @ print_u4 plane @ bytes '' block:'' @ print_u4 block @
     bytes '' page:'' @ print_u4 page @ [10])"

definition mem_bytes :: "dram \<Rightarrow> u32 \<Rightarrow> nat \<Rightarrow> u8 list" where
  "mem_bytes mem addr n = map (\<lambda>i. mem (addr + of_nat i)) [0..<n]"

definition mem_write :: "u32 \<Rightarrow> u8 list \<Rightarrow> dram \<Rightarrow> dram" where
  "mem_write addr xs mem =
     (\<lambda>a. if unat (a - addr) < length xs then xs ! unat (a - addr) else mem a)"

definition BE_write_log :: "log_vars \<Rightarrow> u32 \<Rightarrow> dram \<Rightarrow> u8 list option \<Rightarrow> u8 list option" where
  "BE_write_log vars buf_addr mem file =
     Some ((case file of None \<Rightarrow> [] | Some f \<Rightarrow> f) @ log_header vars @ mem_bytes mem buf_addr LOG_DATA_LEN)"

text \<open>The loop, from file position \<open>pos\<close>, with the six variables; \<open>None\<close> as the
  whole result: it never ends.\<close>

partial_function (option) read_loop ::
  "log_vars \<Rightarrow> u32 \<Rightarrow> u8 list \<Rightarrow> nat \<Rightarrow> log_vars \<Rightarrow> dram \<Rightarrow> dram option" where
  "read_loop want buf_addr f pos vars mem =
     (if pos < LOG_DATA_LEN + PPA_LOG_LEN then Some mem
      else (case scan_header vars (drop (pos - (LOG_DATA_LEN + PPA_LOG_LEN)) f) of (vars', rest) \<Rightarrow>
        if vars' = want then Some (mem_write buf_addr (take LOG_DATA_LEN rest) mem)
        else read_loop want buf_addr f (length f - length rest) vars' mem))"

text \<open>\<open>junk\<close>: the values of the six uninitialised variables.\<close>

definition BE_read_log ::
  "log_vars \<Rightarrow> log_vars \<Rightarrow> u32 \<Rightarrow> u8 list option \<Rightarrow> dram \<Rightarrow> (be_exit + dram) option" where
  "BE_read_log junk vars buf_addr file mem =
     (case file of
        None \<Rightarrow> Some (Inl Exit0)
      | Some f \<Rightarrow> map_option Inr (read_loop vars buf_addr f (length f) junk mem))"

section \<open>Printing and scanning numbers\<close>

lemma unat_digit: "d < 10 \<Longrightarrow> unat (of_nat (48 + d) :: u8) = 48 + d"
  by (rule unat_of_nat_u8) simp

lemma digit_char: "d < 10 \<Longrightarrow> is_digit (of_nat (48 + d))"
proof -
  assume "d < 10"
  then have "48 \<le> unat (of_nat (48 + d) :: u8) \<and> unat (of_nat (48 + d) :: u8) \<le> 57"
    by (subst (1 2) unat_digit) simp_all
  then show ?thesis by (simp only: is_digit_def word_le_nat_alt) simp
qed

lemma dec_digits: "d \<in> set (dec n) \<Longrightarrow> is_digit d"
proof (induction n rule: dec.induct)
  case (1 n)
  then show ?case
    using digit_char [of n] digit_char [of "n mod 10"] by (auto simp: dec.simps [of n] split: if_splits simp del: of_nat_add)
qed

lemma dec_nonempty [simp]: "dec n \<noteq> []"
  by (simp add: dec.simps [of n])

lemma digits_value_snoc: "digits_value (xs @ [d]) = 10 * digits_value xs + (unat d - 48)"
  by (simp add: digits_value_def)

lemma dec_value: "digits_value (dec n) = n"
proof (induction n rule: dec.induct)
  case (1 n)
  show ?case
  proof (cases "n < 10")
    case True
    then show ?thesis using unat_digit [of n] by (simp add: dec.simps [of n] digits_value_def del: of_nat_add)
  next
    case False
    then show ?thesis
      using 1 unat_digit [of "n mod 10"] by (simp add: dec.simps [of n] digits_value_snoc del: of_nat_add)
  qed
qed

lemma dec_length: "n < 10 ^ Suc k \<Longrightarrow> length (dec n) \<le> Suc k"
proof (induction k arbitrary: n)
  case 0
  then show ?case by (simp add: dec.simps [of n])
next
  case (Suc k)
  then have "length (dec (n div 10)) \<le> Suc k" by (simp add: div_less_iff_less_mult mult.commute)
  then show ?case by (simp add: dec.simps [of n])
qed

lemma digit_not_space: "is_digit c \<Longrightarrow> \<not> is_space c"
  by (auto simp: is_digit_def is_space_def word_le_nat_alt)

lemma digit_not_sign: "is_digit c \<Longrightarrow> c \<noteq> 43 \<and> c \<noteq> 45"
  by (auto simp: is_digit_def word_le_nat_alt)

lemma scan_ws_replicate: "scan_ws (replicate n 32 @ xs) = scan_ws xs"
  by (induction n) (simp_all add: scan_ws_def is_space_def)

lemma scan_ws_stop: "xs \<noteq> [] \<Longrightarrow> \<not> is_space (hd xs) \<Longrightarrow> scan_ws (xs @ ys) = xs @ ys"
  by (cases xs) (simp_all add: scan_ws_def)

lemma dec_hd: "is_digit (hd (dec n))"
  by (rule dec_digits [of _ n]) simp

lemma length_print_u4: "unat x < 10000 \<Longrightarrow> length (print_u4 x) = 4"
  using dec_length [of "unat x" 3] by (simp add: print_u4_def Let_def)

lemma scan_print_u4:
  assumes "unat x < 10000" and "\<not> is_digit c"
  shows "scan_u4 (print_u4 x @ c # r) = (Some x, c # r)"
proof -
  let ?ds = "dec (unat x)"
  have w: "scan_ws (print_u4 x @ c # r) = ?ds @ c # r"
    using scan_ws_stop [of ?ds "c # r"] digit_not_space [OF dec_hd]
    by (simp add: print_u4_def Let_def scan_ws_replicate)
  have l: "length ?ds \<le> 4" using dec_length [of "unat x" 3] assms(1) by simp
  have "takeWhile is_digit (take 4 (?ds @ c # r)) = ?ds"
  proof (cases "length ?ds = 4")
    case True
    then show ?thesis using dec_digits by (simp add: takeWhile_eq_all_conv)
  next
    case False
    then obtain k where "4 - length ?ds = Suc k" using l by (metis Suc_pred diff_is_0_eq le_antisym not_gr_zero)
    then show ?thesis using l dec_digits assms(2) by (simp add: takeWhile_append2)
  qed
  then show ?thesis
    using w digit_not_sign [OF dec_hd, of "unat x"] by (simp add: scan_u4_def Let_def dec_value)
qed

section \<open>Records\<close>

lemma scan_lit_append: "scan_lit cs (cs @ xs) = (True, xs)"
  by (induction cs) simp_all

lemma scan_item_print:
  assumes "unat x < 10000" and "\<not> is_digit c" and "lit \<noteq> []" and "\<not> is_space (of_char (hd lit))" and "is_space w"
  shows "scan_item lit old (w # bytes lit @ print_u4 x @ c # r) = (True, x, c # r)"
proof -
  have "scan_ws (w # bytes lit @ print_u4 x @ c # r) = bytes lit @ print_u4 x @ c # r"
    using assms(3-5) scan_ws_stop [of "bytes lit"] by (simp add: scan_ws_def bytes_def hd_map)
  then show ?thesis using assms(1,2) by (simp add: scan_item_def scan_lit_append scan_print_u4)
qed

definition log_vars_ok :: "log_vars \<Rightarrow> bool" where
  "log_vars_ok v \<longleftrightarrow> (case v of (ch, ce, lun, plane, block, page) \<Rightarrow>
     unat ch < 10000 \<and> unat ce < 10000 \<and> unat lun < 10000 \<and> unat plane < 10000 \<and> unat block < 10000 \<and> unat page < 10000)"

lemma bytes_append: "bytes (s @ t) = bytes s @ bytes t"
  by (simp add: bytes_def)

lemma bytes_space: "bytes (CHR '' '' # s) = 32 # bytes s"
  by (simp add: bytes_def)

lemma length_log_header: "log_vars_ok v \<Longrightarrow> length (log_header v) = PPA_LOG_LEN"
  by (cases v) (simp add: log_vars_ok_def log_header_def length_print_u4 bytes_def PPA_LOG_LEN_def)

lemma non_digits: "\<not> is_digit 32" "\<not> is_digit 10" "is_space 32" "is_space 10"
  by (simp_all add: is_digit_def is_space_def)

lemma scan_header_print:
  assumes "log_vars_ok v"
  shows "scan_header old (log_header v @ xs) = (v, scan_ws xs)"
proof -
  obtain ch ce lun plane block page where v: "v = (ch, ce, lun, plane, block, page)" by (cases v)
  obtain a b c d e f where old: "old = (a, b, c, d, e, f)" by (cases old)
  have h: "log_header (ch, ce, lun, plane, block, page) @ xs = 10 # bytes ''ch:'' @ print_u4 ch @ 32 # bytes ''ce:'' @ print_u4 ce @
      32 # bytes ''lun:'' @ print_u4 lun @ 32 # bytes ''plane:'' @ print_u4 plane @
      32 # bytes ''block:'' @ print_u4 block @ 32 # bytes ''page:'' @ print_u4 page @ 10 # xs"
    by (simp add: log_header_def bytes_space)
  have s: "\<not> is_space 99" "\<not> is_space 108" "\<not> is_space 112" "\<not> is_space 98"
    by (simp_all add: is_space_def)
  show ?thesis
    using assms unfolding v old h scan_header_def log_vars_ok_def prod.case
    by (simp add: scan_item_print non_digits s scan_ws_def)
qed

lemma scan_ws_id: "xs = [] \<or> \<not> is_space (hd xs) \<Longrightarrow> scan_ws xs = xs"
  by (cases xs) (simp_all add: scan_ws_def)

lemma length_scan_ws: "length (scan_ws xs) \<le> length xs"
  by (simp add: scan_ws_def length_dropWhile_le)

lemma length_mem_bytes [simp]: "length (mem_bytes mem a n) = n"
  by (simp add: mem_bytes_def)

lemma mem_bytes_write:
  assumes "length xs \<le> 2 ^ 32"
  shows "mem_bytes (mem_write a xs mem) a (length xs) = xs"
proof (rule nth_equalityI)
  fix i assume "i < length (mem_bytes (mem_write a xs mem) a (length xs))"
  then have i: "i < length xs" by simp
  have "unat (of_nat i :: u32) = i" by (rule unat_of_nat_u32) (use i assms in simp)
  then show "mem_bytes (mem_write a xs mem) a (length xs) ! i = xs ! i"
    using i by (simp add: mem_bytes_def mem_write_def)
qed simp

text \<open>The search starts at the newest record. When it is the wanted one, the page is read from the
  first byte after the white space that the scan skipped.\<close>

lemma read_newest:
  assumes "log_vars_ok v" and "length d = LOG_DATA_LEN"
  shows "read_loop v a (f @ log_header v @ d) (length (f @ log_header v @ d)) junk mem =
    Some (mem_write a (scan_ws d) mem)"
proof -
  have l: "length (log_header v) = PPA_LOG_LEN" by (rule length_log_header [OF assms(1)])
  then have "length (f @ log_header v @ d) - (LOG_DATA_LEN + PPA_LOG_LEN) = length f" by (simp add: assms(2))
  then have "scan_header junk (drop (length (f @ log_header v @ d) - (LOG_DATA_LEN + PPA_LOG_LEN)) (f @ log_header v @ d)) =
      (v, scan_ws d)"
    using scan_header_print [OF assms(1), of junk d] by simp
  moreover have "take LOG_DATA_LEN (scan_ws d) = scan_ws d" using length_scan_ws [of d] assms(2) by simp
  ultimately show ?thesis
    by (subst read_loop.simps) (simp only: prod.case if_True, simp add: l assms(2))
qed

text \<open>One step back from just behind a record's header is just behind the header of the record
  before it, so the search never sees an older header.\<close>

definition log_record :: "log_vars \<times> u8 list \<Rightarrow> u8 list" where
  "log_record r = log_header (fst r) @ snd r"

definition plain_record :: "log_vars \<times> u8 list \<Rightarrow> bool" where
  "plain_record r \<longleftrightarrow> log_vars_ok (fst r) \<and> length (snd r) = LOG_DATA_LEN \<and>
     \<not> is_space (hd (snd r)) \<and> hd (snd r) \<noteq> of_char (CHR ''c'')"

lemma length_log_record: "plain_record r \<Longrightarrow> length (log_record r) = LOG_DATA_LEN + PPA_LOG_LEN"
  by (simp add: plain_record_def log_record_def length_log_header)

lemma scan_header_in_data:
  assumes "xs \<noteq> []" and "\<not> is_space (hd xs)" and "hd xs \<noteq> of_char (CHR ''c'')"
  shows "scan_header old xs = (old, xs)"
proof -
  obtain x ys where xs: "xs = x # ys" using assms(1) by (cases xs) auto
  have "scan_item ''ch:'' z xs = (False, z, xs)" for z
    using assms by (simp add: xs scan_item_def bytes_def scan_ws_def)
  then show ?thesis by (cases old) (simp add: scan_header_def)
qed

lemma read_loop_data:
  assumes "\<forall>r \<in> set rs. plain_record r" and "vars \<noteq> want" and "PPA_LOG_LEN \<le> length g"
    and "f = concat (map log_record rs) @ g" and "pos = length (concat (map log_record rs)) + PPA_LOG_LEN"
  shows "read_loop want a f pos vars mem = Some mem"
  using assms
proof (induction rs arbitrary: g pos rule: rev_induct)
  case Nil
  then show ?case by (simp add: read_loop.simps LOG_DATA_LEN_def)
next
  case (snoc r rs)
  have r: "plain_record r" using snoc.prems(1) by simp
  let ?p = "length (concat (map log_record rs)) + PPA_LOG_LEN"
  have lr: "length (log_record r) = LOG_DATA_LEN + PPA_LOG_LEN" by (rule length_log_record [OF r])
  have pos: "pos - (LOG_DATA_LEN + PPA_LOG_LEN) = ?p" "\<not> pos < LOG_DATA_LEN + PPA_LOG_LEN"
    using snoc.prems(5) lr by simp_all
  have d: "drop ?p f = snd r @ g"
    using r length_log_header [of "fst r"] by (simp add: snoc.prems(4) log_record_def [of r] plain_record_def)
  have "snd r \<noteq> []" using r by (auto simp: plain_record_def LOG_DATA_LEN_def)
  then have "scan_header vars (snd r @ g) = (vars, snd r @ g)"
    using r by (intro scan_header_in_data) (auto simp: plain_record_def)
  moreover have "length f - length (snd r @ g) = ?p"
    using r length_log_header [of "fst r"] by (simp add: snoc.prems(4) log_record_def [of r] plain_record_def)
  moreover have "read_loop want a f ?p vars mem = Some mem"
  proof (rule snoc.IH)
    show "f = concat (map log_record rs) @ log_record r @ g" using snoc.prems(4) by simp
  qed (use snoc.prems lr in auto)
  ultimately show ?case
    using snoc.prems(2) by (subst read_loop.simps) (simp only: pos d prod.case if_False)
qed

lemma read_older_fails:
  assumes "\<forall>r \<in> set (rs @ [(v, d)]). plain_record r" and "v \<noteq> want"
    and "f = concat (map log_record (rs @ [(v, d)]))"
  shows "read_loop want a f (length f) junk mem = Some mem"
proof -
  have p: "plain_record (v, d)" using assms(1) by simp
  let ?p = "length (concat (map log_record rs)) + PPA_LOG_LEN"
  have lr: "length (log_record (v, d)) = LOG_DATA_LEN + PPA_LOG_LEN" by (rule length_log_record [OF p])
  have f: "f = concat (map log_record rs) @ log_record (v, d)" by (simp add: assms(3))
  have d: "drop (length f - (LOG_DATA_LEN + PPA_LOG_LEN)) f = log_header v @ d"
    using lr by (simp add: f log_record_def [of "(v, d)"])
  have "scan_header junk (log_header v @ d) = (v, d)"
    using scan_header_print [of v junk d] p scan_ws_id [of d] by (simp add: plain_record_def)
  moreover have "length f - length d = ?p"
    using p length_log_header [of v] by (simp add: f log_record_def [of "(v, d)"] plain_record_def)
  moreover have "read_loop want a f ?p v mem = Some mem"
    by (rule read_loop_data [OF _ assms(2) _ f refl]) (use assms(1) lr in auto)
  ultimately show ?thesis
    using assms(2) lr by (subst read_loop.simps) (simp only: d prod.case if_False, simp add: f)
qed

text \<open>A page of white space: the scan runs to the end of the file, and the step back returns to
  the same header, for ever.\<close>

lemma read_blank_page_loops:
  assumes "log_vars_ok v" and "v \<noteq> want" and "length d = LOG_DATA_LEN" and "\<forall>c \<in> set d. is_space c"
    and "f = g @ log_header v @ d"
  shows "read_loop want a f (length f) junk mem = None"
proof -
  have l: "length (log_header v) = PPA_LOG_LEN" by (rule length_log_header [OF assms(1)])
  have e: "scan_ws d = []" using assms(4) by (simp add: scan_ws_def)
  have s: "scan_header vars (drop (length f - (LOG_DATA_LEN + PPA_LOG_LEN)) f) = (v, [])" for vars
    using scan_header_print [OF assms(1), of vars d] l by (simp add: assms(3,5) e)
  have lf: "\<not> length f < LOG_DATA_LEN + PPA_LOG_LEN" by (simp add: assms(3,5) l)
  have "want' = want \<longrightarrow> f' = f \<longrightarrow> pos \<noteq> length f"
    if "read_loop want' a' f' pos junk' mem' = Some r" for want' a' f' pos junk' mem' r
  proof (rule read_loop.raw_induct [where P = "\<lambda>want' a' f' pos junk' mem' r. want' = want \<longrightarrow> f' = f \<longrightarrow> pos \<noteq> length f",
        OF _ that], goal_cases)
    case (1 loop want' a' f' pos junk' mem' r)
    show ?case
      using 1(2) 1(1) [of want a' f "length f" v mem' r] s [of junk'] lf assms(2) by (auto split: if_splits)
  qed
  then have "read_loop want a f (length f) junk mem \<noteq> Some r" for r by blast
  then show ?thesis by (cases "read_loop want a f (length f) junk mem") blast+
qed

section \<open>Properties\<close>

definition zero_addr :: log_vars where "zero_addr = (0, 0, 0, 0, 0, 0)"
definition other_addr :: log_vars where "other_addr = (1, 0, 0, 0, 0, 0)"

lemma addr_ok: "log_vars_ok zero_addr" "log_vars_ok other_addr" "zero_addr \<noteq> other_addr"
  by (simp_all add: zero_addr_def other_addr_def log_vars_ok_def)

lemma mem_bytes_const: "mem_bytes (\<lambda>_. c) a n = replicate n c"
  by (simp add: mem_bytes_def map_replicate_const)

text \<open>
  C13: a page that was just written reads back: after \<^verbatim>\<open>BE_write_log\<close> of the page at
  \<open>wa\<close>, whatever the log held before, \<^verbatim>\<open>BE_read_log\<close> of the same flash address
  returns and fills the buffer at \<open>ra\<close> with the 16 KB written, provided that the page does
  not begin with a white space byte. The header printed with \<^verbatim>\<open>%4u\<close> is exactly the 58
  bytes the reader steps back over.
\<close>

theorem log_write_read:
  assumes "log_vars_ok v" and "\<not> is_space (mem wa)"
  shows "\<exists>mem'. BE_read_log junk v ra (BE_write_log v wa mem file) mem2 = Some (Inr mem') \<and>
    mem_bytes mem' ra LOG_DATA_LEN = mem_bytes mem wa LOG_DATA_LEN \<and>
    length (log_header v) = PPA_LOG_LEN"
proof -
  let ?d = "mem_bytes mem wa LOG_DATA_LEN"
  have "hd ?d = mem wa" by (simp add: mem_bytes_def LOG_DATA_LEN_def hd_map)
  then have "scan_ws ?d = ?d" using assms(2) by (intro scan_ws_id) simp
  then have "BE_read_log junk v ra (BE_write_log v wa mem file) mem2 = Some (Inr (mem_write ra ?d mem2))"
    using read_newest [OF assms(1), of ?d ra "case file of None \<Rightarrow> [] | Some f \<Rightarrow> f" junk mem2]
    by (simp add: BE_read_log_def BE_write_log_def)
  moreover have "mem_bytes (mem_write ra ?d mem2) ra LOG_DATA_LEN = ?d"
    using mem_bytes_write [of ?d ra mem2] by (simp add: LOG_DATA_LEN_def)
  ultimately show ?thesis using length_log_header [OF assms(1)] by blast
qed

theorem log_write_read_witness:
  "\<exists>mem'. BE_read_log other_addr zero_addr 0 (BE_write_log zero_addr 0 (\<lambda>_. 7) None) (\<lambda>_. 0) = Some (Inr mem') \<and>
     mem_bytes mem' 0 LOG_DATA_LEN = replicate LOG_DATA_LEN 7"
  using log_write_read [of zero_addr "\<lambda>_. 7" 0 other_addr 0 None "\<lambda>_. 0"] addr_ok
  by (auto simp: is_space_def mem_bytes_const)

text \<open>
  A page that begins with white space does not read back: the line end at the end of the
  scanning format skips those bytes too, so the buffer receives the page without them, shifted
  down, and keeps its old bytes at the end.
\<close>

theorem log_read_skips_space:
  assumes "log_vars_ok v"
  shows "BE_read_log junk v ra (BE_write_log v wa mem file) mem2 =
    Some (Inr (mem_write ra (dropWhile is_space (mem_bytes mem wa LOG_DATA_LEN)) mem2))"
  using read_newest [OF assms, of "mem_bytes mem wa LOG_DATA_LEN" ra "case file of None \<Rightarrow> [] | Some f \<Rightarrow> f" junk mem2]
  by (simp add: BE_read_log_def BE_write_log_def scan_ws_def)

theorem log_read_skips_space_witness:
  "BE_read_log other_addr zero_addr 0 (BE_write_log zero_addr 0 (\<lambda>_. 32) None) (\<lambda>_. 9) = Some (Inr (\<lambda>_. 9))"
  using log_read_skips_space [of zero_addr other_addr 0 0 "\<lambda>_. 32" None "\<lambda>_. 9"] addr_ok
  by (simp add: mem_bytes_const is_space_def mem_write_def)



text \<open>
  A read can hang: when the newest record is of another flash address and its page consists of
  white space, the scan runs to the end of the file, the step back returns to the same header, and
  the loop of \<^verbatim>\<open>BE_read_log\<close> never ends.
\<close>

theorem log_read_hangs:
  assumes "log_vars_ok v" and "v \<noteq> want" and "is_space c"
  shows "BE_read_log junk want ra (BE_write_log v wa (\<lambda>_. c) file) mem = None"
  using read_blank_page_loops [OF assms(1,2), of "replicate LOG_DATA_LEN c" _ "case file of None \<Rightarrow> [] | Some f \<Rightarrow> f" ra junk mem]
    assms(3)
  by (auto simp: BE_read_log_def BE_write_log_def mem_bytes_const)

theorem log_read_hangs_witness:
  "BE_read_log zero_addr zero_addr 0 (BE_write_log other_addr 0 (\<lambda>_. 32) None) (\<lambda>_. 0) = None"
  using log_read_hangs [of other_addr zero_addr 32 zero_addr 0 0 None "\<lambda>_. 0"] addr_ok by (simp add: is_space_def)

end
