(* ===== verification/Backend.thy ===== *)
theory Backend
  imports FCL L2P Flash_Log
begin

text \<open>
  The back end, \<^verbatim>\<open>emu/be/be.h\<close> and the rest of \<^verbatim>\<open>emu/be/be.c\<close>: copies of
  submission entries travel on a list of registered and a list of completed requests between the
  FTL thread and the back-end thread, which reads and writes the flash log between the two. The
  lists are \<^verbatim>\<open>lib/list.c\<close> lists of \<^verbatim>\<open>EMU_sq\<close> objects from
  \<^verbatim>\<open>malloc\<close>; an object's address is a number that no earlier object had.

  One round of the thread's loop is split at its lock operations: taking the head of the register
  list, the flash access, and appending to the complete list. The accesses of the log lines to
  \<^verbatim>\<open>emu_id\<close> have no effect and are left out.
\<close>

section \<open>Data\<close>

record EMU_sq =
  sq_ch :: u32
  sq_ce_no :: u32
  sq_index :: u32
  sq_entry :: hw_queue_entry

datatype be_node = RegisterHead | CompleteHead | SqNode nat

record be_state =
  be_nodes :: "be_node list_heap"
  emu_sqs :: "nat \<Rightarrow> EMU_sq option"
  malloc_next :: nat

definition entry_of_sq :: "be_node ptr \<Rightarrow> nat option" where
  "entry_of_sq p = (case p of Some (SqNode i) \<Rightarrow> Some i | _ \<Rightarrow> None)"

text \<open>The static initialisers of the two heads.\<close>

definition be_start :: be_state where
  "be_start = \<lparr>be_nodes = list_head_init CompleteHead (list_head_init RegisterHead
       \<lparr>list_next = (\<lambda>_. NULL), list_prev = (\<lambda>_. NULL)\<rparr>),
     emu_sqs = (\<lambda>_. None), malloc_next = 0\<rparr>"

section \<open>Operations\<close>

definition BE_send_sq :: "u32 \<Rightarrow> hw_queue_entry \<Rightarrow> u32 \<Rightarrow> u32 \<Rightarrow> be_state \<Rightarrow> be_state option" where
  "BE_send_sq sq_idx sq_set ch ce s =
     (let i = malloc_next s;
          sq = \<lparr>sq_ch = ch, sq_ce_no = ce, sq_index = sq_idx, sq_entry = sq_set\<rparr>
      in do {
        h \<leftarrow> list_add_tail (Some (SqNode i)) (Some RegisterHead) (be_nodes s);
        Some (s\<lparr>be_nodes := h, emu_sqs := (emu_sqs s)(i \<mapsto> sq), malloc_next := i + 1\<rparr>)
      })"

text \<open>\<^verbatim>\<open>FCL_send_SQ_entry\<close> as the emulator compiles it.\<close>

definition FCL_send_SQ_entry :: "u32 \<Rightarrow> u32 \<Rightarrow> u32 \<Rightarrow> fcl_state \<Rightarrow> be_state \<Rightarrow> (u32 \<times> be_state) option" where
  "FCL_send_SQ_entry index ch ce f s =
     (if unat ch < TOTAL_CHANNEL \<and> unat index < HW_QUEUE_DEPTH then do {
        s' \<leftarrow> BE_send_sq index (hw_SQ f (unat ch) (unat index)) ch ce s;
        Some (SUCCESS, s')
      }
      else None)"

text \<open>The first part of a round: \<open>Some (None, s)\<close> when the thread goes on waiting.\<close>

definition be_take :: "be_state \<Rightarrow> (nat option \<times> be_state) option" where
  "be_take s = do {
     e \<leftarrow> list_empty (Some RegisterHead) (be_nodes s);
     if e = 1 then Some (None, s)
     else do {
       n \<leftarrow> node_next (Some RegisterHead) (be_nodes s);
       r \<leftarrow> entry_of_sq n;
       h \<leftarrow> list_delete_head (Some RegisterHead) (be_nodes s);
       Some (Some r, s\<lparr>be_nodes := h\<rparr>)
     }
   }"

text \<open>The address in the entry; \<open>junk\<close> is the uninitialised local variable.\<close>

definition be_ppa :: "phy_page_addr \<Rightarrow> EMU_sq \<Rightarrow> phy_page_addr" where
  "be_ppa junk sq = junk\<lparr>ppa_ch := ucast (sq_ch sq), ppa_ce := ucast (sq_ce_no sq),
     nand_flash_addr :=
       field_set (nand_array 5) (ucast (sq_field sq_a5 (sq_entry sq)))
       (field_set (nand_array 4) (ucast (sq_field sq_a4 (sq_entry sq)))
       (field_set (nand_array 3) (ucast (sq_field sq_a3 (sq_entry sq)))
       (field_set (nand_array 2) (ucast (sq_field sq_a2 (sq_entry sq)))
       (field_set (nand_array 1) (ucast (sq_field sq_a1 (sq_entry sq)))
       (field_set (nand_array 0) (ucast (sq_field sq_a0 (sq_entry sq))) (nand_flash_addr junk))))))\<rparr>"

definition ppa_log_vars :: "phy_page_addr \<Rightarrow> log_vars" where
  "ppa_log_vars ppa =
     (ucast (ppa_ch ppa), ucast (ppa_ce ppa),
      ucast (field_get slc_lun (nand_flash_addr ppa)), ucast (field_get slc_plane (nand_flash_addr ppa)),
      ucast (field_get slc_block (nand_flash_addr ppa)), ucast (field_get slc_page (nand_flash_addr ppa)))"

text \<open>The second part: the flash access. A read changes the memory, a write the file.\<close>

definition be_flash ::
  "phy_page_addr \<Rightarrow> log_vars \<Rightarrow> EMU_sq \<Rightarrow> dram \<times> u8 list option \<Rightarrow> (be_exit + dram \<times> u8 list option) option" where
  "be_flash junk junk_vars sq = (\<lambda>(mem, file).
     let ppa = be_ppa junk sq;
         buf_addr = push_bit 14 (sq_field sq_buf_adr (sq_entry sq))
     in if sq_field sq_op (sq_entry sq) = HCE_READ then
          map_option (map_sum id (\<lambda>mem'. (mem', file)))
            (BE_read_log junk_vars (ppa_log_vars ppa) buf_addr file mem)
        else if sq_field sq_op (sq_entry sq) = HCE_WRITE then
          Some (Inr (mem, BE_write_log (ppa_log_vars ppa) buf_addr mem file))
        else Some (Inr (mem, file)))"

text \<open>The third part.\<close>

definition be_complete :: "nat \<Rightarrow> be_state \<Rightarrow> be_state option" where
  "be_complete r s = do {
     h \<leftarrow> list_add_tail (Some (SqNode r)) (Some CompleteHead) (be_nodes s);
     Some (s\<lparr>be_nodes := h\<rparr>)
   }"

section \<open>The two lists\<close>

text \<open>\<open>reg\<close>, \<open>cmp\<close>: the objects on the two lists; \<open>busy\<close>: the ones the
  thread holds between them.\<close>

definition be_repr :: "be_state \<Rightarrow> nat list \<Rightarrow> nat list \<Rightarrow> nat list \<Rightarrow> bool" where
  "be_repr s reg busy cmp \<longleftrightarrow>
     dlist (be_nodes s) RegisterHead (map SqNode reg) \<and> dlist (be_nodes s) CompleteHead (map SqNode cmp) \<and>
     distinct (reg @ busy @ cmp) \<and>
     (\<forall>i \<in> set (reg @ busy @ cmp). i < malloc_next s \<and> emu_sqs s i \<noteq> None)"

lemma be_start_repr: "be_repr be_start [] [] []"
  by (simp add: be_repr_def be_start_def dlist_def list_head_init_def)

lemma send_sq_repr:
  assumes "be_repr s reg busy cmp"
  shows "\<exists>s'. BE_send_sq idx e ch ce s = Some s' \<and> be_repr s' (reg @ [malloc_next s]) busy cmp \<and>
    emu_sqs s' = (emu_sqs s)(malloc_next s \<mapsto> \<lparr>sq_ch = ch, sq_ce_no = ce, sq_index = idx, sq_entry = e\<rparr>)"
proof -
  let ?i = "malloc_next s"
  have f: "?i \<notin> set (reg @ busy @ cmp)" using assms by (auto simp: be_repr_def)
  then obtain h where h: "list_add_tail (Some (SqNode ?i)) (Some RegisterHead) (be_nodes s) = Some h"
    "dlist h RegisterHead (map SqNode reg @ [SqNode ?i])"
    "agree_off (set (SqNode ?i # RegisterHead # map SqNode reg)) (be_nodes s) h"
    using list_add_tail_dlist [of "be_nodes s" RegisterHead "map SqNode reg" "SqNode ?i"] assms
    by (auto simp: be_repr_def)
  have "dlist h CompleteHead (map SqNode cmp) = dlist (be_nodes s) CompleteHead (map SqNode cmp)"
    using assms f by (intro dlist_frame [OF h(3)]) (auto simp: be_repr_def)
  then show ?thesis
    using assms h f by (auto simp: BE_send_sq_def Let_def be_repr_def less_Suc_eq)
qed

lemma take_repr:
  assumes "be_repr s (r # reg) busy cmp"
  shows "\<exists>s'. be_take s = Some (Some r, s') \<and> be_repr s' reg (r # busy) cmp \<and> emu_sqs s' = emu_sqs s"
proof -
  have d: "dlist (be_nodes s) RegisterHead (SqNode r # map SqNode reg)" using assms by (simp add: be_repr_def)
  then obtain h where h: "list_delete_head (Some RegisterHead) (be_nodes s) = Some h"
    "dlist h RegisterHead (map SqNode reg)" "agree_off (set (RegisterHead # SqNode r # map SqNode reg)) (be_nodes s) h"
    using list_delete_head_dlist [OF d] by blast
  have "dlist h CompleteHead (map SqNode cmp) = dlist (be_nodes s) CompleteHead (map SqNode cmp)"
    using assms by (intro dlist_frame [OF h(3)]) (auto simp: be_repr_def)
  then have "be_repr (s\<lparr>be_nodes := h\<rparr>) reg (r # busy) cmp" using assms h(2) by (auto simp: be_repr_def)
  moreover have "be_take s = Some (Some r, s\<lparr>be_nodes := h\<rparr>)"
    using dlist_list_empty [OF d] dlist_next_head [OF d] h(1)
    by (simp add: be_take_def node_next_def entry_of_sq_def)
  ultimately show ?thesis by auto
qed

lemma take_empty: "be_repr s [] busy cmp \<Longrightarrow> be_take s = Some (None, s)"
  using dlist_list_empty [of "be_nodes s" RegisterHead "[]"] by (simp add: be_take_def be_repr_def)

lemma complete_repr:
  assumes "be_repr s reg (r # busy) cmp"
  shows "\<exists>s'. be_complete r s = Some s' \<and> be_repr s' reg busy (cmp @ [r]) \<and> emu_sqs s' = emu_sqs s"
proof -
  have f: "r \<notin> set (reg @ cmp)" using assms by (auto simp: be_repr_def)
  then obtain h where h: "list_add_tail (Some (SqNode r)) (Some CompleteHead) (be_nodes s) = Some h"
    "dlist h CompleteHead (map SqNode cmp @ [SqNode r])"
    "agree_off (set (SqNode r # CompleteHead # map SqNode cmp)) (be_nodes s) h"
    using list_add_tail_dlist [of "be_nodes s" CompleteHead "map SqNode cmp" "SqNode r"] assms
    by (auto simp: be_repr_def)
  have "dlist h RegisterHead (map SqNode reg) = dlist (be_nodes s) RegisterHead (map SqNode reg)"
    using assms f by (intro dlist_frame [OF h(3)]) (auto simp: be_repr_def)
  then show ?thesis using assms h by (auto simp: be_complete_def be_repr_def)
qed

text \<open>The register list as a queue of requests.\<close>

definition be_enq :: "EMU_sq \<Rightarrow> be_state \<Rightarrow> be_state option" where
  "be_enq sq s = BE_send_sq (sq_index sq) (sq_entry sq) (sq_ch sq) (sq_ce_no sq) s"

definition be_deq :: "be_state \<Rightarrow> (EMU_sq \<times> be_state) option" where
  "be_deq s = do { (r, s') \<leftarrow> be_take s; i \<leftarrow> r; sq \<leftarrow> emu_sqs s' i; Some (sq, s') }"

definition reg_repr :: "be_state \<Rightarrow> EMU_sq list \<Rightarrow> bool" where
  "reg_repr s xs \<longleftrightarrow> (\<exists>reg busy cmp. be_repr s reg busy cmp \<and> map (emu_sqs s) reg = map Some xs)"

interpretation be_register: fifo reg_repr be_enq be_deq "\<lambda>_ _. True"
proof unfold_locales
  fix s xs x
  assume "reg_repr s xs"
  then obtain reg busy cmp where r: "be_repr s reg busy cmp" "map (emu_sqs s) reg = map Some xs" by (auto simp: reg_repr_def)
  then obtain s' where s': "be_enq x s = Some s'" "be_repr s' (reg @ [malloc_next s]) busy cmp"
    "emu_sqs s' = (emu_sqs s)(malloc_next s \<mapsto> x)"
    using send_sq_repr [OF r(1), of "sq_index x" "sq_entry x" "sq_ch x" "sq_ce_no x"] by (cases x) (auto simp: be_enq_def)
  have "malloc_next s \<notin> set reg" using r(1) by (auto simp: be_repr_def)
  then have "map (emu_sqs s') (reg @ [malloc_next s]) = map Some (xs @ [x])"
    using r(2) s'(3) by (simp add: map_fun_upd)
  with s' show "\<exists>s'. be_enq x s = Some s' \<and> reg_repr s' (xs @ [x])" unfolding reg_repr_def by blast
next
  fix s x xs
  assume "reg_repr s (x # xs)"
  then obtain r reg busy cmp where r: "be_repr s (r # reg) busy cmp" "emu_sqs s r = Some x" "map (emu_sqs s) reg = map Some xs"
    by (auto simp: reg_repr_def map_eq_Cons_conv)
  from take_repr [OF r(1)] obtain s' where s': "be_take s = Some (Some r, s')" "be_repr s' reg (r # busy) cmp"
    "emu_sqs s' = emu_sqs s" by blast
  then have "reg_repr s' xs" unfolding reg_repr_def using r(3) by force
  then show "\<exists>s'. be_deq s = Some (x, s') \<and> reg_repr s' xs" using s' r(2) by (simp add: be_deq_def)
next
  fix s assume "reg_repr s []"
  then show "be_deq s = None" by (auto simp: be_deq_def reg_repr_def take_empty)
qed

section \<open>The address on its way to the flash log\<close>

lemma bit_nand_byte: "bit (nand_byte i ppa) k \<longleftrightarrow> k < 8 \<and> bit (nand_flash_addr ppa) (8 * i + k)"
  by (auto simp: nand_byte_def bit_simps bit_field_get nand_array_def)

lemma be_ppa_bits:
  assumes "sq_field sq_a0 e = nand_byte 0 ppa" "sq_field sq_a1 e = nand_byte 1 ppa" "sq_field sq_a2 e = nand_byte 2 ppa"
    "sq_field sq_a3 e = nand_byte 3 ppa" "sq_field sq_a4 e = nand_byte 4 ppa" "sq_field sq_a5 e = nand_byte 5 ppa"
    and "sq_entry sq = e" and "n < 48"
  shows "bit (nand_flash_addr (be_ppa junk sq)) n \<longleftrightarrow> bit (nand_flash_addr ppa) n"
proof -
  have b: "bit (ucast (nand_byte i ppa) :: 64 word) k \<longleftrightarrow> k < 8 \<and> bit (nand_flash_addr ppa) (8 * i + k)" for i k :: nat
    by (auto simp: bit_simps bit_nand_byte)
  consider "n < 8" | "8 \<le> n" "n < 16" | "16 \<le> n" "n < 24" | "24 \<le> n" "n < 32" | "32 \<le> n" "n < 40" | "40 \<le> n" "n < 48"
    using assms(8) by linarith
  then show ?thesis
    by cases (auto simp: be_ppa_def assms(1-7) bit_field_set nand_array_def b)
qed

lemma field_get_cong:
  fixes x y :: "'a::len word"
  assumes "\<And>n. n < fst f + snd f \<Longrightarrow> bit x n = bit y n"
  shows "field_get f x = field_get f y"
  using assms by (intro bit_word_eqI) (auto simp: bit_field_get)

lemma be_ppa_round_trip:
  assumes "sq_field sq_a0 e = nand_byte 0 ppa" "sq_field sq_a1 e = nand_byte 1 ppa" "sq_field sq_a2 e = nand_byte 2 ppa"
    "sq_field sq_a3 e = nand_byte 3 ppa" "sq_field sq_a4 e = nand_byte 4 ppa" "sq_field sq_a5 e = nand_byte 5 ppa"
    and "sq = \<lparr>sq_ch = ucast (ppa_ch ppa), sq_ce_no = ucast (ppa_ce ppa), sq_index = idx, sq_entry = e\<rparr>"
  shows "ppa_log_vars (be_ppa junk sq) = ppa_log_vars ppa"
proof -
  have e: "sq_entry sq = e" by (simp add: assms(7))
  have f: "field_get g (nand_flash_addr (be_ppa junk sq)) = field_get g (nand_flash_addr ppa)" if "fst g + snd g \<le> 48" for g
    using that by (intro field_get_cong be_ppa_bits [OF assms(1-6) e]) simp
  have "(ucast (ucast x :: u32) :: u16) = x" for x :: u16 by (rule bit_word_eqI) (auto simp: bit_simps)
  then have "ppa_ch (be_ppa junk sq) = ppa_ch ppa" "ppa_ce (be_ppa junk sq) = ppa_ce ppa"
    by (simp_all add: be_ppa_def assms(7))
  then show ?thesis by (simp add: ppa_log_vars_def f nand_field_defs)
qed

section \<open>Properties\<close>

text \<open>
  C18: a flash address survives the way from the FTL to the flash log: the address bytes that
  \<^verbatim>\<open>FCL_set_SQ_entry\<close> puts into a submission entry, the copy that
  \<^verbatim>\<open>FCL_send_SQ_entry\<close> registers and the address that the back-end thread rebuilds from it give
  the same channel, chip, LUN, plane, block and page.
\<close>

theorem request_address_kept:
  assumes "unat (ppa_ch ppa) < TOTAL_CHANNEL" and "unat i < HW_QUEUE_DEPTH" and "op \<noteq> HCE_ERASE" and "be_repr b [] busy cmp"
  shows "\<exists>f' b' b'' r sq. FCL_set_SQ_entry mb hc i buf op ppa 0 f = Some f' \<and>
    FCL_send_SQ_entry i (ucast (ppa_ch ppa)) (ucast (ppa_ce ppa)) f' b = Some (SUCCESS, b') \<and>
    be_take b' = Some (Some r, b'') \<and> emu_sqs b'' r = Some sq \<and> sq_index sq = i \<and>
    ppa_log_vars (be_ppa junk sq) = ppa_log_vars ppa"
proof -
  obtain f' e where f: "FCL_set_SQ_entry mb hc i buf op ppa 0 f = Some f'" "e = hw_SQ f' (unat (ppa_ch ppa)) (unat i)"
    "sq_field sq_a0 e = nand_byte 0 ppa" "sq_field sq_a1 e = nand_byte 1 ppa" "sq_field sq_a2 e = nand_byte 2 ppa"
    "sq_field sq_a3 e = nand_byte 3 ppa" "sq_field sq_a4 e = nand_byte 4 ppa" "sq_field sq_a5 e = nand_byte 5 ppa"
    by (rule set_SQ_entry_fields [OF assms(1-3)]) blast
  let ?ch = "ucast (ppa_ch ppa) :: u32" and ?ce = "ucast (ppa_ce ppa) :: u32"
  have ch: "unat ?ch = unat (ppa_ch ppa)" by (rule unat_ucast_widen) simp
  obtain b' where b': "BE_send_sq i e ?ch ?ce b = Some b'" "be_repr b' ([] @ [malloc_next b]) busy cmp"
    "emu_sqs b' = (emu_sqs b)(malloc_next b \<mapsto> \<lparr>sq_ch = ?ch, sq_ce_no = ?ce, sq_index = i, sq_entry = e\<rparr>)"
    using send_sq_repr [OF assms(4)] by blast
  obtain b'' where b'': "be_take b' = Some (Some (malloc_next b), b'')" "emu_sqs b'' = emu_sqs b'"
    using take_repr [of b' "malloc_next b" "[]" busy cmp] b'(2) by auto
  have "FCL_send_SQ_entry i ?ch ?ce f' b = Some (SUCCESS, b')"
    using b'(1) f(2) assms(1,2) ch by (simp add: FCL_send_SQ_entry_def)
  then show ?thesis using f(1) b''(1,2) b'(3) be_ppa_round_trip [OF f(3-8), of _ i junk] by auto
qed

theorem request_address_kept_witness:
  "\<exists>f' b' b'' r sq. FCL_set_SQ_entry 0x4000 7 3 2 HCE_WRITE \<lparr>ppa_ch = 2, ppa_ce = 5, nand_flash_addr = 0x12340000\<rparr> 0 blank_fcl = Some f' \<and>
     FCL_send_SQ_entry 3 2 5 f' be_start = Some (SUCCESS, b') \<and> be_take b' = Some (Some r, b'') \<and> emu_sqs b'' r = Some sq \<and>
     ppa_log_vars (be_ppa \<lparr>ppa_ch = 0, ppa_ce = 0, nand_flash_addr = 0\<rparr> sq) = (2, 5, 0, 0, 0, 0x34)"
proof -
  let ?p = "\<lparr>ppa_ch = 2, ppa_ce = 5, nand_flash_addr = 0x12340000\<rparr>" and ?j = "\<lparr>ppa_ch = 0, ppa_ce = 0, nand_flash_addr = 0\<rparr>"
  have v: "ppa_log_vars ?p = (2, 5, 0, 0, 0, 0x34)" by (simp add: ppa_log_vars_def field_get_def nand_field_defs)
  have "unat (ppa_ch ?p) < TOTAL_CHANNEL" "unat (3 :: u32) < HW_QUEUE_DEPTH" "HCE_WRITE \<noteq> HCE_ERASE"
    by (simp_all add: TOTAL_CHANNEL_def HW_QUEUE_DEPTH_def)
  from request_address_kept [OF this be_start_repr, of "0x4000" 7 2 blank_fcl ?j, unfolded v] show ?thesis by auto
qed

text \<open>
  C32: requests reach the back-end thread in the order in which the FTL thread registered them, each
  exactly once, whatever requests are waiting, in progress or completed.
\<close>

theorem be_requests_in_order:
  assumes "reg_repr s xs"
  shows "\<exists>s1 s2. be_register.enq_all ys s = Some s1 \<and> be_register.deq_n (length xs + length ys) s1 = Some (xs @ ys, s2) \<and>
    reg_repr s2 [] \<and> be_take s2 = Some (None, s2)"
proof -
  have "be_register.admits_all ys xs" by (induction ys arbitrary: xs) simp_all
  then obtain s1 s2 where "be_register.enq_all ys s = Some s1" "be_register.deq_n (length xs + length ys) s1 = Some (xs @ ys, s2)" "reg_repr s2 []"
    using be_register.fifo_order [OF assms] by blast
  moreover from this(3) have "be_take s2 = Some (None, s2)" by (auto simp: reg_repr_def take_empty)
  ultimately show ?thesis by blast
qed

theorem be_requests_in_order_witness:
  "\<exists>s1 s2. be_register.enq_all [\<lparr>sq_ch = 1, sq_ce_no = 0, sq_index = 4, sq_entry = 0\<rparr>] be_start = Some s1 \<and>
     be_register.deq_n 1 s1 = Some ([\<lparr>sq_ch = 1, sq_ce_no = 0, sq_index = 4, sq_entry = 0\<rparr>], s2)"
proof -
  have "reg_repr be_start []" unfolding reg_repr_def using be_start_repr by auto
  from be_requests_in_order [OF this, of "[\<lparr>sq_ch = 1, sq_ce_no = 0, sq_index = 4, sq_entry = 0\<rparr>]"] show ?thesis by auto
qed

end
