(* ===== verification/Shmem.thy ===== *)
theory Shmem
  imports Interfaces
begin

text \<open>
  The command queue in shared memory, \<^verbatim>\<open>emu/fe/shmem.h\<close> and
  \<^verbatim>\<open>emu/fe/shmem.c\<close>: 256 command slots linked by index into a free, a ready and a
  processing list, because the two processes that map the segment have different addresses for it.
  The emulator is a 32-bit program and fio a 64-bit one; the 64-bit variants take the base address
  as an argument. The segment's layout is the packed one of the header.

  \<^verbatim>\<open>shm_get\<close> spins on the control word; \<open>None\<close> is a call that does not get the
  lock in the given state. \<open>None\<close> of a list operation is an access through
  \<^verbatim>\<open>SHM_SLOT(CMD_SLOT_NUM)\<close>, which is NULL, or beyond the slots.
\<close>

section \<open>Data and layout\<close>

definition CMD_SLOT_NUM :: nat where "CMD_SLOT_NUM = 256"
definition HOST_BLOCK_SIZE :: u32 where "HOST_BLOCK_SIZE = 4 * KB"
definition SHM_READ_OPS :: u32 where "SHM_READ_OPS = 1"
definition SHM_WRITE_OPS :: u32 where "SHM_WRITE_OPS = 2"

lemmas shm_const_defs [const_defs] = HOST_BLOCK_SIZE_def SHM_READ_OPS_def SHM_WRITE_OPS_def

type_synonym shm_index = u32

datatype LIST_TYPE = FREE_LIST | RDY_LIST | PROC_LIST

record shm_list =
  head_next :: u32
  head_prev :: u32

record shm_cmd =
  cmd_next :: u32
  cmd_prev :: u32
  cmd_ops :: u32
  cmd_lpn :: u32
  cmd_size :: u32

record shm_state =
  shm_slots :: "nat \<Rightarrow> shm_cmd"
  shm_heads :: "LIST_TYPE \<Rightarrow> shm_list"
  shm_ctrl :: u32

definition sizeof_shm_cmd :: nat where "sizeof_shm_cmd = 20"
definition sizeof_shm_list :: nat where "sizeof_shm_list = 8"
definition SHM_DATA_SIZE :: nat where "SHM_DATA_SIZE = CMD_SLOT_NUM * 4096"
definition SHM_CMD_SIZE :: nat where "SHM_CMD_SIZE = CMD_SLOT_NUM * sizeof_shm_cmd"
definition SHM_SIZE :: nat where "SHM_SIZE = SHM_DATA_SIZE + SHM_CMD_SIZE + 3 * sizeof_shm_list + 4"

lemmas shm_size_defs = CMD_SLOT_NUM_def sizeof_shm_cmd_def sizeof_shm_list_def SHM_DATA_SIZE_def
  SHM_CMD_SIZE_def SHM_SIZE_def

text \<open>Addresses in either process; \<open>'a\<close> is 32 or 64.\<close>

definition SHM_CMD_BASE :: "'a::len word \<Rightarrow> 'a word" where
  "SHM_CMD_BASE shm_base = shm_base + of_nat SHM_DATA_SIZE"

definition SHM_LIST_HEAD :: "'a::len word \<Rightarrow> LIST_TYPE \<Rightarrow> 'a word" where
  "SHM_LIST_HEAD shm_base l_t = SHM_CMD_BASE shm_base + of_nat SHM_CMD_SIZE +
     of_nat ((case l_t of FREE_LIST \<Rightarrow> 0 | RDY_LIST \<Rightarrow> 1 | PROC_LIST \<Rightarrow> 2) * sizeof_shm_list)"

definition CTRL_BYTE :: "'a::len word \<Rightarrow> 'a word" where
  "CTRL_BYTE shm_base = SHM_CMD_BASE shm_base + of_nat SHM_CMD_SIZE + of_nat (3 * sizeof_shm_list)"

definition SHM_SLOT_addr :: "'a::len word \<Rightarrow> u32 \<Rightarrow> 'a word" where
  "SHM_SLOT_addr shm_base n =
     (if n = of_nat CMD_SLOT_NUM then 0 else SHM_CMD_BASE shm_base + ucast n * of_nat sizeof_shm_cmd)"

definition SHM_INDEX :: "'a::len word \<Rightarrow> 'a word \<Rightarrow> 'a word" where
  "SHM_INDEX shm_base s = (s - SHM_CMD_BASE shm_base) div of_nat sizeof_shm_cmd"

section \<open>Lists of slots\<close>

definition shm_get :: "shm_state \<Rightarrow> shm_state option" where
  "shm_get s = (if shm_ctrl s = 0 then Some (s\<lparr>shm_ctrl := 1\<rparr>) else None)"

definition shm_release :: "shm_state \<Rightarrow> shm_state" where
  "shm_release s = s\<lparr>shm_ctrl := 0\<rparr>"

text \<open>Reading and writing through \<^verbatim>\<open>SHM_SLOT(n)\<close>.\<close>

definition slot_read :: "u32 \<Rightarrow> shm_state \<Rightarrow> shm_cmd option" where
  "slot_read n s = (if unat n < CMD_SLOT_NUM then Some (shm_slots s (unat n)) else None)"

definition slot_update :: "u32 \<Rightarrow> (shm_cmd \<Rightarrow> shm_cmd) \<Rightarrow> shm_state \<Rightarrow> shm_state option" where
  "slot_update n f s =
     (if unat n < CMD_SLOT_NUM
      then Some (s\<lparr>shm_slots := (shm_slots s)(unat n := f (shm_slots s (unat n)))\<rparr>) else None)"

definition head_update :: "LIST_TYPE \<Rightarrow> (shm_list \<Rightarrow> shm_list) \<Rightarrow> shm_state \<Rightarrow> shm_state" where
  "head_update l f s = s\<lparr>shm_heads := (shm_heads s)(l := f (shm_heads s l))\<rparr>"

definition shm_list_empty :: "LIST_TYPE \<Rightarrow> shm_state \<Rightarrow> bool" where
  "shm_list_empty l_t s \<longleftrightarrow> head_next (shm_heads s l_t) = of_nat CMD_SLOT_NUM"

definition shm_list_add :: "shm_index \<Rightarrow> LIST_TYPE \<Rightarrow> shm_state \<Rightarrow> shm_state option" where
  "shm_list_add i l_t s =
     (if shm_list_empty l_t s then do {
        s1 \<leftarrow> slot_update i (\<lambda>c. c\<lparr>cmd_next := head_next (shm_heads s l_t)\<rparr>) s;
        let s2 = head_update l_t (\<lambda>h. h\<lparr>head_next := i\<rparr>) s1;
        s3 \<leftarrow> slot_update i (\<lambda>c. c\<lparr>cmd_prev := head_prev (shm_heads s2 l_t)\<rparr>) s2;
        Some (head_update l_t (\<lambda>h. h\<lparr>head_prev := i\<rparr>) s3)
      }
      else do {
        let tl = head_prev (shm_heads s l_t);
        s1 \<leftarrow> slot_update i (\<lambda>c. c\<lparr>cmd_prev := head_prev (shm_heads s l_t)\<rparr>) s;
        let s2 = head_update l_t (\<lambda>h. h\<lparr>head_prev := i\<rparr>) s1;
        slot_tail \<leftarrow> slot_read tl s2;
        s3 \<leftarrow> slot_update i (\<lambda>c. c\<lparr>cmd_next := cmd_next slot_tail\<rparr>) s2;
        slot_update tl (\<lambda>c. c\<lparr>cmd_next := i\<rparr>) s3
      })"

definition shm_list_remove :: "LIST_TYPE \<Rightarrow> shm_state \<Rightarrow> (shm_index \<times> shm_state) option" where
  "shm_list_remove l_t s =
     (if shm_list_empty l_t s then Some (of_nat CMD_SLOT_NUM, s)
      else do {
        let i = head_next (shm_heads s l_t);
        slot_remove \<leftarrow> slot_read i s;
        if cmd_next slot_remove = of_nat CMD_SLOT_NUM
        then Some (i, head_update l_t (\<lambda>h. h\<lparr>head_next := of_nat CMD_SLOT_NUM, head_prev := of_nat CMD_SLOT_NUM\<rparr>) s)
        else do {
          s1 \<leftarrow> slot_update (cmd_next slot_remove) (\<lambda>c. c\<lparr>cmd_prev := cmd_prev slot_remove\<rparr>) s;
          Some (i, head_update l_t (\<lambda>h. h\<lparr>head_next := cmd_next slot_remove\<rparr>) s1)
        }
      })"

text \<open>The variants that the 64-bit process compiles. They take the address at which that process
  maps the segment; slots and heads are the same objects of the segment.\<close>

definition shm_list_empty_x64 :: "u64 \<Rightarrow> LIST_TYPE \<Rightarrow> shm_state \<Rightarrow> bool" where
  "shm_list_empty_x64 shm_base l_t s \<longleftrightarrow> head_next (shm_heads s l_t) = of_nat CMD_SLOT_NUM"

definition shm_list_add_x64 :: "u64 \<Rightarrow> shm_index \<Rightarrow> LIST_TYPE \<Rightarrow> shm_state \<Rightarrow> shm_state option" where
  "shm_list_add_x64 shm_base i l_t s =
     (if shm_list_empty_x64 shm_base l_t s then do {
        s1 \<leftarrow> slot_update i (\<lambda>c. c\<lparr>cmd_next := head_next (shm_heads s l_t)\<rparr>) s;
        let s2 = head_update l_t (\<lambda>h. h\<lparr>head_next := i\<rparr>) s1;
        s3 \<leftarrow> slot_update i (\<lambda>c. c\<lparr>cmd_prev := head_prev (shm_heads s2 l_t)\<rparr>) s2;
        Some (head_update l_t (\<lambda>h. h\<lparr>head_prev := i\<rparr>) s3)
      }
      else do {
        let tl = head_prev (shm_heads s l_t);
        s1 \<leftarrow> slot_update i (\<lambda>c. c\<lparr>cmd_prev := head_prev (shm_heads s l_t)\<rparr>) s;
        let s2 = head_update l_t (\<lambda>h. h\<lparr>head_prev := i\<rparr>) s1;
        slot_tail \<leftarrow> slot_read tl s2;
        s3 \<leftarrow> slot_update i (\<lambda>c. c\<lparr>cmd_next := cmd_next slot_tail\<rparr>) s2;
        slot_update tl (\<lambda>c. c\<lparr>cmd_next := i\<rparr>) s3
      })"

definition shm_list_remove_x64 :: "u64 \<Rightarrow> LIST_TYPE \<Rightarrow> shm_state \<Rightarrow> (shm_index \<times> shm_state) option" where
  "shm_list_remove_x64 shm_base l_t s =
     (if shm_list_empty_x64 shm_base l_t s then Some (of_nat CMD_SLOT_NUM, s)
      else do {
        let i = head_next (shm_heads s l_t);
        slot_remove \<leftarrow> slot_read i s;
        if cmd_next slot_remove = of_nat CMD_SLOT_NUM
        then Some (i, head_update l_t (\<lambda>h. h\<lparr>head_next := of_nat CMD_SLOT_NUM, head_prev := of_nat CMD_SLOT_NUM\<rparr>) s)
        else do {
          s1 \<leftarrow> slot_update (cmd_next slot_remove) (\<lambda>c. c\<lparr>cmd_prev := cmd_prev slot_remove\<rparr>) s;
          Some (i, head_update l_t (\<lambda>h. h\<lparr>head_next := cmd_next slot_remove\<rparr>) s1)
        }
      })"

lemma x64_same:
  "shm_list_empty_x64 b l s = shm_list_empty l s" "shm_list_add_x64 b i l s = shm_list_add i l s"
  "shm_list_remove_x64 b l s = shm_list_remove l s"
  by (simp_all add: shm_list_empty_x64_def shm_list_empty_def shm_list_add_x64_def shm_list_add_def
      shm_list_remove_x64_def shm_list_remove_def)

section \<open>The operations of shmem.c\<close>

definition zero_cmd :: shm_cmd where
  "zero_cmd = \<lparr>cmd_next = 0, cmd_prev = 0, cmd_ops = 0, cmd_lpn = 0, cmd_size = 0\<rparr>"

fun add_all_free :: "nat list \<Rightarrow> shm_state \<Rightarrow> shm_state option" where
  "add_all_free [] s = Some s"
| "add_all_free (i # is) s = do { s' \<leftarrow> shm_list_add (of_nat i) FREE_LIST s; add_all_free is s' }"

text \<open>The segment is created and mapped; failures of these system calls end the process.\<close>

definition SHM_init :: "shm_state option" where
  "SHM_init = do {
     let s0 = \<lparr>shm_slots = (\<lambda>_. zero_cmd), shm_heads = (\<lambda>_. \<lparr>head_next = 0, head_prev = 0\<rparr>), shm_ctrl = 0\<rparr>;
     let s1 = fold (\<lambda>l. head_update l (\<lambda>_. \<lparr>head_next = of_nat CMD_SLOT_NUM, head_prev = of_nat CMD_SLOT_NUM\<rparr>))
       [FREE_LIST, RDY_LIST, PROC_LIST] s0;
     s2 \<leftarrow> add_all_free [0..<CMD_SLOT_NUM] s1;
     Some (s2\<lparr>shm_ctrl := 0\<rparr>)
   }"

text \<open>The system calls at the beginning of \<^verbatim>\<open>SHM_init\<close>: \<open>fd\<close>, \<open>trunc\<close> and
  \<open>base\<close> are the results of \<^verbatim>\<open>shm_open\<close>, \<^verbatim>\<open>ftruncate\<close> and
  \<^verbatim>\<open>mmap\<close>; each failure ends the process with status 1.\<close>

datatype shm_exit = Shm_Exit u32

definition SHM_create :: "u32 \<Rightarrow> u32 \<Rightarrow> u32 \<Rightarrow> shm_exit + u32 \<times> shm_state option" where
  "SHM_create fd trunc base =
     (if fd = - 1 then Inl (Shm_Exit 1)
      else if trunc = - 1 then Inl (Shm_Exit 1)
      else if base = - 1 then Inl (Shm_Exit 1)
      else Inr (base, SHM_init))"

text \<open>The result is the index and, unless the list was empty, the copied command.\<close>

definition SHM_get_rdy_list :: "shm_state \<Rightarrow> ((shm_index \<times> shm_cmd option) \<times> shm_state) option" where
  "SHM_get_rdy_list s = do {
     s1 \<leftarrow> shm_get s;
     if shm_list_empty RDY_LIST s1 then Some ((of_nat CMD_SLOT_NUM, None), shm_release s1)
     else do {
       (i, s2) \<leftarrow> shm_list_remove RDY_LIST s1;
       c \<leftarrow> slot_read i s2;
       Some ((i, Some c), shm_release s2)
     }
   }"

definition SHM_add_rdy_list :: "shm_index \<Rightarrow> shm_cmd \<Rightarrow> shm_state \<Rightarrow> shm_state option" where
  "SHM_add_rdy_list index scmd s = do {
     s1 \<leftarrow> shm_get s;
     s2 \<leftarrow> slot_update index (\<lambda>_. scmd) s1;
     s3 \<leftarrow> shm_list_add index RDY_LIST s2;
     Some (shm_release s3)
   }"

definition SHM_add_free_list :: "shm_index \<Rightarrow> shm_state \<Rightarrow> shm_state option" where
  "SHM_add_free_list index s = do {
     s1 \<leftarrow> shm_get s;
     s2 \<leftarrow> shm_list_add index FREE_LIST s1;
     Some (shm_release s2)
   }"

section \<open>The list a head stands for\<close>

fun ichain :: "(nat \<Rightarrow> shm_cmd) \<Rightarrow> nat \<Rightarrow> nat list \<Rightarrow> bool" where
  "ichain sl p [] \<longleftrightarrow> True"
| "ichain sl p (x # xs) \<longleftrightarrow>
     cmd_prev (sl x) = of_nat p \<and> cmd_next (sl x) = of_nat (hd (xs @ [CMD_SLOT_NUM])) \<and> ichain sl x xs"

definition list_repr :: "shm_state \<Rightarrow> LIST_TYPE \<Rightarrow> nat list \<Rightarrow> bool" where
  "list_repr s l xs \<longleftrightarrow>
     head_next (shm_heads s l) = of_nat (hd (xs @ [CMD_SLOT_NUM])) \<and>
     head_prev (shm_heads s l) = of_nat (last (CMD_SLOT_NUM # xs)) \<and>
     ichain (shm_slots s) CMD_SLOT_NUM xs \<and> distinct xs \<and> set xs \<subseteq> {..<CMD_SLOT_NUM}"

lemma ichain_cong: "(\<And>x. x \<in> set xs \<Longrightarrow> sl' x = sl x) \<Longrightarrow> ichain sl' p xs = ichain sl p xs"
  by (induction xs arbitrary: p) auto

lemma ichain_links_cong:
  "(\<And>x. x \<in> set xs \<Longrightarrow> cmd_next (sl' x) = cmd_next (sl x) \<and> cmd_prev (sl' x) = cmd_prev (sl x)) \<Longrightarrow>
     ichain sl' p xs = ichain sl p xs"
  by (induction xs arbitrary: p) auto

lemma ichain_snoc:
  assumes "ichain sl p xs" and "xs \<noteq> []" and "distinct (xs @ [i])"
    and "\<And>x. x \<in> set (butlast xs) \<Longrightarrow> cmd_next (sl' x) = cmd_next (sl x)"
    and "\<And>x. x \<in> set xs \<Longrightarrow> cmd_prev (sl' x) = cmd_prev (sl x)"
    and "cmd_next (sl' (last xs)) = of_nat i"
    and "cmd_prev (sl' i) = of_nat (last xs)" and "cmd_next (sl' i) = of_nat CMD_SLOT_NUM"
  shows "ichain sl' p (xs @ [i])"
  using assms
proof (induction xs arbitrary: p)
  case (Cons x xs)
  show ?case
  proof (cases xs)
    case Nil
    then show ?thesis using Cons.prems by simp
  next
    case (Cons y ys)
    have "ichain sl' x (xs @ [i])"
      using Cons.prems Cons by (intro Cons.IH) auto
    then show ?thesis using Cons.prems Cons by auto
  qed
qed simp

lemma ichain_last_next: "ichain sl p xs \<Longrightarrow> xs \<noteq> [] \<Longrightarrow> cmd_next (sl (last xs)) = of_nat CMD_SLOT_NUM"
  by (induction xs arbitrary: p) auto

lemma unat_slot: "i \<le> CMD_SLOT_NUM \<Longrightarrow> unat (of_nat i :: u32) = i"
  by (rule unat_of_nat_u32) (simp add: CMD_SLOT_NUM_def)

lemma slot_inj: "i \<le> CMD_SLOT_NUM \<Longrightarrow> j \<le> CMD_SLOT_NUM \<Longrightarrow> (of_nat i :: u32) = of_nat j \<longleftrightarrow> i = j"
  by (metis unat_slot)

lemma list_repr_empty: "list_repr s l xs \<Longrightarrow> shm_list_empty l s \<longleftrightarrow> xs = []"
proof (cases xs)
  case (Cons x ys)
  assume "list_repr s l xs"
  then have "x < CMD_SLOT_NUM" "head_next (shm_heads s l) = of_nat x" by (auto simp: list_repr_def Cons)
  then show ?thesis using slot_inj [of x CMD_SLOT_NUM] by (auto simp: shm_list_empty_def Cons)
qed (simp add: list_repr_def shm_list_empty_def)

lemma slot_update_nat:
  "i < CMD_SLOT_NUM \<Longrightarrow> slot_update (of_nat i) f s = Some (s\<lparr>shm_slots := (shm_slots s)(i := f (shm_slots s i))\<rparr>)"
  using unat_slot [of i] by (simp add: slot_update_def)

lemma slot_read_nat: "i < CMD_SLOT_NUM \<Longrightarrow> slot_read (of_nat i) s = Some (shm_slots s i)"
  using unat_slot [of i] by (simp add: slot_read_def)

text \<open>What an operation on one list leaves alone: the other heads, the payload of every slot, and
  every slot outside the list.\<close>

definition frame_of :: "LIST_TYPE \<Rightarrow> nat set \<Rightarrow> shm_state \<Rightarrow> shm_state \<Rightarrow> bool" where
  "frame_of l A s s' \<longleftrightarrow>
     (\<forall>l'. l' \<noteq> l \<longrightarrow> shm_heads s' l' = shm_heads s l') \<and> (\<forall>i. i \<notin> A \<longrightarrow> shm_slots s' i = shm_slots s i) \<and>
     (\<forall>i. cmd_ops (shm_slots s' i) = cmd_ops (shm_slots s i) \<and> cmd_lpn (shm_slots s' i) = cmd_lpn (shm_slots s i) \<and>
        cmd_size (shm_slots s' i) = cmd_size (shm_slots s i)) \<and> shm_ctrl s' = shm_ctrl s"

lemma list_repr_frame:
  "list_repr s l' xs \<Longrightarrow> frame_of l A s s' \<Longrightarrow> l' \<noteq> l \<Longrightarrow> A \<inter> set xs = {} \<Longrightarrow> list_repr s' l' xs"
  using ichain_cong [of xs "shm_slots s'" "shm_slots s" CMD_SLOT_NUM]
  by (auto simp: list_repr_def frame_of_def)

lemma list_add_repr:
  assumes "list_repr s l xs" and "i < CMD_SLOT_NUM" and "i \<notin> set xs"
  shows "\<exists>s'. shm_list_add (of_nat i) l s = Some s' \<and> list_repr s' l (xs @ [i]) \<and> frame_of l (insert i (set xs)) s s'"
proof (cases "xs = []")
  case True
  have e: "shm_list_empty l s" using list_repr_empty [OF assms(1)] True by simp
  show ?thesis
    using assms e unfolding shm_list_add_def
    by (auto simp: slot_update_nat head_update_def list_repr_def True frame_of_def)
next
  case False
  let ?t = "last xs"
  have t: "?t < CMD_SLOT_NUM" "?t \<in> set xs" "?t \<noteq> i" using assms False last_in_set by (auto simp: list_repr_def)
  have e: "\<not> shm_list_empty l s" using list_repr_empty [OF assms(1)] False by simp
  have hp: "head_prev (shm_heads s l) = of_nat ?t" using assms(1) False by (simp add: list_repr_def)
  have tn: "cmd_next (shm_slots s ?t) = of_nat CMD_SLOT_NUM"
    using assms(1) False by (intro ichain_last_next) (auto simp: list_repr_def)
  define s' where "s' = s\<lparr>shm_slots := (shm_slots s)(i := (shm_slots s i)\<lparr>cmd_prev := of_nat ?t, cmd_next := of_nat CMD_SLOT_NUM\<rparr>,
      ?t := (shm_slots s ?t)\<lparr>cmd_next := of_nat i\<rparr>),
    shm_heads := (shm_heads s)(l := (shm_heads s l)\<lparr>head_prev := of_nat i\<rparr>)\<rparr>"
  have "shm_list_add (of_nat i) l s = Some s'"
    using e t assms(2) by (simp add: shm_list_add_def Let_def slot_update_nat slot_read_nat head_update_def hp tn s'_def fun_upd_twist)
  moreover have "ichain (shm_slots s') CMD_SLOT_NUM (xs @ [i])"
  proof (rule ichain_snoc)
    show "ichain (shm_slots s) CMD_SLOT_NUM xs" using assms(1) by (simp add: list_repr_def)
    show "distinct (xs @ [i])" using assms by (simp add: list_repr_def)
    show "cmd_next (shm_slots s' x) = cmd_next (shm_slots s x)" if "x \<in> set (butlast xs)" for x
    proof -
      have "distinct (butlast xs @ [last xs])" using assms(1) False by (simp add: list_repr_def)
      then have "x \<noteq> ?t" using that by auto
      moreover have "x \<noteq> i" using that assms(3) by (auto dest: in_set_butlastD)
      ultimately show ?thesis by (simp add: s'_def)
    qed
    show "cmd_prev (shm_slots s' x) = cmd_prev (shm_slots s x)" if "x \<in> set xs" for x
      using that assms(3) by (auto simp: s'_def)
  qed (use False t in \<open>auto simp: s'_def\<close>)
  then have "list_repr s' l (xs @ [i])"
    using assms False by (auto simp: list_repr_def s'_def hd_append)
  moreover have "frame_of l (insert i (set xs)) s s'" using t by (auto simp: frame_of_def s'_def)
  ultimately show ?thesis by blast
qed

lemma list_remove_repr:
  assumes "list_repr s l (x # xs)"
  shows "\<exists>s'. shm_list_remove l s = Some (of_nat x, s') \<and> list_repr s' l xs \<and> frame_of l (set xs) s s'"
proof -
  have e: "\<not> shm_list_empty l s" using list_repr_empty [OF assms] by simp
  have x: "x < CMD_SLOT_NUM" "head_next (shm_heads s l) = of_nat x" using assms by (auto simp: list_repr_def)
  show ?thesis
  proof (cases xs)
    case Nil
    then have "cmd_next (shm_slots s x) = of_nat CMD_SLOT_NUM" using assms by (simp add: list_repr_def)
    then show ?thesis
      using e x by (auto simp: shm_list_remove_def Let_def slot_read_nat head_update_def list_repr_def Nil frame_of_def)
  next
    case (Cons y ys)
    have y: "y < CMD_SLOT_NUM" "cmd_next (shm_slots s x) = of_nat y" "cmd_prev (shm_slots s x) = of_nat CMD_SLOT_NUM"
      using assms by (auto simp: list_repr_def Cons)
    have ne: "(of_nat y :: u32) \<noteq> of_nat CMD_SLOT_NUM" using slot_inj [of y CMD_SLOT_NUM] y(1) by simp
    define s' where "s' = s\<lparr>shm_slots := (shm_slots s)(y := (shm_slots s y)\<lparr>cmd_prev := of_nat CMD_SLOT_NUM\<rparr>),
      shm_heads := (shm_heads s)(l := (shm_heads s l)\<lparr>head_next := of_nat y\<rparr>)\<rparr>"
    have "shm_list_remove l s = Some (of_nat x, s')"
      using e x y ne by (simp add: shm_list_remove_def Let_def slot_read_nat slot_update_nat head_update_def s'_def)
    moreover have "ichain (shm_slots s') y ys = ichain (shm_slots s) y ys"
      using assms by (intro ichain_links_cong) (auto simp: s'_def list_repr_def Cons)
    then have "list_repr s' l xs" using assms by (auto simp: list_repr_def Cons s'_def)
    moreover have "frame_of l (set xs) s s'" by (auto simp: frame_of_def s'_def Cons)
    ultimately show ?thesis by blast
  qed
qed

lemma list_remove_empty: "list_repr s l [] \<Longrightarrow> shm_list_remove l s = Some (of_nat CMD_SLOT_NUM, s)"
  using list_repr_empty [of s l "[]"] by (simp add: shm_list_remove_def)

text \<open>Each list is a queue of slot numbers.\<close>

definition shm_enq :: "LIST_TYPE \<Rightarrow> nat \<Rightarrow> shm_state \<Rightarrow> shm_state option" where
  "shm_enq l i = shm_list_add (of_nat i) l"

definition shm_deq :: "LIST_TYPE \<Rightarrow> shm_state \<Rightarrow> (nat \<times> shm_state) option" where
  "shm_deq l s = do { (i, s') \<leftarrow> shm_list_remove l s; if i = of_nat CMD_SLOT_NUM then None else Some (unat i, s') }"

interpretation shm_queue: fifo "\<lambda>s. list_repr s l" "shm_enq l" "shm_deq l" "\<lambda>i xs. i < CMD_SLOT_NUM \<and> i \<notin> set xs"
  for l :: LIST_TYPE
proof unfold_locales
  show "\<exists>s'. shm_enq l x s = Some s' \<and> list_repr s' l (xs @ [x])"
    if "list_repr s l xs" "x < CMD_SLOT_NUM \<and> x \<notin> set xs" for s xs x
    using list_add_repr [of s l xs x] that by (auto simp: shm_enq_def)
  show "\<exists>s'. shm_deq l s = Some (x, s') \<and> list_repr s' l xs" if "list_repr s l (x # xs)" for s x xs
  proof -
    have "x < CMD_SLOT_NUM" using that by (simp add: list_repr_def)
    then have "unat (of_nat x :: u32) = x" "(of_nat x :: u32) \<noteq> of_nat CMD_SLOT_NUM"
      using unat_slot [of x] slot_inj [of x CMD_SLOT_NUM] by simp_all
    then show ?thesis using list_remove_repr [OF that] by (auto simp: shm_deq_def)
  qed
  show "shm_deq l s = None" if "list_repr s l []" for s
    using list_remove_empty [OF that] by (simp add: shm_deq_def)
qed

section \<open>The state of the segment\<close>

text \<open>\<open>fs\<close>: the free slots, \<open>rs\<close>: the slots with a ready command. The
  processing list is never used.\<close>

definition shm_repr :: "shm_state \<Rightarrow> nat list \<Rightarrow> nat list \<Rightarrow> bool" where
  "shm_repr s fs rs \<longleftrightarrow>
     list_repr s FREE_LIST fs \<and> list_repr s RDY_LIST rs \<and> list_repr s PROC_LIST [] \<and>
     set fs \<inter> set rs = {} \<and> shm_ctrl s = 0"

lemma list_repr_ctrl [simp]: "list_repr (s\<lparr>shm_ctrl := c\<rparr>) l xs = list_repr s l xs"
  by (simp add: list_repr_def)

lemma frame_of_slots: "frame_of l A s s' \<Longrightarrow> i \<notin> A \<Longrightarrow> shm_slots s' i = shm_slots s i"
  by (simp add: frame_of_def)

lemma frame_of_payload:
  "frame_of l A s s' \<Longrightarrow> cmd_ops (shm_slots s' i) = cmd_ops (shm_slots s i) \<and>
     cmd_lpn (shm_slots s' i) = cmd_lpn (shm_slots s i) \<and> cmd_size (shm_slots s' i) = cmd_size (shm_slots s i)"
  by (simp add: frame_of_def)

lemma get_rdy_empty:
  assumes "shm_repr s fs []"
  shows "SHM_get_rdy_list s = Some ((of_nat CMD_SLOT_NUM, None), s)"
  using assms list_repr_empty [of "s\<lparr>shm_ctrl := 1\<rparr>" RDY_LIST "[]"]
  by (simp add: SHM_get_rdy_list_def shm_get_def shm_repr_def shm_release_def)

lemma get_rdy_repr:
  assumes "shm_repr s fs (x # rs)"
  shows "\<exists>s'. SHM_get_rdy_list s = Some ((of_nat x, Some (shm_slots s x)), s') \<and> shm_repr s' fs rs \<and>
    (\<forall>i. cmd_ops (shm_slots s' i) = cmd_ops (shm_slots s i) \<and> cmd_lpn (shm_slots s' i) = cmd_lpn (shm_slots s i) \<and>
      cmd_size (shm_slots s' i) = cmd_size (shm_slots s i))"
proof -
  let ?s = "s\<lparr>shm_ctrl := 1\<rparr>"
  have R: "list_repr ?s RDY_LIST (x # rs)" and x: "x < CMD_SLOT_NUM" "x \<notin> set rs"
    using assms by (auto simp: shm_repr_def list_repr_def)
  obtain s1 where s1: "shm_list_remove RDY_LIST ?s = Some (of_nat x, s1)" "list_repr s1 RDY_LIST rs"
    "frame_of RDY_LIST (set rs) ?s s1" using list_remove_repr [OF R] by blast
  have o: "list_repr s1 FREE_LIST fs" "list_repr s1 PROC_LIST []"
    using assms by (auto intro!: list_repr_frame [OF _ s1(3)] simp: shm_repr_def)
  have "shm_slots s1 x = shm_slots s x" using frame_of_slots [OF s1(3) x(2)] by simp
  then have "SHM_get_rdy_list s = Some ((of_nat x, Some (shm_slots s x)), s1\<lparr>shm_ctrl := 0\<rparr>)"
    using list_repr_empty [OF R] assms s1(1) x(1)
    by (simp add: SHM_get_rdy_list_def shm_get_def shm_repr_def shm_release_def slot_read_nat)
  moreover have "shm_repr (s1\<lparr>shm_ctrl := 0\<rparr>) fs rs" using assms s1(2) o by (auto simp: shm_repr_def)
  ultimately show ?thesis using frame_of_payload [OF s1(3)] by auto
qed

lemma list_repr_slot:
  "list_repr s l xs \<Longrightarrow> i \<notin> set xs \<Longrightarrow> list_repr (s\<lparr>shm_slots := (shm_slots s)(i := c)\<rparr>) l xs"
proof -
  assume R: "list_repr s l xs" and i: "i \<notin> set xs"
  have "ichain ((shm_slots s)(i := c)) CMD_SLOT_NUM xs = ichain (shm_slots s) CMD_SLOT_NUM xs"
    using i by (intro ichain_cong) auto
  then show ?thesis using R by (simp add: list_repr_def)
qed

lemma add_rdy_repr:
  assumes "shm_repr s fs rs" and "i < CMD_SLOT_NUM" and "i \<notin> set fs \<union> set rs"
  shows "\<exists>s'. SHM_add_rdy_list (of_nat i) c s = Some s' \<and> shm_repr s' fs (rs @ [i]) \<and>
    cmd_ops (shm_slots s' i) = cmd_ops c \<and> cmd_lpn (shm_slots s' i) = cmd_lpn c \<and> cmd_size (shm_slots s' i) = cmd_size c \<and>
    (\<forall>j. j \<noteq> i \<longrightarrow> cmd_ops (shm_slots s' j) = cmd_ops (shm_slots s j) \<and> cmd_lpn (shm_slots s' j) = cmd_lpn (shm_slots s j) \<and>
      cmd_size (shm_slots s' j) = cmd_size (shm_slots s j))"
proof -
  let ?s = "s\<lparr>shm_ctrl := 1, shm_slots := (shm_slots s)(i := c)\<rparr>"
  have R: "list_repr ?s RDY_LIST rs" "list_repr ?s FREE_LIST fs" "list_repr ?s PROC_LIST []"
    using assms list_repr_slot [of "s\<lparr>shm_ctrl := 1\<rparr>" _ _ i c] by (auto simp: shm_repr_def)
  obtain s1 where s1: "shm_list_add (of_nat i) RDY_LIST ?s = Some s1" "list_repr s1 RDY_LIST (rs @ [i])"
    "frame_of RDY_LIST (insert i (set rs)) ?s s1" using list_add_repr [OF R(1) assms(2)] assms(3) by auto
  have o: "list_repr s1 FREE_LIST fs" "list_repr s1 PROC_LIST []"
    using assms R by (auto intro!: list_repr_frame [OF _ s1(3)] simp: shm_repr_def)
  have "SHM_add_rdy_list (of_nat i) c s = Some (s1\<lparr>shm_ctrl := 0\<rparr>)"
    using assms s1(1) by (simp add: SHM_add_rdy_list_def shm_get_def shm_repr_def shm_release_def slot_update_nat)
  moreover have "shm_repr (s1\<lparr>shm_ctrl := 0\<rparr>) fs (rs @ [i])" using assms s1(2) o by (auto simp: shm_repr_def)
  ultimately show ?thesis
    using frame_of_payload [OF s1(3), of i] frame_of_payload [OF s1(3)] by auto
qed

lemma add_free_list_repr:
  assumes "shm_repr s fs rs" and "i < CMD_SLOT_NUM" and "i \<notin> set fs \<union> set rs"
  shows "\<exists>s'. SHM_add_free_list (of_nat i) s = Some s' \<and> shm_repr s' (fs @ [i]) rs \<and>
    (\<forall>j. cmd_ops (shm_slots s' j) = cmd_ops (shm_slots s j) \<and> cmd_lpn (shm_slots s' j) = cmd_lpn (shm_slots s j) \<and>
      cmd_size (shm_slots s' j) = cmd_size (shm_slots s j))"
proof -
  let ?s = "s\<lparr>shm_ctrl := 1\<rparr>"
  have R: "list_repr ?s FREE_LIST fs" using assms by (simp add: shm_repr_def)
  obtain s1 where s1: "shm_list_add (of_nat i) FREE_LIST ?s = Some s1" "list_repr s1 FREE_LIST (fs @ [i])"
    "frame_of FREE_LIST (insert i (set fs)) ?s s1" using list_add_repr [OF R assms(2)] assms(3) by auto
  have o: "list_repr s1 RDY_LIST rs" "list_repr s1 PROC_LIST []"
    using assms by (auto intro!: list_repr_frame [OF _ s1(3)] simp: shm_repr_def)
  have "SHM_add_free_list (of_nat i) s = Some (s1\<lparr>shm_ctrl := 0\<rparr>)"
    using assms s1(1) by (simp add: SHM_add_free_list_def shm_get_def shm_repr_def shm_release_def)
  moreover have "shm_repr (s1\<lparr>shm_ctrl := 0\<rparr>) (fs @ [i]) rs" using assms s1(2) o by (auto simp: shm_repr_def)
  ultimately show ?thesis using frame_of_payload [OF s1(3)] by auto
qed

lemma add_all_free_repr:
  assumes "list_repr s FREE_LIST fs" and "distinct (fs @ is)" and "set is \<subseteq> {..<CMD_SLOT_NUM}"
    and "list_repr s RDY_LIST []" and "list_repr s PROC_LIST []"
  shows "\<exists>s'. add_all_free is s = Some s' \<and> list_repr s' FREE_LIST (fs @ is) \<and> list_repr s' RDY_LIST [] \<and> list_repr s' PROC_LIST []"
  using assms
proof (induction "is" arbitrary: s fs)
  case (Cons i "is")
  obtain s1 where s1: "shm_list_add (of_nat i) FREE_LIST s = Some s1" "list_repr s1 FREE_LIST (fs @ [i])"
    "frame_of FREE_LIST (insert i (set fs)) s s1" using list_add_repr [OF Cons.prems(1), of i] Cons.prems(2,3) by auto
  have "list_repr s1 RDY_LIST []" "list_repr s1 PROC_LIST []"
    using Cons.prems by (auto intro!: list_repr_frame [OF _ s1(3)])
  with Cons.IH [of s1 "fs @ [i]"] s1 Cons.prems(2,3) show ?case by auto
qed simp

lemma SHM_init_repr: "\<exists>s. SHM_init = Some s \<and> shm_repr s [0..<CMD_SLOT_NUM] []"
proof -
  let ?s0 = "\<lparr>shm_slots = (\<lambda>_. zero_cmd), shm_heads = (\<lambda>_. \<lparr>head_next = 0, head_prev = 0\<rparr>), shm_ctrl = 0\<rparr>"
  let ?s1 = "fold (\<lambda>l. head_update l (\<lambda>_. \<lparr>head_next = of_nat CMD_SLOT_NUM, head_prev = of_nat CMD_SLOT_NUM\<rparr>))
       [FREE_LIST, RDY_LIST, PROC_LIST] ?s0"
  have h: "list_repr ?s1 l []" for l by (cases l) (simp_all add: list_repr_def head_update_def)
  have "distinct ([] @ [0..<CMD_SLOT_NUM])" "set [0..<CMD_SLOT_NUM] \<subseteq> {..<CMD_SLOT_NUM}" by auto
  from add_all_free_repr [OF h this h h] obtain s2 where "add_all_free [0..<CMD_SLOT_NUM] ?s1 = Some s2" "list_repr s2 FREE_LIST [0..<CMD_SLOT_NUM]"
    "list_repr s2 RDY_LIST []" "list_repr s2 PROC_LIST []"
    by auto
  then show ?thesis unfolding SHM_init_def Let_def by (auto simp: shm_repr_def)
qed

section \<open>Layout\<close>

lemma unat_add_of_nat:
  fixes b :: "'a::len word"
  assumes "unat b + k < 2 ^ LENGTH('a)"
  shows "unat (b + of_nat k) = unat b + k"
proof -
  have "unat (of_nat k :: 'a word) = k" using assms by (simp add: unat_of_nat take_bit_nat_eq_self)
  then show ?thesis using assms by (simp add: unat_word_ariths)
qed

lemma slot_addr:
  fixes b :: "'a::len word"
  assumes "unat b + SHM_SIZE < 2 ^ LENGTH('a)" and "unat n < CMD_SLOT_NUM"
  shows "unat (SHM_SLOT_addr b n) = unat b + (SHM_DATA_SIZE + sizeof_shm_cmd * unat n)"
    and "unat (SHM_INDEX b (SHM_SLOT_addr b n)) = unat n"
proof -
  have ne: "n \<noteq> of_nat CMD_SLOT_NUM" using assms(2) unat_slot [of CMD_SLOT_NUM] by auto
  have u: "(ucast n :: 'a word) = of_nat (unat n)" by simp
  have a: "SHM_SLOT_addr b n = b + of_nat (SHM_DATA_SIZE + sizeof_shm_cmd * unat n)"
    using ne by (simp add: SHM_SLOT_addr_def SHM_CMD_BASE_def ac_simps)
  have l: "SHM_DATA_SIZE + sizeof_shm_cmd * unat n < SHM_SIZE" using assms(2) by (simp add: shm_size_defs)
  then show "unat (SHM_SLOT_addr b n) = unat b + (SHM_DATA_SIZE + sizeof_shm_cmd * unat n)"
    unfolding a using assms(1) by (intro unat_add_of_nat) simp
  have d: "SHM_SLOT_addr b n - SHM_CMD_BASE b = of_nat (sizeof_shm_cmd * unat n)"
    unfolding a SHM_CMD_BASE_def by simp
  have "sizeof_shm_cmd * unat n < 2 ^ LENGTH('a)" "sizeof_shm_cmd < 2 ^ LENGTH('a)"
    using l assms(1) by (simp_all add: shm_size_defs)
  then show "unat (SHM_INDEX b (SHM_SLOT_addr b n)) = unat n"
    unfolding SHM_INDEX_def d unat_div by (simp add: unat_of_nat take_bit_nat_eq_self sizeof_shm_cmd_def del: of_nat_mult of_nat_numeral)
qed

lemma head_addr:
  fixes b :: "'a::len word"
  assumes "unat b + SHM_SIZE < 2 ^ LENGTH('a)"
  shows "unat (SHM_LIST_HEAD b l) = unat b + (SHM_DATA_SIZE + SHM_CMD_SIZE +
      (case l of FREE_LIST \<Rightarrow> 0 | RDY_LIST \<Rightarrow> 1 | PROC_LIST \<Rightarrow> 2) * sizeof_shm_list)"
    and "unat (CTRL_BYTE b) = unat b + (SHM_DATA_SIZE + SHM_CMD_SIZE + 3 * sizeof_shm_list)"
proof -
  let ?k = "SHM_DATA_SIZE + SHM_CMD_SIZE + (case l of FREE_LIST \<Rightarrow> 0 | RDY_LIST \<Rightarrow> 1 | PROC_LIST \<Rightarrow> 2) * sizeof_shm_list"
  have "SHM_LIST_HEAD b l = b + of_nat ?k" by (simp add: SHM_LIST_HEAD_def SHM_CMD_BASE_def)
  moreover have "?k < SHM_SIZE" by (cases l) (simp_all add: shm_size_defs)
  ultimately show "unat (SHM_LIST_HEAD b l) = unat b + ?k" using assms unat_add_of_nat [of b ?k] by simp
  have "CTRL_BYTE b = b + of_nat (SHM_DATA_SIZE + SHM_CMD_SIZE + 3 * sizeof_shm_list)"
    by (simp add: CTRL_BYTE_def SHM_CMD_BASE_def)
  then show "unat (CTRL_BYTE b) = unat b + (SHM_DATA_SIZE + SHM_CMD_SIZE + 3 * sizeof_shm_list)"
    using assms unat_add_of_nat [of b "SHM_DATA_SIZE + SHM_CMD_SIZE + 3 * sizeof_shm_list"] by (simp add: SHM_SIZE_def)
qed

section \<open>Properties\<close>

text \<open>
  C31: the 32-bit emulator and the 64-bit fio process agree on the shared segment: slots, list heads
  and control word have the same offsets from wherever each process maps it, everything lies inside
  \<^verbatim>\<open>SHM_SIZE\<close> bytes without overlap, and \<^verbatim>\<open>SHM_INDEX\<close> inverts
  \<^verbatim>\<open>SHM_SLOT\<close> in both.
\<close>

theorem shm_layout:
  fixes b32 :: u32 and b64 :: u64
  assumes "unat b32 + SHM_SIZE < 2 ^ 32" and "unat b64 + SHM_SIZE < 2 ^ 64" and "unat n < CMD_SLOT_NUM" and "unat m < unat n"
  shows "unat (SHM_SLOT_addr b32 n) - unat b32 = unat (SHM_SLOT_addr b64 n) - unat b64 \<and>
    unat (SHM_LIST_HEAD b32 l) - unat b32 = unat (SHM_LIST_HEAD b64 l) - unat b64 \<and>
    unat (CTRL_BYTE b32) - unat b32 = unat (CTRL_BYTE b64) - unat b64 \<and>
    unat (SHM_INDEX b32 (SHM_SLOT_addr b32 n)) = unat n \<and>
    unat (SHM_INDEX b64 (SHM_SLOT_addr b64 n)) = unat n \<and>
    unat b32 + SHM_DATA_SIZE \<le> unat (SHM_SLOT_addr b32 m) \<and>
    unat (SHM_SLOT_addr b32 m) + sizeof_shm_cmd \<le> unat (SHM_SLOT_addr b32 n) \<and>
    unat (SHM_SLOT_addr b32 n) + sizeof_shm_cmd \<le> unat (SHM_LIST_HEAD b32 FREE_LIST) \<and>
    unat (SHM_LIST_HEAD b32 FREE_LIST) + sizeof_shm_list = unat (SHM_LIST_HEAD b32 RDY_LIST) \<and>
    unat (SHM_LIST_HEAD b32 RDY_LIST) + sizeof_shm_list = unat (SHM_LIST_HEAD b32 PROC_LIST) \<and>
    unat (SHM_LIST_HEAD b32 PROC_LIST) + sizeof_shm_list = unat (CTRL_BYTE b32) \<and>
    unat (CTRL_BYTE b32) + 4 = unat b32 + SHM_SIZE"
proof -
  have m: "unat m < CMD_SLOT_NUM" using assms(3,4) by simp
  have b: "unat b32 + SHM_SIZE < 2 ^ LENGTH(32)" "unat b64 + SHM_SIZE < 2 ^ LENGTH(64)" using assms(1,2) by simp_all
  note a = slot_addr [OF b(1) assms(3)] slot_addr [OF b(2) assms(3)] slot_addr [OF b(1) m] head_addr [OF b(1)] head_addr [OF b(2)]
  have "unat (SHM_SLOT_addr b32 n) - unat b32 = unat (SHM_SLOT_addr b64 n) - unat b64"
    "unat (SHM_LIST_HEAD b32 l) - unat b32 = unat (SHM_LIST_HEAD b64 l) - unat b64"
    "unat (CTRL_BYTE b32) - unat b32 = unat (CTRL_BYTE b64) - unat b64"
    "unat (SHM_INDEX b32 (SHM_SLOT_addr b32 n)) = unat n" "unat (SHM_INDEX b64 (SHM_SLOT_addr b64 n)) = unat n"
    "unat b32 + SHM_DATA_SIZE \<le> unat (SHM_SLOT_addr b32 m)"
    using a by simp_all
  moreover have "unat (SHM_SLOT_addr b32 m) + sizeof_shm_cmd \<le> unat (SHM_SLOT_addr b32 n)"
    "unat (SHM_SLOT_addr b32 n) + sizeof_shm_cmd \<le> unat (SHM_LIST_HEAD b32 FREE_LIST)"
    "unat (SHM_LIST_HEAD b32 FREE_LIST) + sizeof_shm_list = unat (SHM_LIST_HEAD b32 RDY_LIST)"
    "unat (SHM_LIST_HEAD b32 RDY_LIST) + sizeof_shm_list = unat (SHM_LIST_HEAD b32 PROC_LIST)"
    "unat (SHM_LIST_HEAD b32 PROC_LIST) + sizeof_shm_list = unat (CTRL_BYTE b32)"
    "unat (CTRL_BYTE b32) + 4 = unat b32 + SHM_SIZE"
    using a assms(3,4) by (simp_all add: shm_size_defs)
  ultimately show ?thesis by blast
qed

theorem shm_layout_witness:
  "unat (SHM_INDEX 0x1000 (SHM_SLOT_addr (0x1000 :: u32) 3)) = 3 \<and>
   unat (SHM_SLOT_addr (0x1000 :: u32) 3) - 0x1000 = unat (SHM_SLOT_addr (0x7f0000000000 :: u64) 3) - 0x7f0000000000"
  using shm_layout [of "0x1000" "0x7f0000000000" 3 2 FREE_LIST] by (simp add: shm_size_defs)

text \<open>
  The segment that \<^verbatim>\<open>SHM_init\<close> leaves: all 256 slots on the free list in order, the
  ready and the processing list empty, and the lock open.
\<close>

lemma shm_init_lists:
  "\<exists>s. SHM_init = Some s \<and> shm_repr s [0..<CMD_SLOT_NUM] [] \<and> shm_get s \<noteq> None"
  using SHM_init_repr by (auto simp: shm_repr_def shm_get_def)

lemma slot_room:
  "distinct (xs @ ys) \<Longrightarrow> set ys \<subseteq> {..<CMD_SLOT_NUM} \<Longrightarrow> shm_queue.admits_all ys xs"
  by (induction ys arbitrary: xs) auto

text \<open>
  C28: each list of slots is a first-in first-out queue, for both processes: slots that the 64-bit
  process appends come out in the order they went in when the 32-bit process removes them, and the
  other way round, since both variants do the same to the segment.
\<close>

theorem shm_list_fifo:
  assumes "list_repr s l xs" and "distinct (xs @ ys)" and "set ys \<subseteq> {..<CMD_SLOT_NUM}"
  shows "\<exists>s1 s2. shm_queue.enq_all l ys s = Some s1 \<and> shm_queue.deq_n l (length xs + length ys) s1 = Some (xs @ ys, s2) \<and>
    shm_list_empty l s2 \<and> shm_list_add_x64 base i l s = shm_list_add i l s \<and> shm_list_remove_x64 base l s = shm_list_remove l s"
proof -
  obtain s1 s2 where "shm_queue.enq_all l ys s = Some s1" "shm_queue.deq_n l (length xs + length ys) s1 = Some (xs @ ys, s2)" "list_repr s2 l []"
    using shm_queue.fifo_order [OF assms(1) slot_room [OF assms(2,3)]] by blast
  then show ?thesis using list_repr_empty x64_same by blast
qed

theorem shm_list_fifo_witness:
  "\<exists>s1 s2. shm_queue.enq_all RDY_LIST [5, 3] \<lparr>shm_slots = (\<lambda>_. zero_cmd), shm_heads = (\<lambda>_. \<lparr>head_next = 256, head_prev = 256\<rparr>), shm_ctrl = 0\<rparr> = Some s1 \<and>
     shm_queue.deq_n RDY_LIST (Suc (Suc 0)) s1 = Some ([5, 3], s2)"
proof -
  have "list_repr \<lparr>shm_slots = (\<lambda>_. zero_cmd), shm_heads = (\<lambda>_. \<lparr>head_next = 256, head_prev = 256\<rparr>), shm_ctrl = 0\<rparr> RDY_LIST []"
    by (simp add: list_repr_def CMD_SLOT_NUM_def)
  from shm_list_fifo [OF this, of "[5, 3]" 0 0] show ?thesis
    by (simp add: CMD_SLOT_NUM_def del: shm_queue.enq_all.simps shm_queue.deq_n.simps) blast
qed

end
