(* ===== verification/FTL.thy ===== *)
theory FTL
  imports Task_Queue Backend Shmem Spin_Lock
begin

text \<open>
  The FTL thread: the command handlers of \<^verbatim>\<open>ftl/ftl_core0.c\<close>, the polling of the task
  queues (\<^verbatim>\<open>FTL_core0task_polling\<close> of \<^verbatim>\<open>ftl/ftl_taskqueue.c\<close>), of the
  completed requests (\<^verbatim>\<open>FTL_CQ_polling\<close> of \<^verbatim>\<open>ftl/ftl_core1.c\<close>) and of
  the shared memory (\<^verbatim>\<open>FTL_nvme_req_polling\<close> of \<^verbatim>\<open>ftl/ftl_nvme.c\<close>),
  and the thread's loop (\<^verbatim>\<open>ftl/ftl.c\<close>), all as the emulator compiles them.

  \<open>None\<close> is undefined behaviour (a NULL or out-of-range access), a loop that never ends, or
  a shared-memory lock that another process holds. Log output is left out.
\<close>

section \<open>State\<close>

record emu_state =
  st_hcl :: hcl_state
  st_tq :: task_queues
  st_fcl :: fcl_state
  st_be :: be_state
  st_buf :: buffer_state
  st_shm :: shm_state
  st_mem_base :: u32
  st_tmp_sq_index :: u32
  st_cmd_cnt :: u32

text \<open>Accesses of the handlers through the entry pointer, and \<^verbatim>\<open>FTL_sendhcmd\<close>, on the
  whole state.\<close>

definition get_hcmd :: "hcmd_ptr \<Rightarrow> emu_state \<Rightarrow> host_cmd_entry option" where
  "get_hcmd p s = hcmd_read p (st_hcl s)"

definition put_hcmd :: "hcmd_ptr \<Rightarrow> (host_cmd_entry \<Rightarrow> host_cmd_entry) \<Rightarrow> emu_state \<Rightarrow> emu_state option" where
  "put_hcmd p f s = do { h \<leftarrow> hcmd_update p f (st_hcl s); Some (s\<lparr>st_hcl := h\<rparr>) }"

definition send_hcmd :: "hcmd_ptr \<Rightarrow> host_cmd_entry_status \<Rightarrow> emu_state \<Rightarrow> (u32 \<times> emu_state) option" where
  "send_hcmd p st s = do { (r, tq) \<leftarrow> FTL_sendhcmd (st_hcl s) p st (st_tq s); Some (r, s\<lparr>st_tq := tq\<rparr>) }"

section \<open>The handlers\<close>

text \<open>The loop of \<^verbatim>\<open>FTL_handle_checkcache\<close>: it only looks the pages up; what it would do
  on a hit or a miss is commented out. The result is the new \<^verbatim>\<open>cur_cnt\<close> and the value
  that \<^verbatim>\<open>hcmd_entry->cur_lpn\<close> has been counted up to.\<close>

function checkcache_loop :: "buffer_state \<Rightarrow> u32 \<Rightarrow> u32 \<Rightarrow> u32 \<Rightarrow> u32 \<Rightarrow> (u32 \<times> u32) option" where
  "checkcache_loop buf rnum ccnt lpn entry_lpn =
     (if ccnt < rnum then do {
        buf_id \<leftarrow> L2P_check_buf_hit lpn buf;
        checkcache_loop buf rnum (ccnt + 1) (lpn + 1) (entry_lpn + 1)
      }
      else Some (ccnt, entry_lpn))"
  by pat_completeness auto
termination
proof (relation "measure (\<lambda>(buf, rnum, ccnt, lpn, entry_lpn). unat rnum - unat ccnt)")
  fix buf rnum ccnt lpn entry_lpn x
  assume "ccnt < (rnum :: u32)"
  from unat_inc_less [OF this] show "((buf, rnum, ccnt + 1, lpn + 1, entry_lpn + 1), buf, rnum, ccnt, lpn, entry_lpn)
      \<in> measure (\<lambda>(buf, rnum, ccnt, lpn, entry_lpn). unat rnum - unat ccnt)" by simp
qed simp

declare checkcache_loop.simps [simp del]

definition FTL_handle_checkcache :: "hcmd_ptr \<Rightarrow> emu_state \<Rightarrow> (u32 \<times> emu_state) option" where
  "FTL_handle_checkcache p s =
     (if p = NULL then Some (FAIL, s)
      else do {
        e \<leftarrow> get_hcmd p s;
        (cnt, lpn) \<leftarrow> checkcache_loop (st_buf s) (req_num e) (cur_cnt e) (cur_lpn e) (cur_lpn e);
        s1 \<leftarrow> put_hcmd p (\<lambda>e. e\<lparr>cur_lpn := lpn, cur_cnt := cnt\<rparr>) s;
        if op_code e = HCE_WRITE then do { (_, s2) \<leftarrow> send_hcmd p HCE_DATAMOVED s1; Some (SUCCESS, s2) }
        else if op_code e = HCE_READ then do { (_, s2) \<leftarrow> send_hcmd p HCE_TO_SQ s1; Some (SUCCESS, s2) }
        else Some (SUCCESS, s1)
      })"

text \<open>The fixed address that the handler uses while the mapping is switched off; \<open>ppa\<close> is the
  uninitialised local variable on the first round.\<close>

definition fake_ppa :: "u32 \<Rightarrow> phy_page_addr \<Rightarrow> phy_page_addr" where
  "fake_ppa lpn ppa = ppa\<lparr>ppa_ch := 1, ppa_ce := 0,
     nand_flash_addr :=
       field_set slc_page (ucast lpn) (field_set slc_block 0 (field_set slc_plane 0 (field_set slc_lun 0 (nand_flash_addr ppa))))\<rparr>"

text \<open>\<^verbatim>\<open>do ret = FCL_send_SQ_entry(...); while (ret == FAIL);\<close>\<close>

partial_function (option) send_sq_loop :: "u32 \<Rightarrow> u32 \<Rightarrow> u32 \<Rightarrow> fcl_state \<Rightarrow> be_state \<Rightarrow> be_state option" where
  "send_sq_loop index ch ce f b = do {
     r \<leftarrow> FCL_send_SQ_entry index ch ce f b;
     if fst r = FAIL then send_sq_loop index ch ce f (snd r) else Some (snd r)
   }"

text \<open>The loop of \<^verbatim>\<open>FTL_handle_tosq\<close>. \<open>Inl\<close>: it has put the command back into
  its queue because no submission slot is free.\<close>

partial_function (option) tosq_loop ::
  "hcmd_ptr \<Rightarrow> u32 \<Rightarrow> u32 \<Rightarrow> u32 \<Rightarrow> u32 \<Rightarrow> phy_page_addr \<Rightarrow> emu_state \<Rightarrow> (emu_state + u32 \<times> emu_state) option" where
  "tosq_loop p op hcmd_id bcnt send_cnt ppa0 s =
     (if send_cnt < bcnt then do {
        let ppa = fake_ppa 20 ppa0;
        let (i, f1) = FCL_get_free_SQ_entry (ucast (ppa_ch ppa)) (st_fcl s);
        let s1 = s\<lparr>st_fcl := f1, st_tmp_sq_index := i\<rparr>;
        if i = INVALID_ID then do { (_, s2) \<leftarrow> send_hcmd p HCE_TO_SQ s1; Some (Inl s2) }
        else do {
          f2 \<leftarrow> FCL_set_SQ_entry (st_mem_base s) hcmd_id i 0 op ppa 0 f1;
          b \<leftarrow> send_sq_loop i (ucast (ppa_ch ppa)) (ucast (ppa_ce ppa)) f2 (st_be s);
          tosq_loop p op hcmd_id bcnt (send_cnt + 1) ppa (s1\<lparr>st_fcl := f2, st_be := b\<rparr>)
        }
      }
      else Some (Inr (send_cnt, s)))"

definition FTL_handle_tosq :: "phy_page_addr \<Rightarrow> hcmd_ptr \<Rightarrow> emu_state \<Rightarrow> (u32 \<times> emu_state) option" where
  "FTL_handle_tosq junk p s =
     (if p = NULL then Some (FAIL, s)
      else do {
        e \<leftarrow> get_hcmd p s;
        let hcmd_id = HCL_get_hcmd_entry_index (st_hcl s) p;
        s1 \<leftarrow> put_hcmd p (\<lambda>e. e\<lparr>buf_cnt := 1\<rparr>) s;
        e1 \<leftarrow> get_hcmd p s1;
        r \<leftarrow> tosq_loop p (op_code e) hcmd_id (buf_cnt e1) 0 junk s1;
        case r of
          Inl s2 \<Rightarrow> Some (FAIL, s2)
        | Inr (n, s2) \<Rightarrow> do { s3 \<leftarrow> put_hcmd p (\<lambda>e. e\<lparr>send_sq_cnt := n\<rparr>) s2; Some (SUCCESS, s3) }
      })"

text \<open>The loops of \<^verbatim>\<open>FTL_handle_datamove\<close> count \<^verbatim>\<open>nvme_dma_cpl\<close> up to
  \<^verbatim>\<open>buf_cnt\<close>; the transfers are commented out.\<close>

function dma_loop :: "u32 \<Rightarrow> u32 \<Rightarrow> u32" where
  "dma_loop cpl cnt = (if cpl < cnt then dma_loop (cpl + 1) cnt else cpl)"
  by pat_completeness auto
termination
proof (relation "measure (\<lambda>(cpl, cnt). unat cnt - unat cpl)")
  fix cpl cnt
  assume "cpl < (cnt :: u32)"
  from unat_inc_less [OF this] show "((cpl + 1, cnt), cpl, cnt) \<in> measure (\<lambda>(cpl, cnt). unat cnt - unat cpl)" by simp
qed simp

declare dma_loop.simps [simp del]

definition FTL_handle_datamove :: "hcmd_ptr \<Rightarrow> emu_state \<Rightarrow> (u32 \<times> emu_state) option" where
  "FTL_handle_datamove p s =
     (if p = NULL then Some (FAIL, s)
      else do {
        e \<leftarrow> get_hcmd p s;
        s1 \<leftarrow> put_hcmd p (\<lambda>e. e\<lparr>buf_cnt := 1\<rparr>) s;
        e1 \<leftarrow> get_hcmd p s1;
        s2 \<leftarrow> put_hcmd p (\<lambda>e. e\<lparr>nvme_dma_cpl := dma_loop (nvme_dma_cpl e) (buf_cnt e1)\<rparr>) s1;
        (_, s3) \<leftarrow> send_hcmd p (if op_code e = HCE_READ then HCE_FINISH else HCE_TO_SQ) s2;
        Some (SUCCESS, s3)
      })"

definition FTL_handle_fromcq :: "hcmd_ptr \<Rightarrow> emu_state \<Rightarrow> (u32 \<times> emu_state) option" where
  "FTL_handle_fromcq p s =
     (if p = NULL then Some (FAIL, s)
      else do {
        e \<leftarrow> get_hcmd p s;
        let next_st = (if op_code e = HCE_WRITE then HCE_FINISH else HCE_DATAMOVED);
        s1 \<leftarrow> put_hcmd p (\<lambda>e. e\<lparr>status := next_st\<rparr>) s;
        (_, s2) \<leftarrow> send_hcmd p next_st s1;
        Some (SUCCESS, s2)
      })"

text \<open>The log line reads \<^verbatim>\<open>hcmd_entry->emu_id\<close> before the check for NULL.\<close>

definition FTL_handle_finish :: "hcmd_ptr \<Rightarrow> emu_state \<Rightarrow> (u32 \<times> emu_state) option" where
  "FTL_handle_finish p s = do {
     e \<leftarrow> get_hcmd p s;
     if p = NULL then Some (FAIL, s)
     else do {
       (_, h) \<leftarrow> HCL_reclaim_hcmd_entry p (st_hcl s);
       Some (SUCCESS, s\<lparr>st_hcl := h\<rparr>)
     }
   }"

section \<open>Polling\<close>

text \<open>The table of handlers that \<^verbatim>\<open>FTL_int_task_queue\<close> fills in.\<close>

definition tq_func :: "phy_page_addr \<Rightarrow> host_cmd_entry_status \<Rightarrow> (hcmd_ptr \<Rightarrow> emu_state \<Rightarrow> (u32 \<times> emu_state) option) option" where
  "tq_func junk st = (case st of
     HCE_CHECK_CACHE \<Rightarrow> Some FTL_handle_checkcache
   | HCE_DATAMOVED \<Rightarrow> Some FTL_handle_datamove
   | HCE_FINISH \<Rightarrow> Some FTL_handle_finish
   | HCE_FROM_CQ \<Rightarrow> Some FTL_handle_fromcq
   | HCE_TO_SQ \<Rightarrow> Some (FTL_handle_tosq junk)
   | _ \<Rightarrow> None)"

text \<open>One round of the inner loop, and the rounds of one queue.\<close>

definition poll_one :: "phy_page_addr \<Rightarrow> host_cmd_entry_status \<Rightarrow> emu_state \<Rightarrow> emu_state option" where
  "poll_one junk st s =
     (let (p, tq) = FTL_task_queue_remove_head st (st_tq s); s1 = s\<lparr>st_tq := tq\<rparr>
      in if p \<noteq> NULL then do { f \<leftarrow> tq_func junk st; (_, s2) \<leftarrow> f p s1; Some s2 } else Some s1)"

primrec poll_queue :: "phy_page_addr \<Rightarrow> host_cmd_entry_status \<Rightarrow> nat \<Rightarrow> emu_state \<Rightarrow> emu_state option" where
  "poll_queue junk st 0 s = Some s"
| "poll_queue junk st (Suc n) s = do { s1 \<leftarrow> poll_one junk st s; poll_queue junk st n s1 }"

primrec poll_queues :: "phy_page_addr \<Rightarrow> host_cmd_entry_status list \<Rightarrow> emu_state \<Rightarrow> emu_state option" where
  "poll_queues junk [] s = Some s"
| "poll_queues junk (st # sts) s = do {
     s1 \<leftarrow> poll_queue junk st (unat (tq_cnt (st_tq s st))) s;
     poll_queues junk sts s1
   }"

definition FTL_core0task_polling :: "phy_page_addr \<Rightarrow> emu_state \<Rightarrow> emu_state option" where
  "FTL_core0task_polling junk s =
     poll_queues junk [HCE_CHECK_CACHE, HCE_TO_SQ, HCE_DATAMOVED, HCE_FROM_CQ, HCE_FINISH] s"

text \<open>One round of the loop over the completed requests.\<close>

definition cq_one :: "nat \<Rightarrow> emu_state \<Rightarrow> emu_state option" where
  "cq_one i s = do {
     sq \<leftarrow> emu_sqs (st_be s) i;
     let s1 = s\<lparr>st_fcl := FCL_free_SQ_entry (sq_ch sq) (sq_index sq) (st_fcl s)\<rparr>;
     let p = HCL_get_hcmd_entry_addr (sq_field sq_hcmd_index (sq_entry sq));
     s2 \<leftarrow> put_hcmd p (\<lambda>e. e\<lparr>cpl_cnt := cpl_cnt e + 1\<rparr>) s1;
     e \<leftarrow> get_hcmd p s2;
     s3 \<leftarrow> (if cpl_cnt e = req_num e then do { (_, s3) \<leftarrow> send_hcmd p HCE_FROM_CQ s2; Some s3 } else Some s2);
     h \<leftarrow> list_delete_head (Some CompleteHead) (be_nodes (st_be s3));
     Some (s3\<lparr>st_be := (st_be s3)\<lparr>be_nodes := h, emu_sqs := (emu_sqs (st_be s3))(i := None)\<rparr>\<rparr>)
   }"

partial_function (option) FTL_CQ_polling :: "emu_state \<Rightarrow> emu_state option" where
  "FTL_CQ_polling s = do {
     n \<leftarrow> node_next (Some CompleteHead) (be_nodes (st_be s));
     if n \<noteq> Some CompleteHead then do { i \<leftarrow> entry_of_sq n; s1 \<leftarrow> cq_one i s; FTL_CQ_polling s1 }
     else Some s
   }"

definition MAX_POLLING_NUM :: nat where "MAX_POLLING_NUM = 8"

definition fill_hcmd :: "shm_index \<Rightarrow> shm_cmd \<Rightarrow> u32 \<Rightarrow> host_cmd_entry \<Rightarrow> host_cmd_entry" where
  "fill_hcmd index scmd c e =
     (let e1 = (if cmd_ops scmd = SHM_WRITE_OPS then e\<lparr>op_code := HCE_WRITE\<rparr>
                else if cmd_ops scmd = SHM_READ_OPS then e\<lparr>op_code := HCE_READ\<rparr> else e);
          lba = cmd_lpn scmd;
          num = cmd_size scmd div HOST_BLOCK_SIZE
      in e1\<lparr>nvme_start_lba := lba, nvme_req_num := num, start_lpa := lba div 4, req_num := num div 4,
            cur_lpn := lba div 4, nvme_dma_cpl := 0, mod_req_num := 0, mod_start_LA := 0, cur_cnt := 0, cpl_cnt := 0,
            send_sq_cnt := 0, buf_cnt := 0, start_unalign_sqindex := 0, end_unalign_sqindex := 0,
            nvme_cmd_slot := index, emu_id := c\<rparr>)"

text \<open>One round of \<^verbatim>\<open>FTL_nvme_req_polling\<close>.\<close>

definition req_one :: "emu_state \<Rightarrow> emu_state option" where
  "req_one s = do {
     ((index, scmd), shm1) \<leftarrow> SHM_get_rdy_list (st_shm s);
     let s1 = s\<lparr>st_shm := shm1\<rparr>;
     if index = of_nat CMD_SLOT_NUM then Some s1
     else do {
       c \<leftarrow> scmd;
       let (p, h) = HCL_get_host_cmd_entry (st_hcl s1);
       let s2 = s1\<lparr>st_hcl := h\<rparr>;
       if p \<noteq> NULL then do {
         s3 \<leftarrow> put_hcmd p (fill_hcmd index c (st_cmd_cnt s2 + 1)) s2;
         (_, s4) \<leftarrow> send_hcmd p HCE_CHECK_CACHE (s3\<lparr>st_cmd_cnt := st_cmd_cnt s2 + 1\<rparr>);
         shm2 \<leftarrow> SHM_add_free_list index (st_shm s4);
         Some (s4\<lparr>st_shm := shm2\<rparr>)
       }
       else do {
         shm2 \<leftarrow> SHM_add_rdy_list index c (st_shm s2);
         Some (s2\<lparr>st_shm := shm2\<rparr>)
       }
     }
   }"

primrec req_polls :: "nat \<Rightarrow> emu_state \<Rightarrow> emu_state option" where
  "req_polls 0 s = Some s"
| "req_polls (Suc n) s = do { s1 \<leftarrow> req_one s; req_polls n s1 }"

definition FTL_nvme_req_polling :: "emu_state \<Rightarrow> emu_state option" where
  "FTL_nvme_req_polling s = req_polls MAX_POLLING_NUM s"

text \<open>One round of the FTL thread.\<close>

definition FTL_core0_task_run :: "phy_page_addr \<Rightarrow> emu_state \<Rightarrow> emu_state option" where
  "FTL_core0_task_run junk s = do {
     s1 \<leftarrow> FTL_nvme_req_polling s;
     s2 \<leftarrow> FTL_core0task_polling junk s1;
     FTL_CQ_polling s2
   }"

end
