(* ===== verification/Emu_Invariant.thy ===== *)
theory Emu_Invariant
  imports FTL
begin

text \<open>
  The invariant of the FTL thread, the back end and the shared memory together: every host command
  entry in use is in at most one place (one of the task queues, or waiting in the back end), the
  queues never overflow, the submission slots of channel 1 in use are exactly those of the requests
  in the back end, and all pointer structures are well formed. Every operation of the FTL thread
  returns and keeps it.
\<close>

section \<open>Who holds a command\<close>

text \<open>\<open>g\<close>: the commands in each place; \<open>HCE_WAIT_CQ\<close> stands for the back end.\<close>

definition own_inv :: "nat set \<Rightarrow> (host_cmd_entry_status \<Rightarrow> hcmd_ptr list) \<Rightarrow> bool" where
  "own_inv U g \<longleftrightarrow> (\<forall>st. distinct (g st) \<and> set (g st) \<subseteq> Some ` U) \<and>
     (\<forall>st st'. st \<noteq> st' \<longrightarrow> set (g st) \<inter> set (g st') = {})"

definition loose :: "nat set \<Rightarrow> (host_cmd_entry_status \<Rightarrow> hcmd_ptr list) \<Rightarrow> hcmd_ptr \<Rightarrow> bool" where
  "loose U g p \<longleftrightarrow> p \<in> Some ` U \<and> (\<forall>st. p \<notin> set (g st))"

lemma own_take:
  assumes "own_inv U g" and "g st = p # ps"
  shows "own_inv U (g(st := ps))" and "loose U (g(st := ps)) p"
proof -
  have d: "distinct (p # ps)" "set (p # ps) \<subseteq> Some ` U" using assms by (metis own_inv_def)+
  have o: "set (p # ps) \<inter> set (g st') = {}" if "st' \<noteq> st" for st'
    using assms that by (metis own_inv_def)
  show "own_inv U (g(st := ps))" unfolding own_inv_def
  proof (intro conjI allI impI)
    fix st' show "distinct ((g(st := ps)) st')" "set ((g(st := ps)) st') \<subseteq> Some ` U"
      using assms(1) d by (auto simp: own_inv_def)
  next
    fix a b :: host_cmd_entry_status assume "a \<noteq> b"
    then show "set ((g(st := ps)) a) \<inter> set ((g(st := ps)) b) = {}"
      using assms(1) o [of a] o [of b] by (auto simp: own_inv_def)
  qed
  show "loose U (g(st := ps)) p" using d o by (auto simp: loose_def)
qed

lemma own_put:
  assumes "own_inv U g" and "loose U g p"
  shows "own_inv U (g(st := g st @ [p]))"
  using assms unfolding own_inv_def loose_def by auto

lemma own_drop:
  assumes "own_inv U g" and "loose U g (Some k)"
  shows "own_inv (U - {k}) g"
proof -
  have "set (g st) \<subseteq> Some ` (U - {k})" for st
  proof
    fix x assume x: "x \<in> set (g st)"
    then have "x \<in> Some ` U" using assms(1) by (auto simp: own_inv_def)
    moreover have "x \<noteq> Some k" using x assms(2) by (auto simp: loose_def)
    ultimately show "x \<in> Some ` (U - {k})" by blast
  qed
  then show ?thesis using assms(1) by (simp add: own_inv_def)
qed

lemma own_new:
  assumes "own_inv U g" and "k \<notin> U"
  shows "own_inv (insert k U) g" and "loose (insert k U) g (Some k)"
  using assms unfolding own_inv_def loose_def by auto

lemma own_room:
  assumes "own_inv U g" and "loose U g p" and "U \<subseteq> {..<n}"
  shows "length (g st) < n"
proof -
  have f: "finite U" "card U \<le> n" using assms(3) finite_subset card_mono [of "{..<n}" U] by auto
  have "distinct (p # g st)" "set (p # g st) \<subseteq> Some ` U" using assms(1,2) by (auto simp: own_inv_def loose_def)
  then have "length (p # g st) \<le> card (Some ` U)" using distinct_length_le_card f(1) by blast
  also have "\<dots> = card U" by (simp add: card_image)
  finally show ?thesis using f(2) by simp
qed

lemma own_lists:
  assumes "own_inv U g" and "distinct sts"
  shows "distinct (concat (map g sts))" and "set (concat (map g sts)) \<subseteq> Some ` U"
proof -
  have d: "distinct (g st)" "set (g st) \<subseteq> Some ` U" for st using assms(1) by (simp_all add: own_inv_def)
  have o: "set (g st) \<inter> set (g st') = {}" if "st \<noteq> st'" for st st' using assms(1) that unfolding own_inv_def by blast
  show "set (concat (map g sts)) \<subseteq> Some ` U" using d(2) by fastforce
  show "distinct (concat (map g sts))" using assms(2)
  proof (induction sts)
    case (Cons st sts)
    then have "set (g st) \<inter> set (concat (map g sts)) = {}" using o [of st] by fastforce
    then show ?case using Cons d(1) by simp
  qed simp
qed

section \<open>The invariant\<close>

definition sq_hcmd :: "be_state \<Rightarrow> nat \<Rightarrow> hcmd_ptr" where
  "sq_hcmd b i = (case emu_sqs b i of None \<Rightarrow> NULL
     | Some sq \<Rightarrow> HCL_get_hcmd_entry_addr (sq_field sq_hcmd_index (sq_entry sq)))"

definition sq_slot :: "be_state \<Rightarrow> nat \<Rightarrow> nat" where
  "sq_slot b i = (case emu_sqs b i of None \<Rightarrow> 0 | Some sq \<Rightarrow> unat (sq_index sq))"

definition places ::
  "emu_state \<Rightarrow> (host_cmd_entry_status \<Rightarrow> hcmd_ptr list) \<Rightarrow> nat list \<Rightarrow> host_cmd_entry_status \<Rightarrow> hcmd_ptr list" where
  "places s f ids = f(HCE_WAIT_CQ := map (sq_hcmd (st_be s)) ids)"

definition slots_ok :: "emu_state \<Rightarrow> nat list \<Rightarrow> bool" where
  "slots_ok s ids \<longleftrightarrow>
     (\<forall>i \<in> set ids. \<exists>sq. emu_sqs (st_be s) i = Some sq \<and> sq_ch sq = 1) \<and>
     distinct (map (sq_slot (st_be s)) ids) \<and> sq_used 1 (st_fcl s) = set (map (sq_slot (st_be s)) ids)"

definition emu_ok ::
  "emu_state \<Rightarrow> (host_cmd_entry_status \<Rightarrow> hcmd_ptr list) \<Rightarrow> nat list \<Rightarrow> nat list \<Rightarrow> nat list \<Rightarrow> nat list \<Rightarrow> nat list \<Rightarrow> bool" where
  "emu_ok s f reg busy cmp fs rs \<longleftrightarrow>
     tq_repr (st_tq s) f \<and> be_repr (st_be s) reg busy cmp \<and> shm_repr (st_shm s) fs rs \<and>
     (\<exists>a cs. cache_repr (st_buf s) a cs) \<and>
     own_inv (hcmd_used (st_hcl s)) (places s f (reg @ busy @ cmp)) \<and> slots_ok s (reg @ busy @ cmp)"

abbreviation loose_in :: "emu_state \<Rightarrow> (host_cmd_entry_status \<Rightarrow> hcmd_ptr list) \<Rightarrow> nat list \<Rightarrow> hcmd_ptr \<Rightarrow> bool" where
  "loose_in s f ids p \<equiv> loose (hcmd_used (st_hcl s)) (places s f ids) p"

definition task_status :: "host_cmd_entry_status set" where
  "task_status = {HCE_CHECK_CACHE, HCE_TO_SQ, HCE_DATAMOVED, HCE_FROM_CQ, HCE_FINISH}"

lemma task_status_less: "st \<in> task_status \<Longrightarrow> st < HCE_INIT" and task_status_wait: "st \<in> task_status \<Longrightarrow> st \<noteq> HCE_WAIT_CQ"
  by (auto simp: task_status_def status_order)

lemma places_upd: "st \<noteq> HCE_WAIT_CQ \<Longrightarrow> places s (f(st := xs)) ids = (places s f ids)(st := xs)"
  by (auto simp: places_def fun_eq_iff)

lemma places_at: "st \<noteq> HCE_WAIT_CQ \<Longrightarrow> places s f ids st = f st"
  by (simp add: places_def)

lemma loose_valid: "loose_in s f ids p \<Longrightarrow> \<exists>k. p = Some k \<and> k \<in> hcmd_used (st_hcl s) \<and> k < HCMD_NUM"
  using hcmd_used_bound [of "st_hcl s"] by (auto simp: loose_def)

lemma places_cong: "st_be s' = st_be s \<Longrightarrow> places s' f ids = places s f ids"
  by (simp add: places_def)

lemma ok_send:
  assumes "emu_ok s f reg busy cmp fs rs" and "loose_in s f (reg @ busy @ cmp) p" and "st \<in> task_status"
  shows "\<exists>tq'. send_hcmd p st s = Some (SUCCESS, s\<lparr>st_tq := tq'\<rparr>) \<and>
    emu_ok (s\<lparr>st_tq := tq'\<rparr>) (f(st := f st @ [p])) reg busy cmp fs rs"
proof -
  note st = task_status_less [OF assms(3)] task_status_wait [OF assms(3)]
  obtain k where k: "p = Some k" "k < HCMD_NUM" using loose_valid [OF assms(2)] by blast
  have o: "own_inv (hcmd_used (st_hcl s)) (places s f (reg @ busy @ cmp))" using assms(1) by (simp add: emu_ok_def)
  have "length (places s f (reg @ busy @ cmp) st) < HCMD_NUM"
    using own_room [OF o assms(2) hcmd_used_bound] .
  then have "length (f st) < TASK_QUEUE_MAX" using st by (simp add: places_at HCMD_NUM_def TASK_QUEUE_MAX_def)
  moreover have "hcmd_read p (st_hcl s) = Some (hcmd_queue (st_hcl s) k)" using k by (simp add: hcmd_read_def)
  moreover have "tq_repr (st_tq s) f" using assms(1) by (simp add: emu_ok_def)
  ultimately obtain tq' where tq': "FTL_sendhcmd (st_hcl s) p st (st_tq s) = Some (SUCCESS, tq')"
    "tq_repr tq' (f(st := f st @ [p]))" using sendhcmd_repr st(1) by blast
  have "own_inv (hcmd_used (st_hcl s)) (places s (f(st := f st @ [p])) (reg @ busy @ cmp))"
    using own_put [OF o assms(2), of st] st(2) by (simp add: places_upd places_at)
  then have "emu_ok (s\<lparr>st_tq := tq'\<rparr>) (f(st := f st @ [p])) reg busy cmp fs rs"
    using assms(1) tq'(2) by (simp add: emu_ok_def places_cong [of "s\<lparr>st_tq := tq'\<rparr>" s] slots_ok_def)
  moreover have "send_hcmd p st s = Some (SUCCESS, s\<lparr>st_tq := tq'\<rparr>)" using tq'(1) by (simp add: send_hcmd_def)
  ultimately show ?thesis by blast
qed

definition upd_hcmd :: "nat \<Rightarrow> (host_cmd_entry \<Rightarrow> host_cmd_entry) \<Rightarrow> emu_state \<Rightarrow> emu_state" where
  "upd_hcmd k g s = s\<lparr>st_hcl := (st_hcl s)\<lparr>hcmd_queue := (hcmd_queue (st_hcl s))(k := g (hcmd_queue (st_hcl s) k))\<rparr>\<rparr>"

abbreviation hcmd_at :: "emu_state \<Rightarrow> nat \<Rightarrow> host_cmd_entry" where
  "hcmd_at s k \<equiv> hcmd_queue (st_hcl s) k"

lemma upd_hcmd_simps [simp]:
  "st_tq (upd_hcmd k g s) = st_tq s" "st_fcl (upd_hcmd k g s) = st_fcl s" "st_be (upd_hcmd k g s) = st_be s"
  "st_buf (upd_hcmd k g s) = st_buf s" "st_shm (upd_hcmd k g s) = st_shm s" "st_mem_base (upd_hcmd k g s) = st_mem_base s"
  "hcmd_used (st_hcl (upd_hcmd k g s)) = hcmd_used (st_hcl s)" "hcmd_base (st_hcl (upd_hcmd k g s)) = hcmd_base (st_hcl s)"
  "hcmd_at (upd_hcmd k g s) j = (if j = k then g (hcmd_at s k) else hcmd_at s j)"
  by (simp_all add: upd_hcmd_def hcmd_used_def)

lemma put_hcmd_eq: "k < HCMD_NUM \<Longrightarrow> put_hcmd (Some k) g s = Some (upd_hcmd k g s)"
  by (simp add: put_hcmd_def hcmd_update_def upd_hcmd_def)

lemma get_hcmd_eq: "k < HCMD_NUM \<Longrightarrow> get_hcmd (Some k) s = Some (hcmd_at s k)"
  by (simp add: get_hcmd_def hcmd_read_def)

lemma ok_upd [simp]: "emu_ok (upd_hcmd k g s) f reg busy cmp fs rs = emu_ok s f reg busy cmp fs rs"
  by (simp add: emu_ok_def places_def slots_ok_def)

lemma places_upd_hcmd [simp]: "places (upd_hcmd k g s) f ids = places s f ids"
  by (simp add: places_def)

section \<open>The handlers keep it\<close>

lemma check_buf_hit_total: "cache_repr b a cs \<Longrightarrow> \<exists>i. L2P_check_buf_hit lpn b = Some i"
  by (simp add: check_buf_hit_cache)

lemma checkcache_loop_result:
  assumes "cache_repr b a cs"
  shows "checkcache_loop b rn cc lpn el = Some (max cc rn, el + (max cc rn - cc))"
  using assms
proof (induction b rn cc lpn el rule: checkcache_loop.induct)
  case (1 buf rn cc lpn el)
  obtain i where i: "L2P_check_buf_hit lpn buf = Some i" using check_buf_hit_total [OF 1(2)] by blast
  show ?case
  proof (cases "cc < rn")
    case True
    have "cc + 1 \<le> rn" using unat_inc_less [OF True] by (simp add: word_le_nat_alt)
    then have "max (cc + 1) rn = rn" "max cc rn = rn" using less_imp_le [OF True] by (simp_all add: max_def)
    then show ?thesis
      using 1(1) [OF True i 1(2)] True i by (simp add: checkcache_loop.simps [of buf rn cc])
  next
    case False
    then show ?thesis by (simp add: checkcache_loop.simps [of buf rn cc] max_def)
  qed
qed

lemma ok_cache: "emu_ok s f reg busy cmp fs rs \<Longrightarrow> \<exists>a cs. cache_repr (st_buf s) a cs"
  by (simp add: emu_ok_def)

lemma checkcache_ok:
  assumes "emu_ok s f reg busy cmp fs rs" and "loose_in s f (reg @ busy @ cmp) (Some k)"
  defines "f' \<equiv> if op_code (hcmd_at s k) = HCE_WRITE then f(HCE_DATAMOVED := f HCE_DATAMOVED @ [Some k])
    else if op_code (hcmd_at s k) = HCE_READ then f(HCE_TO_SQ := f HCE_TO_SQ @ [Some k]) else f"
  shows "\<exists>s' g. FTL_handle_checkcache (Some k) s = Some (SUCCESS, s') \<and> emu_ok s' f' reg busy cmp fs rs \<and>
    st_hcl s' = st_hcl (upd_hcmd k g s) \<and> (\<forall>e. op_code (g e) = op_code e \<and> req_num (g e) = req_num e \<and> cpl_cnt (g e) = cpl_cnt e) \<and>
    st_be s' = st_be s \<and> st_shm s' = st_shm s \<and> st_fcl s' = st_fcl s \<and> st_mem_base s' = st_mem_base s"
proof -
  obtain a cs where c: "cache_repr (st_buf s) a cs" using ok_cache [OF assms(1)] by blast
  have k: "k < HCMD_NUM" using loose_valid [OF assms(2)] by auto
  obtain n l where nl: "checkcache_loop (st_buf s) (req_num (hcmd_at s k)) (cur_cnt (hcmd_at s k)) (cur_lpn (hcmd_at s k))
      (cur_lpn (hcmd_at s k)) = Some (n, l)" using checkcache_loop_result [OF c] by blast
  let ?g = "\<lambda>e. e\<lparr>cur_lpn := l, cur_cnt := n\<rparr>"
  let ?s = "upd_hcmd k ?g s"
  have ok: "emu_ok ?s f reg busy cmp fs rs" "loose_in ?s f (reg @ busy @ cmp) (Some k)" using assms(1,2) by simp_all
  have g: "\<forall>e. op_code (?g e) = op_code e \<and> req_num (?g e) = req_num e \<and> cpl_cnt (?g e) = cpl_cnt e" by simp
  note h = FTL_handle_checkcache_def get_hcmd_eq [OF k] put_hcmd_eq [OF k] nl
  consider (w) "op_code (hcmd_at s k) = HCE_WRITE" | (r) "op_code (hcmd_at s k) = HCE_READ"
    | (x) "op_code (hcmd_at s k) \<noteq> HCE_WRITE" "op_code (hcmd_at s k) \<noteq> HCE_READ" by blast
  then show ?thesis
  proof cases
    case w
    obtain tq' where "send_hcmd (Some k) HCE_DATAMOVED ?s = Some (SUCCESS, ?s\<lparr>st_tq := tq'\<rparr>)"
      "emu_ok (?s\<lparr>st_tq := tq'\<rparr>) (f(HCE_DATAMOVED := f HCE_DATAMOVED @ [Some k])) reg busy cmp fs rs"
      using ok_send [OF ok, of HCE_DATAMOVED] by (auto simp: task_status_def)
    then show ?thesis using w g by (intro exI [of _ "?s\<lparr>st_tq := tq'\<rparr>"] exI [of _ ?g]) (simp add: h f'_def)
  next
    case r
    obtain tq' where "send_hcmd (Some k) HCE_TO_SQ ?s = Some (SUCCESS, ?s\<lparr>st_tq := tq'\<rparr>)"
      "emu_ok (?s\<lparr>st_tq := tq'\<rparr>) (f(HCE_TO_SQ := f HCE_TO_SQ @ [Some k])) reg busy cmp fs rs"
      using ok_send [OF ok, of HCE_TO_SQ] by (auto simp: task_status_def)
    then show ?thesis using r g by (intro exI [of _ "?s\<lparr>st_tq := tq'\<rparr>"] exI [of _ ?g]) (simp add: h f'_def)
  next
    case x
    then show ?thesis using ok g by (intro exI [of _ ?s] exI [of _ ?g]) (simp add: h f'_def)
  qed
qed

lemma own_reorder:
  "own_inv U (g(st := xs)) \<Longrightarrow> set ys = set xs \<Longrightarrow> distinct ys \<Longrightarrow> own_inv U (g(st := ys))"
  unfolding own_inv_def by (auto split: if_splits)

lemma set_SQ_entry_any:
  assumes "unat (ppa_ch ppa) < TOTAL_CHANNEL" and "unat i < HW_QUEUE_DEPTH"
  shows "\<exists>s'. FCL_set_SQ_entry mb hc i buf opcode ppa sp s = Some s' \<and> hw_sq_bitmap s' = hw_sq_bitmap s \<and>
    sq_field sq_hcmd_index (hw_SQ s' (unat (ppa_ch ppa)) (unat i)) = take_bit 8 hc"
proof -
  have "sq_field sq_hcmd_index (field_set sq_hcmd_index (ucast hc) e) = take_bit 8 hc" for e
    by (simp add: sq_field_simps)
  then show ?thesis using assms by (simp add: FCL_set_SQ_entry_def Let_def)
qed

lemma fake_ppa_simps [simp]: "ppa_ch (fake_ppa l p) = 1" "ppa_ce (fake_ppa l p) = 0"
  by (simp_all add: fake_ppa_def)

text \<open>Handing one entry to the back end.\<close>

lemma send_sq_loop_once:
  assumes "be_repr b reg busy cmp" and "unat ch < TOTAL_CHANNEL" and "unat i < HW_QUEUE_DEPTH"
  shows "\<exists>b'. send_sq_loop i ch ce f b = Some b' \<and> be_repr b' (reg @ [malloc_next b]) busy cmp \<and>
    emu_sqs b' = (emu_sqs b)(malloc_next b \<mapsto> \<lparr>sq_ch = ch, sq_ce_no = ce, sq_index = i, sq_entry = hw_SQ f (unat ch) (unat i)\<rparr>)"
proof -
  obtain b' where b': "BE_send_sq i (hw_SQ f (unat ch) (unat i)) ch ce b = Some b'" "be_repr b' (reg @ [malloc_next b]) busy cmp"
    "emu_sqs b' = (emu_sqs b)(malloc_next b \<mapsto> \<lparr>sq_ch = ch, sq_ce_no = ce, sq_index = i, sq_entry = hw_SQ f (unat ch) (unat i)\<rparr>)"
    using send_sq_repr [OF assms(1)] by blast
  then have "send_sq_loop i ch ce f b = Some b'"
    using assms(2,3) by (subst send_sq_loop.simps) (simp add: FCL_send_SQ_entry_def)
  with b' show ?thesis by blast
qed

lemma ok_new_request:
  assumes ok: "emu_ok s f reg busy cmp fs rs" and lo: "loose_in s f (reg @ busy @ cmp) (Some k)"
    and b': "be_repr b' (reg @ [malloc_next (st_be s)]) busy cmp" "emu_sqs b' = (emu_sqs (st_be s))(malloc_next (st_be s) \<mapsto> sq)"
    and sq: "sq_ch sq = 1" "unat (sq_index sq) \<notin> sq_used 1 (st_fcl s)" "sq_field sq_hcmd_index (sq_entry sq) = of_nat k"
    and u: "sq_used 1 f2 = insert (unat (sq_index sq)) (sq_used 1 (st_fcl s))"
    and s': "st_tq s' = st_tq s" "st_hcl s' = st_hcl s" "st_shm s' = st_shm s" "st_buf s' = st_buf s"
      "st_fcl s' = f2" "st_be s' = b'"
  shows "emu_ok s' f (reg @ [malloc_next (st_be s)]) busy cmp fs rs"
proof -
  let ?i = "malloc_next (st_be s)" and ?ids = "reg @ busy @ cmp"
  let ?ids' = "(reg @ [?i]) @ busy @ cmp"
  have k: "unat (of_nat k :: u32) = k" using loose_valid [OF lo] by (intro unat_of_nat_u32) (auto simp: HCMD_NUM_def)
  have new: "?i \<notin> set ?ids" using ok by (auto simp: emu_ok_def be_repr_def)
  have sl: "slots_ok s ?ids" and ow: "own_inv (hcmd_used (st_hcl s)) (places s f ?ids)" using ok by (simp_all add: emu_ok_def)
  have old: "sq_hcmd b' j = sq_hcmd (st_be s) j" "sq_slot b' j = sq_slot (st_be s) j" if "j \<in> set ?ids" for j
    using that new b'(2) by (auto simp: sq_hcmd_def sq_slot_def)
  have n: "sq_hcmd b' ?i = Some k" "sq_slot b' ?i = unat (sq_index sq)"
    using b'(2) sq(3) k by (simp_all add: sq_hcmd_def sq_slot_def HCL_get_hcmd_entry_addr_def)
  have m: "map (sq_slot b') ?ids = map (sq_slot (st_be s)) ?ids" "map (sq_hcmd b') ?ids = map (sq_hcmd (st_be s)) ?ids"
    using old by (auto intro!: map_cong)
  have st: "set (map g ?ids') = insert (g ?i) (set (map g ?ids))" for g :: "nat \<Rightarrow> 'z" by auto
  have dist: "distinct (map g ?ids') \<longleftrightarrow> g ?i \<notin> set (map g ?ids) \<and> distinct (map g ?ids)" for g :: "nat \<Rightarrow> 'z" by auto
  have d: "distinct (map (sq_slot b') ?ids')" "sq_used 1 f2 = set (map (sq_slot b') ?ids')"
    using sl sq(2) u unfolding st dist slots_ok_def m n by simp_all
  have "\<exists>q. emu_sqs b' j = Some q \<and> sq_ch q = 1" if "j \<in> set ?ids'" for j
    using that sl new sq(1) by (cases "j = ?i") (auto simp: slots_ok_def b'(2))
  then have sl': "slots_ok s' ?ids'" using d by (simp add: slots_ok_def s')
  have "own_inv (hcmd_used (st_hcl s)) ((places s f ?ids)(HCE_WAIT_CQ := places s f ?ids HCE_WAIT_CQ @ [Some k]))"
    by (rule own_put [OF ow lo])
  then have o: "own_inv (hcmd_used (st_hcl s)) (f(HCE_WAIT_CQ := map (sq_hcmd (st_be s)) ?ids @ [Some k]))"
    by (simp add: places_def)
  have l: "Some k \<notin> set (map (sq_hcmd (st_be s)) ?ids)" using lo by (auto simp: loose_def places_def split: if_splits)
  have "distinct (map (sq_hcmd (st_be s)) ?ids)" using ow unfolding own_inv_def places_def by (metis fun_upd_same)
  then have "own_inv (hcmd_used (st_hcl s)) (f(HCE_WAIT_CQ := map (sq_hcmd b') ?ids'))"
    using l by (intro own_reorder [OF o]) (simp_all only: st dist m n, simp_all)
  then have "own_inv (hcmd_used (st_hcl s')) (places s' f ?ids')" by (simp add: places_def s')
  then show ?thesis using ok b'(1) sl' by (simp add: emu_ok_def s')
qed

lemma ok_fcl_same:
  assumes "emu_ok s f reg busy cmp fs rs" and "sq_used 1 f1 = sq_used 1 (st_fcl s)"
  shows "emu_ok (s\<lparr>st_fcl := f1, st_tmp_sq_index := i\<rparr>) f reg busy cmp fs rs"
    and "places (s\<lparr>st_fcl := f1, st_tmp_sq_index := i\<rparr>) f ids = places s f ids"
  using assms by (simp_all add: emu_ok_def places_def slots_ok_def)

lemma hcmd_index_take: "k < HCMD_NUM \<Longrightarrow> take_bit 8 (of_nat k :: u32) = of_nat k"
  by (simp add: HCMD_NUM_def take_bit_8_index)

text \<open>The entry that the handler puts into the submission queue: channel 1, the fixed address, the
  first buffer, the command's own number.\<close>

definition sent_entry :: "emu_state \<Rightarrow> nat \<Rightarrow> u32 \<Rightarrow> phy_page_addr \<Rightarrow> u32 \<Rightarrow> fcl_state \<Rightarrow> EMU_sq \<Rightarrow> bool" where
  "sent_entry s k op junk i f2 sq \<longleftrightarrow>
     sq = \<lparr>sq_ch = 1, sq_ce_no = 0, sq_index = i, sq_entry = hw_SQ f2 1 (unat i)\<rparr> \<and>
     FCL_set_SQ_entry (st_mem_base s) (of_nat k) i 0 op (fake_ppa 20 junk) 0 (snd (FCL_get_free_SQ_entry 1 (st_fcl s))) = Some f2"

lemma tosq_loop_full:
  assumes "emu_ok s f reg busy cmp fs rs" and "loose_in s f (reg @ busy @ cmp) (Some k)" and "sq_used 1 (st_fcl s) = {..<HW_QUEUE_DEPTH}"
  shows "\<exists>s'. tosq_loop (Some k) op hc 1 0 junk s = Some (Inl s') \<and> emu_ok s' (f(HCE_TO_SQ := f HCE_TO_SQ @ [Some k])) reg busy cmp fs rs \<and>
    st_hcl s' = st_hcl s \<and> st_be s' = st_be s \<and> st_shm s' = st_shm s \<and> st_fcl s' = st_fcl s \<and> st_mem_base s' = st_mem_base s"
proof -
  have g: "FCL_get_free_SQ_entry 1 (st_fcl s) = (INVALID_ID, st_fcl s)"
    by (rule get_free_SQ_cases [of 1 "st_fcl s"]) (use assms(3) in auto)
  let ?s = "s\<lparr>st_fcl := st_fcl s, st_tmp_sq_index := INVALID_ID\<rparr>"
  have ok: "emu_ok ?s f reg busy cmp fs rs" by (rule ok_fcl_same(1) [OF assms(1)]) simp
  have lo: "loose_in ?s f (reg @ busy @ cmp) (Some k)" using assms(2) by (simp add: places_def)
  obtain tq' where t: "send_hcmd (Some k) HCE_TO_SQ ?s = Some (SUCCESS, ?s\<lparr>st_tq := tq'\<rparr>)"
    "emu_ok (?s\<lparr>st_tq := tq'\<rparr>) (f(HCE_TO_SQ := f HCE_TO_SQ @ [Some k])) reg busy cmp fs rs"
    using ok_send [OF ok lo, of HCE_TO_SQ] by (auto simp: task_status_def)
  have "tosq_loop (Some k) op hc 1 0 junk s = Some (Inl (?s\<lparr>st_tq := tq'\<rparr>))"
    using g t(1) by (subst tosq_loop.simps) simp
  then show ?thesis using t(2) by (intro exI [of _ "?s\<lparr>st_tq := tq'\<rparr>"]) simp
qed

lemma tosq_loop_sent:
  assumes "emu_ok s f reg busy cmp fs rs" and "loose_in s f (reg @ busy @ cmp) (Some k)" and "sq_used 1 (st_fcl s) \<noteq> {..<HW_QUEUE_DEPTH}"
  shows "\<exists>s' i sq. tosq_loop (Some k) op (of_nat k) 1 0 junk s = Some (Inr (1, s')) \<and>
    emu_ok s' f (reg @ [malloc_next (st_be s)]) busy cmp fs rs \<and> sent_entry s k op junk i (st_fcl s') sq \<and>
    emu_sqs (st_be s') = (emu_sqs (st_be s))(malloc_next (st_be s) \<mapsto> sq) \<and>
    st_hcl s' = st_hcl s \<and> st_tq s' = st_tq s \<and> st_shm s' = st_shm s \<and> st_mem_base s' = st_mem_base s"
proof -
  obtain j f1 where j: "FCL_get_free_SQ_entry 1 (st_fcl s) = (of_nat j, f1)" "j < HW_QUEUE_DEPTH" "j \<notin> sq_used 1 (st_fcl s)"
    "sq_used 1 f1 = insert j (sq_used 1 (st_fcl s))"
    by (rule get_free_SQ_cases [of 1 "st_fcl s"]) (use assms(3) in auto)
  have uj: "unat (of_nat j :: u32) = j" using j(2) by (intro unat_of_nat_u32) (simp add: HW_QUEUE_DEPTH_def)
  have k: "k < HCMD_NUM" using loose_valid [OF assms(2)] by auto
  let ?p = "fake_ppa 20 junk"
  obtain f2 where f2: "FCL_set_SQ_entry (st_mem_base s) (of_nat k) (of_nat j) 0 op ?p 0 f1 = Some f2" "hw_sq_bitmap f2 = hw_sq_bitmap f1"
    "sq_field sq_hcmd_index (hw_SQ f2 1 j) = of_nat k"
    using set_SQ_entry_any [of ?p "of_nat j" "st_mem_base s" "of_nat k" 0 op 0 f1] j(2) uj hcmd_index_take [OF k]
    by (auto simp: TOTAL_CHANNEL_def)
  let ?sq = "\<lparr>sq_ch = 1, sq_ce_no = 0, sq_index = of_nat j, sq_entry = hw_SQ f2 1 j\<rparr>"
  have br: "be_repr (st_be s) reg busy cmp" using assms(1) by (simp add: emu_ok_def)
  obtain b' where b': "send_sq_loop (of_nat j) 1 0 f2 (st_be s) = Some b'" "be_repr b' (reg @ [malloc_next (st_be s)]) busy cmp"
    "emu_sqs b' = (emu_sqs (st_be s))(malloc_next (st_be s) \<mapsto> ?sq)"
    using send_sq_loop_once [OF br, of 1 "of_nat j" 0 f2] j(2) uj by (auto simp: TOTAL_CHANNEL_def)
  define s' where "s' = s\<lparr>st_fcl := f2, st_tmp_sq_index := of_nat j, st_be := b'\<rparr>"
  have "sq_used 1 f2 = sq_used 1 f1" using f2(2) by (simp add: sq_used_def)
  then have "emu_ok s' f (reg @ [malloc_next (st_be s)]) busy cmp fs rs"
    using j(3,4) uj f2(3) by (intro ok_new_request [OF assms(1,2) b'(2,3)]) (simp_all add: s'_def)
  moreover have "tosq_loop (Some k) op (of_nat k) 1 0 junk s = Some (Inr (1, s'))"
    using j(1) f2(1) b'(1) of_nat_slot_valid [OF j(2)]
    by (subst tosq_loop.simps, simp, subst tosq_loop.simps) (simp add: s'_def)
  moreover have "sent_entry s k op junk (of_nat j) (st_fcl s') ?sq"
    using j(1) f2(1) uj by (simp add: sent_entry_def s'_def)
  ultimately show ?thesis
    using b'(3) by (intro exI [of _ s'] exI [of _ "of_nat j"] exI [of _ ?sq]) (simp add: s'_def)
qed

lemma tosq_ok_full:
  assumes "emu_ok s f reg busy cmp fs rs" and "loose_in s f (reg @ busy @ cmp) (Some k)" and "sq_used 1 (st_fcl s) = {..<HW_QUEUE_DEPTH}"
  shows "\<exists>s'. FTL_handle_tosq junk (Some k) s = Some (FAIL, s') \<and>
    emu_ok s' (f(HCE_TO_SQ := f HCE_TO_SQ @ [Some k])) reg busy cmp fs rs \<and>
    st_hcl s' = st_hcl (upd_hcmd k (\<lambda>e. e\<lparr>buf_cnt := 1\<rparr>) s) \<and> st_be s' = st_be s \<and> st_shm s' = st_shm s \<and>
    st_fcl s' = st_fcl s \<and> st_mem_base s' = st_mem_base s"
proof -
  have k: "k < HCMD_NUM" using loose_valid [OF assms(2)] by auto
  let ?s = "upd_hcmd k (\<lambda>e. e\<lparr>buf_cnt := 1\<rparr>) s"
  obtain s' where s': "tosq_loop (Some k) (op_code (hcmd_at s k)) (of_nat k) 1 0 junk ?s = Some (Inl s')"
    "emu_ok s' (f(HCE_TO_SQ := f HCE_TO_SQ @ [Some k])) reg busy cmp fs rs" "st_hcl s' = st_hcl ?s" "st_be s' = st_be ?s"
    "st_shm s' = st_shm ?s" "st_fcl s' = st_fcl ?s" "st_mem_base s' = st_mem_base ?s"
    using tosq_loop_full [of ?s f reg busy cmp fs rs k "op_code (hcmd_at s k)" "of_nat k" junk] assms by auto
  have "FTL_handle_tosq junk (Some k) s = Some (FAIL, s')"
    using s'(1) by (simp add: FTL_handle_tosq_def get_hcmd_eq [OF k] put_hcmd_eq [OF k] hcmd_index_of_pointer [OF k])
  then show ?thesis using s' by simp
qed

lemma tosq_ok_sent:
  assumes "emu_ok s f reg busy cmp fs rs" and "loose_in s f (reg @ busy @ cmp) (Some k)" and "sq_used 1 (st_fcl s) \<noteq> {..<HW_QUEUE_DEPTH}"
  shows "\<exists>s' i sq. FTL_handle_tosq junk (Some k) s = Some (SUCCESS, s') \<and>
    emu_ok s' f (reg @ [malloc_next (st_be s)]) busy cmp fs rs \<and>
    sent_entry s k (op_code (hcmd_at s k)) junk i (st_fcl s') sq \<and>
    emu_sqs (st_be s') = (emu_sqs (st_be s))(malloc_next (st_be s) \<mapsto> sq) \<and>
    st_hcl s' = st_hcl (upd_hcmd k (\<lambda>e. e\<lparr>buf_cnt := 1, send_sq_cnt := 1\<rparr>) s) \<and>
    st_tq s' = st_tq s \<and> st_shm s' = st_shm s \<and> st_mem_base s' = st_mem_base s"
proof -
  have k: "k < HCMD_NUM" using loose_valid [OF assms(2)] by auto
  let ?s = "upd_hcmd k (\<lambda>e. e\<lparr>buf_cnt := 1\<rparr>) s"
  obtain s1 i sq where s1: "tosq_loop (Some k) (op_code (hcmd_at s k)) (of_nat k) 1 0 junk ?s = Some (Inr (1, s1))"
    "emu_ok s1 f (reg @ [malloc_next (st_be ?s)]) busy cmp fs rs" "sent_entry ?s k (op_code (hcmd_at s k)) junk i (st_fcl s1) sq"
    "emu_sqs (st_be s1) = (emu_sqs (st_be ?s))(malloc_next (st_be ?s) \<mapsto> sq)" "st_hcl s1 = st_hcl ?s" "st_tq s1 = st_tq ?s"
    "st_shm s1 = st_shm ?s" "st_mem_base s1 = st_mem_base ?s"
    using tosq_loop_sent [of ?s f reg busy cmp fs rs k "op_code (hcmd_at s k)" junk] assms by auto
  let ?s' = "upd_hcmd k (\<lambda>e. e\<lparr>send_sq_cnt := 1\<rparr>) s1"
  have "FTL_handle_tosq junk (Some k) s = Some (SUCCESS, ?s')"
    using s1(1) by (simp add: FTL_handle_tosq_def get_hcmd_eq [OF k] put_hcmd_eq [OF k] hcmd_index_of_pointer [OF k])
  moreover have "st_hcl ?s' = st_hcl (upd_hcmd k (\<lambda>e. e\<lparr>buf_cnt := 1, send_sq_cnt := 1\<rparr>) s)"
    using s1(5) by (simp add: upd_hcmd_def)
  moreover have "sent_entry s k (op_code (hcmd_at s k)) junk i (st_fcl ?s') sq" using s1(3) by (simp add: sent_entry_def)
  ultimately show ?thesis using s1 by (intro exI [of _ ?s'] exI [of _ i] exI [of _ sq]) simp
qed

lemma datamove_ok:
  assumes "emu_ok s f reg busy cmp fs rs" and "loose_in s f (reg @ busy @ cmp) (Some k)"
  defines "st \<equiv> if op_code (hcmd_at s k) = HCE_READ then HCE_FINISH else HCE_TO_SQ"
  shows "\<exists>s' g. FTL_handle_datamove (Some k) s = Some (SUCCESS, s') \<and> emu_ok s' (f(st := f st @ [Some k])) reg busy cmp fs rs \<and>
    st_hcl s' = st_hcl (upd_hcmd k g s) \<and> (\<forall>e. op_code (g e) = op_code e \<and> req_num (g e) = req_num e \<and> cpl_cnt (g e) = cpl_cnt e) \<and>
    st_be s' = st_be s \<and> st_shm s' = st_shm s \<and> st_fcl s' = st_fcl s \<and> st_mem_base s' = st_mem_base s"
proof -
  have k: "k < HCMD_NUM" using loose_valid [OF assms(2)] by auto
  let ?g = "\<lambda>e. e\<lparr>buf_cnt := 1, nvme_dma_cpl := dma_loop (nvme_dma_cpl e) 1\<rparr>"
  let ?s = "upd_hcmd k (\<lambda>e. e\<lparr>nvme_dma_cpl := dma_loop (nvme_dma_cpl e) 1\<rparr>) (upd_hcmd k (\<lambda>e. e\<lparr>buf_cnt := 1\<rparr>) s)"
  have ok: "emu_ok ?s f reg busy cmp fs rs" "loose_in ?s f (reg @ busy @ cmp) (Some k)" using assms(1,2) by simp_all
  have tst: "st \<in> task_status" by (simp add: task_status_def st_def)
  obtain tq' where t: "send_hcmd (Some k) st ?s = Some (SUCCESS, ?s\<lparr>st_tq := tq'\<rparr>)"
    "emu_ok (?s\<lparr>st_tq := tq'\<rparr>) (f(st := f st @ [Some k])) reg busy cmp fs rs"
    using ok_send [OF ok tst] by blast
  have "FTL_handle_datamove (Some k) s = Some (SUCCESS, ?s\<lparr>st_tq := tq'\<rparr>)"
    using t(1) by (simp add: FTL_handle_datamove_def get_hcmd_eq [OF k] put_hcmd_eq [OF k] st_def)
  moreover have "st_hcl ?s = st_hcl (upd_hcmd k ?g s)" by (simp add: upd_hcmd_def)
  ultimately show ?thesis using t(2) by (intro exI [of _ "?s\<lparr>st_tq := tq'\<rparr>"] exI [of _ ?g]) simp
qed

lemma fromcq_ok:
  assumes "emu_ok s f reg busy cmp fs rs" and "loose_in s f (reg @ busy @ cmp) (Some k)"
  defines "st \<equiv> if op_code (hcmd_at s k) = HCE_WRITE then HCE_FINISH else HCE_DATAMOVED"
  shows "\<exists>s'. FTL_handle_fromcq (Some k) s = Some (SUCCESS, s') \<and> emu_ok s' (f(st := f st @ [Some k])) reg busy cmp fs rs \<and>
    st_hcl s' = st_hcl (upd_hcmd k (\<lambda>e. e\<lparr>status := st\<rparr>) s) \<and>
    st_be s' = st_be s \<and> st_shm s' = st_shm s \<and> st_fcl s' = st_fcl s \<and> st_mem_base s' = st_mem_base s"
proof -
  have k: "k < HCMD_NUM" using loose_valid [OF assms(2)] by auto
  let ?s = "upd_hcmd k (\<lambda>e. e\<lparr>status := st\<rparr>) s"
  have ok: "emu_ok ?s f reg busy cmp fs rs" "loose_in ?s f (reg @ busy @ cmp) (Some k)" using assms(1,2) by simp_all
  have tst: "st \<in> task_status" by (simp add: task_status_def st_def)
  obtain tq' where t: "send_hcmd (Some k) st ?s = Some (SUCCESS, ?s\<lparr>st_tq := tq'\<rparr>)"
    "emu_ok (?s\<lparr>st_tq := tq'\<rparr>) (f(st := f st @ [Some k])) reg busy cmp fs rs"
    using ok_send [OF ok tst] by blast
  have "FTL_handle_fromcq (Some k) s = Some (SUCCESS, ?s\<lparr>st_tq := tq'\<rparr>)"
    using t(1) by (simp add: FTL_handle_fromcq_def Let_def get_hcmd_eq [OF k] put_hcmd_eq [OF k] st_def)
  then show ?thesis using t(2) by (intro exI [of _ "?s\<lparr>st_tq := tq'\<rparr>"]) simp
qed

lemma finish_ok:
  assumes "emu_ok s f reg busy cmp fs rs" and "loose_in s f (reg @ busy @ cmp) (Some k)"
  shows "\<exists>s'. FTL_handle_finish (Some k) s = Some (SUCCESS, s') \<and> emu_ok s' f reg busy cmp fs rs \<and>
    hcmd_used (st_hcl s') = hcmd_used (st_hcl s) - {k} \<and> hcmd_queue (st_hcl s') = (hcmd_queue (st_hcl s))(k := zero_hcmd) \<and>
    st_be s' = st_be s \<and> st_shm s' = st_shm s \<and> st_fcl s' = st_fcl s \<and> st_tq s' = st_tq s \<and> st_mem_base s' = st_mem_base s"
proof -
  have k: "k < HCMD_NUM" using loose_valid [OF assms(2)] by auto
  obtain h where h: "HCL_reclaim_hcmd_entry (Some k) (st_hcl s) = Some (SUCCESS, h)" "hcmd_used h = hcmd_used (st_hcl s) - {k}"
    "hcmd_queue h = (hcmd_queue (st_hcl s))(k := zero_hcmd)" using HCL_reclaim_valid [OF k] by blast
  have "own_inv (hcmd_used (st_hcl s)) (places s f (reg @ busy @ cmp))" using assms(1) by (simp add: emu_ok_def)
  from own_drop [OF this assms(2)] have "emu_ok (s\<lparr>st_hcl := h\<rparr>) f reg busy cmp fs rs"
    using assms(1) h(2) by (simp add: emu_ok_def places_def slots_ok_def)
  moreover have "FTL_handle_finish (Some k) s = Some (SUCCESS, s\<lparr>st_hcl := h\<rparr>)"
    using h(1) by (simp add: FTL_handle_finish_def get_hcmd_eq [OF k])
  ultimately show ?thesis using h by (intro exI [of _ "s\<lparr>st_hcl := h\<rparr>"]) simp
qed

section \<open>Completed requests\<close>

lemma be_pop:
  assumes "be_repr b reg busy (i # cmp)"
  shows "\<exists>h. list_delete_head (Some CompleteHead) (be_nodes b) = Some h \<and>
    be_repr (b\<lparr>be_nodes := h, emu_sqs := (emu_sqs b)(i := None)\<rparr>) reg busy cmp"
proof -
  have d: "dlist (be_nodes b) CompleteHead (SqNode i # map SqNode cmp)" using assms by (simp add: be_repr_def)
  then obtain h where h: "list_delete_head (Some CompleteHead) (be_nodes b) = Some h" "dlist h CompleteHead (map SqNode cmp)"
    "agree_off (set (CompleteHead # SqNode i # map SqNode cmp)) (be_nodes b) h"
    using list_delete_head_dlist [OF d] by blast
  have "dlist h RegisterHead (map SqNode reg) = dlist (be_nodes b) RegisterHead (map SqNode reg)"
    using assms by (intro dlist_frame [OF h(3)]) (auto simp: be_repr_def)
  then show ?thesis using assms h by (auto simp: be_repr_def)
qed

lemma ok_popped:
  assumes "emu_ok s f reg busy (i # cmp) fs rs" and "emu_sqs (st_be s) i = Some sq"
    and "be_repr b' reg busy cmp" and "emu_sqs b' = (emu_sqs (st_be s))(i := None)"
  defines "s' \<equiv> s\<lparr>st_fcl := FCL_free_SQ_entry (sq_ch sq) (sq_index sq) (st_fcl s), st_be := b'\<rparr>"
  shows "emu_ok s' f reg busy cmp fs rs" and "loose_in s' f (reg @ busy @ cmp) (sq_hcmd (st_be s) i)"
proof -
  let ?ids = "reg @ busy @ i # cmp" and ?ids' = "reg @ busy @ cmp"
  have sl: "slots_ok s ?ids" and ow: "own_inv (hcmd_used (st_hcl s)) (places s f ?ids)" and di: "distinct ?ids"
    using assms(1) by (auto simp: emu_ok_def be_repr_def)
  have i: "i \<notin> set ?ids'" using di by auto
  have old: "sq_hcmd b' j = sq_hcmd (st_be s) j" "sq_slot b' j = sq_slot (st_be s) j" if "j \<in> set ?ids'" for j
    using that i assms(4) by (auto simp: sq_hcmd_def sq_slot_def)
  have m: "map (sq_slot b') ?ids' = map (sq_slot (st_be s)) ?ids'" "map (sq_hcmd b') ?ids' = map (sq_hcmd (st_be s)) ?ids'"
    using old by (auto intro!: map_cong)
  have st: "set (map g ?ids) = insert (g i) (set (map g ?ids'))" for g :: "nat \<Rightarrow> 'z" by auto
  have dist: "distinct (map g ?ids) \<longleftrightarrow> g i \<notin> set (map g ?ids') \<and> distinct (map g ?ids')" for g :: "nat \<Rightarrow> 'z" by auto
  have ch: "sq_ch sq = 1" and u: "sq_used 1 (st_fcl s) = insert (sq_slot (st_be s) i) (set (map (sq_slot (st_be s)) ?ids'))"
    and ds: "sq_slot (st_be s) i \<notin> set (map (sq_slot (st_be s)) ?ids')" "distinct (map (sq_slot (st_be s)) ?ids')"
    using sl assms(2) unfolding slots_ok_def st dist by auto
  have si: "sq_slot (st_be s) i = unat (sq_index sq)" using assms(2) by (simp add: sq_slot_def)
  have "unat (sq_index sq) < HW_QUEUE_DEPTH" using u si sq_used_bound [of 1 "st_fcl s"] by auto
  then have "sq_used 1 (FCL_free_SQ_entry 1 (sq_index sq) (st_fcl s)) = sq_used 1 (st_fcl s) - {unat (sq_index sq)}"
    using free_SQ_used [of "unat (sq_index sq)" 1 "st_fcl s"] by simp
  then have "sq_used 1 (st_fcl s') = set (map (sq_slot b') ?ids')"
    unfolding m(1) using u ds(1) si ch by (simp add: s'_def)
  moreover have "\<exists>q. emu_sqs b' j = Some q \<and> sq_ch q = 1" if "j \<in> set ?ids'" for j
    using that sl i assms(4) by (auto simp: slots_ok_def)
  moreover have "st_be s' = b'" by (simp add: s'_def)
  ultimately have sl': "slots_ok s' ?ids'" unfolding slots_ok_def using ds(2) m(1) by metis
  let ?P = "sq_hcmd (st_be s) i"
  have d': "distinct (map (sq_hcmd (st_be s)) ?ids)" using ow unfolding own_inv_def places_def by (metis fun_upd_same)
  have o0: "own_inv (hcmd_used (st_hcl s)) (f(HCE_WAIT_CQ := map (sq_hcmd (st_be s)) ?ids))"
    using ow unfolding places_def .
  have "own_inv (hcmd_used (st_hcl s)) (f(HCE_WAIT_CQ := ?P # map (sq_hcmd (st_be s)) ?ids'))"
  proof (rule own_reorder [OF o0])
    show "set (?P # map (sq_hcmd (st_be s)) ?ids') = set (map (sq_hcmd (st_be s)) ?ids)" unfolding st by simp
    show "distinct (?P # map (sq_hcmd (st_be s)) ?ids')" using d' unfolding dist by simp
  qed
  from own_take [OF this, of HCE_WAIT_CQ ?P "map (sq_hcmd (st_be s)) ?ids'"]
  have o: "own_inv (hcmd_used (st_hcl s)) (f(HCE_WAIT_CQ := map (sq_hcmd b') ?ids'))"
    "loose (hcmd_used (st_hcl s)) (f(HCE_WAIT_CQ := map (sq_hcmd b') ?ids')) ?P" by (simp_all only: m fun_upd_same fun_upd_upd)
  then show "loose_in s' f ?ids' ?P" by (simp add: places_def s'_def)
  show "emu_ok s' f reg busy cmp fs rs"
    using assms(1,3) sl' o(1) unfolding emu_ok_def by (simp add: places_def s'_def)
qed

lemma send_hcmd_cong:
  assumes "send_hcmd p st t = Some (r, t\<lparr>st_tq := tq\<rparr>)" and "st_hcl s = st_hcl t" and "st_tq s = st_tq t"
  shows "send_hcmd p st s = Some (r, s\<lparr>st_tq := tq\<rparr>)"
proof -
  obtain tq1 where t: "FTL_sendhcmd (st_hcl t) p st (st_tq t) = Some (r, tq1)" "t\<lparr>st_tq := tq1\<rparr> = t\<lparr>st_tq := tq\<rparr>"
    using assms(1) by (auto simp: send_hcmd_def split: bind_splits)
  then have "st_tq (t\<lparr>st_tq := tq1\<rparr>) = st_tq (t\<lparr>st_tq := tq\<rparr>)" by simp
  then show ?thesis using t(1) assms(2,3) by (simp add: send_hcmd_def)
qed

lemma cq_one_ok:
  assumes "emu_ok s f reg busy (i # cmp) fs rs"
  shows "\<exists>s' k. sq_hcmd (st_be s) i = Some k \<and> k \<in> hcmd_used (st_hcl s) \<and> cq_one i s = Some s' \<and>
    emu_ok s' (if cpl_cnt (hcmd_at s k) + 1 = req_num (hcmd_at s k) then f(HCE_FROM_CQ := f HCE_FROM_CQ @ [Some k]) else f) reg busy cmp fs rs \<and>
    st_hcl s' = st_hcl (upd_hcmd k (\<lambda>e. e\<lparr>cpl_cnt := cpl_cnt e + 1\<rparr>) s) \<and> st_shm s' = st_shm s \<and> st_mem_base s' = st_mem_base s \<and>
    emu_sqs (st_be s') = (emu_sqs (st_be s))(i := None)"
proof -
  obtain sq where sq: "emu_sqs (st_be s) i = Some sq" using assms by (auto simp: emu_ok_def slots_ok_def)
  obtain h where h: "list_delete_head (Some CompleteHead) (be_nodes (st_be s)) = Some h"
    "be_repr ((st_be s)\<lparr>be_nodes := h, emu_sqs := (emu_sqs (st_be s))(i := None)\<rparr>) reg busy cmp"
    using be_pop [of "st_be s" reg busy i cmp] assms by (auto simp: emu_ok_def)
  let ?b = "(st_be s)\<lparr>be_nodes := h, emu_sqs := (emu_sqs (st_be s))(i := None)\<rparr>"
  let ?s1 = "s\<lparr>st_fcl := FCL_free_SQ_entry (sq_ch sq) (sq_index sq) (st_fcl s)\<rparr>"
  let ?t = "s\<lparr>st_fcl := FCL_free_SQ_entry (sq_ch sq) (sq_index sq) (st_fcl s), st_be := ?b\<rparr>"
  have ok: "emu_ok ?t f reg busy cmp fs rs" "loose_in ?t f (reg @ busy @ cmp) (sq_hcmd (st_be s) i)"
    using ok_popped [OF assms sq h(2)] by simp_all
  obtain k where k: "sq_hcmd (st_be s) i = Some k" "k \<in> hcmd_used (st_hcl s)" "k < HCMD_NUM" using loose_valid [OF ok(2)] by auto
  have p: "HCL_get_hcmd_entry_addr (sq_field sq_hcmd_index (sq_entry sq)) = Some k" using k(1) sq by (simp add: sq_hcmd_def)
  let ?g = "\<lambda>e :: host_cmd_entry. e\<lparr>cpl_cnt := cpl_cnt e + 1\<rparr>"
  let ?t2 = "upd_hcmd k ?g ?t" and ?s2 = "upd_hcmd k ?g ?s1"
  have ok2: "emu_ok ?t2 f reg busy cmp fs rs" "loose_in ?t2 f (reg @ busy @ cmp) (Some k)" using ok k(1) by simp_all
  have e: "cpl_cnt (hcmd_at ?s2 k) = cpl_cnt (hcmd_at s k) + 1" "req_num (hcmd_at ?s2 k) = req_num (hcmd_at s k)" by simp_all
  note d = cq_one_def sq p put_hcmd_eq [OF k(3)] get_hcmd_eq [OF k(3)] h(1)
  show ?thesis
  proof (cases "cpl_cnt (hcmd_at s k) + 1 = req_num (hcmd_at s k)")
    case True
    obtain tq' where t: "send_hcmd (Some k) HCE_FROM_CQ ?t2 = Some (SUCCESS, ?t2\<lparr>st_tq := tq'\<rparr>)"
      "emu_ok (?t2\<lparr>st_tq := tq'\<rparr>) (f(HCE_FROM_CQ := f HCE_FROM_CQ @ [Some k])) reg busy cmp fs rs"
      using ok_send [OF ok2, of HCE_FROM_CQ] by (auto simp: task_status_def)
    have "send_hcmd (Some k) HCE_FROM_CQ ?s2 = Some (SUCCESS, ?s2\<lparr>st_tq := tq'\<rparr>)"
      by (rule send_hcmd_cong [OF t(1)]) (simp_all add: upd_hcmd_def)
    then have "cq_one i s = Some (?s2\<lparr>st_tq := tq', st_be := ?b\<rparr>)" using True by (simp add: d)
    moreover have "?s2\<lparr>st_tq := tq', st_be := ?b\<rparr> = ?t2\<lparr>st_tq := tq'\<rparr>" by (simp add: upd_hcmd_def)
    ultimately have "cq_one i s = Some (?t2\<lparr>st_tq := tq'\<rparr>)" by simp
    then show ?thesis using t(2) True k by (intro exI [of _ "?t2\<lparr>st_tq := tq'\<rparr>"] exI [of _ k]) (simp add: upd_hcmd_def)
  next
    case False
    have "cq_one i s = Some (?s2\<lparr>st_be := ?b\<rparr>)" using False by (simp add: d)
    moreover have "?s2\<lparr>st_be := ?b\<rparr> = ?t2" by (simp add: upd_hcmd_def)
    ultimately have "cq_one i s = Some ?t2" by simp
    then show ?thesis using ok2(1) False k by (intro exI [of _ ?t2] exI [of _ k]) (simp add: upd_hcmd_def)
  qed
qed

lemma CQ_polling_step:
  assumes "be_repr (st_be s) reg busy cmp"
  shows "FTL_CQ_polling s = (case cmp of [] \<Rightarrow> Some s | i # _ \<Rightarrow> do { s1 \<leftarrow> cq_one i s; FTL_CQ_polling s1 })"
proof -
  have "dlist (be_nodes (st_be s)) CompleteHead (map SqNode cmp)" using assms by (simp add: be_repr_def)
  from dlist_next_head [OF this] show ?thesis
    by (subst FTL_CQ_polling.simps) (cases cmp; simp add: node_next_def entry_of_sq_def)
qed

lemma CQ_polling_ok:
  assumes "emu_ok s f reg busy cmp fs rs"
  shows "\<exists>s' f'. FTL_CQ_polling s = Some s' \<and> emu_ok s' f' reg busy [] fs rs \<and> hcmd_used (st_hcl s') = hcmd_used (st_hcl s) \<and>
    st_mem_base s' = st_mem_base s"
  using assms
proof (induction cmp arbitrary: s f)
  case Nil
  then show ?case using CQ_polling_step [of s reg busy "[]"] by (auto simp: emu_ok_def)
next
  case (Cons i cmp)
  obtain s1 f1 where s1: "cq_one i s = Some s1" "emu_ok s1 f1 reg busy cmp fs rs" "hcmd_used (st_hcl s1) = hcmd_used (st_hcl s)"
    "st_mem_base s1 = st_mem_base s" using cq_one_ok [OF Cons.prems] by auto
  have "FTL_CQ_polling s = FTL_CQ_polling s1"
    using CQ_polling_step [of s reg busy "i # cmp"] Cons.prems s1(1) by (simp add: emu_ok_def)
  then show ?case using Cons.IH [OF s1(2)] s1(3,4) by simp
qed

section \<open>New commands\<close>

lemma fill_hcmd_fields:
  "req_num (fill_hcmd i c n e) = cmd_size c div HOST_BLOCK_SIZE div 4" "cpl_cnt (fill_hcmd i c n e) = 0"
  "op_code (fill_hcmd i c n e) = (if cmd_ops c = SHM_WRITE_OPS then HCE_WRITE else if cmd_ops c = SHM_READ_OPS then HCE_READ else op_code e)"
  by (simp_all add: fill_hcmd_def Let_def)

lemma ok_shm: "emu_ok s f reg busy cmp fs rs \<Longrightarrow> shm_repr shm' fs' rs' \<Longrightarrow> emu_ok (s\<lparr>st_shm := shm'\<rparr>) f reg busy cmp fs' rs'"
  by (simp add: emu_ok_def places_def slots_ok_def)

lemma slot_not_end: "x < CMD_SLOT_NUM \<Longrightarrow> (of_nat x :: u32) \<noteq> of_nat CMD_SLOT_NUM"
  using slot_inj [of x CMD_SLOT_NUM] by simp

lemma req_one_idle:
  assumes "emu_ok s f reg busy cmp fs []"
  shows "req_one s = Some s"
  using assms get_rdy_empty [of "st_shm s" fs] by (simp add: req_one_def emu_ok_def)

lemma req_one_full:
  assumes "emu_ok s f reg busy cmp fs (x # rs)" and "hcmd_used (st_hcl s) = {..<HCMD_NUM}"
  shows "\<exists>s'. req_one s = Some s' \<and> emu_ok s' f reg busy cmp fs (rs @ [x]) \<and> st_hcl s' = st_hcl s \<and> st_be s' = st_be s \<and> st_mem_base s' = st_mem_base s"
proof -
  obtain h1 where h1: "SHM_get_rdy_list (st_shm s) = Some ((of_nat x, Some (shm_slots (st_shm s) x)), h1)" "shm_repr h1 fs rs"
    using get_rdy_repr [of "st_shm s" fs x rs] assms(1) by (auto simp: emu_ok_def)
  have x: "x < CMD_SLOT_NUM" "x \<notin> set fs \<union> set rs" using assms(1) by (auto simp: emu_ok_def shm_repr_def list_repr_def)
  obtain h2 where h2: "SHM_add_rdy_list (of_nat x) (shm_slots (st_shm s) x) h1 = Some h2" "shm_repr h2 fs (rs @ [x])"
    using add_rdy_repr [OF h1(2) x] by blast
  have "fst (HCL_get_host_cmd_entry (st_hcl s)) = None" using assms(2) hcmd_pool.alloc_fails_iff by blast
  then have g: "HCL_get_host_cmd_entry (st_hcl s) = (NULL, st_hcl s)"
    using HCL_get_None(2) [of "st_hcl s"] by (cases "HCL_get_host_cmd_entry (st_hcl s)") simp
  have "req_one s = Some (s\<lparr>st_shm := h2\<rparr>)" using h1(1) h2(1) g slot_not_end [OF x(1)] by (simp add: req_one_def)
  then show ?thesis using ok_shm [OF assms(1) h2(2)] by (intro exI [of _ "s\<lparr>st_shm := h2\<rparr>"]) simp
qed

lemma req_one_new:
  assumes "emu_ok s f reg busy cmp fs (x # rs)" and "hcmd_used (st_hcl s) \<noteq> {..<HCMD_NUM}"
  shows "\<exists>s' k. req_one s = Some s' \<and> emu_ok s' (f(HCE_CHECK_CACHE := f HCE_CHECK_CACHE @ [Some k])) reg busy cmp (fs @ [x]) rs \<and>
    k < HCMD_NUM \<and> k \<notin> hcmd_used (st_hcl s) \<and> hcmd_used (st_hcl s') = insert k (hcmd_used (st_hcl s)) \<and>
    hcmd_queue (st_hcl s') = (hcmd_queue (st_hcl s))(k :=
      fill_hcmd (of_nat x) (shm_slots (st_shm s) x) (st_cmd_cnt s + 1) (hcmd_at s k)) \<and>
    st_be s' = st_be s \<and> st_fcl s' = st_fcl s \<and> st_mem_base s' = st_mem_base s"
proof -
  let ?c = "shm_slots (st_shm s) x"
  obtain h1 where h1: "SHM_get_rdy_list (st_shm s) = Some ((of_nat x, Some ?c), h1)" "shm_repr h1 fs rs"
    using get_rdy_repr [of "st_shm s" fs x rs] assms(1) by (auto simp: emu_ok_def)
  have x: "x < CMD_SLOT_NUM" "x \<notin> set fs \<union> set rs" using assms(1) by (auto simp: emu_ok_def shm_repr_def list_repr_def)
  obtain h2 where h2: "SHM_add_free_list (of_nat x) h1 = Some h2" "shm_repr h2 (fs @ [x]) rs"
    using add_free_list_repr [OF h1(2) x] by blast
  obtain k hc where kh: "HCL_get_host_cmd_entry (st_hcl s) = (Some k, hc)" using hcmd_pool.alloc_available [OF assms(2)] by blast
  note kp = HCL_get_Some [OF kh]
  let ?t = "s\<lparr>st_shm := h1, st_hcl := hc\<rparr>"
  have ow: "own_inv (hcmd_used (st_hcl s)) (places s f (reg @ busy @ cmp))" using assms(1) by (simp add: emu_ok_def)
  have "emu_ok ?t f reg busy cmp fs rs"
    using ok_shm [OF assms(1) h1(2)] own_new(1) [OF ow kp(2)] kp(4) by (simp add: emu_ok_def places_def slots_ok_def)
  then have ok: "emu_ok (upd_hcmd k (fill_hcmd (of_nat x) ?c (st_cmd_cnt s + 1)) ?t\<lparr>st_cmd_cnt := st_cmd_cnt s + 1\<rparr>) f reg busy cmp fs rs"
    (is "emu_ok ?u _ _ _ _ _ _") by (simp add: emu_ok_def places_def slots_ok_def)
  have lo: "loose_in ?u f (reg @ busy @ cmp) (Some k)"
    using own_new(2) [OF ow kp(2)] kp(4) by (simp add: places_def)
  obtain tq' where tq: "send_hcmd (Some k) HCE_CHECK_CACHE ?u = Some (SUCCESS, ?u\<lparr>st_tq := tq'\<rparr>)"
    "emu_ok (?u\<lparr>st_tq := tq'\<rparr>) (f(HCE_CHECK_CACHE := f HCE_CHECK_CACHE @ [Some k])) reg busy cmp fs rs"
    using ok_send [OF ok lo, of HCE_CHECK_CACHE] by (auto simp: task_status_def)
  let ?s = "?u\<lparr>st_tq := tq', st_shm := h2\<rparr>"
  have "req_one s = Some ?s"
    using h1(1) h2(1) kh tq(1) slot_not_end [OF x(1)] by (simp add: req_one_def put_hcmd_eq [OF kp(1)])
  moreover have "emu_ok ?s (f(HCE_CHECK_CACHE := f HCE_CHECK_CACHE @ [Some k])) reg busy cmp (fs @ [x]) rs"
    using ok_shm [OF tq(2) h2(2)] by simp
  ultimately show ?thesis
    using kp by (intro exI [of _ ?s] exI [of _ k]) (simp add: upd_hcmd_def hcmd_used_def)
qed

lemma req_one_ok:
  assumes "emu_ok s f reg busy cmp fs rs"
  shows "\<exists>s' f' fs' rs'. req_one s = Some s' \<and> emu_ok s' f' reg busy cmp fs' rs' \<and> set fs' \<union> set rs' = set fs \<union> set rs \<and>
    st_mem_base s' = st_mem_base s"
proof (cases rs)
  case Nil
  then show ?thesis using req_one_idle assms by blast
next
  case (Cons x xs)
  show ?thesis
  proof (cases "hcmd_used (st_hcl s) = {..<HCMD_NUM}")
    case True
    from req_one_full [OF assms [unfolded Cons] True] obtain s' where
      "req_one s = Some s'" "emu_ok s' f reg busy cmp fs (xs @ [x])" "st_mem_base s' = st_mem_base s" by blast
    then show ?thesis unfolding Cons by (intro exI [of _ s'] exI [of _ f] exI [of _ fs] exI [of _ "xs @ [x]"]) auto
  next
    case False
    from req_one_new [OF assms [unfolded Cons] False] obtain s' f' where
      "req_one s = Some s'" "emu_ok s' f' reg busy cmp (fs @ [x]) xs" "st_mem_base s' = st_mem_base s" by blast
    then show ?thesis unfolding Cons by (intro exI [of _ s'] exI [of _ f'] exI [of _ "fs @ [x]"] exI [of _ xs]) auto
  qed
qed

lemma req_polls_ok:
  assumes "emu_ok s f reg busy cmp fs rs"
  shows "\<exists>s' f' fs' rs'. req_polls n s = Some s' \<and> emu_ok s' f' reg busy cmp fs' rs' \<and> set fs' \<union> set rs' = set fs \<union> set rs"
  using assms
proof (induction n arbitrary: s f fs rs)
  case 0
  then show ?case by auto
next
  case (Suc n)
  obtain s1 f1 fs1 rs1 where s1: "req_one s = Some s1" "emu_ok s1 f1 reg busy cmp fs1 rs1" "set fs1 \<union> set rs1 = set fs \<union> set rs"
    using req_one_ok [OF Suc.prems] by blast
  from Suc.IH [OF s1(2)] s1 show ?case by auto
qed

section \<open>The task queues\<close>

lemma ok_take:
  assumes "emu_ok s f reg busy cmp fs rs" and "st \<in> task_status" and "f st = p # ps"
  shows "\<exists>tq'. FTL_task_queue_remove_head st (st_tq s) = (p, tq') \<and>
    emu_ok (s\<lparr>st_tq := tq'\<rparr>) (f(st := ps)) reg busy cmp fs rs \<and> loose_in (s\<lparr>st_tq := tq'\<rparr>) (f(st := ps)) (reg @ busy @ cmp) p"
proof -
  note st = task_status_less [OF assms(2)] task_status_wait [OF assms(2)]
  obtain tq' where tq: "FTL_task_queue_remove_head st (st_tq s) = (p, tq')" "tq_repr tq' (f(st := ps))"
    using tq_repr_remove [of "st_tq s" f st p ps] assms(1,3) st(1) by (auto simp: emu_ok_def)
  have ow: "own_inv (hcmd_used (st_hcl s)) (places s f (reg @ busy @ cmp))" using assms(1) by (simp add: emu_ok_def)
  have e: "(places s f (reg @ busy @ cmp))(st := ps) = places (s\<lparr>st_tq := tq'\<rparr>) (f(st := ps)) (reg @ busy @ cmp)"
    using st(2) by (auto simp: places_def fun_eq_iff)
  have "places s f (reg @ busy @ cmp) st = p # ps" using st(2) assms(3) by (simp add: places_at)
  from own_take [OF ow this, unfolded e] show ?thesis
    using assms(1) tq by (simp add: emu_ok_def slots_ok_def)
qed

lemma poll_one_ok:
  assumes "emu_ok s f reg busy cmp fs rs" and "st \<in> task_status"
  shows "\<exists>s' f' reg'. poll_one junk st s = Some s' \<and> emu_ok s' f' reg' busy cmp fs rs \<and> st_mem_base s' = st_mem_base s"
proof (cases "f st")
  case Nil
  then have "FTL_task_queue_remove_head st (st_tq s) = (NULL, st_tq s)"
    using tq_repr_remove_empty [of "st_tq s" f st] assms task_status_less by (auto simp: emu_ok_def)
  then show ?thesis using assms(1) by (auto simp: poll_one_def)
next
  case (Cons p ps)
  obtain tq' where t: "FTL_task_queue_remove_head st (st_tq s) = (p, tq')"
    "emu_ok (s\<lparr>st_tq := tq'\<rparr>) (f(st := ps)) reg busy cmp fs rs" "loose_in (s\<lparr>st_tq := tq'\<rparr>) (f(st := ps)) (reg @ busy @ cmp) p"
    using ok_take [OF assms Cons] by blast
  let ?s = "s\<lparr>st_tq := tq'\<rparr>" and ?f = "f(st := ps)"
  obtain k where p: "p = Some k" using loose_valid [OF t(3)] by blast
  note ok = t(2) t(3) [unfolded p]
  have "\<exists>h r s' f' reg'. tq_func junk st = Some h \<and> h (Some k) ?s = Some (r, s') \<and> emu_ok s' f' reg' busy cmp fs rs \<and>
    st_mem_base s' = st_mem_base ?s"
  proof (cases "st = HCE_TO_SQ")
    case True
    have h: "tq_func junk st = Some (FTL_handle_tosq junk)" using True by (simp add: tq_func_def)
    show ?thesis
      by (cases "sq_used 1 (st_fcl ?s) = {..<HW_QUEUE_DEPTH}")
        (use h tosq_ok_full [OF ok] tosq_ok_sent [OF ok] in blast)+
  next
    case False
    then consider "st = HCE_CHECK_CACHE" | "st = HCE_DATAMOVED" | "st = HCE_FROM_CQ" | "st = HCE_FINISH"
      using assms(2) by (auto simp: task_status_def)
    then show ?thesis
    proof cases
      case 1
      then have h: "tq_func junk st = Some FTL_handle_checkcache" by (simp add: tq_func_def)
      from checkcache_ok [OF ok] h show ?thesis by blast
    next
      case 2
      then have h: "tq_func junk st = Some FTL_handle_datamove" by (simp add: tq_func_def)
      from datamove_ok [OF ok] h show ?thesis by blast
    next
      case 3
      then have h: "tq_func junk st = Some FTL_handle_fromcq" by (simp add: tq_func_def)
      from fromcq_ok [OF ok] h show ?thesis by blast
    next
      case 4
      then have h: "tq_func junk st = Some FTL_handle_finish" by (simp add: tq_func_def)
      from finish_ok [OF ok] h show ?thesis by blast
    qed
  qed
  then obtain h r s' f' reg' where h: "tq_func junk st = Some h" "h (Some k) ?s = Some (r, s')"
    "emu_ok s' f' reg' busy cmp fs rs" "st_mem_base s' = st_mem_base ?s" by blast
  then have "poll_one junk st s = Some s'" "st_mem_base s' = st_mem_base s" using t(1) by (simp_all add: poll_one_def p)
  with h(3) show ?thesis by blast
qed

lemma poll_queue_ok:
  assumes "emu_ok s f reg busy cmp fs rs" and "st \<in> task_status"
  shows "\<exists>s' f' reg'. poll_queue junk st n s = Some s' \<and> emu_ok s' f' reg' busy cmp fs rs"
  using assms(1)
proof (induction n arbitrary: s f reg)
  case (Suc n)
  obtain s1 f1 reg1 where s1: "poll_one junk st s = Some s1" "emu_ok s1 f1 reg1 busy cmp fs rs"
    using poll_one_ok [OF Suc.prems assms(2)] by blast
  from Suc.IH [OF s1(2)] s1(1) show ?case by simp
qed auto

lemma poll_queues_ok:
  assumes "emu_ok s f reg busy cmp fs rs" and "set sts \<subseteq> task_status"
  shows "\<exists>s' f' reg'. poll_queues junk sts s = Some s' \<and> emu_ok s' f' reg' busy cmp fs rs"
  using assms
proof (induction sts arbitrary: s f reg)
  case (Cons st sts)
  then have st: "st \<in> task_status" "set sts \<subseteq> task_status" by simp_all
  obtain s1 f1 reg1 where s1: "poll_queue junk st (unat (tq_cnt (st_tq s st))) s = Some s1" "emu_ok s1 f1 reg1 busy cmp fs rs"
    using poll_queue_ok [OF Cons.prems(1) st(1)] by blast
  from Cons.IH [OF s1(2) st(2)] s1(1) show ?case by simp
qed auto

lemma core0task_polling_ok:
  assumes "emu_ok s f reg busy cmp fs rs"
  shows "\<exists>s' f' reg'. FTL_core0task_polling junk s = Some s' \<and> emu_ok s' f' reg' busy cmp fs rs"
  unfolding FTL_core0task_polling_def by (rule poll_queues_ok [OF assms]) (simp add: task_status_def)

lemma round_ok:
  assumes "emu_ok s f reg busy cmp fs rs"
  shows "\<exists>s' f' reg' fs' rs'. FTL_core0_task_run junk s = Some s' \<and> emu_ok s' f' reg' busy [] fs' rs' \<and>
    set fs' \<union> set rs' = set fs \<union> set rs"
proof -
  obtain s1 f1 fs1 rs1 where s1: "FTL_nvme_req_polling s = Some s1" "emu_ok s1 f1 reg busy cmp fs1 rs1"
    "set fs1 \<union> set rs1 = set fs \<union> set rs" unfolding FTL_nvme_req_polling_def using req_polls_ok [OF assms] by blast
  obtain s2 f2 reg2 where s2: "FTL_core0task_polling junk s1 = Some s2" "emu_ok s2 f2 reg2 busy cmp fs1 rs1"
    using core0task_polling_ok [OF s1(2)] by blast
  obtain s3 f3 where s3: "FTL_CQ_polling s2 = Some s3" "emu_ok s3 f3 reg2 busy [] fs1 rs1"
    using CQ_polling_ok [OF s2(2)] by blast
  have "FTL_core0_task_run junk s = Some s3" using s1(1) s2(1) s3(1) by (simp add: FTL_core0_task_run_def)
  with s3(2) s1(3) show ?thesis by blast
qed

end
