(* ===== verification/Fio_Engine.thy ===== *)
theory Fio_Engine
  imports Shmem
begin

text \<open>
  The host side of the command queue: the fio engine \<^verbatim>\<open>fio4emu/engines/emu_io.c\<close>,
  which puts a command into the shared memory for every I/O unit of fio, and the test thread of the
  emulator (\<^verbatim>\<open>fe\<close> of \<^verbatim>\<open>emu/fe/fe.c\<close>), which does the same with a fixed
  command.

  The system calls of the engine (\<^verbatim>\<open>shm_open\<close>, \<^verbatim>\<open>ftruncate\<close>,
  \<^verbatim>\<open>mmap\<close>) and fio's own functions are arguments: their results. A call that cannot
  go on is an \<open>Inl\<close>: it waits for a mutex or the lock of the segment that is held
  (\<open>Blocked\<close>), it has released the lock and goes on looking for a free slot
  (\<open>No_Slot\<close>), an assertion fails (\<open>Assert_Failed\<close>), or it reaches a slot through
  NULL (\<open>Bad_Access\<close>). Log output is left out.
\<close>

section \<open>State\<close>

datatype fio_stop = Blocked | No_Slot | Assert_Failed | Bad_Access

datatype fio_ddir = DDIR_READ | DDIR_WRITE | DDIR_TRIM | DDIR_SYNC | DDIR_DATASYNC | DDIR_SYNC_FILE_RANGE
  | DDIR_WAIT | DDIR_LAST | DDIR_INVAL

datatype fio_q_status = FIO_Q_COMPLETED | FIO_Q_QUEUED | FIO_Q_BUSY

record fio_emussd_data =
  shm_fd :: u32
  fed_shm_base :: u64

text \<open>Of an I/O unit and of a file the engine uses only these; \<open>eng_data\<close> is
  \<^verbatim>\<open>FILE_ENG_DATA(f)\<close>.\<close>

record io_u =
  io_ddir :: fio_ddir
  io_offset :: u64
  io_xfer_buflen :: u64
  io_file :: nat

record fio_state =
  fio_mu :: bool
  fio_c :: u32
  eng_data :: "nat \<Rightarrow> fio_emussd_data ptr"
  real_file_size :: "nat \<Rightarrow> u64"

section \<open>The engine\<close>

definition EMU_SSD_SIZE :: u64 where "EMU_SSD_SIZE = 1024 * 1024 * 1024"

definition send_cmd_to_shm ::
  "u64 \<Rightarrow> u64 \<Rightarrow> u64 \<Rightarrow> u32 \<Rightarrow> fio_state \<times> shm_state \<Rightarrow> fio_stop + fio_state \<times> shm_state" where
  "send_cmd_to_shm offset data_len base ops = (\<lambda>(s, h).
     let lpn = offset div 4096
     in case shm_list_remove_x64 base FREE_LIST h of
          None \<Rightarrow> Inl Bad_Access
        | Some (i, h1) \<Rightarrow>
            let s1 = s\<lparr>fio_c := fio_c s + 1\<rparr>
            in if SHM_SLOT_addr base i = 0 \<or> \<not> i \<le> 255 then Inl Assert_Failed
               else (case slot_update i (\<lambda>c. c\<lparr>cmd_lpn := ucast lpn, cmd_ops := ops, cmd_size := ucast data_len\<rparr>) h1 of
                       None \<Rightarrow> Inl Bad_Access
                     | Some h2 \<Rightarrow>
                         (case shm_list_add_x64 base i RDY_LIST h2 of
                            None \<Rightarrow> Inl Bad_Access
                          | Some h3 \<Rightarrow> Inr (s1, h3))))"

text \<open>\<^verbatim>\<open>fio_ro_check\<close> of \<^verbatim>\<open>fio.h\<close>: \<open>td_write\<close> and
  \<open>td_trim\<close> say what the job may do.\<close>

definition fio_ro_check :: "bool \<Rightarrow> bool \<Rightarrow> io_u \<Rightarrow> bool" where
  "fio_ro_check td_write td_trim io \<longleftrightarrow>
     \<not> (io_ddir io = DDIR_WRITE \<and> \<not> td_write) \<and> \<not> (io_ddir io = DDIR_TRIM \<and> \<not> td_trim)"

definition fio_emussd_queue ::
  "bool \<Rightarrow> bool \<Rightarrow> io_u \<Rightarrow> fio_state \<times> shm_state \<Rightarrow> fio_stop + fio_q_status \<times> fio_state \<times> shm_state" where
  "fio_emussd_queue td_write td_trim io = (\<lambda>(s, h).
     if fio_mu s then Inl Blocked
     else let s1 = s\<lparr>fio_mu := True\<rparr>
     in case eng_data s1 (io_file io) of
       None \<Rightarrow> Inl Bad_Access
     | Some fed \<Rightarrow>
       let base = fed_shm_base fed
       in if \<not> fio_ro_check td_write td_trim io then Inl Assert_Failed
       else case shm_get h of
         None \<Rightarrow> Inl Blocked
       | Some h1 \<Rightarrow>
         if shm_list_empty_x64 base FREE_LIST h1 then Inl No_Slot
         else if io_ddir io = DDIR_TRIM then Inr (FIO_Q_COMPLETED, s1, h1)
         else
           (case (if io_ddir io = DDIR_READ then
                    send_cmd_to_shm (io_offset io) (io_xfer_buflen io) base SHM_READ_OPS (s1, h1)
                  else if io_ddir io = DDIR_WRITE then
                    send_cmd_to_shm (io_offset io) (io_xfer_buflen io) base SHM_WRITE_OPS (s1, h1)
                  else Inr (s1, h1)) of
              Inl e \<Rightarrow> Inl e
            | Inr (s2, h2) \<Rightarrow> Inr (FIO_Q_COMPLETED, s2\<lparr>fio_mu := False\<rparr>, shm_release h2)))"

text \<open>\<open>fd\<close>, \<open>trunc\<close>, \<open>base\<close>: the results of \<^verbatim>\<open>shm_open\<close>,
  \<^verbatim>\<open>ftruncate\<close> and \<^verbatim>\<open>mmap\<close>; the error returns leave the mutex locked.\<close>

definition MAP_FAILED :: u64 where "MAP_FAILED = - 1"

definition fio_emussd_open_file :: "u32 \<Rightarrow> u32 \<Rightarrow> u64 \<Rightarrow> nat \<Rightarrow> fio_state \<Rightarrow> fio_stop + u32 \<times> fio_state" where
  "fio_emussd_open_file fd trunc base f s =
     (if fio_mu s then Inl Blocked
      else let s1 = s\<lparr>fio_mu := True\<rparr>
      in if fd = - 1 then Inr (1, s1)
         else if trunc = - 1 then Inr (1, s1)
         else if base = MAP_FAILED then Inr (1, s1)
         else Inr (0, s1\<lparr>eng_data := (eng_data s1)(f := Some \<lparr>shm_fd = fd, fed_shm_base = base\<rparr>), fio_mu := False\<rparr>))"

text \<open>\<open>ret\<close>: the result of \<^verbatim>\<open>generic_close_file\<close>.\<close>

definition fio_emussd_close_file :: "u32 \<Rightarrow> nat \<Rightarrow> fio_state \<Rightarrow> fio_stop + u32 \<times> fio_state" where
  "fio_emussd_close_file ret f s =
     (if fio_mu s then Inl Blocked
      else Inr (ret, s\<lparr>eng_data := (eng_data s)(f := NULL)\<rparr>))"

definition get_emussd_size :: "nat \<Rightarrow> fio_state \<Rightarrow> u32 \<times> fio_state" where
  "get_emussd_size f s = (0, s\<lparr>real_file_size := (real_file_size s)(f := EMU_SSD_SIZE)\<rparr>)"

section \<open>The test thread\<close>

text \<open>One round of \<^verbatim>\<open>fe\<close>, from the counter \<open>c\<close>; \<open>None\<close> as the new
  counter is the return after 500 commands.\<close>

definition fe_round :: "u32 \<times> shm_state \<Rightarrow> fio_stop + u32 option \<times> shm_state" where
  "fe_round = (\<lambda>(c, h).
     if c = 500 then Inr (None, h)
     else case shm_get h of
       None \<Rightarrow> Inl Blocked
     | Some h1 \<Rightarrow>
       if shm_list_empty FREE_LIST h1 then Inl No_Slot
       else case shm_list_remove FREE_LIST h1 of
         None \<Rightarrow> Inl Bad_Access
       | Some (t_i, h2) \<Rightarrow>
         (case slot_update t_i (\<lambda>t. t\<lparr>cmd_lpn := 20, cmd_ops := SHM_READ_OPS, cmd_size := 16 * KB\<rparr>) h2 of
            None \<Rightarrow> Inl Bad_Access
          | Some h3 \<Rightarrow>
            (case shm_list_add t_i RDY_LIST h3 of
               None \<Rightarrow> Inl Bad_Access
             | Some h4 \<Rightarrow> Inr (Some (c + 1), shm_release h4))))"

section \<open>A command enters the segment\<close>

definition cmd_payload :: "shm_cmd \<Rightarrow> u32 \<times> u32 \<times> u32" where
  "cmd_payload c = (cmd_ops c, cmd_lpn c, cmd_size c)"

text \<open>What the engine and the test thread do with the segment: take the first free slot, fill it,
  append it to the ready list.\<close>

lemma submit_repr:
  assumes "shm_repr h (x # fs) rs"
  shows "\<exists>h1 h2 h3 h4. shm_get h = Some h1 \<and> \<not> shm_list_empty FREE_LIST h1 \<and>
    shm_list_remove FREE_LIST h1 = Some (of_nat x, h2) \<and>
    slot_update (of_nat x) (\<lambda>c. c\<lparr>cmd_lpn := l, cmd_ops := ops, cmd_size := sz\<rparr>) h2 = Some h3 \<and>
    shm_list_add (of_nat x) RDY_LIST h3 = Some h4 \<and> shm_repr (shm_release h4) fs (rs @ [x]) \<and>
    (\<forall>i. cmd_payload (shm_slots h4 i) = (if i = x then (ops, l, sz) else cmd_payload (shm_slots h i)))"
proof -
  let ?h1 = "h\<lparr>shm_ctrl := 1\<rparr>"
  have F: "list_repr ?h1 FREE_LIST (x # fs)" "list_repr ?h1 RDY_LIST rs" "list_repr ?h1 PROC_LIST []" "shm_ctrl h = 0"
    and d: "set (x # fs) \<inter> set rs = {}" using assms by (simp_all add: shm_repr_def)
  have x: "x < CMD_SLOT_NUM" "x \<notin> set fs" "x \<notin> set rs" using F(1) d by (auto simp: list_repr_def)
  obtain h2 where h2: "shm_list_remove FREE_LIST ?h1 = Some (of_nat x, h2)" "list_repr h2 FREE_LIST fs"
    "frame_of FREE_LIST (set fs) ?h1 h2" using list_remove_repr [OF F(1)] by blast
  have o2: "list_repr h2 RDY_LIST rs" "list_repr h2 PROC_LIST []"
    using F d by (auto intro!: list_repr_frame [OF _ h2(3)])
  let ?h3 = "h2\<lparr>shm_slots := (shm_slots h2)(x := (shm_slots h2 x)\<lparr>cmd_lpn := l, cmd_ops := ops, cmd_size := sz\<rparr>)\<rparr>"
  have o3: "list_repr ?h3 FREE_LIST fs" "list_repr ?h3 RDY_LIST rs" "list_repr ?h3 PROC_LIST []"
    using h2(2) o2 x by (auto intro: list_repr_slot)
  obtain h4 where h4: "shm_list_add (of_nat x) RDY_LIST ?h3 = Some h4" "list_repr h4 RDY_LIST (rs @ [x])"
    "frame_of RDY_LIST (insert x (set rs)) ?h3 h4" using list_add_repr [OF o3(2) x(1,3)] by auto
  have o4: "list_repr h4 FREE_LIST fs" "list_repr h4 PROC_LIST []"
    using o3 x d by (auto intro!: list_repr_frame [OF _ h4(3)])
  have "shm_repr (shm_release h4) fs (rs @ [x])" using h4(2) o4 d x by (auto simp: shm_repr_def shm_release_def)
  moreover have "cmd_payload (shm_slots h4 i) = (if i = x then (ops, l, sz) else cmd_payload (shm_slots h i))" for i
    using frame_of_payload [OF h4(3), of i] frame_of_payload [OF h2(3), of i] by (simp add: cmd_payload_def)
  ultimately show ?thesis
    using F(4) list_repr_empty [OF F(1)] h2(1) h4(1) x(1)
    by (intro exI [of _ ?h1] exI [of _ h2] exI [of _ ?h3] exI [of _ h4]) (simp add: shm_get_def slot_update_nat)
qed

lemma slot_index_ok:
  assumes "x < CMD_SLOT_NUM"
  shows "(of_nat x :: u32) \<le> 255"
  using assms by (simp add: word_le_nat_alt unat_slot CMD_SLOT_NUM_def)

text \<open>The base of the mapping is such that the segment does not wrap around.\<close>

definition base_ok :: "u64 \<Rightarrow> bool" where
  "base_ok base \<longleftrightarrow> unat base + SHM_SIZE < 2 ^ 64"


lemma slot_addr_nonzero:
  assumes "base_ok base" and "x < CMD_SLOT_NUM"
  shows "SHM_SLOT_addr base (of_nat x) \<noteq> 0"
proof -
  have "unat (SHM_SLOT_addr base (of_nat x)) = unat base + (SHM_DATA_SIZE + sizeof_shm_cmd * x)"
    using slot_addr(1) [of base "of_nat x"] assms by (simp add: base_ok_def unat_slot)
  then have "0 < unat (SHM_SLOT_addr base (of_nat x))" by (simp add: shm_size_defs)
  then show ?thesis by auto
qed

definition ddir_ops :: "fio_ddir \<Rightarrow> u32 option" where
  "ddir_ops d = (case d of DDIR_READ \<Rightarrow> Some SHM_READ_OPS | DDIR_WRITE \<Rightarrow> Some SHM_WRITE_OPS | _ \<Rightarrow> None)"

lemma send_cmd_repr:
  assumes "shm_repr h (x # fs) rs" and "base_ok base"
  shows "\<exists>h1 h2. shm_get h = Some h1 \<and> \<not> shm_list_empty FREE_LIST h1 \<and>
    send_cmd_to_shm offset len base ops (s, h1) = Inr (s\<lparr>fio_c := fio_c s + 1\<rparr>, h2) \<and>
    shm_repr (shm_release h2) fs (rs @ [x]) \<and>
    (\<forall>i. cmd_payload (shm_slots h2 i) = (if i = x then (ops, ucast (offset div 4096), ucast len) else cmd_payload (shm_slots h i)))"
proof -
  have x: "x < CMD_SLOT_NUM" using assms(1) by (auto simp: shm_repr_def list_repr_def)
  note a = slot_addr_nonzero [OF assms(2) x] slot_index_ok [OF x]
  obtain h1 h2 h3 h4 where h: "shm_get h = Some h1" "\<not> shm_list_empty FREE_LIST h1"
    "shm_list_remove FREE_LIST h1 = Some (of_nat x, h2)"
    "slot_update (of_nat x) (\<lambda>c. c\<lparr>cmd_lpn := ucast (offset div 4096), cmd_ops := ops, cmd_size := ucast len\<rparr>) h2 = Some h3"
    "shm_list_add (of_nat x) RDY_LIST h3 = Some h4" "shm_repr (shm_release h4) fs (rs @ [x])"
    "\<forall>i. cmd_payload (shm_slots h4 i) = (if i = x then (ops, ucast (offset div 4096), ucast len) else cmd_payload (shm_slots h i))"
    using submit_repr [OF assms(1), where l = "ucast (offset div 4096)" and ops = ops and sz = "ucast len"] by blast
  then show ?thesis by (intro exI [of _ h1] exI [of _ h4]) (simp add: send_cmd_to_shm_def x64_same a)
qed

lemma queue_rw:
  assumes "shm_repr h (x # fs) rs" and "\<not> fio_mu s" and "eng_data s (io_file io) = Some fed" and "base_ok (fed_shm_base fed)"
    and "fio_ro_check w t io" and "ddir_ops (io_ddir io) = Some ops"
  shows "\<exists>h2. fio_emussd_queue w t io (s, h) = Inr (FIO_Q_COMPLETED, s\<lparr>fio_c := fio_c s + 1\<rparr>, h2) \<and> shm_repr h2 fs (rs @ [x]) \<and>
    (\<forall>i. cmd_payload (shm_slots h2 i) =
      (if i = x then (ops, ucast (io_offset io div 4096), ucast (io_xfer_buflen io)) else cmd_payload (shm_slots h i)))"
proof -
  have d: "io_ddir io \<noteq> DDIR_TRIM" "io_ddir io = DDIR_READ \<and> ops = SHM_READ_OPS \<or> io_ddir io = DDIR_WRITE \<and> ops = SHM_WRITE_OPS"
    using assms(6) by (auto simp: ddir_ops_def split: fio_ddir.splits)
  let ?s = "s\<lparr>fio_mu := True\<rparr>"
  obtain h1 h2 where h: "shm_get h = Some h1" "\<not> shm_list_empty FREE_LIST h1"
    "send_cmd_to_shm (io_offset io) (io_xfer_buflen io) (fed_shm_base fed) ops (?s, h1) = Inr (?s\<lparr>fio_c := fio_c ?s + 1\<rparr>, h2)"
    "shm_repr (shm_release h2) fs (rs @ [x])"
    "\<forall>i. cmd_payload (shm_slots h2 i) =
      (if i = x then (ops, ucast (io_offset io div 4096), ucast (io_xfer_buflen io)) else cmd_payload (shm_slots h i))"
    using send_cmd_repr [OF assms(1,4), of "io_offset io" "io_xfer_buflen io" ops ?s] by blast
  have "?s\<lparr>fio_c := fio_c s + 1, fio_mu := False\<rparr> = s\<lparr>fio_c := fio_c s + 1\<rparr>" using assms(2) by simp
  then have "fio_emussd_queue w t io (s, h) = Inr (FIO_Q_COMPLETED, s\<lparr>fio_c := fio_c s + 1\<rparr>, shm_release h2)"
    using d assms(2,3,5) h(1-3) by (auto simp: fio_emussd_queue_def Let_def x64_same)
  then show ?thesis using h(4,5) by (intro exI [of _ "shm_release h2"]) (simp add: shm_release_def)
qed

lemma queue_no_slot:
  assumes "shm_repr h [] rs" and "\<not> fio_mu s" and "eng_data s (io_file io) \<noteq> NULL" and "fio_ro_check w t io"
  shows "fio_emussd_queue w t io (s, h) = Inl No_Slot"
proof -
  have "shm_ctrl h = 0" "list_repr (h\<lparr>shm_ctrl := 1\<rparr>) FREE_LIST []" using assms(1) by (simp_all add: shm_repr_def)
  then show ?thesis
    using assms(2,3,4) list_repr_empty [of "h\<lparr>shm_ctrl := 1\<rparr>" FREE_LIST "[]"]
    by (auto simp: fio_emussd_queue_def Let_def x64_same shm_get_def)
qed

lemma queue_trim:
  assumes "shm_repr h (x # fs) rs" and "\<not> fio_mu s" and "eng_data s (io_file io) \<noteq> NULL" and "io_ddir io = DDIR_TRIM"
  shows "fio_emussd_queue w True io (s, h) = Inr (FIO_Q_COMPLETED, s\<lparr>fio_mu := True\<rparr>, h\<lparr>shm_ctrl := 1\<rparr>)"
proof -
  have "shm_ctrl h = 0" "list_repr (h\<lparr>shm_ctrl := 1\<rparr>) FREE_LIST (x # fs)" using assms(1) by (simp_all add: shm_repr_def)
  then show ?thesis
    using assms(2-) list_repr_empty [of "h\<lparr>shm_ctrl := 1\<rparr>" FREE_LIST "x # fs"]
    by (auto simp: fio_emussd_queue_def Let_def x64_same shm_get_def fio_ro_check_def)
qed

lemma fe_round_repr:
  assumes "shm_repr h (x # fs) rs" and "c \<noteq> 500"
  shows "\<exists>h'. fe_round (c, h) = Inr (Some (c + 1), h') \<and> shm_repr h' fs (rs @ [x]) \<and>
    (\<forall>i. cmd_payload (shm_slots h' i) = (if i = x then (SHM_READ_OPS, 20, 16 * KB) else cmd_payload (shm_slots h i)))"
proof -
  obtain h1 h2 h3 h4 where h: "shm_get h = Some h1" "\<not> shm_list_empty FREE_LIST h1"
    "shm_list_remove FREE_LIST h1 = Some (of_nat x, h2)"
    "slot_update (of_nat x) (\<lambda>c. c\<lparr>cmd_lpn := 20, cmd_ops := SHM_READ_OPS, cmd_size := 16 * KB\<rparr>) h2 = Some h3"
    "shm_list_add (of_nat x) RDY_LIST h3 = Some h4" "shm_repr (shm_release h4) fs (rs @ [x])"
    "\<forall>i. cmd_payload (shm_slots h4 i) = (if i = x then (SHM_READ_OPS, 20, 16 * KB) else cmd_payload (shm_slots h i))"
    using submit_repr [OF assms(1), where l = 20 and ops = SHM_READ_OPS and sz = "16 * KB"] by blast
  have "shm_slots (shm_release h4) = shm_slots h4" by (simp add: shm_release_def)
  with h assms(2) show ?thesis by (intro exI [of _ "shm_release h4"]) (simp add: fe_round_def)
qed

lemma fe_round_no_slot: "shm_repr h [] rs \<Longrightarrow> c \<noteq> 500 \<Longrightarrow> fe_round (c, h) = Inl No_Slot"
  using list_repr_empty [of "h\<lparr>shm_ctrl := 1\<rparr>" FREE_LIST "[]"] by (simp add: fe_round_def shm_get_def shm_repr_def)

section \<open>Properties\<close>

text \<open>
  C17: a read or write of fio becomes one ready command. With a free slot,
  \<^verbatim>\<open>fio_emussd_queue\<close> takes the first free slot, stores the operation, the number of the
  4 KB block at the offset and the length in it, appends it to the ready list, changes no other
  slot's command, and leaves both the mutex and the segment's lock free.
\<close>

theorem engine_submits:
  assumes "shm_repr h (x # fs) rs" and "\<not> fio_mu s" and "eng_data s (io_file io) = Some fed" and "base_ok (fed_shm_base fed)"
    and "fio_ro_check w t io" and "ddir_ops (io_ddir io) = Some ops"
  shows "\<exists>s' h'. fio_emussd_queue w t io (s, h) = Inr (FIO_Q_COMPLETED, s', h') \<and> shm_repr h' fs (rs @ [x]) \<and> \<not> fio_mu s' \<and>
    shm_get h' \<noteq> None \<and> cmd_payload (shm_slots h' x) = (ops, ucast (io_offset io div 4096), ucast (io_xfer_buflen io)) \<and>
    (\<forall>i. i \<noteq> x \<longrightarrow> cmd_payload (shm_slots h' i) = cmd_payload (shm_slots h i))"
proof -
  obtain h' where h': "fio_emussd_queue w t io (s, h) = Inr (FIO_Q_COMPLETED, s\<lparr>fio_c := fio_c s + 1\<rparr>, h')" "shm_repr h' fs (rs @ [x])"
    "\<forall>i. cmd_payload (shm_slots h' i) =
      (if i = x then (ops, ucast (io_offset io div 4096), ucast (io_xfer_buflen io)) else cmd_payload (shm_slots h i))"
    using queue_rw [OF assms] by blast
  have "shm_ctrl h' = 0" using h'(2) by (simp add: shm_repr_def)
  then show ?thesis using h' assms(2) by (intro exI [of _ "s\<lparr>fio_c := fio_c s + 1\<rparr>"] exI [of _ h']) (simp add: shm_get_def)
qed

definition demo_fio :: fio_state where
  "demo_fio = \<lparr>fio_mu = False, fio_c = 0, eng_data = (\<lambda>_. Some \<lparr>shm_fd = 3, fed_shm_base = 0x7f0000000000\<rparr>), real_file_size = (\<lambda>_. 0)\<rparr>"

definition demo_io :: "fio_ddir \<Rightarrow> io_u" where
  "demo_io d = \<lparr>io_ddir = d, io_offset = 0x14000, io_xfer_buflen = 0x4000, io_file = 0\<rparr>"

lemma demo_base: "base_ok 0x7f0000000000"
  by (simp add: base_ok_def shm_size_defs)

theorem engine_submits_witness:
  "\<exists>h s' h'. SHM_init = Some h \<and> fio_emussd_queue True False (demo_io DDIR_WRITE) (demo_fio, h) = Inr (FIO_Q_COMPLETED, s', h') \<and>
     cmd_payload (shm_slots h' 0) = (SHM_WRITE_OPS, 20, 0x4000)"
proof -
  obtain h where h: "SHM_init = Some h" "shm_repr h [0..<CMD_SLOT_NUM] []" using SHM_init_repr by blast
  have "[0..<CMD_SLOT_NUM] = 0 # [1..<CMD_SLOT_NUM]" using upt_conv_Cons [of 0 CMD_SLOT_NUM] by (simp add: CMD_SLOT_NUM_def del: upt_Suc)
  then have "shm_repr h (0 # [1..<CMD_SLOT_NUM]) []" using h(2) by simp
  from engine_submits [OF this, of demo_fio "demo_io DDIR_WRITE" _ True False SHM_WRITE_OPS] demo_base h(1) show ?thesis
    by (auto simp: demo_fio_def demo_io_def fio_ro_check_def ddir_ops_def)
qed

text \<open>
  C39: a TRIM is fatal for both processes. \<^verbatim>\<open>fio_emussd_queue\<close> returns from its TRIM branch
  without releasing anything: from then on every further I/O unit of the engine, the closing of its
  files and the emulator's next look at the ready list wait forever.
\<close>

theorem trim_keeps_locks:
  assumes "shm_repr h (x # fs) rs" and "\<not> fio_mu s" and "eng_data s (io_file io) \<noteq> NULL" and "io_ddir io = DDIR_TRIM"
  shows "\<exists>s' h'. fio_emussd_queue w True io (s, h) = Inr (FIO_Q_COMPLETED, s', h') \<and>
    fio_emussd_queue w2 t2 io2 (s', h') = Inl Blocked \<and> fio_emussd_close_file ret f s' = Inl Blocked \<and>
    SHM_get_rdy_list h' = None \<and> fe_round (0, h') = Inl Blocked"
proof -
  have "fio_emussd_queue w2 t2 io2 (s\<lparr>fio_mu := True\<rparr>, h\<lparr>shm_ctrl := 1\<rparr>) = Inl Blocked"
    "fio_emussd_close_file ret f (s\<lparr>fio_mu := True\<rparr>) = Inl Blocked" "SHM_get_rdy_list (h\<lparr>shm_ctrl := 1\<rparr>) = None"
    "fe_round (0, h\<lparr>shm_ctrl := 1\<rparr>) = Inl Blocked"
    by (simp_all add: fio_emussd_queue_def fio_emussd_close_file_def SHM_get_rdy_list_def shm_get_def fe_round_def)
  then show ?thesis using queue_trim [OF assms] by blast
qed

theorem trim_keeps_locks_witness:
  "\<exists>h s' h'. SHM_init = Some h \<and> fio_emussd_queue True True (demo_io DDIR_TRIM) (demo_fio, h) = Inr (FIO_Q_COMPLETED, s', h') \<and>
     SHM_get_rdy_list h' = None"
proof -
  obtain h where h: "SHM_init = Some h" "shm_repr h [0..<CMD_SLOT_NUM] []" using SHM_init_repr by blast
  have "[0..<CMD_SLOT_NUM] = 0 # [1..<CMD_SLOT_NUM]" using upt_conv_Cons [of 0 CMD_SLOT_NUM] by (simp add: CMD_SLOT_NUM_def del: upt_Suc)
  then have "shm_repr h (0 # [1..<CMD_SLOT_NUM]) []" using h(2) by simp
  from trim_keeps_locks [OF this, of demo_fio "demo_io DDIR_TRIM" True True True "demo_io DDIR_READ" 0 0] h(1) show ?thesis
    by (auto simp: demo_fio_def demo_io_def)
qed

text \<open>
  Opening a file. On success the engine has the mapping of the segment as the file's data and the
  mutex is free; on any failing system call the function returns 1 with the mutex still locked, so
  that the next open blocks.
\<close>

theorem open_file_outcomes:
  "fio_emussd_open_file fd trunc base f (s\<lparr>fio_mu := False\<rparr>) =
     (if fd = - 1 \<or> trunc = - 1 \<or> base = MAP_FAILED then Inr (1, s\<lparr>fio_mu := True\<rparr>)
      else Inr (0, s\<lparr>fio_mu := False, eng_data := (eng_data s)(f := Some \<lparr>shm_fd = fd, fed_shm_base = base\<rparr>)\<rparr>)) \<and>
   fio_emussd_open_file fd trunc base f (s\<lparr>fio_mu := True\<rparr>) = Inl Blocked"
  by (auto simp: fio_emussd_open_file_def Let_def)

end
