(* ===== verification/Emu_System.thy ===== *)
theory Emu_System
  imports Emu_Invariant Fio_Engine "HOL-Library.Multiset"
begin

text \<open>
  The emulator as a whole: the initialisation of \<^verbatim>\<open>emu/emu_main.c\<close>, and its three
  threads and the fio process as a step relation. The steps are the sections between the lock
  operations of the threads. The FTL thread's steps are the rounds of its inner loops; the relation
  lets them come in any order, so that what holds for it holds for the thread's own order
  (\<open>round_steps\<close>). The back-end thread's round is three steps: taking a request, the flash
  access and reporting completion.
\<close>

section \<open>Initialisation\<close>

text \<open>The static initialisers of \<^verbatim>\<open>buffer.c\<close>, \<^verbatim>\<open>be.c\<close> and
  \<^verbatim>\<open>ftl_nvme.c\<close>.\<close>

definition emu_static :: "emu_state \<Rightarrow> emu_state" where
  "emu_static s = s\<lparr>st_buf := static_heads (st_buf s), st_be := be_start, st_cmd_cnt := 0\<rparr>"

text \<open>\<open>fp\<close>: what \<^verbatim>\<open>malloc\<close> returns for the register file. The lock words are in
  memory that \<^verbatim>\<open>main\<close> has just cleared.\<close>

definition EMU_init_ftl_moudles :: "u32 \<Rightarrow> emu_state \<Rightarrow> emu_state option" where
  "EMU_init_ftl_moudles fp s = do {
     b \<leftarrow> L2P_init_buffer (st_buf s);
     let (_, h) = HCL_init_host_cmd_entry_queue (st_mem_base s);
     let tq = FTL_int_task_queue (st_tq s);
     let (fcl_base, bus) = FCL_init_flash_controller fp;
     let (f, _) = FCL_init_hw_queue (st_mem_base s) fcl_base (st_fcl s, bus);
     Some (s\<lparr>st_buf := b, st_hcl := h, st_tq := tq, st_fcl := f\<rparr>)
   }"

datatype be_pc = Be_Idle | Be_Taken nat | Be_Done nat

record emu_sys =
  sys_ftl :: emu_state
  sys_be :: be_pc
  sys_mem :: dram
  sys_file :: "u8 list option"

text \<open>\<^verbatim>\<open>main\<close> up to the start of the threads; \<open>p\<close>: what
  \<^verbatim>\<open>malloc\<close> returns for the emulated DRAM.\<close>

definition emu_main :: "u32 \<Rightarrow> u32 \<Rightarrow> emu_state \<Rightarrow> dram \<Rightarrow> u8 list option \<Rightarrow> emu_sys option" where
  "emu_main p fp s0 mem file = do {
     let mb = align_base p;
     let mem1 = (\<lambda>a. if unat (a - mb) < 2 ^ 30 then 0 else mem a);
     s1 \<leftarrow> EMU_init_ftl_moudles fp ((emu_static s0)\<lparr>st_mem_base := mb\<rparr>);
     shm \<leftarrow> SHM_init;
     Some \<lparr>sys_ftl = s1\<lparr>st_shm := shm\<rparr>, sys_be = Be_Idle, sys_mem = mem1, sys_file = BE_init file\<rparr>
   }"

section \<open>Steps\<close>

abbreviation with_be :: "be_state \<Rightarrow> emu_sys \<Rightarrow> emu_sys" where
  "with_be b s \<equiv> s\<lparr>sys_ftl := (sys_ftl s)\<lparr>st_be := b\<rparr>\<rparr>"

abbreviation with_shm :: "shm_state \<Rightarrow> emu_sys \<Rightarrow> emu_sys" where
  "with_shm h s \<equiv> s\<lparr>sys_ftl := (sys_ftl s)\<lparr>st_shm := h\<rparr>\<rparr>"

inductive emu_step :: "emu_sys \<Rightarrow> emu_sys \<Rightarrow> bool" where
  ftl_request: "req_one (sys_ftl s) = Some t \<Longrightarrow> emu_step s (s\<lparr>sys_ftl := t\<rparr>)"
| ftl_task: "st \<in> task_status \<Longrightarrow> poll_one junk st (sys_ftl s) = Some t \<Longrightarrow> emu_step s (s\<lparr>sys_ftl := t\<rparr>)"
| ftl_completion: "FTL_CQ_polling (sys_ftl s) = Some t \<Longrightarrow> emu_step s (s\<lparr>sys_ftl := t\<rparr>)"
| be_taking: "sys_be s = Be_Idle \<Longrightarrow> be_take (st_be (sys_ftl s)) = Some (Some r, b) \<Longrightarrow>
    emu_step s ((with_be b s)\<lparr>sys_be := Be_Taken r\<rparr>)"
| be_accessing: "sys_be s = Be_Taken r \<Longrightarrow> emu_sqs (st_be (sys_ftl s)) r = Some sq \<Longrightarrow>
    be_flash junk junk_vars sq (sys_mem s, sys_file s) = Some (Inr (mem, file)) \<Longrightarrow>
    emu_step s (s\<lparr>sys_be := Be_Done r, sys_mem := mem, sys_file := file\<rparr>)"
| be_reporting: "sys_be s = Be_Done r \<Longrightarrow> be_complete r (st_be (sys_ftl s)) = Some b \<Longrightarrow>
    emu_step s ((with_be b s)\<lparr>sys_be := Be_Idle\<rparr>)"
| fe_command: "fe_round (c, st_shm (sys_ftl s)) = Inr (Some c', h) \<Longrightarrow> emu_step s (with_shm h s)"
| fio_command: "fio_emussd_queue w tr io (fs, st_shm (sys_ftl s)) = Inr (FIO_Q_COMPLETED, fs', h) \<Longrightarrow>
    io_ddir io \<noteq> DDIR_TRIM \<Longrightarrow> base_ok (fed_shm_base (the (eng_data fs (io_file io)))) \<Longrightarrow> emu_step s (with_shm h s)"

inductive emu_reach :: "emu_sys \<Rightarrow> bool" where
  emu_start: "emu_main p fp s0 mem file = Some s \<Longrightarrow> emu_reach s"
| emu_next: "emu_reach s \<Longrightarrow> emu_step s t \<Longrightarrow> emu_reach t"

section \<open>The invariant of the system\<close>

definition be_holds :: "be_pc \<Rightarrow> nat list" where
  "be_holds pc = (case pc of Be_Idle \<Rightarrow> [] | Be_Taken r \<Rightarrow> [r] | Be_Done r \<Rightarrow> [r])"

definition sys_ok :: "emu_sys \<Rightarrow> bool" where
  "sys_ok s \<longleftrightarrow> (\<exists>f reg cmp fs rs. emu_ok (sys_ftl s) f reg (be_holds (sys_be s)) cmp fs rs \<and>
     set fs \<union> set rs = {..<CMD_SLOT_NUM}) \<and> sys_file s \<noteq> None \<and> aligned16K (st_mem_base (sys_ftl s))"

lemma be_holds_simps [simp]: "be_holds Be_Idle = []" "be_holds (Be_Taken r) = [r]" "be_holds (Be_Done r) = [r]"
  by (simp_all add: be_holds_def)

lemma init_modules_ok:
  assumes "shm_repr shm fs rs"
  shows "\<exists>s1. EMU_init_ftl_moudles fp (emu_static s0\<lparr>st_mem_base := mb\<rparr>) = Some s1 \<and>
    emu_ok (s1\<lparr>st_shm := shm\<rparr>) (\<lambda>_. []) [] [] [] fs rs \<and> hcmd_used (st_hcl s1) = {} \<and> st_mem_base s1 = mb \<and>
    hcmd_base (st_hcl s1) = HCMD_BASE_ADDR mb \<and> cache_repr (st_buf s1) ([0..<BUFFER_NUMBER], []) (\<lambda>_. [])"
proof -
  obtain b where b: "L2P_init_buffer (static_heads (st_buf s0)) = Some b" "cache_repr b ([0..<BUFFER_NUMBER], []) (\<lambda>_. [])"
    using init_buffer_repr by blast
  obtain f bus where f: "FCL_init_hw_queue mb (align_base fp) (st_fcl s0, []) = (f, bus)" by force
  have u: "sq_used 1 f = {}" using init_hw_queue_free [of 1 mb "align_base fp" "(st_fcl s0, [])"] f by (simp add: TOTAL_CHANNEL_def)
  have h: "hcmd_used (snd (HCL_init_host_cmd_entry_queue mb)) = {}"
    by (simp add: HCL_init_host_cmd_entry_queue_def hcmd_used_def used_slots_def)
  have "cache_repr b ([0..<BUFFER_NUMBER], []) (\<lambda>_. []) \<Longrightarrow> \<exists>a cs. cache_repr b a cs" by blast
  then show ?thesis
    using assms b u h be_start_repr tq_repr_init
    by (simp add: EMU_init_ftl_moudles_def emu_static_def FCL_init_flash_controller_def f HCL_init_host_cmd_entry_queue_def
        emu_ok_def own_inv_def places_def slots_ok_def)
qed

lemma main_ok:
  shows "\<exists>s. emu_main p fp s0 mem file = Some s \<and> emu_ok (sys_ftl s) (\<lambda>_. []) [] [] [] [0..<CMD_SLOT_NUM] [] \<and>
    sys_be s = Be_Idle \<and> sys_file s = BE_init file \<and> hcmd_used (st_hcl (sys_ftl s)) = {} \<and>
    st_mem_base (sys_ftl s) = align_base p \<and> hcmd_base (st_hcl (sys_ftl s)) = HCMD_BASE_ADDR (align_base p) \<and>
    cache_repr (st_buf (sys_ftl s)) ([0..<BUFFER_NUMBER], []) (\<lambda>_. []) \<and>
    sys_mem s = (\<lambda>a. if unat (a - align_base p) < 2 ^ 30 then 0 else mem a)"
proof -
  obtain shm where shm: "SHM_init = Some shm" "shm_repr shm [0..<CMD_SLOT_NUM] []" using SHM_init_repr by blast
  obtain s1 where s1: "EMU_init_ftl_moudles fp (emu_static s0\<lparr>st_mem_base := align_base p\<rparr>) = Some s1"
    "emu_ok (s1\<lparr>st_shm := shm\<rparr>) (\<lambda>_. []) [] [] [] [0..<CMD_SLOT_NUM] []" "hcmd_used (st_hcl s1) = {}"
    "st_mem_base s1 = align_base p" "hcmd_base (st_hcl s1) = HCMD_BASE_ADDR (align_base p)"
    "cache_repr (st_buf s1) ([0..<BUFFER_NUMBER], []) (\<lambda>_. [])" using init_modules_ok [OF shm(2), where fp = fp and ?s0.0 = s0 and mb = "align_base p"] by blast
  then have "emu_main p fp s0 mem file = Some \<lparr>sys_ftl = s1\<lparr>st_shm := shm\<rparr>, sys_be = Be_Idle,
      sys_mem = (\<lambda>a. if unat (a - align_base p) < 2 ^ 30 then 0 else mem a), sys_file = BE_init file\<rparr>"
    unfolding emu_main_def Let_def shm(1) by simp
  then show ?thesis using s1 by simp
qed


lemma queue_shm:
  assumes "fio_emussd_queue w tr io (s, h) = Inr (FIO_Q_COMPLETED, s', h')" and "shm_repr h fs rs"
    and "io_ddir io \<noteq> DDIR_TRIM" and "base_ok (fed_shm_base (the (eng_data s (io_file io))))"
  shows "\<exists>fs' rs'. shm_repr h' fs' rs' \<and> set fs' \<union> set rs' = set fs \<union> set rs"
proof -
  have m: "\<not> fio_mu s" using assms(1) by (auto simp: fio_emussd_queue_def Let_def)
  then obtain fed where d: "eng_data s (io_file io) = Some fed" using assms(1)
    by (auto simp: fio_emussd_queue_def Let_def split: option.splits)
  have c: "fio_ro_check w tr io" using assms(1) m d by (auto simp: fio_emussd_queue_def Let_def split: if_splits)
  obtain x xs where fs: "fs = x # xs"
    using queue_no_slot [of h rs s io w tr] assms(1,2) m d c by (cases fs) auto
  have b: "base_ok (fed_shm_base fed)" using assms(4) d by simp
  show ?thesis
  proof (cases "ddir_ops (io_ddir io)")
    case (Some ops)
    obtain h2 where "fio_emussd_queue w tr io (s, h) = Inr (FIO_Q_COMPLETED, s\<lparr>fio_c := fio_c s + 1\<rparr>, h2)" "shm_repr h2 xs (rs @ [x])"
      using queue_rw [OF assms(2) [unfolded fs] m d b c Some] by blast
    then show ?thesis using assms(1) fs by (intro exI [of _ xs] exI [of _ "rs @ [x]"]) auto
  next
    case None
    then have "io_ddir io \<noteq> DDIR_READ" "io_ddir io \<noteq> DDIR_WRITE" by (auto simp: ddir_ops_def)
    then have "h' = shm_release (h\<lparr>shm_ctrl := 1\<rparr>)"
      using assms(1,3) m d c by (auto simp: fio_emussd_queue_def Let_def shm_get_def split: if_splits)
    then have "h' = h" using assms(2) by (simp add: shm_release_def shm_repr_def)
    with assms(2) show ?thesis by blast
  qed
qed

lemma fe_round_shm:
  assumes "fe_round (c, h) = Inr (Some c', h')" and "shm_repr h fs rs"
  shows "\<exists>fs' rs'. shm_repr h' fs' rs' \<and> set fs' \<union> set rs' = set fs \<union> set rs"
proof -
  have c: "c \<noteq> 500" using assms(1) by (auto simp: fe_round_def)
  obtain x xs where fs: "fs = x # xs" using fe_round_no_slot [of h rs c] assms c by (cases fs) auto
  obtain h2 where "fe_round (c, h) = Inr (Some (c + 1), h2)" "shm_repr h2 xs (rs @ [x])"
    using fe_round_repr [OF assms(2) [unfolded fs] c] by blast
  then show ?thesis using assms(1) fs by (intro exI [of _ xs] exI [of _ "rs @ [x]"]) auto
qed

lemma ok_be_step:
  assumes "emu_ok s f reg busy cmp fs rs" and "be_repr b reg' busy' cmp'" and "emu_sqs b = emu_sqs (st_be s)"
    and "mset (reg' @ busy' @ cmp') = mset (reg @ busy @ cmp)"
  shows "emu_ok (s\<lparr>st_be := b\<rparr>) f reg' busy' cmp' fs rs"
proof -
  let ?i = "reg @ busy @ cmp" and ?j = "reg' @ busy' @ cmp'"
  have h: "sq_hcmd b = sq_hcmd (st_be s)" "sq_slot b = sq_slot (st_be s)"
    using assms(3) by (simp_all add: sq_hcmd_def sq_slot_def fun_eq_iff)
  have m: "mset (map g ?j) = mset (map g ?i)" for g :: "nat \<Rightarrow> 'z" using assms(4) by (simp only: mset_map)
  have e: "set (map g ?j) = set (map g ?i)" "distinct (map g ?j) = distinct (map g ?i)" for g :: "nat \<Rightarrow> 'z"
    using m [of g] mset_eq_setD mset_eq_imp_distinct_iff by blast+
  have s: "set ?j = set ?i" using mset_eq_setD [OF assms(4)] .
  have o: "own_inv (hcmd_used (st_hcl s)) (f(HCE_WAIT_CQ := map (sq_hcmd (st_be s)) ?i))" and k: "slots_ok s ?i"
    using assms(1) by (simp_all only: emu_ok_def places_def)
  have d: "distinct (map (sq_hcmd (st_be s)) ?i)" using o unfolding own_inv_def by (metis fun_upd_same)
  have "own_inv (hcmd_used (st_hcl s)) (f(HCE_WAIT_CQ := map (sq_hcmd (st_be s)) ?j))"
    by (rule own_reorder [OF o e(1)]) (simp only: e(2) d)
  then have o': "own_inv (hcmd_used (st_hcl (s\<lparr>st_be := b\<rparr>))) (places (s\<lparr>st_be := b\<rparr>) f ?j)" by (simp add: places_def h)
  have "slots_ok (s\<lparr>st_be := b\<rparr>) ?j"
    using k unfolding slots_ok_def s using e [of "sq_slot (st_be s)"] assms(3) h(2) by simp
  then show ?thesis using assms(1,2) o' unfolding emu_ok_def by simp
qed


lemma sys_okI:
  "emu_ok (sys_ftl s) f reg (be_holds (sys_be s)) cmp fs rs \<Longrightarrow> set fs \<union> set rs = {..<CMD_SLOT_NUM} \<Longrightarrow> sys_file s \<noteq> None \<Longrightarrow>
    aligned16K (st_mem_base (sys_ftl s)) \<Longrightarrow> sys_ok s"
  unfolding sys_ok_def by blast

lemma main_sys_ok: "emu_main p fp s0 mem file = Some s \<Longrightarrow> sys_ok s"
  using main_ok [of p fp s0 mem "file"] by (auto intro!: sys_okI simp: BE_init_def lessThan_atLeast0 align_base_aligned split: option.splits)

lemma be_taking_ok:
  assumes "emu_ok s f reg [] cmp fs rs" and "be_take (st_be s) = Some (Some r, b)"
  shows "\<exists>reg'. emu_ok (s\<lparr>st_be := b\<rparr>) f reg' [r] cmp fs rs"
proof (cases reg)
  case Nil
  then show ?thesis using take_empty [of "st_be s" "[]" cmp] assms by (auto simp: emu_ok_def)
next
  case (Cons x reg')
  then obtain b' where "be_take (st_be s) = Some (Some x, b')" "be_repr b' reg' [x] cmp" "emu_sqs b' = emu_sqs (st_be s)"
    using take_repr [of "st_be s" x reg' "[]" cmp] assms(1) by (auto simp: emu_ok_def)
  then show ?thesis using ok_be_step [OF assms(1), of b' reg' "[x]" cmp] assms(2) Cons by auto
qed

lemma be_reporting_ok:
  assumes "emu_ok s f reg [r] cmp fs rs" and "be_complete r (st_be s) = Some b"
  shows "emu_ok (s\<lparr>st_be := b\<rparr>) f reg [] (cmp @ [r]) fs rs"
proof -
  obtain b' where "be_complete r (st_be s) = Some b'" "be_repr b' reg [] (cmp @ [r])" "emu_sqs b' = emu_sqs (st_be s)"
    using complete_repr [of "st_be s" reg r "[]" cmp] assms(1) by (auto simp: emu_ok_def)
  then show ?thesis using ok_be_step [OF assms(1), of b' reg "[]" "cmp @ [r]"] assms(2) by auto
qed

lemma map_sum_Inr: "map_sum g k z = Inr y \<longleftrightarrow> (\<exists>x. z = Inr x \<and> y = k x)"
  by (cases z) auto

lemma be_flash_file:
  "be_flash junk vars sq (mem, file) = Some (Inr (mem', file')) \<Longrightarrow> file \<noteq> None \<Longrightarrow> file' \<noteq> None"
  by (auto simp: be_flash_def Let_def BE_write_log_def map_sum_Inr split: if_splits)

lemma step_sys_ok:
  assumes "emu_step s t" and "sys_ok s"
  shows "sys_ok t"
proof -
  obtain f reg cmp fs rs where ok: "emu_ok (sys_ftl s) f reg (be_holds (sys_be s)) cmp fs rs"
    and all: "set fs \<union> set rs = {..<CMD_SLOT_NUM}" and fl: "sys_file s \<noteq> None" "aligned16K (st_mem_base (sys_ftl s))" using assms(2) by (auto simp: sys_ok_def)
  from assms(1) show ?thesis
  proof cases
    case (ftl_request u)
    with req_one_ok [OF ok] all fl show ?thesis by (auto intro: sys_okI)
  next
    case (ftl_task st junk u)
    with poll_one_ok [OF ok, of st junk] all fl show ?thesis by (auto intro: sys_okI)
  next
    case (ftl_completion u)
    with CQ_polling_ok [OF ok] all fl show ?thesis by (auto intro: sys_okI)
  next
    case (be_taking r b)
    with be_taking_ok [of "sys_ftl s" f reg cmp fs rs r b] ok all fl show ?thesis by (auto intro: sys_okI)
  next
    case (be_accessing r sq junk vars mem fl')
    then show ?thesis using ok all fl be_flash_file [of junk vars sq "sys_mem s" "sys_file s" mem fl']
      by (auto intro: sys_okI)
  next
    case (be_reporting r b)
    with be_reporting_ok [of "sys_ftl s" f reg r cmp fs rs b] ok all fl show ?thesis by (auto intro: sys_okI)
  next
    case (fe_command c c' h)
    have "shm_repr (st_shm (sys_ftl s)) fs rs" using ok by (simp add: emu_ok_def)
    from fe_round_shm [OF fe_command(2) this] obtain fs1 rs1 where "shm_repr h fs1 rs1" "set fs1 \<union> set rs1 = set fs \<union> set rs"
      by blast
    with ok_shm [OF ok, of h fs1 rs1] show ?thesis unfolding fe_command(1)
      by (intro sys_okI [of _ f reg cmp fs1 rs1]) (simp_all add: all fl)
  next
    case (fio_command w tr io fst fst' h)
    have "shm_repr (st_shm (sys_ftl s)) fs rs" using ok by (simp add: emu_ok_def)
    from queue_shm [OF fio_command(2) this fio_command(3,4)] obtain fs1 rs1 where
      "shm_repr h fs1 rs1" "set fs1 \<union> set rs1 = set fs \<union> set rs" by blast
    with ok_shm [OF ok, of h fs1 rs1] show ?thesis unfolding fio_command(1)
      by (intro sys_okI [of _ f reg cmp fs1 rs1]) (simp_all add: all fl)
  qed
qed

lemma reach_sys_ok: "emu_reach s \<Longrightarrow> sys_ok s"
  by (induction rule: emu_reach.induct) (auto intro: main_sys_ok step_sys_ok)

section \<open>A round of the FTL thread is a sequence of steps\<close>

lemma steps_trans: "emu_step\<^sup>*\<^sup>* s t \<Longrightarrow> emu_step\<^sup>*\<^sup>* t u \<Longrightarrow> emu_step\<^sup>*\<^sup>* s u"
  by (rule rtranclp_trans)

lemma no_ftl_change: "sys_ftl s = t \<Longrightarrow> s\<lparr>sys_ftl := t\<rparr> = s"
  by auto

lemma req_polls_steps: "req_polls n (sys_ftl s) = Some t \<Longrightarrow> emu_step\<^sup>*\<^sup>* s (s\<lparr>sys_ftl := t\<rparr>)"
proof (induction n arbitrary: s)
  case (Suc n)
  then obtain u where u: "req_one (sys_ftl s) = Some u" "req_polls n u = Some t" by (auto split: bind_splits)
  from Suc.IH [of "s\<lparr>sys_ftl := u\<rparr>"] u(2) emu_step.ftl_request [OF u(1)] show ?case
    by (auto intro: converse_rtranclp_into_rtranclp)
qed (simp add: no_ftl_change)

lemma poll_queue_steps: "st \<in> task_status \<Longrightarrow> poll_queue junk st n (sys_ftl s) = Some t \<Longrightarrow> emu_step\<^sup>*\<^sup>* s (s\<lparr>sys_ftl := t\<rparr>)"
proof (induction n arbitrary: s)
  case (Suc n)
  then obtain u where u: "poll_one junk st (sys_ftl s) = Some u" "poll_queue junk st n u = Some t" by (auto split: bind_splits)
  from Suc.IH [of "s\<lparr>sys_ftl := u\<rparr>"] u(2) Suc.prems(1) emu_step.ftl_task [OF Suc.prems(1) u(1)] show ?case
    by (auto intro: converse_rtranclp_into_rtranclp)
qed (simp add: no_ftl_change)

lemma poll_queues_steps: "set sts \<subseteq> task_status \<Longrightarrow> poll_queues junk sts (sys_ftl s) = Some t \<Longrightarrow> emu_step\<^sup>*\<^sup>* s (s\<lparr>sys_ftl := t\<rparr>)"
proof (induction sts arbitrary: s)
  case (Cons st sts)
  then obtain u where u: "poll_queue junk st (unat (tq_cnt (st_tq (sys_ftl s) st))) (sys_ftl s) = Some u" "poll_queues junk sts u = Some t"
    by (auto split: bind_splits)
  have "emu_step\<^sup>*\<^sup>* s (s\<lparr>sys_ftl := u\<rparr>)" using poll_queue_steps [OF _ u(1)] Cons.prems(1) by simp
  moreover have "emu_step\<^sup>*\<^sup>* (s\<lparr>sys_ftl := u\<rparr>) (s\<lparr>sys_ftl := t\<rparr>)" using Cons.IH [of "s\<lparr>sys_ftl := u\<rparr>"] u(2) Cons.prems(1) by simp
  ultimately show ?case by (rule steps_trans)
qed (simp add: no_ftl_change)

lemma round_steps:
  assumes "FTL_core0_task_run junk (sys_ftl s) = Some t"
  shows "emu_step\<^sup>*\<^sup>* s (s\<lparr>sys_ftl := t\<rparr>)"
proof -
  obtain u v where u: "FTL_nvme_req_polling (sys_ftl s) = Some u" "FTL_core0task_polling junk u = Some v" "FTL_CQ_polling v = Some t"
    using assms by (auto simp: FTL_core0_task_run_def split: bind_splits)
  have 1: "emu_step\<^sup>*\<^sup>* s (s\<lparr>sys_ftl := u\<rparr>)" using req_polls_steps u(1) by (simp add: FTL_nvme_req_polling_def)
  have 2: "emu_step\<^sup>*\<^sup>* (s\<lparr>sys_ftl := u\<rparr>) (s\<lparr>sys_ftl := v\<rparr>)"
    using poll_queues_steps [of "[HCE_CHECK_CACHE, HCE_TO_SQ, HCE_DATAMOVED, HCE_FROM_CQ, HCE_FINISH]" junk "s\<lparr>sys_ftl := u\<rparr>" v]
      u(2) by (simp add: FTL_core0task_polling_def task_status_def del: poll_queues.simps)
  have 3: "emu_step (s\<lparr>sys_ftl := v\<rparr>) (s\<lparr>sys_ftl := t\<rparr>)" using emu_step.ftl_completion [of "s\<lparr>sys_ftl := v\<rparr>" t] u(3) by simp
  show ?thesis using steps_trans [OF 1 2] 3 by (rule rtranclp.rtrancl_into_rtrancl)
qed

lemma reach_steps: "emu_step\<^sup>*\<^sup>* s t \<Longrightarrow> emu_reach s \<Longrightarrow> emu_reach t"
  by (induction rule: rtranclp.induct) (auto intro: emu_next)

section \<open>An example run\<close>

text \<open>A started emulator, the same after fio has submitted one command, and after the FTL thread
  has accepted it.\<close>

definition bss_state :: emu_state where
  "bss_state = \<lparr>st_hcl = \<lparr>hcmd_base = 0, hcmd_queue = (\<lambda>_. zero_hcmd), hcmd_map = (\<lambda>_. 0)\<rparr>, st_tq = (\<lambda>_. blank_queue),
     st_fcl = blank_fcl, st_be = be_start, st_buf = blank_buffer,
     st_shm = \<lparr>shm_slots = (\<lambda>_. zero_cmd), shm_heads = (\<lambda>_. \<lparr>head_next = 0, head_prev = 0\<rparr>), shm_ctrl = 0\<rparr>,
     st_mem_base = 0, st_tmp_sq_index = 0, st_cmd_cnt = 0\<rparr>"

definition demo_boot :: "u8 list \<Rightarrow> emu_sys" where
  "demo_boot log = the (emu_main 0x10000000 0x60000000 bss_state (\<lambda>_. 7) (Some log))"

definition demo_submit :: "u8 list \<Rightarrow> io_u \<Rightarrow> emu_sys" where
  "demo_submit log io = (case fio_emussd_queue True False io (demo_fio, st_shm (sys_ftl (demo_boot log))) of
     Inr (_, _, h) \<Rightarrow> with_shm h (demo_boot log) | Inl _ \<Rightarrow> demo_boot log)"

definition demo_accept :: "u8 list \<Rightarrow> io_u \<Rightarrow> emu_sys" where
  "demo_accept log io = (demo_submit log io)\<lparr>sys_ftl := the (req_one (sys_ftl (demo_submit log io)))\<rparr>"

lemma demo_boot_ok:
  "emu_main 0x10000000 0x60000000 bss_state (\<lambda>_. 7) (Some log) = Some (demo_boot log)"
  "emu_ok (sys_ftl (demo_boot log)) (\<lambda>_. []) [] [] [] [0..<CMD_SLOT_NUM] []" "sys_be (demo_boot log) = Be_Idle" "sys_file (demo_boot log) = Some log"
  "hcmd_used (st_hcl (sys_ftl (demo_boot log))) = {}" "st_mem_base (sys_ftl (demo_boot log)) = align_base 0x10000000"
  using main_ok [of "0x10000000" "0x60000000" bss_state "\<lambda>_. 7" "Some log"] by (auto simp: demo_boot_def BE_init_def)

lemma demo_reach: "emu_reach (demo_boot log)"
  using emu_start [OF demo_boot_ok(1)] .

lemma demo_submit_ok:
  assumes "ddir_ops (io_ddir io) = Some ops"
  shows "emu_ok (sys_ftl (demo_submit log io)) (\<lambda>_. []) [] [] [] [1..<CMD_SLOT_NUM] [0]"
    and "cmd_payload (shm_slots (st_shm (sys_ftl (demo_submit log io))) 0) = (ops, ucast (io_offset io div 4096), ucast (io_xfer_buflen io))"
    and "hcmd_used (st_hcl (sys_ftl (demo_submit log io))) = {}" and "sys_be (demo_submit log io) = Be_Idle" and "sys_file (demo_submit log io) = Some log"
    and "sys_mem (demo_submit log io) = sys_mem (demo_boot log)" and "st_mem_base (sys_ftl (demo_submit log io)) = align_base 0x10000000"
    and "emu_reach (demo_submit log io)"
proof -
  have u: "[0..<CMD_SLOT_NUM] = 0 # [1..<CMD_SLOT_NUM]" using upt_conv_Cons [of 0 CMD_SLOT_NUM] by (simp add: CMD_SLOT_NUM_def del: upt_Suc)
  have r: "shm_repr (st_shm (sys_ftl (demo_boot log))) (0 # [1..<CMD_SLOT_NUM]) []" using demo_boot_ok(2) unfolding u by (simp add: emu_ok_def)
  have d: "\<not> fio_mu demo_fio" "eng_data demo_fio (io_file io) = Some \<lparr>shm_fd = 3, fed_shm_base = 0x7f0000000000\<rparr>"
    "base_ok (fed_shm_base \<lparr>shm_fd = 3, fed_shm_base = 0x7f0000000000\<rparr>)" "fio_ro_check True False io"
    using assms demo_base by (auto simp: demo_fio_def fio_ro_check_def ddir_ops_def)
  obtain h where h: "fio_emussd_queue True False io (demo_fio, st_shm (sys_ftl (demo_boot log))) = Inr (FIO_Q_COMPLETED, demo_fio\<lparr>fio_c := fio_c demo_fio + 1\<rparr>, h)"
    "shm_repr h [1..<CMD_SLOT_NUM] ([] @ [0])"
    "\<forall>i. cmd_payload (shm_slots h i) = (if i = 0 then (ops, ucast (io_offset io div 4096), ucast (io_xfer_buflen io)) else cmd_payload (shm_slots (st_shm (sys_ftl (demo_boot log))) i))"
    using queue_rw [OF r d assms] by blast
  then have s: "demo_submit log io = with_shm h (demo_boot log)" by (simp add: demo_submit_def)
  show "emu_ok (sys_ftl (demo_submit log io)) (\<lambda>_. []) [] [] [] [1..<CMD_SLOT_NUM] [0]"
    using ok_shm [OF demo_boot_ok(2) h(2)] by (simp add: s)
  show "cmd_payload (shm_slots (st_shm (sys_ftl (demo_submit log io))) 0) = (ops, ucast (io_offset io div 4096), ucast (io_xfer_buflen io))"
    using h(3) by (simp add: s)
  show "hcmd_used (st_hcl (sys_ftl (demo_submit log io))) = {}" "sys_be (demo_submit log io) = Be_Idle" "sys_file (demo_submit log io) = Some log"
    "sys_mem (demo_submit log io) = sys_mem (demo_boot log)" "st_mem_base (sys_ftl (demo_submit log io)) = align_base 0x10000000"
    using demo_boot_ok by (simp_all add: s)
  have "io_ddir io \<noteq> DDIR_TRIM" using assms by (auto simp: ddir_ops_def)
  then have "emu_step (demo_boot log) (with_shm h (demo_boot log))" using emu_step.fio_command [OF h(1)] d(2,3) by simp
  then show "emu_reach (demo_submit log io)" using demo_reach emu_next s by metis
qed

lemma demo_accept_ok:
  assumes "ddir_ops (io_ddir io) = Some ops"
  shows "\<exists>k. emu_ok (sys_ftl (demo_accept log io)) ((\<lambda>_. [])(HCE_CHECK_CACHE := [Some k])) [] [] [] ([1..<CMD_SLOT_NUM] @ [0]) [] \<and>
    hcmd_used (st_hcl (sys_ftl (demo_accept log io))) = {k} \<and> sys_be (demo_accept log io) = Be_Idle \<and> emu_reach (demo_accept log io) \<and>
    req_num (hcmd_at (sys_ftl (demo_accept log io)) k) = ucast (io_xfer_buflen io) div HOST_BLOCK_SIZE div 4 \<and>
    cpl_cnt (hcmd_at (sys_ftl (demo_accept log io)) k) = 0 \<and>
    op_code (hcmd_at (sys_ftl (demo_accept log io)) k) = (if ops = SHM_WRITE_OPS then HCE_WRITE else HCE_READ)"
proof -
  note s = demo_submit_ok [OF assms]
  have "hcmd_used (st_hcl (sys_ftl (demo_submit log io))) \<noteq> {..<HCMD_NUM}" using s(3) hcmd_some_free by simp
  from req_one_new [OF s(1) this] obtain s' k where s': "req_one (sys_ftl (demo_submit log io)) = Some s'"
    "emu_ok s' ((\<lambda>_. [])(HCE_CHECK_CACHE := [Some k])) [] [] [] ([1..<CMD_SLOT_NUM] @ [0]) []"
    "hcmd_used (st_hcl s') = insert k (hcmd_used (st_hcl (sys_ftl (demo_submit log io))))"
    "hcmd_queue (st_hcl s') = (hcmd_queue (st_hcl (sys_ftl (demo_submit log io))))(k := fill_hcmd (of_nat 0)
      (shm_slots (st_shm (sys_ftl (demo_submit log io))) 0) (st_cmd_cnt (sys_ftl (demo_submit log io)) + 1) (hcmd_at (sys_ftl (demo_submit log io)) k))"
    by auto
  have e: "demo_accept log io = (demo_submit log io)\<lparr>sys_ftl := s'\<rparr>" using s'(1) by (simp add: demo_accept_def)
  have "emu_reach (demo_accept log io)" using emu_next [OF s(8)] emu_step.ftl_request [OF s'(1)] e by simp
  moreover have "ops = SHM_WRITE_OPS \<or> ops = SHM_READ_OPS" using assms by (auto simp: ddir_ops_def split: fio_ddir.splits)
  moreover have "SHM_WRITE_OPS \<noteq> SHM_READ_OPS" by (simp add: SHM_WRITE_OPS_def SHM_READ_OPS_def)
  ultimately show ?thesis using s' s(2,3,4) by (intro exI [of _ k]) (auto simp: e fill_hcmd_fields cmd_payload_def)
qed

end
