(* ===== verification/Emu_Progress.thy ===== *)
theory Emu_Progress
  imports Emu_System
begin

text \<open>
  How a command moves through the emulator. The specification is a state diagram: from each task
  queue a command goes to one other queue, to the back end, or it is reclaimed. Every handler moves
  its command along the diagram and leaves all others alone; a poll of a queue moves exactly the
  commands in it; hence a command of one page moves forward in every round of the FTL thread,
  whatever other commands there are and whatever arrives meanwhile, until its entry is reclaimed.
\<close>

section \<open>The state diagram\<close>

datatype destination = ToQueue host_cmd_entry_status | ToFlash | Reclaimed | Lost

definition next_stage :: "u32 \<Rightarrow> host_cmd_entry_status \<Rightarrow> destination" where
  "next_stage op st = (case st of
     HCE_CHECK_CACHE \<Rightarrow> if op = HCE_WRITE then ToQueue HCE_DATAMOVED else if op = HCE_READ then ToQueue HCE_TO_SQ else Lost
   | HCE_TO_SQ \<Rightarrow> ToFlash
   | HCE_DATAMOVED \<Rightarrow> if op = HCE_READ then ToQueue HCE_FINISH else ToQueue HCE_TO_SQ
   | HCE_FROM_CQ \<Rightarrow> if op = HCE_WRITE then ToQueue HCE_FINISH else ToQueue HCE_DATAMOVED
   | HCE_FINISH \<Rightarrow> Reclaimed
   | _ \<Rightarrow> Lost)"

lemma next_not_same: "next_stage op st = ToQueue st' \<Longrightarrow> st' \<noteq> st \<and> st' \<in> task_status"
  by (auto simp: next_stage_def task_status_def split: host_cmd_entry_status.splits if_splits)

text \<open>What handling the command \<open>k\<close> from queue \<open>st\<close> does: \<open>f\<close>, \<open>reg\<close>
  are the queues and the registered requests before, \<open>f'\<close>, \<open>reg'\<close> after.\<close>

definition moved ::
  "destination \<Rightarrow> nat \<Rightarrow> emu_state \<Rightarrow> (host_cmd_entry_status \<Rightarrow> hcmd_ptr list) \<Rightarrow> nat list \<Rightarrow>
   emu_state \<Rightarrow> (host_cmd_entry_status \<Rightarrow> hcmd_ptr list) \<Rightarrow> nat list \<Rightarrow> bool" where
  "moved d k s f reg s' f' reg' \<longleftrightarrow>
     (case d of
        ToQueue st \<Rightarrow> f' = f(st := f st @ [Some k]) \<and> reg' = reg
      | ToFlash \<Rightarrow> f' = f \<and> (\<exists>i. reg' = reg @ [i] \<and> sq_hcmd (st_be s') i = Some k)
      | _ \<Rightarrow> f' = f \<and> reg' = reg)"

definition cmd_frame :: "nat set \<Rightarrow> emu_state \<Rightarrow> emu_state \<Rightarrow> bool" where
  "cmd_frame K s s' \<longleftrightarrow> (\<forall>j. j \<notin> K \<longrightarrow> hcmd_at s' j = hcmd_at s j \<and> (j \<in> hcmd_used (st_hcl s') \<longleftrightarrow> j \<in> hcmd_used (st_hcl s)))"

definition keeps_cmd :: "nat \<Rightarrow> emu_state \<Rightarrow> emu_state \<Rightarrow> bool" where
  "keeps_cmd k s s' \<longleftrightarrow> k \<in> hcmd_used (st_hcl s') \<and> op_code (hcmd_at s' k) = op_code (hcmd_at s k) \<and>
     req_num (hcmd_at s' k) = req_num (hcmd_at s k) \<and> cpl_cnt (hcmd_at s' k) = cpl_cnt (hcmd_at s k)"

text \<open>There is a submission slot for every command that can ask for one: requests in the back end
  belong to different commands, and there are no more entries than slots.\<close>

lemma sq_slot_available:
  assumes "emu_ok s f reg busy cmp fs rs" and "loose_in s f (reg @ busy @ cmp) p"
  shows "sq_used 1 (st_fcl s) \<noteq> {..<HW_QUEUE_DEPTH}"
proof
  assume full: "sq_used 1 (st_fcl s) = {..<HW_QUEUE_DEPTH}"
  let ?ids = "reg @ busy @ cmp"
  have ow: "own_inv (hcmd_used (st_hcl s)) (places s f ?ids)" and sl: "slots_ok s ?ids" using assms(1) by (simp_all add: emu_ok_def)
  have "length ?ids < HCMD_NUM"
    using own_room [OF ow assms(2) hcmd_used_bound, of HCE_WAIT_CQ] by (simp add: places_def)
  moreover have "HW_QUEUE_DEPTH = card (set (map (sq_slot (st_be s)) ?ids))"
    using sl full unfolding slots_ok_def by (metis card_lessThan)
  moreover have "\<dots> \<le> length ?ids" using card_length [of "map (sq_slot (st_be s)) ?ids"] by simp
  ultimately show False by (simp add: HCMD_NUM_def HW_QUEUE_DEPTH_def)
qed

lemma keeps_upd: "k \<in> hcmd_used (st_hcl s) \<Longrightarrow> st_hcl s' = st_hcl (upd_hcmd k g s) \<Longrightarrow>
    (\<And>e. op_code (g e) = op_code e \<and> req_num (g e) = req_num e \<and> cpl_cnt (g e) = cpl_cnt e) \<Longrightarrow> keeps_cmd k s s' \<and> cmd_frame {k} s s'"
  unfolding keeps_cmd_def cmd_frame_def by (metis upd_hcmd_simps(7,9) singletonI)

lemma sent_hcmd:
  assumes "sent_entry s k op junk i f2 sq" and "k < HCMD_NUM"
  shows "HCL_get_hcmd_entry_addr (sq_field sq_hcmd_index (sq_entry sq)) = Some k"
proof -
  have k: "k < HCMD_NUM" and u: "unat (of_nat k :: u32) = k" using assms(2) unat_of_nat_u32 [of k] by (auto simp: HCMD_NUM_def)
  have "unat i < HW_QUEUE_DEPTH"
    using assms(1) by (auto simp: sent_entry_def FCL_set_SQ_entry_def Let_def split: if_splits)
  then have "sq_field sq_hcmd_index (hw_SQ f2 1 (unat i)) = take_bit 8 (of_nat k)"
    using assms(1) set_SQ_entry_any [of "fake_ppa 20 junk" i "st_mem_base s" "of_nat k" 0 op 0 "snd (FCL_get_free_SQ_entry 1 (st_fcl s))"]
    by (auto simp: sent_entry_def TOTAL_CHANNEL_def)
  then show ?thesis using assms(1) u by (simp add: sent_entry_def HCL_get_hcmd_entry_addr_def hcmd_index_take [OF k])
qed

text \<open>The handlers follow the diagram.\<close>

lemma handler_moves:
  assumes ok: "emu_ok s f reg busy cmp fs rs" and lo: "loose_in s f (reg @ busy @ cmp) (Some k)" and st: "st \<in> task_status"
  defines "d \<equiv> next_stage (op_code (hcmd_at s k)) st"
  shows "\<exists>h r s' f' reg'. tq_func junk st = Some h \<and> h (Some k) s = Some (r, s') \<and> emu_ok s' f' reg' busy cmp fs rs \<and>
    moved d k s f reg s' f' reg' \<and> cmd_frame {k} s s' \<and> (d = Reclaimed \<or> keeps_cmd k s s') \<and>
    (d = Reclaimed \<longrightarrow> k \<notin> hcmd_used (st_hcl s')) \<and>
    (\<forall>j \<in> set (reg @ busy @ cmp). emu_sqs (st_be s') j = emu_sqs (st_be s) j)"
proof -
  have k: "k \<in> hcmd_used (st_hcl s)" and kn: "k < HCMD_NUM" using loose_valid [OF lo] by auto
  consider (c) "st = HCE_CHECK_CACHE" | (t) "st = HCE_TO_SQ" | (m) "st = HCE_DATAMOVED" | (q) "st = HCE_FROM_CQ" | (e) "st = HCE_FINISH"
    using st by (auto simp: task_status_def)
  then show ?thesis
  proof cases
    case c
    from checkcache_ok [OF ok lo] obtain s' g where s': "FTL_handle_checkcache (Some k) s = Some (SUCCESS, s')"
      "emu_ok s' (if op_code (hcmd_at s k) = HCE_WRITE then f(HCE_DATAMOVED := f HCE_DATAMOVED @ [Some k])
        else if op_code (hcmd_at s k) = HCE_READ then f(HCE_TO_SQ := f HCE_TO_SQ @ [Some k]) else f) reg busy cmp fs rs"
      "st_hcl s' = st_hcl (upd_hcmd k g s)" "\<forall>e. op_code (g e) = op_code e \<and> req_num (g e) = req_num e \<and> cpl_cnt (g e) = cpl_cnt e"
      "st_be s' = st_be s" by blast
    have "tq_func junk st = Some FTL_handle_checkcache" by (simp add: tq_func_def c)
    moreover have "keeps_cmd k s s' \<and> cmd_frame {k} s s'" using keeps_upd [OF k s'(3)] s'(4) by blast
    moreover note s'(1,2)
    moreover have "moved d k s f reg s' (if op_code (hcmd_at s k) = HCE_WRITE then f(HCE_DATAMOVED := f HCE_DATAMOVED @ [Some k])
        else if op_code (hcmd_at s k) = HCE_READ then f(HCE_TO_SQ := f HCE_TO_SQ @ [Some k]) else f) reg"
      by (simp add: d_def c next_stage_def moved_def)
    moreover have "d \<noteq> Reclaimed" by (simp add: d_def c next_stage_def)
    ultimately show ?thesis using s'(5) by metis
  next
    case t
    from tosq_ok_sent [OF ok lo sq_slot_available [OF ok lo], of junk] obtain s' i sq where
      s': "FTL_handle_tosq junk (Some k) s = Some (SUCCESS, s')" "emu_ok s' f (reg @ [malloc_next (st_be s)]) busy cmp fs rs"
      "sent_entry s k (op_code (hcmd_at s k)) junk i (st_fcl s') sq" "emu_sqs (st_be s') = (emu_sqs (st_be s))(malloc_next (st_be s) \<mapsto> sq)"
      "st_hcl s' = st_hcl (upd_hcmd k (\<lambda>e. e\<lparr>buf_cnt := 1, send_sq_cnt := 1\<rparr>) s)" by blast
    have "tq_func junk st = Some (FTL_handle_tosq junk)" by (simp add: tq_func_def t)
    moreover have "keeps_cmd k s s' \<and> cmd_frame {k} s s'" using keeps_upd [OF k s'(5)] by simp
    moreover have "malloc_next (st_be s) \<notin> set (reg @ busy @ cmp)" using ok by (auto simp: emu_ok_def be_repr_def)
    then have "\<forall>j \<in> set (reg @ busy @ cmp). emu_sqs (st_be s') j = emu_sqs (st_be s) j" using s'(4) by auto
    moreover have "sq_hcmd (st_be s') (malloc_next (st_be s)) = Some k"
      using sent_hcmd [OF s'(3)] kn by (simp add: sq_hcmd_def s'(4))
    then have "moved d k s f reg s' f (reg @ [malloc_next (st_be s)])" by (simp add: d_def t next_stage_def moved_def)
    moreover have "d \<noteq> Reclaimed" by (simp add: d_def t next_stage_def)
    ultimately show ?thesis using s'(1,2) by blast
  next
    case m
    from datamove_ok [OF ok lo] obtain s' g where s': "FTL_handle_datamove (Some k) s = Some (SUCCESS, s')"
      "emu_ok s' (f((if op_code (hcmd_at s k) = HCE_READ then HCE_FINISH else HCE_TO_SQ) :=
        f (if op_code (hcmd_at s k) = HCE_READ then HCE_FINISH else HCE_TO_SQ) @ [Some k])) reg busy cmp fs rs"
      "st_hcl s' = st_hcl (upd_hcmd k g s)" "\<forall>e. op_code (g e) = op_code e \<and> req_num (g e) = req_num e \<and> cpl_cnt (g e) = cpl_cnt e"
      "st_be s' = st_be s" by blast
    have "tq_func junk st = Some FTL_handle_datamove" by (simp add: tq_func_def m)
    moreover have "keeps_cmd k s s' \<and> cmd_frame {k} s s'" using keeps_upd [OF k s'(3)] s'(4) by blast
    moreover have "moved d k s f reg s' (f((if op_code (hcmd_at s k) = HCE_READ then HCE_FINISH else HCE_TO_SQ) :=
        f (if op_code (hcmd_at s k) = HCE_READ then HCE_FINISH else HCE_TO_SQ) @ [Some k])) reg"
      by (simp add: d_def m next_stage_def moved_def)
    moreover have "d \<noteq> Reclaimed" by (simp add: d_def m next_stage_def)
    ultimately show ?thesis using s'(1,2,5) by metis
  next
    case q
    from fromcq_ok [OF ok lo] obtain s' where s': "FTL_handle_fromcq (Some k) s = Some (SUCCESS, s')"
      "emu_ok s' (f((if op_code (hcmd_at s k) = HCE_WRITE then HCE_FINISH else HCE_DATAMOVED) :=
        f (if op_code (hcmd_at s k) = HCE_WRITE then HCE_FINISH else HCE_DATAMOVED) @ [Some k])) reg busy cmp fs rs"
      "st_hcl s' = st_hcl (upd_hcmd k (\<lambda>e. e\<lparr>status := if op_code (hcmd_at s k) = HCE_WRITE then HCE_FINISH else HCE_DATAMOVED\<rparr>) s)"
      "st_be s' = st_be s" by blast
    have "tq_func junk st = Some FTL_handle_fromcq" by (simp add: tq_func_def q)
    moreover have "keeps_cmd k s s' \<and> cmd_frame {k} s s'" using keeps_upd [OF k s'(3)] by simp
    moreover have "moved d k s f reg s' (f((if op_code (hcmd_at s k) = HCE_WRITE then HCE_FINISH else HCE_DATAMOVED) :=
        f (if op_code (hcmd_at s k) = HCE_WRITE then HCE_FINISH else HCE_DATAMOVED) @ [Some k])) reg"
      by (simp add: d_def q next_stage_def moved_def)
    moreover have "d \<noteq> Reclaimed" by (simp add: d_def q next_stage_def)
    ultimately show ?thesis using s'(1,2,4) by metis
  next
    case e
    from finish_ok [OF ok lo] obtain s' where s': "FTL_handle_finish (Some k) s = Some (SUCCESS, s')" "emu_ok s' f reg busy cmp fs rs"
      "hcmd_used (st_hcl s') = hcmd_used (st_hcl s) - {k}" "hcmd_queue (st_hcl s') = (hcmd_queue (st_hcl s))(k := zero_hcmd)"
      "st_be s' = st_be s" by blast
    have "tq_func junk st = Some FTL_handle_finish" by (simp add: tq_func_def e)
    moreover have "cmd_frame {k} s s'" using s'(3,4) by (simp add: cmd_frame_def)
    moreover have "moved d k s f reg s' f reg" "d = Reclaimed" by (simp_all add: d_def e next_stage_def moved_def)
    moreover have "k \<notin> hcmd_used (st_hcl s')" using s'(3) by simp
    ultimately show ?thesis using s'(1,2,5) by metis
  qed
qed


section \<open>Following one command\<close>

datatype place = InQueue host_cmd_entry_status | AtFlash | Completed | Nowhere | Gone

text \<open>\<open>Nowhere\<close>: in use, but in no queue and no request. \<open>Gone\<close>: reclaimed.\<close>

definition cmd_in ::
  "place \<Rightarrow> nat \<Rightarrow> emu_state \<Rightarrow> (host_cmd_entry_status \<Rightarrow> hcmd_ptr list) \<Rightarrow> nat list \<Rightarrow> nat list \<Rightarrow> nat list \<Rightarrow> bool" where
  "cmd_in P k s f reg busy cmp \<longleftrightarrow>
     (case P of
        InQueue st \<Rightarrow> st \<in> task_status \<and> Some k \<in> set (f st)
      | AtFlash \<Rightarrow> Some k \<in> set (map (sq_hcmd (st_be s)) (reg @ busy))
      | Completed \<Rightarrow> Some k \<in> set (map (sq_hcmd (st_be s)) cmp)
      | Nowhere \<Rightarrow> loose_in s f (reg @ busy @ cmp) (Some k)
      | Gone \<Rightarrow> k \<notin> hcmd_used (st_hcl s))"

definition dest_place :: "destination \<Rightarrow> place" where
  "dest_place d = (case d of ToQueue st \<Rightarrow> InQueue st | ToFlash \<Rightarrow> AtFlash | Reclaimed \<Rightarrow> Gone | Lost \<Rightarrow> Nowhere)"

definition cmd_data :: "emu_state \<Rightarrow> nat \<Rightarrow> u32 \<times> u32 \<times> u32" where
  "cmd_data s k = (op_code (hcmd_at s k), req_num (hcmd_at s k), cpl_cnt (hcmd_at s k))"

lemma cmd_in_used: "emu_ok s f reg busy cmp fs rs \<Longrightarrow> cmd_in P k s f reg busy cmp \<Longrightarrow> P \<noteq> Gone \<Longrightarrow> k \<in> hcmd_used (st_hcl s)"
proof -
  assume ok: "emu_ok s f reg busy cmp fs rs" and c: "cmd_in P k s f reg busy cmp" and P: "P \<noteq> Gone"
  have o: "\<And>st. set (places s f (reg @ busy @ cmp) st) \<subseteq> Some ` hcmd_used (st_hcl s)"
    using ok by (auto simp: emu_ok_def own_inv_def)
  show ?thesis
  proof (cases P)
    case (InQueue st)
    then have "Some k \<in> set (places s f (reg @ busy @ cmp) st)" using c by (auto simp: cmd_in_def places_at task_status_wait)
    then show ?thesis using o by blast
  next
    case AtFlash
    then have "Some k \<in> set (places s f (reg @ busy @ cmp) HCE_WAIT_CQ)" using c by (auto simp: cmd_in_def places_def)
    then show ?thesis using o by blast
  next
    case Completed
    then have "Some k \<in> set (places s f (reg @ busy @ cmp) HCE_WAIT_CQ)" using c by (auto simp: cmd_in_def places_def)
    then show ?thesis using o by blast
  next
    case Nowhere
    then show ?thesis using c by (auto simp: cmd_in_def loose_def)
  qed (use P in simp)
qed

lemma poll_one_moves:
  assumes "emu_ok s f reg busy cmp fs rs" and "st \<in> task_status" and "f st = p # ps"
  shows "\<exists>k s' f' reg'. p = Some k \<and> poll_one junk st s = Some s' \<and> emu_ok s' f' reg' busy cmp fs rs \<and>
    moved (next_stage (op_code (hcmd_at s k)) st) k s (f(st := ps)) reg s' f' reg' \<and> cmd_frame {k} s s' \<and>
    (if next_stage (op_code (hcmd_at s k)) st = Reclaimed then k \<notin> hcmd_used (st_hcl s') else keeps_cmd k s s') \<and>
    (\<forall>j \<in> set (reg @ busy @ cmp). emu_sqs (st_be s') j = emu_sqs (st_be s) j)"
proof -
  obtain tq' where t: "FTL_task_queue_remove_head st (st_tq s) = (p, tq')" "emu_ok (s\<lparr>st_tq := tq'\<rparr>) (f(st := ps)) reg busy cmp fs rs"
    "loose_in (s\<lparr>st_tq := tq'\<rparr>) (f(st := ps)) (reg @ busy @ cmp) p" using ok_take [OF assms] by blast
  obtain k where p: "p = Some k" using loose_valid [OF t(3)] by blast
  let ?s = "s\<lparr>st_tq := tq'\<rparr>" and ?d = "next_stage (op_code (hcmd_at s k)) st"
  obtain h r s' f' reg' where h: "tq_func junk st = Some h" "h (Some k) ?s = Some (r, s')" "emu_ok s' f' reg' busy cmp fs rs"
    "moved ?d k ?s (f(st := ps)) reg s' f' reg'" "cmd_frame {k} ?s s'" "?d = Reclaimed \<or> keeps_cmd k ?s s'"
    "?d = Reclaimed \<longrightarrow> k \<notin> hcmd_used (st_hcl s')" "\<forall>j \<in> set (reg @ busy @ cmp). emu_sqs (st_be s') j = emu_sqs (st_be ?s) j"
    using handler_moves [OF t(2) t(3) [unfolded p] assms(2), of junk] by auto
  have "poll_one junk st s = Some s'" using t(1) h(1,2) by (simp add: poll_one_def p)
  moreover have "moved ?d k s (f(st := ps)) reg s' f' reg'" using h(4) by (simp add: moved_def)
  moreover have "cmd_frame {k} s s'" "keeps_cmd k ?s s' = keeps_cmd k s s'" using h(5) by (simp_all add: cmd_frame_def keeps_cmd_def)
  ultimately show ?thesis using p h(3,6,7,8)
    by (intro exI [of _ k] exI [of _ s'] exI [of _ f'] exI [of _ reg']) auto
qed

lemma moved_queue: "moved (next_stage op st) k s (f(st := ps)) reg s' f' reg' \<Longrightarrow> f' st = ps"
  using next_not_same [of op st] by (fastforce simp: moved_def split: destination.splits)


lemma sq_hcmd_cong: "emu_sqs b' j = emu_sqs b j \<Longrightarrow> sq_hcmd b' j = sq_hcmd b j"
  by (simp add: sq_hcmd_def)

lemma moved_grows:
  assumes "moved d p s f0 reg s' f' reg'"
  shows "set (f0 st) \<subseteq> set (f' st)" and "set (f' st) \<subseteq> insert (Some p) (set (f0 st))"
    and "\<exists>is. reg' = reg @ is \<and> (\<forall>i \<in> set is. sq_hcmd (st_be s') i = Some p)"
  using assms by (auto simp: moved_def split: destination.splits if_splits)

text \<open>Handling another command leaves a command where it is.\<close>

lemma track_other:
  assumes m: "moved d p s f0 reg s' f' reg'" and "p \<noteq> k" and fr: "cmd_frame {p} s s'"
    and sq: "\<forall>j \<in> set (reg @ busy @ cmp). emu_sqs (st_be s') j = emu_sqs (st_be s) j"
    and c: "cmd_in P k s f0 reg busy cmp"
  shows "cmd_in P k s' f' reg' busy cmp" and "cmd_data s' k = cmd_data s k"
proof -
  have kf: "hcmd_at s' k = hcmd_at s k" "k \<in> hcmd_used (st_hcl s') \<longleftrightarrow> k \<in> hcmd_used (st_hcl s)"
    using fr assms(2) by (auto simp: cmd_frame_def)
  then show "cmd_data s' k = cmd_data s k" by (simp add: cmd_data_def)
  obtain "is" where i: "reg' = reg @ is" "\<forall>i \<in> set is. sq_hcmd (st_be s') i = Some p" using moved_grows(3) [OF m] by blast
  have h: "sq_hcmd (st_be s') j = sq_hcmd (st_be s) j" if "j \<in> set (reg @ busy @ cmp)" for j
    using sq that by (intro sq_hcmd_cong) blast
  have e: "set (map (sq_hcmd (st_be s')) xs) = set (map (sq_hcmd (st_be s)) xs)" if "set xs \<subseteq> set (reg @ busy @ cmp)" for xs
    using h that unfolding set_map by (intro image_cong) auto
  show "cmd_in P k s' f' reg' busy cmp"
  proof (cases P)
    case (InQueue st)
    then show ?thesis using c moved_grows(1) [OF m, of st] by (auto simp: cmd_in_def)
  next
    case AtFlash
    have "set (reg @ busy) \<subseteq> set (reg @ busy @ cmp)" by auto
    note e' = e [OF this]
    have "Some k \<in> set (map (sq_hcmd (st_be s)) (reg @ busy))" using c unfolding AtFlash cmd_in_def place.case .
    then have "Some k \<in> set (map (sq_hcmd (st_be s')) (reg @ busy))" unfolding e' .
    then show ?thesis using AtFlash i(1) by (auto simp: cmd_in_def)
  next
    case Completed
    have i': "set cmp \<subseteq> set (reg @ busy @ cmp)" by auto
    from c show ?thesis unfolding Completed cmd_in_def place.case e [OF i'] .
  next
    case Nowhere
    have l: "Some k \<in> Some ` hcmd_used (st_hcl s')" using c Nowhere kf(2) by (auto simp: cmd_in_def loose_def)
    have n: "Some k \<notin> set (places s f0 (reg @ busy @ cmp) st)" for st using c Nowhere by (auto simp: cmd_in_def loose_def)
    have "Some k \<notin> set (places s' f' (reg' @ busy @ cmp) st)" for st
    proof (cases "st = HCE_WAIT_CQ")
      case True
      have "Some k \<notin> set (map (sq_hcmd (st_be s)) (reg @ busy @ cmp))" using n [of HCE_WAIT_CQ] by (simp add: places_def)
      then have "Some k \<notin> set (map (sq_hcmd (st_be s')) (reg @ busy @ cmp))" unfolding e [OF subset_refl] .
      then show ?thesis using True i assms(2) by (auto simp: places_def)
    next
      case False
      then show ?thesis using n [of st] moved_grows(2) [OF m, of st] assms(2) by (auto simp: places_at)
    qed
    then show ?thesis using l Nowhere by (simp add: cmd_in_def loose_def)
  next
    case Gone
    then show ?thesis using c kf(2) by (simp add: cmd_in_def)
  qed
qed

text \<open>The handled command goes where the diagram says.\<close>

lemma track_self:
  assumes m: "moved d k s (f(st := ps)) reg s' f' reg'" and ok': "emu_ok s' f' reg' busy cmp fs rs"
    and ok: "emu_ok s f reg busy cmp fs rs" and q: "f st = Some k # ps" "st \<in> task_status"
    and d: "d = next_stage (op_code (hcmd_at s k)) st"
    and u: "if d = Reclaimed then k \<notin> hcmd_used (st_hcl s') else keeps_cmd k s s'"
    and sq: "\<forall>j \<in> set (reg @ busy @ cmp). emu_sqs (st_be s') j = emu_sqs (st_be s) j"
  shows "cmd_in (dest_place d) k s' f' reg' busy cmp" and "d \<noteq> Reclaimed \<Longrightarrow> cmd_data s' k = cmd_data s k"
proof -
  show "d \<noteq> Reclaimed \<Longrightarrow> cmd_data s' k = cmd_data s k" using u by (simp add: keeps_cmd_def cmd_data_def)
  have w: "st \<noteq> HCE_WAIT_CQ" using q(2) by (rule task_status_wait)
  have lo: "loose_in s (f(st := ps)) (reg @ busy @ cmp) (Some k)"
  proof -
    have ow: "own_inv (hcmd_used (st_hcl s)) (places s f (reg @ busy @ cmp))" using ok by (simp add: emu_ok_def)
    have "places s f (reg @ busy @ cmp) st = Some k # ps" using q w by (simp add: places_at)
    from own_take(2) [OF ow this] show ?thesis using w by (simp add: places_upd)
  qed
  show "cmd_in (dest_place d) k s' f' reg' busy cmp"
  proof (cases d)
    case (ToQueue st')
    then show ?thesis using m next_not_same [OF d [symmetric, unfolded ToQueue]] by (simp add: dest_place_def cmd_in_def moved_def)
  next
    case ToFlash
    then show ?thesis using m by (auto simp: dest_place_def cmd_in_def moved_def)
  next
    case Reclaimed
    then show ?thesis using u by (simp add: dest_place_def cmd_in_def)
  next
    case Lost
    have k: "k \<in> hcmd_used (st_hcl s')" using u Lost by (simp add: keeps_cmd_def)
    have h: "map (sq_hcmd (st_be s')) (reg @ busy @ cmp) = map (sq_hcmd (st_be s)) (reg @ busy @ cmp)"
      using sq by (intro map_cong [OF refl] sq_hcmd_cong) blast
    have "f' = f(st := ps)" "reg' = reg" using m Lost by (simp_all add: moved_def)
    then have "places s' f' (reg' @ busy @ cmp) = places s (f(st := ps)) (reg @ busy @ cmp)"
      by (simp only: places_def h)
    then show ?thesis using lo k Lost by (simp add: dest_place_def cmd_in_def loose_def)
  qed
qed


text \<open>A command is in one place only.\<close>

lemma place_unique:
  assumes ok: "emu_ok s f reg busy cmp fs rs" and st: "st \<in> task_status" and k: "Some k \<in> set (f st)" and c: "cmd_in P k s f reg busy cmp"
  shows "P = InQueue st"
proof -
  let ?g = "places s f (reg @ busy @ cmp)"
  have o: "own_inv (hcmd_used (st_hcl s)) ?g" using ok by (simp add: emu_ok_def)
  have g: "Some k \<in> set (?g st)" using k task_status_wait [OF st] by (simp add: places_at)
  have u: "k \<in> hcmd_used (st_hcl s)" using o g by (auto simp: own_inv_def)
  have one: "st' = st" if "Some k \<in> set (?g st')" for st'
  proof (rule ccontr)
    assume "st' \<noteq> st"
    then have "set (?g st') \<inter> set (?g st) = {}" using o unfolding own_inv_def by blast
    then show False using g that by blast
  qed
  show ?thesis
  proof (cases P)
    case (InQueue st')
    then have "Some k \<in> set (?g st')" using c task_status_wait by (auto simp: cmd_in_def places_at)
    then show ?thesis using one InQueue by simp
  next
    case AtFlash
    then have "Some k \<in> set (?g HCE_WAIT_CQ)" using c by (auto simp: cmd_in_def places_def)
    then show ?thesis using one task_status_wait [OF st] by auto
  next
    case Completed
    then have "Some k \<in> set (?g HCE_WAIT_CQ)" using c by (auto simp: cmd_in_def places_def)
    then show ?thesis using one task_status_wait [OF st] by auto
  next
    case Nowhere
    then show ?thesis using c g by (auto simp: cmd_in_def loose_def)
  next
    case Gone
    then show ?thesis using c u by (simp add: cmd_in_def)
  qed
qed

lemma cmd_in_tl:
  assumes "cmd_in P k s f reg busy cmp" and "f st = p # ps" and "p \<noteq> Some k"
  shows "cmd_in P k s (f(st := ps)) reg busy cmp"
proof (cases P)
  case Nowhere
  then have l: "loose_in s f (reg @ busy @ cmp) (Some k)" using assms(1) by (simp add: cmd_in_def)
  have "set (places s (f(st := ps)) (reg @ busy @ cmp) st') \<subseteq> set (places s f (reg @ busy @ cmp) st')" for st'
    using assms(2) by (auto simp: places_def)
  then show ?thesis using l Nowhere by (auto simp: cmd_in_def loose_def)
qed (use assms in \<open>auto simp: cmd_in_def\<close>)

section \<open>Polling\<close>

text \<open>Where a poll of queue \<open>st\<close> takes a command.\<close>

definition poll_place :: "u32 \<Rightarrow> host_cmd_entry_status \<Rightarrow> place \<Rightarrow> place" where
  "poll_place op st P = (if P = InQueue st then dest_place (next_stage op st) else P)"

definition tracked :: "nat \<Rightarrow> place \<Rightarrow> u32 \<times> u32 \<times> u32 \<Rightarrow> emu_state \<Rightarrow>
    (host_cmd_entry_status \<Rightarrow> hcmd_ptr list) \<Rightarrow> nat list \<Rightarrow> nat list \<Rightarrow> nat list \<Rightarrow> bool" where
  "tracked k P dat s f reg busy cmp \<longleftrightarrow> cmd_in P k s f reg busy cmp \<and> (P = Gone \<or> cmd_data s k = dat)"

lemma dest_not_same: "dest_place (next_stage op st) \<noteq> InQueue st"
  using next_not_same [of op st] by (auto simp: dest_place_def split: destination.splits)

lemma poll_one_tracks:
  assumes ok: "emu_ok s f reg busy cmp fs rs" and st: "st \<in> task_status" and q: "f st = p # ps" and tr: "tracked k P dat s f reg busy cmp"
  shows "\<exists>s' f' reg'. poll_one junk st s = Some s' \<and> emu_ok s' f' reg' busy cmp fs rs \<and> f' st = ps \<and>
    tracked k (if p = Some k \<and> P = InQueue st then poll_place (fst dat) st P else P) dat s' f' reg' busy cmp"
proof -
  obtain k' s' f' reg' where m: "p = Some k'" "poll_one junk st s = Some s'" "emu_ok s' f' reg' busy cmp fs rs"
    "moved (next_stage (op_code (hcmd_at s k')) st) k' s (f(st := ps)) reg s' f' reg'" "cmd_frame {k'} s s'"
    "if next_stage (op_code (hcmd_at s k')) st = Reclaimed then k' \<notin> hcmd_used (st_hcl s') else keeps_cmd k' s s'"
    "\<forall>j \<in> set (reg @ busy @ cmp). emu_sqs (st_be s') j = emu_sqs (st_be s) j"
    using poll_one_moves [where f = f and st = st, OF ok st q, of junk] by blast
  have f': "f' st = ps" using moved_queue [OF m(4)] .
  show ?thesis
  proof (cases "k' = k")
    case True
    have P: "P = InQueue st"
      using tr ok q m(1) True unfolding tracked_def by (intro place_unique [OF ok st]) auto
    have d: "cmd_data s k = dat" using tr P by (simp add: tracked_def)
    then have op: "op_code (hcmd_at s k) = fst dat" by (auto simp: cmd_data_def)
    have q': "f st = Some k # ps" using q m(1) True by simp
    note self = track_self [OF m(4) [unfolded True] m(3) ok q' st refl m(6) [unfolded True] m(7)]
    have "tracked k (dest_place (next_stage (fst dat) st)) dat s' f' reg' busy cmp"
      using self d by (auto simp: tracked_def op dest_place_def split: destination.splits)
    then show ?thesis using m(1,2,3) f' True P by (intro exI [of _ s'] exI [of _ f'] exI [of _ reg']) (simp add: poll_place_def)
  next
    case False
    have c: "cmd_in P k s (f(st := ps)) reg busy cmp"
      using tr q m(1) False by (intro cmd_in_tl [of P k s f reg busy cmp st p ps]) (simp_all add: tracked_def)
    note o = track_other [OF m(4) False m(5,7) c]
    have "tracked k P dat s' f' reg' busy cmp" using o tr by (simp add: tracked_def)
    then show ?thesis using m(1,2,3) f' False by (intro exI [of _ s'] exI [of _ f'] exI [of _ reg']) simp
  qed
qed

lemma poll_queue_tracks:
  assumes "emu_ok s f reg busy cmp fs rs" and "st \<in> task_status" and "n \<le> length (f st)" and "tracked k P dat s f reg busy cmp"
  shows "\<exists>s' f' reg'. poll_queue junk st n s = Some s' \<and> emu_ok s' f' reg' busy cmp fs rs \<and>
    tracked k (if Some k \<in> set (take n (f st)) then poll_place (fst dat) st P else P) dat s' f' reg' busy cmp"
  using assms
proof (induction n arbitrary: s f reg P)
  case 0
  then show ?case by auto
next
  case (Suc n)
  then obtain p ps where q: "f st = p # ps" by (cases "f st") auto
  let ?P = "if p = Some k \<and> P = InQueue st then poll_place (fst dat) st P else P"
  obtain s1 f1 reg1 where s1: "poll_one junk st s = Some s1" "emu_ok s1 f1 reg1 busy cmp fs rs" "f1 st = ps"
    "tracked k ?P dat s1 f1 reg1 busy cmp"
    using poll_one_tracks [where f = f, OF Suc.prems(1,2) q Suc.prems(4), of junk] by blast
  have n: "n \<le> length (f1 st)" using Suc.prems(3) q s1(3) by simp
  obtain s2 f2 reg2 where s2: "poll_queue junk st n s1 = Some s2" "emu_ok s2 f2 reg2 busy cmp fs rs"
    "tracked k (if Some k \<in> set (take n (f1 st)) then poll_place (fst dat) st ?P else ?P) dat s2 f2 reg2 busy cmp"
    using Suc.IH [OF s1(2) Suc.prems(2) n s1(4)] by blast
  have e: "(if Some k \<in> set (take n (f1 st)) then poll_place (fst dat) st ?P else ?P) =
      (if Some k \<in> set (take (Suc n) (f st)) then poll_place (fst dat) st P else P)"
    using q s1(3) dest_not_same [of "fst dat" st] by (auto simp: poll_place_def)
  have "poll_queue junk st (Suc n) s = Some s2" using s1(1) s2(1) by simp
  then show ?case using s2(2,3) unfolding e by blast
qed


lemma ok_cnt: "emu_ok s f reg busy cmp fs rs \<Longrightarrow> st \<in> task_status \<Longrightarrow> unat (tq_cnt (st_tq s st)) = length (f st)"
  using task_status_less [of st] by (auto simp: emu_ok_def tq_repr_def ring_repr_def)

lemma poll_queues_track:
  assumes "emu_ok s f reg busy cmp fs rs" and "set sts \<subseteq> task_status" and "tracked k P dat s f reg busy cmp"
  shows "\<exists>s' f' reg'. poll_queues junk sts s = Some s' \<and> emu_ok s' f' reg' busy cmp fs rs \<and>
    tracked k (fold (poll_place (fst dat)) sts P) dat s' f' reg' busy cmp"
  using assms
proof (induction sts arbitrary: s f reg P)
  case Nil
  then show ?case by auto
next
  case (Cons st sts)
  then have st: "st \<in> task_status" "set sts \<subseteq> task_status" by simp_all
  have n: "unat (tq_cnt (st_tq s st)) = length (f st)" using ok_cnt [OF Cons.prems(1) st(1)] .
  obtain s1 f1 reg1 where s1: "poll_queue junk st (length (f st)) s = Some s1" "emu_ok s1 f1 reg1 busy cmp fs rs"
    "tracked k (if Some k \<in> set (take (length (f st)) (f st)) then poll_place (fst dat) st P else P) dat s1 f1 reg1 busy cmp"
    using poll_queue_tracks [OF Cons.prems(1) st(1) _ Cons.prems(3), of "length (f st)" junk] by blast
  have "Some k \<in> set (f st)" if "P = InQueue st" using Cons.prems(3) that by (simp add: tracked_def cmd_in_def)
  then have "(if Some k \<in> set (take (length (f st)) (f st)) then poll_place (fst dat) st P else P) = poll_place (fst dat) st P"
    by (auto simp: poll_place_def)
  with s1(3) have t1: "tracked k (poll_place (fst dat) st P) dat s1 f1 reg1 busy cmp" by simp
  from Cons.IH [OF s1(2) st(2) t1] s1(1) n show ?case by simp
qed

definition task_order :: "host_cmd_entry_status list" where
  "task_order = [HCE_CHECK_CACHE, HCE_TO_SQ, HCE_DATAMOVED, HCE_FROM_CQ, HCE_FINISH]"

lemma polling_tracks:
  assumes "emu_ok s f reg busy cmp fs rs" and "tracked k P dat s f reg busy cmp"
  shows "\<exists>s' f' reg'. FTL_core0task_polling junk s = Some s' \<and> emu_ok s' f' reg' busy cmp fs rs \<and>
    tracked k (fold (poll_place (fst dat)) task_order P) dat s' f' reg' busy cmp"
  unfolding FTL_core0task_polling_def task_order_def
  by (rule poll_queues_track [OF assms(1) _ assms(2)]) (simp add: task_status_def)

section \<open>Completions\<close>

text \<open>Where the completion of its request takes a command; \<open>dat\<close>: its operation, number of pages
  and completions so far.\<close>

definition cq_place :: "u32 \<times> u32 \<times> u32 \<Rightarrow> place \<Rightarrow> place" where
  "cq_place dat P = (case dat of (op, req, cpl) \<Rightarrow>
     if P = Completed then if cpl + 1 = req then InQueue HCE_FROM_CQ else Nowhere else P)"

definition cq_data :: "u32 \<times> u32 \<times> u32 \<Rightarrow> place \<Rightarrow> u32 \<times> u32 \<times> u32" where
  "cq_data dat P = (case dat of (op, req, cpl) \<Rightarrow> (op, req, if P = Completed then cpl + 1 else cpl))"

lemma completed_unique:
  assumes ok: "emu_ok s f reg busy (i # cmp) fs rs" and i: "sq_hcmd (st_be s) i = Some k" and c: "cmd_in P k s f reg busy (i # cmp)"
  shows "P = Completed" and "Some k \<notin> set (map (sq_hcmd (st_be s)) (reg @ busy @ cmp))" and "Some k \<notin> set (f st) \<or> st = HCE_WAIT_CQ"
proof -
  let ?ids = "reg @ busy @ i # cmp"
  let ?g = "places s f ?ids"
  have o: "own_inv (hcmd_used (st_hcl s)) ?g" using ok by (simp add: emu_ok_def)
  have g: "Some k \<in> set (?g HCE_WAIT_CQ)" using i by (auto simp: places_def)
  have u: "k \<in> hcmd_used (st_hcl s)" using o g by (auto simp: own_inv_def)
  have d: "distinct (map (sq_hcmd (st_be s)) ?ids)" using o unfolding own_inv_def places_def by (metis fun_upd_same)
  then show n: "Some k \<notin> set (map (sq_hcmd (st_be s)) (reg @ busy @ cmp))" using i by (auto simp: image_iff)
  have q: "Some k \<notin> set (f st) \<or> st = HCE_WAIT_CQ" for st
  proof (rule ccontr)
    assume "\<not> ?thesis"
    then have st: "st \<noteq> HCE_WAIT_CQ" "Some k \<in> set (?g st)" by (auto simp: places_at)
    have "set (?g st) \<inter> set (?g HCE_WAIT_CQ) = {}" using o st(1) unfolding own_inv_def by blast
    then show False using st(2) g by blast
  qed
  then show "Some k \<notin> set (f st) \<or> st = HCE_WAIT_CQ" .
  show "P = Completed"
  proof (cases P)
    case (InQueue st)
    then show ?thesis using c q [of st] task_status_wait by (auto simp: cmd_in_def)
  next
    case AtFlash
    then show ?thesis using c n by (auto simp: cmd_in_def)
  next
    case Nowhere
    then show ?thesis using c g by (auto simp: cmd_in_def loose_def)
  next
    case Gone
    then show ?thesis using c u by (simp add: cmd_in_def)
  qed simp
qed


lemma sq_hcmd_removed:
  assumes "emu_sqs b' = (emu_sqs b)(i := None)" and "i \<notin> set xs"
  shows "map (sq_hcmd b') xs = map (sq_hcmd b) xs"
  using assms by (intro map_cong) (auto simp: sq_hcmd_def)

lemma cq_one_tracks:
  assumes ok: "emu_ok s f reg busy (i # cmp) fs rs" and tr: "tracked k P dat s f reg busy (i # cmp)"
  shows "\<exists>s' f'. cq_one i s = Some s' \<and> emu_ok s' f' reg busy cmp fs rs \<and>
    (if sq_hcmd (st_be s) i = Some k then tracked k (cq_place dat P) (cq_data dat P) s' f' reg busy cmp
     else tracked k P dat s' f' reg busy cmp)"
proof -
  obtain s' k' where s': "sq_hcmd (st_be s) i = Some k'" "k' \<in> hcmd_used (st_hcl s)" "cq_one i s = Some s'"
    "emu_ok s' (if cpl_cnt (hcmd_at s k') + 1 = req_num (hcmd_at s k') then f(HCE_FROM_CQ := f HCE_FROM_CQ @ [Some k']) else f) reg busy cmp fs rs"
    "st_hcl s' = st_hcl (upd_hcmd k' (\<lambda>e. e\<lparr>cpl_cnt := cpl_cnt e + 1\<rparr>) s)" "emu_sqs (st_be s') = (emu_sqs (st_be s))(i := None)"
    using cq_one_ok [OF ok] by blast
  let ?f = "if cpl_cnt (hcmd_at s k') + 1 = req_num (hcmd_at s k') then f(HCE_FROM_CQ := f HCE_FROM_CQ @ [Some k']) else f"
  have "i \<notin> set (reg @ busy @ cmp)" using ok by (auto simp: emu_ok_def be_repr_def)
  then have nb: "i \<notin> set (reg @ busy)" "i \<notin> set cmp" and h: "map (sq_hcmd (st_be s')) (reg @ busy @ cmp) = map (sq_hcmd (st_be s)) (reg @ busy @ cmp)"
    using sq_hcmd_removed [OF s'(6)] by auto
  have hb: "map (sq_hcmd (st_be s')) (reg @ busy) = map (sq_hcmd (st_be s)) (reg @ busy)" "map (sq_hcmd (st_be s')) cmp = map (sq_hcmd (st_be s)) cmp"
    using sq_hcmd_removed [OF s'(6)] nb by blast+
  have u: "hcmd_used (st_hcl s') = hcmd_used (st_hcl s)" and at: "hcmd_at s' j = (if j = k' then (hcmd_at s k')\<lparr>cpl_cnt := cpl_cnt (hcmd_at s k') + 1\<rparr> else hcmd_at s j)" for j
    using s'(5) by simp_all
  have c: "cmd_in P k s f reg busy (i # cmp)" using tr by (simp add: tracked_def)
  show ?thesis
  proof (cases "k' = k")
    case True
    note un = completed_unique [OF ok s'(1) [unfolded True] c]
    have d: "cmd_data s k = dat" using tr un(1) by (simp add: tracked_def)
    have d': "cmd_data s' k = cq_data dat P" using d at [of k] True un(1) by (auto simp: cmd_data_def cq_data_def)
    have "cmd_in (cq_place dat P) k s' ?f reg busy cmp"
    proof (cases "cpl_cnt (hcmd_at s k) + 1 = req_num (hcmd_at s k)")
      case T: True
      then have "cq_place dat P = InQueue HCE_FROM_CQ" using d un(1) by (auto simp: cq_place_def cmd_data_def)
      then show ?thesis using T True by (simp add: cmd_in_def task_status_def)
    next
      case F: False
      have "Some k \<notin> set (places s' f (reg @ busy @ cmp) st)" for st
        using un(2) un(3) [of st] by (cases "st = HCE_WAIT_CQ") (simp_all only: places_def h fun_upd_same fun_upd_other, auto)
      moreover have "Some k \<in> Some ` hcmd_used (st_hcl s')" using u s'(2) True by simp
      moreover have "cq_place dat P = Nowhere" using F d un(1) by (auto simp: cq_place_def cmd_data_def)
      ultimately show ?thesis using F True by (simp add: cmd_in_def loose_def)
    qed
    then have "tracked k (cq_place dat P) (cq_data dat P) s' ?f reg busy cmp" using d' by (simp add: tracked_def)
    then show ?thesis using s'(1,3,4) True by (intro exI [of _ s'] exI [of _ ?f]) simp
  next
    case False
    have d: "cmd_data s' k = cmd_data s k" using at [of k] False by (simp add: cmd_data_def)
    have "cmd_in P k s' ?f reg busy cmp"
    proof (cases P)
      case (InQueue st)
      then show ?thesis using c by (auto simp: cmd_in_def)
    next
      case AtFlash
      from c show ?thesis unfolding AtFlash cmd_in_def place.case hb(1) .
    next
      case Completed
      have "Some k \<in> set (map (sq_hcmd (st_be s)) cmp)" using c s'(1) False by (auto simp: Completed cmd_in_def)
      then show ?thesis unfolding Completed cmd_in_def place.case hb(2) .
    next
      case Nowhere
      then have l: "Some k \<in> Some ` hcmd_used (st_hcl s')" "\<And>st. Some k \<notin> set (places s f (reg @ busy @ i # cmp) st)"
        using c u by (auto simp: cmd_in_def loose_def)
      have "Some k \<notin> set (places s' ?f (reg @ busy @ cmp) st)" for st
      proof (cases "st = HCE_WAIT_CQ")
        case True
        have "Some k \<notin> set (map (sq_hcmd (st_be s)) (reg @ busy @ cmp))" using l(2) [of HCE_WAIT_CQ] by (auto simp: places_def)
        then show ?thesis unfolding True places_def fun_upd_same h .
      next
        case F: False
        then show ?thesis using l(2) [of st] False by (auto simp: places_at)
      qed
      then show ?thesis using l(1) Nowhere by (simp add: cmd_in_def loose_def)
    next
      case Gone
      then show ?thesis using c u by (simp add: cmd_in_def)
    qed
    then have "tracked k P dat s' ?f reg busy cmp" using tr d by (simp add: tracked_def)
    then show ?thesis using s'(1,3,4) False by (intro exI [of _ s'] exI [of _ ?f]) simp
  qed
qed

lemma cq_place_done [simp]: "cq_place dat' (cq_place dat P) = cq_place dat P" "cq_data dat' (cq_place dat P) = dat'"
  by (auto simp: cq_place_def cq_data_def split: prod.splits)

lemma CQ_polling_tracks:
  assumes "emu_ok s f reg busy cmp fs rs" and "tracked k P dat s f reg busy cmp"
  shows "\<exists>s' f'. FTL_CQ_polling s = Some s' \<and> emu_ok s' f' reg busy [] fs rs \<and>
    tracked k (cq_place dat P) (cq_data dat P) s' f' reg busy []"
  using assms
proof (induction cmp arbitrary: s f P dat)
  case Nil
  then have "P \<noteq> Completed" by (auto simp: tracked_def cmd_in_def)
  then have "cq_place dat P = P" "cq_data dat P = dat" by (auto simp: cq_place_def cq_data_def split: prod.splits)
  then show ?case using CQ_polling_step [of s reg busy "[]"] Nil by (auto simp: emu_ok_def)
next
  case (Cons i cmp)
  obtain s1 f1 where s1: "cq_one i s = Some s1" "emu_ok s1 f1 reg busy cmp fs rs"
    "if sq_hcmd (st_be s) i = Some k then tracked k (cq_place dat P) (cq_data dat P) s1 f1 reg busy cmp else tracked k P dat s1 f1 reg busy cmp"
    using cq_one_tracks [OF Cons.prems] by blast
  have e: "FTL_CQ_polling s = FTL_CQ_polling s1"
    using CQ_polling_step [of s reg busy "i # cmp"] Cons.prems(1) s1(1) by (simp add: emu_ok_def)
  show ?case
  proof (cases "sq_hcmd (st_be s) i = Some k")
    case True
    then have "tracked k (cq_place dat P) (cq_data dat P) s1 f1 reg busy cmp" using s1(3) by simp
    from Cons.IH [OF s1(2) this] e show ?thesis by simp
  next
    case False
    then have "tracked k P dat s1 f1 reg busy cmp" using s1(3) by simp
    from Cons.IH [OF s1(2) this] e show ?thesis by simp
  qed
qed

section \<open>New commands\<close>

lemma req_one_tracks:
  assumes ok: "emu_ok s f reg busy cmp fs rs" and tr: "tracked k P dat s f reg busy cmp" and P: "P \<noteq> Gone"
  shows "\<exists>s' f' fs' rs'. req_one s = Some s' \<and> emu_ok s' f' reg busy cmp fs' rs' \<and> tracked k P dat s' f' reg busy cmp"
proof (cases "rs = [] \<or> hcmd_used (st_hcl s) = {..<HCMD_NUM}")
  case True
  show ?thesis
  proof (cases rs)
    case Nil
    then show ?thesis using req_one_idle ok tr by blast
  next
    case (Cons x xs)
    obtain s' where s': "req_one s = Some s'" "emu_ok s' f reg busy cmp fs (xs @ [x])" "st_hcl s' = st_hcl s" "st_be s' = st_be s"
      using req_one_full [OF ok [unfolded Cons]] True Cons by auto
    then have "tracked k P dat s' f reg busy cmp"
      using tr by (simp add: tracked_def cmd_in_def cmd_data_def places_def split: place.splits)
    then show ?thesis using s' by blast
  qed
next
  case False
  then obtain x xs where rs: "rs = x # xs" by (cases rs) auto
  obtain s' n where s': "req_one s = Some s'" "emu_ok s' (f(HCE_CHECK_CACHE := f HCE_CHECK_CACHE @ [Some n])) reg busy cmp (fs @ [x]) xs"
    "n \<notin> hcmd_used (st_hcl s)" "hcmd_used (st_hcl s') = insert n (hcmd_used (st_hcl s))"
    "hcmd_queue (st_hcl s') = (hcmd_queue (st_hcl s))(n := fill_hcmd (of_nat x) (shm_slots (st_shm s) x) (st_cmd_cnt s + 1) (hcmd_at s n))"
    "st_be s' = st_be s" using req_one_new [OF ok [unfolded rs]] False by blast
  let ?f = "f(HCE_CHECK_CACHE := f HCE_CHECK_CACHE @ [Some n])"
  have "k \<in> hcmd_used (st_hcl s)" using cmd_in_used [OF ok _ P] tr by (simp add: tracked_def)
  then have kn: "k \<noteq> n" using s'(3) by blast
  have m: "moved (ToQueue HCE_CHECK_CACHE) n s f reg s' ?f reg" by (simp add: moved_def)
  have fr: "cmd_frame {n} s s'" using s'(4,5) by (simp add: cmd_frame_def)
  have "tracked k P dat s' ?f reg busy cmp"
    using track_other [OF m kn [symmetric] fr, of busy cmp P] s'(6) tr by (simp add: tracked_def)
  then show ?thesis using s'(1,2) by blast
qed

lemma req_polls_track:
  assumes "emu_ok s f reg busy cmp fs rs" and "tracked k P dat s f reg busy cmp" and "P \<noteq> Gone"
  shows "\<exists>s' f' fs' rs'. req_polls n s = Some s' \<and> emu_ok s' f' reg busy cmp fs' rs' \<and> tracked k P dat s' f' reg busy cmp"
  using assms
proof (induction n arbitrary: s f fs rs)
  case (Suc n)
  obtain s1 f1 fs1 rs1 where s1: "req_one s = Some s1" "emu_ok s1 f1 reg busy cmp fs1 rs1" "tracked k P dat s1 f1 reg busy cmp"
    using req_one_tracks [OF Suc.prems] by blast
  from Suc.IH [OF s1(2,3) Suc.prems(3)] s1(1) show ?case by simp
qed auto

section \<open>A round\<close>

definition round_place :: "u32 \<times> u32 \<times> u32 \<Rightarrow> place \<Rightarrow> place" where
  "round_place dat P = cq_place dat (fold (poll_place (fst dat)) task_order P)"

lemma fold_completed: "fold (poll_place op) sts Completed = Completed"
  by (induction sts) (simp_all add: poll_place_def)

lemma round_tracks:
  assumes "emu_ok s f reg busy cmp fs rs" and "tracked k P dat s f reg busy cmp" and "P \<noteq> Gone"
  shows "\<exists>s' f' reg' fs' rs'. FTL_core0_task_run junk s = Some s' \<and> emu_ok s' f' reg' busy [] fs' rs' \<and>
    tracked k (round_place dat P) (cq_data dat (fold (poll_place (fst dat)) task_order P)) s' f' reg' busy []"
proof -
  obtain s1 f1 fs1 rs1 where s1: "FTL_nvme_req_polling s = Some s1" "emu_ok s1 f1 reg busy cmp fs1 rs1" "tracked k P dat s1 f1 reg busy cmp"
    unfolding FTL_nvme_req_polling_def using req_polls_track [OF assms] by blast
  obtain s2 f2 reg2 where s2: "FTL_core0task_polling junk s1 = Some s2" "emu_ok s2 f2 reg2 busy cmp fs1 rs1"
    "tracked k (fold (poll_place (fst dat)) task_order P) dat s2 f2 reg2 busy cmp" using polling_tracks [OF s1(2,3)] by blast
  obtain s3 f3 where s3: "FTL_CQ_polling s2 = Some s3" "emu_ok s3 f3 reg2 busy [] fs1 rs1"
    "tracked k (round_place dat P) (cq_data dat (fold (poll_place (fst dat)) task_order P)) s3 f3 reg2 busy []"
    using CQ_polling_tracks [OF s2(2,3)] unfolding round_place_def by blast
  have "FTL_core0_task_run junk s = Some s3" using s1(1) s2(1) s3(1) by (simp add: FTL_core0_task_run_def)
  with s3(2,3) show ?thesis by blast
qed


section \<open>One page at a time\<close>

text \<open>
  How far a command of one page has to go, in rounds of the FTL thread; the time in the back end is
  not the FTL thread's.
\<close>

definition rounds_left :: "u32 \<Rightarrow> place \<Rightarrow> nat" where
  "rounds_left op P = (case P of
     InQueue st \<Rightarrow> (case st of
         HCE_CHECK_CACHE \<Rightarrow> 6 | HCE_DATAMOVED \<Rightarrow> if op = HCE_READ then 1 else 6 | HCE_TO_SQ \<Rightarrow> 5
       | HCE_FROM_CQ \<Rightarrow> 2 | _ \<Rightarrow> 1)
   | AtFlash \<Rightarrow> 4 | Completed \<Rightarrow> 3 | Nowhere \<Rightarrow> 0 | Gone \<Rightarrow> 0)"

definition one_page :: "place \<Rightarrow> u32 \<times> u32 \<times> u32 \<Rightarrow> bool" where
  "one_page P dat \<longleftrightarrow> (case dat of (op, req, cpl) \<Rightarrow> (op = HCE_READ \<or> op = HCE_WRITE) \<and> req = 1 \<and> P \<noteq> Nowhere \<and>
     (P = InQueue HCE_FROM_CQ \<or> P = InQueue HCE_FINISH \<or> P = Gone \<or> P = InQueue HCE_DATAMOVED \<and> op = HCE_READ \<or> cpl = 0))"

lemma one_page_round:
  assumes "one_page P dat" and "P \<noteq> Gone" and "\<And>st. P = InQueue st \<Longrightarrow> st \<in> task_status"
  shows "one_page (round_place dat P) (cq_data dat (fold (poll_place (fst dat)) task_order P))"
    and "P \<noteq> AtFlash \<Longrightarrow> rounds_left (fst dat) (round_place dat P) < rounds_left (fst dat) P"
    and "P = AtFlash \<Longrightarrow> round_place dat P = AtFlash"
proof -
  obtain op req cpl where d: "dat = (op, req, cpl)" by (cases dat) auto
  have o: "op = HCE_READ \<or> op = HCE_WRITE" "req = 1" "P \<noteq> Nowhere" using assms(1) d by (auto simp: one_page_def)
  note s = round_place_def task_order_def poll_place_def cq_place_def cq_data_def one_page_def next_stage_def dest_place_def rounds_left_def d
  consider (q) st where "P = InQueue st" "st \<in> task_status" | (f) "P = AtFlash" | (c) "P = Completed"
    using assms(2,3) o(3) by (cases P) auto
  then have "one_page (round_place dat P) (cq_data dat (fold (poll_place (fst dat)) task_order P)) \<and>
    (P \<noteq> AtFlash \<longrightarrow> rounds_left (fst dat) (round_place dat P) < rounds_left (fst dat) P) \<and> (P = AtFlash \<longrightarrow> round_place dat P = AtFlash)"
  proof cases
    case q
    then consider "P = InQueue HCE_CHECK_CACHE" | "P = InQueue HCE_TO_SQ" | "P = InQueue HCE_DATAMOVED" | "P = InQueue HCE_FROM_CQ" | "P = InQueue HCE_FINISH"
      by (auto simp: task_status_def)
    then show ?thesis using o assms(1) by cases (auto simp: s)
  qed (use o assms(1) in \<open>auto simp: s\<close>)
  then show "one_page (round_place dat P) (cq_data dat (fold (poll_place (fst dat)) task_order P))"
    "P \<noteq> AtFlash \<Longrightarrow> rounds_left (fst dat) (round_place dat P) < rounds_left (fst dat) P"
    "P = AtFlash \<Longrightarrow> round_place dat P = AtFlash" by blast+
qed

section \<open>Steps of the whole system\<close>

lemma cmd_in_cong:
  assumes "st_hcl s' = st_hcl s" and "emu_sqs (st_be s') = emu_sqs (st_be s)"
  shows "cmd_in P k s' f reg busy cmp = cmd_in P k s f reg busy cmp" and "cmd_data s' k = cmd_data s k"
proof -
  have "sq_hcmd (st_be s') = sq_hcmd (st_be s)" using assms(2) by (simp add: sq_hcmd_def fun_eq_iff)
  then show "cmd_in P k s' f reg busy cmp = cmd_in P k s f reg busy cmp"
    using assms(1) by (simp add: cmd_in_def places_def split: place.splits)
  show "cmd_data s' k = cmd_data s k" using assms(1) by (simp add: cmd_data_def)
qed

lemma tracked_shm [simp]: "tracked k P dat (s\<lparr>st_shm := h\<rparr>) f reg busy cmp = tracked k P dat s f reg busy cmp"
  using cmd_in_cong [of "s\<lparr>st_shm := h\<rparr>" s] by (simp add: tracked_def)

text \<open>The back end takes a command from the register list, keeps it, and completes it.\<close>

lemma tracked_requeue:
  assumes "tracked k P dat s f reg busy cmp" and "emu_sqs b = emu_sqs (st_be s)"
    and "set reg' \<union> set busy' \<union> set cmp' = set reg \<union> set busy \<union> set cmp" and "set cmp \<subseteq> set cmp'"
  shows "\<exists>P'. tracked k P' dat (s\<lparr>st_be := b\<rparr>) f reg' busy' cmp' \<and> (P' = P \<or> P = AtFlash \<and> P' = Completed)"
proof -
  have e: "cmd_in Q k (s\<lparr>st_be := b\<rparr>) f r y c = cmd_in Q k s f r y c" "cmd_data (s\<lparr>st_be := b\<rparr>) k = cmd_data s k" for Q r y c
    using cmd_in_cong [of "s\<lparr>st_be := b\<rparr>" s] assms(2) by simp_all
  have c: "cmd_in P k s f reg busy cmp" using assms(1) by (simp add: tracked_def)
  let ?h = "sq_hcmd (st_be s)"
  have "\<exists>P'. cmd_in P' k s f reg' busy' cmp' \<and> (P' = P \<or> P = AtFlash \<and> P' = Completed)"
  proof (cases P)
    case AtFlash
    then have "Some k \<in> ?h ` (set reg \<union> set busy)" using c by (simp add: cmd_in_def image_Un)
    then obtain i where "i \<in> set reg \<union> set busy" "?h i = Some k" by (elim imageE) simp
    then have "Some k \<in> ?h ` (set reg' \<union> set busy') \<or> Some k \<in> ?h ` set cmp'" using assms(3) by (metis UnCI UnE image_eqI)
    then have "cmd_in AtFlash k s f reg' busy' cmp' \<or> cmd_in Completed k s f reg' busy' cmp'" by (simp add: cmd_in_def image_Un)
    then show ?thesis using AtFlash by blast
  next
    case Completed
    then have "Some k \<in> ?h ` set cmp'" using c assms(4) by (auto simp: cmd_in_def)
    then have "cmd_in Completed k s f reg' busy' cmp'" by (simp add: cmd_in_def)
    then show ?thesis using Completed by blast
  next
    case Nowhere
    have "set (map ?h (reg' @ busy' @ cmp')) = set (map ?h (reg @ busy @ cmp))" using assms(3) unfolding set_map set_append by (simp only: Un_assoc)
    then have "set (places s f (reg' @ busy' @ cmp') st) = set (places s f (reg @ busy @ cmp) st)" for st
      by (cases "st = HCE_WAIT_CQ") (simp_all only: places_def fun_upd_same fun_upd_other simp_thms if_False)
    then have "cmd_in Nowhere k s f reg' busy' cmp'" using c Nowhere by (simp add: cmd_in_def loose_def)
    then show ?thesis using Nowhere by blast
  next
    case (InQueue st)
    then have "cmd_in (InQueue st) k s f reg' busy' cmp'" using c by (simp add: cmd_in_def)
    then show ?thesis using InQueue by blast
  next
    case Gone
    then have "cmd_in Gone k s f reg' busy' cmp'" using c by (simp add: cmd_in_def)
    then show ?thesis using Gone by blast
  qed
  then obtain P' where "cmd_in P' k s f reg' busy' cmp'" "P' = P \<or> P = AtFlash \<and> P' = Completed" by blast
  moreover from this have "tracked k P' dat (s\<lparr>st_be := b\<rparr>) f reg' busy' cmp'" using assms(1) by (auto simp: tracked_def e)
  ultimately show ?thesis by blast
qed


lemma cmd_in_unique:
  assumes "emu_ok s f reg busy cmp fs rs" and "cmd_in Completed k s f reg busy cmp" and "cmd_in AtFlash k s f reg busy cmp"
  shows False
proof -
  have "distinct (map (sq_hcmd (st_be s)) (reg @ busy @ cmp))"
    using assms(1) unfolding emu_ok_def own_inv_def places_def by (metis fun_upd_same)
  then have "set (map (sq_hcmd (st_be s)) (reg @ busy)) \<inter> set (map (sq_hcmd (st_be s)) cmp) = {}" by auto
  then show False using assms(2,3) unfolding cmd_in_def place.case by blast
qed

text \<open>One step of the system and one command that is in use.\<close>

inductive cmd_moves :: "place \<Rightarrow> u32 \<times> u32 \<times> u32 \<Rightarrow> place \<Rightarrow> u32 \<times> u32 \<times> u32 \<Rightarrow> bool" where
  cmd_stays: "cmd_moves P dat P dat"
| cmd_polled: "cmd_moves P dat (poll_place (fst dat) st P) dat"
| cmd_reported: "cmd_moves AtFlash dat Completed dat"
| cmd_completed: "cmd_moves P dat (cq_place dat P) (cq_data dat P)"

inductive_cases cmd_movesE: "cmd_moves P dat P' dat'"

lemma poll_one_next:
  assumes ok: "emu_ok s f reg busy cmp fs rs" and st: "st \<in> task_status" and tr: "tracked k P dat s f reg busy cmp"
  shows "\<exists>s' f' reg' P'. poll_one junk st s = Some s' \<and> emu_ok s' f' reg' busy cmp fs rs \<and> tracked k P' dat s' f' reg' busy cmp \<and> cmd_moves P dat P' dat"
proof (cases "f st")
  case Nil
  then have "FTL_task_queue_remove_head st (st_tq s) = (NULL, st_tq s)"
    using tq_repr_remove_empty [of "st_tq s" f st] ok st task_status_less by (auto simp: emu_ok_def)
  then have "poll_one junk st s = Some s" by (simp add: poll_one_def)
  then show ?thesis using ok tr cmd_stays by blast
next
  case (Cons p ps)
  from poll_one_tracks [where f = f, OF ok st Cons tr, of junk] obtain s' f' reg' where
    "poll_one junk st s = Some s'" "emu_ok s' f' reg' busy cmp fs rs"
    "tracked k (if p = Some k \<and> P = InQueue st then poll_place (fst dat) st P else P) dat s' f' reg' busy cmp" by blast
  moreover have "cmd_moves P dat (if p = Some k \<and> P = InQueue st then poll_place (fst dat) st P else P) dat"
    using cmd_stays cmd_polled by simp
  ultimately show ?thesis by blast
qed

lemma taking_next:
  assumes ok: "emu_ok s f reg [] cmp fs rs" and b: "be_take (st_be s) = Some (Some r, b)" and tr: "tracked k P dat s f reg [] cmp"
  shows "\<exists>reg'. emu_ok (s\<lparr>st_be := b\<rparr>) f reg' [r] cmp fs rs \<and> tracked k P dat (s\<lparr>st_be := b\<rparr>) f reg' [r] cmp"
proof -
  obtain reg' where reg: "reg = r # reg'"
    using take_empty [of "st_be s" "[]" cmp] take_repr [of "st_be s" _ _ "[]" cmp] ok b by (cases reg) (fastforce simp: emu_ok_def)+
  then obtain b' where b': "be_take (st_be s) = Some (Some r, b')" "be_repr b' reg' [r] cmp" "emu_sqs b' = emu_sqs (st_be s)"
    using take_repr [of "st_be s" r reg' "[]" cmp] ok by (auto simp: emu_ok_def)
  then have e: "b' = b" using b by simp
  have ok': "emu_ok (s\<lparr>st_be := b\<rparr>) f reg' [r] cmp fs rs" using ok_be_step [OF ok b'(2,3)] reg e by simp
  obtain P' where P': "tracked k P' dat (s\<lparr>st_be := b\<rparr>) f reg' [r] cmp" "P' = P \<or> P = AtFlash \<and> P' = Completed"
    using tracked_requeue [OF tr, of b reg' "[r]" cmp] b'(3) e reg by auto
  have "P' = P"
  proof (rule ccontr)
    assume "P' \<noteq> P"
    then have a: "P = AtFlash" "P' = Completed" using P'(2) by auto
    have "sq_hcmd b = sq_hcmd (st_be s)" using b'(3) e by (simp add: sq_hcmd_def fun_eq_iff)
    then have "cmd_in AtFlash k (s\<lparr>st_be := b\<rparr>) f reg' [r] cmp" using tr reg a(1) by (auto simp: tracked_def cmd_in_def)
    then show False using cmd_in_unique [OF ok'] P'(1) a(2) by (auto simp: tracked_def)
  qed
  then show ?thesis using ok' P'(1) by blast
qed

text \<open>Where the command is after the step, and the invariant there.\<close>

definition follows :: "nat \<Rightarrow> place \<Rightarrow> u32 \<times> u32 \<times> u32 \<Rightarrow> emu_sys \<Rightarrow> bool" where
  "follows k P dat t \<longleftrightarrow> (\<exists>f reg cmp fs rs P' dat'. emu_ok (sys_ftl t) f reg (be_holds (sys_be t)) cmp fs rs \<and>
     tracked k P' dat' (sys_ftl t) f reg (be_holds (sys_be t)) cmp \<and> cmd_moves P dat P' dat')"

lemma followsI:
  "emu_ok u f reg busy cmp fs rs \<Longrightarrow> tracked k P' dat' u f reg busy cmp \<Longrightarrow> cmd_moves P dat P' dat' \<Longrightarrow>
    sys_ftl t = u \<Longrightarrow> be_holds (sys_be t) = busy \<Longrightarrow> follows k P dat t"
  unfolding follows_def by blast

lemma step_tracks:
  assumes step: "emu_step s t" and ok: "emu_ok (sys_ftl s) f reg (be_holds (sys_be s)) cmp fs rs"
    and tr: "tracked k P dat (sys_ftl s) f reg (be_holds (sys_be s)) cmp" and P: "P \<noteq> Gone"
  shows "follows k P dat t"
  using step
proof cases
  case (ftl_request u)
  obtain s' f' fs' rs' where "req_one (sys_ftl s) = Some s'" "emu_ok s' f' reg (be_holds (sys_be s)) cmp fs' rs'"
    "tracked k P dat s' f' reg (be_holds (sys_be s)) cmp" using req_one_tracks [OF ok tr P] by blast
  then show ?thesis using ftl_request by (intro followsI [OF _ _ cmd_stays]) simp_all
next
  case (ftl_task st junk u)
  obtain s' f' reg' P' where "poll_one junk st (sys_ftl s) = Some s'" "emu_ok s' f' reg' (be_holds (sys_be s)) cmp fs rs"
    "tracked k P' dat s' f' reg' (be_holds (sys_be s)) cmp" "cmd_moves P dat P' dat" using poll_one_next [OF ok ftl_task(2) tr, of junk] by blast
  then show ?thesis using ftl_task by (intro followsI) simp_all
next
  case (ftl_completion u)
  obtain s' f' where "FTL_CQ_polling (sys_ftl s) = Some s'" "emu_ok s' f' reg (be_holds (sys_be s)) [] fs rs"
    "tracked k (cq_place dat P) (cq_data dat P) s' f' reg (be_holds (sys_be s)) []" using CQ_polling_tracks [OF ok tr] by blast
  then show ?thesis using ftl_completion by (intro followsI [OF _ _ cmd_completed]) simp_all
next
  case (be_taking r b)
  then obtain reg' where "emu_ok ((sys_ftl s)\<lparr>st_be := b\<rparr>) f reg' [r] cmp fs rs" "tracked k P dat ((sys_ftl s)\<lparr>st_be := b\<rparr>) f reg' [r] cmp"
    using taking_next [of "sys_ftl s" f reg cmp fs rs r b k P dat] ok tr by auto
  then show ?thesis using be_taking by (intro followsI [OF _ _ cmd_stays]) simp_all
next
  case (be_accessing r sq junk vars mem fl)
  then show ?thesis using ok tr by (intro followsI [OF _ _ cmd_stays]) simp_all
next
  case (be_reporting r b)
  have ok': "emu_ok ((sys_ftl s)\<lparr>st_be := b\<rparr>) f reg [] (cmp @ [r]) fs rs"
    using be_reporting_ok [of "sys_ftl s" f reg r cmp fs rs b] ok be_reporting by simp
  have "emu_sqs b = emu_sqs (st_be (sys_ftl s))" using be_reporting(3) by (auto simp: be_complete_def split: bind_splits)
  from tracked_requeue [OF tr this, of reg "[]" "cmp @ [r]"] obtain P' where
    P': "tracked k P' dat ((sys_ftl s)\<lparr>st_be := b\<rparr>) f reg [] (cmp @ [r])" "P' = P \<or> P = AtFlash \<and> P' = Completed"
    using be_reporting(2) by auto
  have "cmd_moves P dat P' dat" using P'(2) by (auto intro: cmd_stays cmd_reported)
  then show ?thesis using ok' P'(1) be_reporting(1) by (intro followsI) simp_all
next
  case (fe_command c c' h)
  have "shm_repr (st_shm (sys_ftl s)) fs rs" using ok by (simp add: emu_ok_def)
  then obtain fs1 rs1 where "shm_repr h fs1 rs1" using fe_round_shm [OF fe_command(2)] by blast
  then show ?thesis using ok_shm [OF ok] tr fe_command(1) by (intro followsI [OF _ _ cmd_stays]) simp_all
next
  case (fio_command w tr' io fst fst' h)
  have "shm_repr (st_shm (sys_ftl s)) fs rs" using ok by (simp add: emu_ok_def)
  then obtain fs1 rs1 where "shm_repr h fs1 rs1" using queue_shm [OF fio_command(2) _ fio_command(3,4)] by blast
  then show ?thesis using ok_shm [OF ok] tr fio_command(1) by (intro followsI [OF _ _ cmd_stays]) simp_all
qed

section \<open>Commands that never finish\<close>

text \<open>A command of any other size than one page is lost: on its way to its only request, or after
  it.\<close>

definition doomed :: "place \<Rightarrow> u32 \<times> u32 \<times> u32 \<Rightarrow> bool" where
  "doomed P dat \<longleftrightarrow> P = Nowhere \<or> (case dat of (op, req, cpl) \<Rightarrow> req \<noteq> 1 \<and> cpl = 0 \<and>
     (P = InQueue HCE_CHECK_CACHE \<or> P = InQueue HCE_TO_SQ \<or> P = AtFlash \<or> P = Completed \<or> P = InQueue HCE_DATAMOVED \<and> op \<noteq> HCE_READ))"

lemma doomed_moves: "cmd_moves P dat P' dat' \<Longrightarrow> doomed P dat \<Longrightarrow> doomed P' dat'"
proof (induction rule: cmd_moves.induct)
  case (cmd_polled P dat st)
  then show ?case by (auto simp: doomed_def poll_place_def next_stage_def dest_place_def split: host_cmd_entry_status.splits)
next
  case (cmd_completed P dat)
  then show ?case by (auto simp: doomed_def cq_place_def cq_data_def)
qed (auto simp: doomed_def)

lemma doomed_forever:
  assumes "emu_step\<^sup>*\<^sup>* s t" and "emu_ok (sys_ftl s) f reg (be_holds (sys_be s)) cmp fs rs"
    and "tracked k P dat (sys_ftl s) f reg (be_holds (sys_be s)) cmp" and "doomed P dat"
  shows "k \<in> hcmd_used (st_hcl (sys_ftl t))"
proof -
  have "\<exists>f reg cmp fs rs P dat. emu_ok (sys_ftl t) f reg (be_holds (sys_be t)) cmp fs rs \<and>
    tracked k P dat (sys_ftl t) f reg (be_holds (sys_be t)) cmp \<and> doomed P dat"
    using assms(1)
  proof (induction rule: rtranclp_induct)
    case base
    then show ?case using assms(2-4) by blast
  next
    case (step t u)
    then obtain f reg cmp fs rs P dat where i: "emu_ok (sys_ftl t) f reg (be_holds (sys_be t)) cmp fs rs"
      "tracked k P dat (sys_ftl t) f reg (be_holds (sys_be t)) cmp" "doomed P dat" by blast
    have "P \<noteq> Gone" using i(3) by (auto simp: doomed_def)
    from step_tracks [OF step(2) i(1,2) this] show ?case unfolding follows_def using doomed_moves i(3) by blast
  qed
  then obtain f reg cmp fs rs P dat where t: "emu_ok (sys_ftl t) f reg (be_holds (sys_be t)) cmp fs rs"
    "tracked k P dat (sys_ftl t) f reg (be_holds (sys_be t)) cmp" "doomed P dat" by blast
  then show ?thesis using cmd_in_used [OF t(1), of P k] by (auto simp: tracked_def doomed_def)
qed

section \<open>Properties\<close>

text \<open>
  C7: the handlers implement the state diagram of a command. Polling a non-empty task queue returns,
  keeps the invariant, and does to the command at the head exactly what the diagram says: it is
  appended to the next queue, or registered with the back end as the newest request, or its entry is
  reclaimed. No other command's entry changes, and no request in the back end changes.
\<close>

theorem handlers_follow_diagram:
  assumes "emu_ok s f reg busy cmp fs rs" and "st \<in> task_status" and "f st = Some k # ps"
  shows "\<exists>s' f' reg'. poll_one junk st s = Some s' \<and> emu_ok s' f' reg' busy cmp fs rs \<and>
    moved (next_stage (op_code (hcmd_at s k)) st) k s (f(st := ps)) reg s' f' reg' \<and> cmd_frame {k} s s' \<and>
    (if next_stage (op_code (hcmd_at s k)) st = Reclaimed then k \<notin> hcmd_used (st_hcl s') else keeps_cmd k s s') \<and>
    (\<forall>j \<in> set (reg @ busy @ cmp). emu_sqs (st_be s') j = emu_sqs (st_be s) j)"
  using poll_one_moves [where f = f and st = st, OF assms, of junk] by blast

theorem handlers_follow_diagram_witness:
  "\<exists>k s'. poll_one \<lparr>ppa_ch = 0, ppa_ce = 0, nand_flash_addr = 0\<rparr> HCE_CHECK_CACHE (sys_ftl (demo_accept [] (demo_io DDIR_WRITE))) = Some s' \<and>
     k \<in> hcmd_used (st_hcl s') \<and> op_code (hcmd_at s' k) = HCE_WRITE"
proof -
  obtain k where k: "emu_ok (sys_ftl (demo_accept [] (demo_io DDIR_WRITE))) ((\<lambda>_. [])(HCE_CHECK_CACHE := [Some k])) [] [] [] ([1..<CMD_SLOT_NUM] @ [0]) []"
    "op_code (hcmd_at (sys_ftl (demo_accept [] (demo_io DDIR_WRITE))) k) = HCE_WRITE"
    using demo_accept_ok [where log = "[]" and io = "demo_io DDIR_WRITE" and ops = SHM_WRITE_OPS] by (auto simp: demo_io_def ddir_ops_def)
  have "HCE_CHECK_CACHE \<in> task_status" by (simp add: task_status_def)
  from handlers_follow_diagram [OF k(1) this, of k "[]" "\<lparr>ppa_ch = 0, ppa_ce = 0, nand_flash_addr = 0\<rparr>"] k(2) show ?thesis
    by (auto simp: next_stage_def keeps_cmd_def)
qed

text \<open>
  C6: a command of one page always gets nearer to its end. Every round of the FTL thread returns and,
  unless the back end still has the command's request, brings the command strictly closer to being
  reclaimed, whatever other commands are in the queues and whatever arrives meanwhile.
\<close>

theorem command_progress:
  assumes "emu_ok s f reg busy cmp fs rs" and "tracked k P dat s f reg busy cmp" and "one_page P dat" and "P \<noteq> Gone"
  shows "\<exists>s' f' reg' fs' rs' P' dat'. FTL_core0_task_run junk s = Some s' \<and> emu_ok s' f' reg' busy [] fs' rs' \<and>
    tracked k P' dat' s' f' reg' busy [] \<and> one_page P' dat' \<and>
    (if P = AtFlash then P' = AtFlash else rounds_left (fst dat) P' < rounds_left (fst dat) P)"
proof -
  have q: "st \<in> task_status" if "P = InQueue st" for st using assms(2) that by (simp add: tracked_def cmd_in_def)
  obtain s' f' reg' fs' rs' where "FTL_core0_task_run junk s = Some s'" "emu_ok s' f' reg' busy [] fs' rs'"
    "tracked k (round_place dat P) (cq_data dat (fold (poll_place (fst dat)) task_order P)) s' f' reg' busy []"
    using round_tracks [OF assms(1,2,4), of junk] by blast
  moreover have "if P = AtFlash then round_place dat P = AtFlash else rounds_left (fst dat) (round_place dat P) < rounds_left (fst dat) P"
    using one_page_round(2,3) [OF assms(3,4) q] by simp
  ultimately show ?thesis using one_page_round(1) [OF assms(3,4) q] by blast
qed

theorem command_progress_witness:
  "\<exists>k s' f' reg' P' dat'. FTL_core0_task_run \<lparr>ppa_ch = 0, ppa_ce = 0, nand_flash_addr = 0\<rparr> (sys_ftl (demo_accept [] (demo_io DDIR_READ))) = Some s' \<and>
     tracked k P' dat' s' f' reg' [] [] \<and> rounds_left HCE_READ P' < rounds_left HCE_READ (InQueue HCE_CHECK_CACHE)"
proof -
  obtain k where k: "emu_ok (sys_ftl (demo_accept [] (demo_io DDIR_READ))) ((\<lambda>_. [])(HCE_CHECK_CACHE := [Some k])) [] [] [] ([1..<CMD_SLOT_NUM] @ [0]) []"
    "cmd_data (sys_ftl (demo_accept [] (demo_io DDIR_READ))) k = (HCE_READ, 1, 0)"
    using demo_accept_ok [where log = "[]" and io = "demo_io DDIR_READ" and ops = SHM_READ_OPS]
    by (auto simp: demo_io_def ddir_ops_def cmd_data_def HOST_BLOCK_SIZE_def KB_def SHM_READ_OPS_def SHM_WRITE_OPS_def)
  have "tracked k (InQueue HCE_CHECK_CACHE) (HCE_READ, 1, 0) (sys_ftl (demo_accept [] (demo_io DDIR_READ))) ((\<lambda>_. [])(HCE_CHECK_CACHE := [Some k])) [] [] []"
    using k(2) by (simp add: tracked_def cmd_in_def task_status_def)
  moreover have "one_page (InQueue HCE_CHECK_CACHE) (HCE_READ, 1, 0)" by (simp add: one_page_def)
  ultimately show ?thesis
    using command_progress [OF k(1), of k "InQueue HCE_CHECK_CACHE" "(HCE_READ, 1, 0)" "\<lparr>ppa_ch = 0, ppa_ce = 0, nand_flash_addr = 0\<rparr>"]
    by (simp del: FTL_core0_task_run_def) blast
qed



end
