(* ===== verification/Emu_EndToEnd.thy ===== *)
theory Emu_EndToEnd
  imports Emu_Progress
begin

text \<open>
  One command through the whole emulator: from the shared memory through the queues of the FTL
  thread and the back end into the flash log and back, on an emulator that has nothing else to do.
\<close>

section \<open>Steps of the FTL thread with one command\<close>

lemma poll_via:
  assumes "emu_ok s f reg busy cmp fs rs" and "st \<in> task_status" and "f st = Some k # ps" and "tq_func junk st = Some h"
    and "\<And>tq'. emu_ok (s\<lparr>st_tq := tq'\<rparr>) (f(st := ps)) reg busy cmp fs rs \<Longrightarrow>
      loose_in (s\<lparr>st_tq := tq'\<rparr>) (f(st := ps)) (reg @ busy @ cmp) (Some k) \<Longrightarrow> \<exists>r s'. h (Some k) (s\<lparr>st_tq := tq'\<rparr>) = Some (r, s') \<and> Q s'"
  shows "\<exists>s'. poll_one junk st s = Some s' \<and> Q s'"
proof -
  obtain tq' where t: "FTL_task_queue_remove_head st (st_tq s) = (Some k, tq')" "emu_ok (s\<lparr>st_tq := tq'\<rparr>) (f(st := ps)) reg busy cmp fs rs"
    "loose_in (s\<lparr>st_tq := tq'\<rparr>) (f(st := ps)) (reg @ busy @ cmp) (Some k)" using ok_take [OF assms(1-3)] by blast
  from assms(5) [OF t(2,3)] t(1) assms(4) show ?thesis by (auto simp: poll_one_def)
qed

text \<open>The command \<open>k\<close> is the only one, with operation \<open>op\<close>, one page and
  \<open>c\<close> completions; the queues are \<open>f\<close>.\<close>

definition single :: "nat \<Rightarrow> u32 \<Rightarrow> u32 \<Rightarrow> emu_state \<Rightarrow> bool" where
  "single k op c s \<longleftrightarrow> hcmd_used (st_hcl s) = {k} \<and> cmd_data s k = (op, 1, c)"

abbreviation only_in :: "host_cmd_entry_status \<Rightarrow> nat \<Rightarrow> (host_cmd_entry_status \<Rightarrow> hcmd_ptr list) \<Rightarrow> host_cmd_entry_status \<Rightarrow> hcmd_ptr list" where
  "only_in st k f \<equiv> f(st := [Some k])"

lemma accept_single:
  assumes ok: "emu_ok s f [] [] [] fs [x]" and idle: "hcmd_used (st_hcl s) = {}" and f: "f HCE_CHECK_CACHE = []"
    and c: "cmd_payload (shm_slots (st_shm s) x) = (if op = HCE_WRITE then SHM_WRITE_OPS else SHM_READ_OPS, l, sz)"
    and op: "op = HCE_WRITE \<or> op = HCE_READ" and sz: "sz div HOST_BLOCK_SIZE div 4 = 1"
  shows "\<exists>s' k. req_one s = Some s' \<and> emu_ok s' (only_in HCE_CHECK_CACHE k f) [] [] [] (fs @ [x]) [] \<and> single k op 0 s' \<and>
    st_be s' = st_be s \<and> st_mem_base s' = st_mem_base s"
proof -
  have "0 \<in> {..<HCMD_NUM}" by (simp add: HCMD_NUM_def)
  then have "hcmd_used (st_hcl s) \<noteq> {..<HCMD_NUM}" using idle by auto
  then obtain s' k where s': "req_one s = Some s'" "emu_ok s' (f(HCE_CHECK_CACHE := f HCE_CHECK_CACHE @ [Some k])) [] [] [] (fs @ [x]) []"
    "hcmd_used (st_hcl s') = insert k (hcmd_used (st_hcl s))"
    "hcmd_queue (st_hcl s') = (hcmd_queue (st_hcl s))(k := fill_hcmd (of_nat x) (shm_slots (st_shm s) x) (st_cmd_cnt s + 1) (hcmd_at s k))"
    "st_be s' = st_be s" "st_mem_base s' = st_mem_base s" using req_one_new [OF ok] by blast
  have "single k op 0 s'"
    using s'(3,4) idle c op sz by (auto simp: single_def cmd_data_def fill_hcmd_fields cmd_payload_def SHM_WRITE_OPS_def SHM_READ_OPS_def)
  then show ?thesis using s' f by (intro exI [of _ s'] exI [of _ k]) simp
qed

lemma poll_single:
  assumes ok: "emu_ok s f reg busy cmp fs rs" and st: "st \<in> task_status" and q: "f st = [Some k]" and si: "single k op c s"
  shows "\<exists>s' f' reg'. poll_one junk st s = Some s' \<and> emu_ok s' f' reg' busy cmp fs rs \<and>
    moved (next_stage op st) k s (f(st := [])) reg s' f' reg' \<and>
    (if next_stage op st = Reclaimed then hcmd_used (st_hcl s') = {} else single k op c s') \<and> st_mem_base s' = st_mem_base s"
proof -
  have op: "op_code (hcmd_at s k) = op" and u: "hcmd_used (st_hcl s) = {k}" using si by (simp_all add: single_def cmd_data_def)
  obtain k' s' f' reg' where m: "Some k = Some k'" "poll_one junk st s = Some s'" "emu_ok s' f' reg' busy cmp fs rs"
    "moved (next_stage (op_code (hcmd_at s k')) st) k' s (f(st := [])) reg s' f' reg'" "cmd_frame {k'} s s'"
    "if next_stage (op_code (hcmd_at s k')) st = Reclaimed then k' \<notin> hcmd_used (st_hcl s') else keeps_cmd k' s s'"
    using poll_one_moves [where f = f and st = st, OF ok st q, of junk] by blast
  have k: "k' = k" using m(1) by simp
  have mb: "st_mem_base s' = st_mem_base s" using poll_one_ok [OF ok st, of junk] m(2) by auto
  have "j \<in> hcmd_used (st_hcl s') \<longleftrightarrow> j \<in> hcmd_used (st_hcl s)" if "j \<noteq> k" for j using m(5) that k by (simp add: cmd_frame_def)
  then have "hcmd_used (st_hcl s') \<subseteq> {k}" using u by auto
  then have "if next_stage op st = Reclaimed then hcmd_used (st_hcl s') = {} else single k op c s'"
    using m(6) si op unfolding k by (auto simp: keeps_cmd_def single_def cmd_data_def)
  then show ?thesis using m(2,3,4) mb unfolding k op by blast
qed

lemma queue_single:
  assumes "emu_ok s f reg busy cmp fs rs" and "st \<in> task_status" and "f st = [Some k]" and "single k op c s" and "next_stage op st = ToQueue st'"
  shows "\<exists>s'. poll_one junk st s = Some s' \<and> emu_ok s' (f(st := [], st' := f st' @ [Some k])) reg busy cmp fs rs \<and>
    single k op c s' \<and> st_mem_base s' = st_mem_base s"
  using poll_single [OF assms(1-4), of junk] assms(5) next_not_same [OF assms(5)] by (auto simp: moved_def)

lemma finish_single:
  assumes "emu_ok s f reg busy cmp fs rs" and "f HCE_FINISH = [Some k]" and "single k op c s"
  shows "\<exists>s'. poll_one junk HCE_FINISH s = Some s' \<and> emu_ok s' (f(HCE_FINISH := [])) reg busy cmp fs rs \<and>
    hcmd_used (st_hcl s') = {} \<and> st_mem_base s' = st_mem_base s"
  using poll_single [OF assms(1) _ assms(2,3), of junk] by (auto simp: moved_def next_stage_def task_status_def)

text \<open>The request that reaches the back end.\<close>

definition is_request :: "u32 \<Rightarrow> nat \<Rightarrow> u32 \<Rightarrow> EMU_sq \<Rightarrow> bool" where
  "is_request mb k op sq \<longleftrightarrow> sq_ch sq = 1 \<and> sq_field sq_op (sq_entry sq) = op \<and>
     sq_field sq_hcmd_index (sq_entry sq) = of_nat k \<and>
     push_bit 14 (sq_field sq_buf_adr (sq_entry sq)) = L2P_get_buffer_addr mb 0 \<and>
     (\<forall>junk. ppa_log_vars (be_ppa junk sq) = (1, 0, 0, 0, 0, 20))"

lemma fake_ppa_log: "ppa_log_vars (fake_ppa 20 junk) = (1, 0, 0, 0, 0, 20)"
  by (simp add: ppa_log_vars_def fake_ppa_def field_simps_c field_fits_def field_disjoint_def nand_field_defs)


lemma sent_is_request:
  assumes se: "sent_entry s k op junk i f2 sq" and k: "k < HCMD_NUM" and op: "op = HCE_WRITE \<or> op = HCE_READ" and mb: "aligned16K (st_mem_base s)"
  shows "is_request (st_mem_base s) k op sq"
proof -
  have sq: "sq = \<lparr>sq_ch = ucast (ppa_ch (fake_ppa 20 junk)), sq_ce_no = ucast (ppa_ce (fake_ppa 20 junk)), sq_index = i, sq_entry = hw_SQ f2 1 (unat i)\<rparr>"
    using se by (simp add: sent_entry_def)
  have i: "unat i < HW_QUEUE_DEPTH" using se by (auto simp: sent_entry_def FCL_set_SQ_entry_def Let_def split: if_splits)
  have ch: "unat (ppa_ch (fake_ppa 20 junk)) < TOTAL_CHANNEL" by (simp add: TOTAL_CHANNEL_def)
  have ne: "op \<noteq> HCE_ERASE" using op by auto
  obtain s' e where f: "FCL_set_SQ_entry (st_mem_base s) (of_nat k) i 0 op (fake_ppa 20 junk) 0 (snd (FCL_get_free_SQ_entry 1 (st_fcl s))) = Some s'"
    "e = hw_SQ s' (unat (ppa_ch (fake_ppa 20 junk))) (unat i)" "sq_field sq_op e = take_bit 2 op" "sq_field sq_hcmd_index e = take_bit 8 (of_nat k)"
    "sq_field sq_buf_adr e = take_bit 18 (drop_bit 14 (L2P_get_buffer_addr (st_mem_base s) 0))"
    "sq_field sq_a0 e = nand_byte 0 (fake_ppa 20 junk)" "sq_field sq_a1 e = nand_byte 1 (fake_ppa 20 junk)"
    "sq_field sq_a2 e = nand_byte 2 (fake_ppa 20 junk)" "sq_field sq_a3 e = nand_byte 3 (fake_ppa 20 junk)"
    "sq_field sq_a4 e = nand_byte 4 (fake_ppa 20 junk)" "sq_field sq_a5 e = nand_byte 5 (fake_ppa 20 junk)"
    by (rule set_SQ_entry_fields [OF ch i ne]) blast
  have e: "sq_entry sq = e" using se f(1,2) by (simp add: sent_entry_def)
  have "take_bit 2 op = op" using op by (auto simp: HCE_WRITE_def HCE_READ_def)
  moreover have "ppa_log_vars (be_ppa junk' sq) = (1, 0, 0, 0, 0, 20)" for junk'
    using be_ppa_round_trip [OF f(6-11), of sq i junk'] sq e fake_ppa_log by simp
  ultimately show ?thesis
    using f(3-5) e hcmd_index_take [OF k] aligned_drop_push [OF buffer_addr_aligned [OF mb]] sq by (simp add: is_request_def)
qed

lemma send_single:
  assumes ok: "emu_ok s f [] [] [] fs rs" and q: "f HCE_TO_SQ = [Some k]" and si: "single k op c s"
    and op: "op = HCE_WRITE \<or> op = HCE_READ" and mb: "aligned16K (st_mem_base s)"
  shows "\<exists>s' i sq. poll_one junk HCE_TO_SQ s = Some s' \<and> emu_ok s' (f(HCE_TO_SQ := [])) [i] [] [] fs rs \<and>
    single k op c s' \<and> st_mem_base s' = st_mem_base s \<and> emu_sqs (st_be s') i = Some sq \<and> is_request (st_mem_base s) k op sq"
proof -
  have "\<exists>s'. poll_one junk HCE_TO_SQ s = Some s' \<and> (\<exists>i sq. emu_ok s' (f(HCE_TO_SQ := [])) [i] [] [] fs rs \<and>
    single k op c s' \<and> st_mem_base s' = st_mem_base s \<and> emu_sqs (st_be s') i = Some sq \<and> is_request (st_mem_base s) k op sq)"
  proof (rule poll_via [where f = f and st = HCE_TO_SQ and k = k and ps = "[]", OF ok _ q])
    show "tq_func junk HCE_TO_SQ = Some (FTL_handle_tosq junk)" by (simp add: tq_func_def)
  next
    fix tq' let ?s = "s\<lparr>st_tq := tq'\<rparr>" let ?f = "f(HCE_TO_SQ := [])"
    assume a: "emu_ok ?s ?f [] [] [] fs rs" "loose_in ?s ?f ([] @ [] @ []) (Some k)"
    have o: "op_code (hcmd_at s k) = op" using si by (simp add: single_def cmd_data_def)
    from tosq_ok_sent [OF a sq_slot_available [OF a], of junk] obtain s' i sq where
      s': "FTL_handle_tosq junk (Some k) ?s = Some (SUCCESS, s')" "emu_ok s' ?f [malloc_next (st_be s)] [] [] fs rs"
      "sent_entry ?s k op junk i (st_fcl s') sq" "emu_sqs (st_be s') = (emu_sqs (st_be s))(malloc_next (st_be s) \<mapsto> sq)"
      "st_hcl s' = st_hcl (upd_hcmd k (\<lambda>e. e\<lparr>buf_cnt := 1, send_sq_cnt := 1\<rparr>) ?s)" "st_mem_base s' = st_mem_base s"
      using o by auto
    have "k < HCMD_NUM" using loose_valid [OF a(2)] by auto
    then have "is_request (st_mem_base s) k op sq" using sent_is_request [OF s'(3) _ op] mb by simp
    moreover have "single k op c s'" using s'(5) si by (simp add: single_def cmd_data_def)
    ultimately show "\<exists>r s'. FTL_handle_tosq junk (Some k) ?s = Some (r, s') \<and> (\<exists>i sq. emu_ok s' ?f [i] [] [] fs rs \<and>
      single k op c s' \<and> st_mem_base s' = st_mem_base s \<and> emu_sqs (st_be s') i = Some sq \<and> is_request (st_mem_base s) k op sq)"
      using s'(1,2,4,6) by (intro exI [of _ SUCCESS] exI [of _ s'] conjI exI [of _ "malloc_next (st_be s)"] exI [of _ sq]) simp_all
  qed (simp add: task_status_def)
  then show ?thesis by blast
qed


section \<open>The back end and the completion\<close>

lemma service_single:
  assumes "emu_ok s f [i] [] [] fs rs"
  shows "\<exists>b1 b2. be_take (st_be s) = Some (Some i, b1) \<and> emu_sqs b1 = emu_sqs (st_be s) \<and> be_complete i b1 = Some b2 \<and>
    emu_ok (s\<lparr>st_be := b2\<rparr>) f [] [] [i] fs rs"
proof -
  have r: "be_repr (st_be s) [i] [] []" using assms by (simp add: emu_ok_def)
  obtain b1 where b1: "be_take (st_be s) = Some (Some i, b1)" "be_repr b1 [] [i] []" "emu_sqs b1 = emu_sqs (st_be s)"
    using take_repr [OF r] by blast
  obtain b2 where b2: "be_complete i b1 = Some b2" "be_repr b2 [] [] [i]" "emu_sqs b2 = emu_sqs b1"
    using complete_repr [OF b1(2)] by auto
  have "emu_ok (s\<lparr>st_be := b2\<rparr>) f [] [] [i] fs rs" using ok_be_step [OF assms b2(2)] b1(3) b2(3) by simp
  then show ?thesis using b1 b2 by blast
qed

lemma completion_single:
  assumes ok: "emu_ok s f [] [] [i] fs rs" and sq: "emu_sqs (st_be s) i = Some sq" "is_request mb k op sq" and k: "k < HCMD_NUM"
    and si: "single k op 0 s" and f: "f HCE_FROM_CQ = []"
  shows "\<exists>s'. FTL_CQ_polling s = Some s' \<and> emu_ok s' (f(HCE_FROM_CQ := [Some k])) [] [] [] fs rs \<and> single k op 1 s' \<and>
    st_mem_base s' = st_mem_base s"
proof -
  have u: "unat (of_nat k :: u32) = k" using k unat_of_nat_u32 [of k] by (auto simp: HCMD_NUM_def)
  have h: "sq_hcmd (st_be s) i = Some k" using sq u by (simp add: sq_hcmd_def is_request_def HCL_get_hcmd_entry_addr_def)
  have d: "cpl_cnt (hcmd_at s k) + 1 = req_num (hcmd_at s k)" using si by (simp add: single_def cmd_data_def)
  obtain s' where s': "cq_one i s = Some s'" "emu_ok s' (f(HCE_FROM_CQ := f HCE_FROM_CQ @ [Some k])) [] [] [] fs rs"
    "st_hcl s' = st_hcl (upd_hcmd k (\<lambda>e. e\<lparr>cpl_cnt := cpl_cnt e + 1\<rparr>) s)" "st_mem_base s' = st_mem_base s"
    using cq_one_ok [OF ok] h d by auto
  have "FTL_CQ_polling s = FTL_CQ_polling s'" using CQ_polling_step [of s "[]" "[]" "[i]"] ok s'(1) by (simp add: emu_ok_def)
  moreover have "FTL_CQ_polling s' = Some s'" using CQ_polling_step [of s' "[]" "[]" "[]"] s'(2) by (simp add: emu_ok_def)
  moreover have "single k op 1 s'" using s'(3) si by (simp add: single_def cmd_data_def)
  ultimately show ?thesis using s'(2,4) f by simp
qed

lemma idle_queues:
  assumes "emu_ok s f [] [] [] fs rs" and "hcmd_used (st_hcl s) = {}" and "st \<in> task_status"
  shows "f st = []"
proof -
  have "set (places s f [] st) \<subseteq> Some ` {}" using assms(1,2) by (auto simp: emu_ok_def own_inv_def)
  then show ?thesis using task_status_wait [OF assms(3)] by (simp add: places_at)
qed

lemma task_statuses: "HCE_CHECK_CACHE \<in> task_status" "HCE_TO_SQ \<in> task_status" "HCE_DATAMOVED \<in> task_status"
  "HCE_FROM_CQ \<in> task_status" "HCE_FINISH \<in> task_status"
  by (simp_all add: task_status_def)

text \<open>Up to the submission queue: the write goes through the data-move queue first.\<close>

definition ftl_steps :: "emu_state \<Rightarrow> emu_state \<Rightarrow> bool" where
  "ftl_steps s t \<longleftrightarrow> (\<forall>S. sys_ftl S = s \<longrightarrow> emu_step\<^sup>*\<^sup>* S (S\<lparr>sys_ftl := t\<rparr>))"

lemma ftl_steps_refl: "ftl_steps s s"
  by (simp add: ftl_steps_def no_ftl_change)

lemma ftl_steps_trans: "ftl_steps s t \<Longrightarrow> ftl_steps t u \<Longrightarrow> ftl_steps s u"
  unfolding ftl_steps_def
proof (intro allI impI)
  fix S :: emu_sys
  assume a: "\<forall>S. sys_ftl S = s \<longrightarrow> emu_step\<^sup>*\<^sup>* S (S\<lparr>sys_ftl := t\<rparr>)" "\<forall>S. sys_ftl S = t \<longrightarrow> emu_step\<^sup>*\<^sup>* S (S\<lparr>sys_ftl := u\<rparr>)" "sys_ftl S = s"
  have "emu_step\<^sup>*\<^sup>* (S\<lparr>sys_ftl := t\<rparr>) (S\<lparr>sys_ftl := u\<rparr>)" using a(2) [rule_format, of "S\<lparr>sys_ftl := t\<rparr>"] by simp
  with a(1) [rule_format, OF a(3)] show "emu_step\<^sup>*\<^sup>* S (S\<lparr>sys_ftl := u\<rparr>)" by (rule rtranclp_trans)
qed

lemma ftl_stepsD: "ftl_steps s t \<Longrightarrow> sys_ftl S = s \<Longrightarrow> emu_step\<^sup>*\<^sup>* S (S\<lparr>sys_ftl := t\<rparr>)"
  by (simp add: ftl_steps_def)

lemma ftl_steps_req: "req_one s = Some t \<Longrightarrow> ftl_steps s t"
  unfolding ftl_steps_def using emu_step.ftl_request by blast

lemma ftl_steps_poll: "st \<in> task_status \<Longrightarrow> poll_one junk st s = Some t \<Longrightarrow> ftl_steps s t"
  unfolding ftl_steps_def using emu_step.ftl_task by blast

lemma ftl_steps_cq: "FTL_CQ_polling s = Some t \<Longrightarrow> ftl_steps s t"
  unfolding ftl_steps_def using emu_step.ftl_completion by blast

lemma to_sq_single:
  assumes ok: "emu_ok s f [] [] [] fs [x]" and idle: "hcmd_used (st_hcl s) = {}"
    and c: "cmd_payload (shm_slots (st_shm s) x) = (if op = HCE_WRITE then SHM_WRITE_OPS else SHM_READ_OPS, l, sz)"
    and op: "op = HCE_WRITE \<or> op = HCE_READ" and sz: "sz div HOST_BLOCK_SIZE div 4 = 1"
  shows "\<exists>t k. ftl_steps s t \<and> emu_ok t (f(HCE_TO_SQ := [Some k])) [] [] [] (fs @ [x]) [] \<and> single k op 0 t \<and> st_mem_base t = st_mem_base s"
proof -
  fix junk
  note e = idle_queues [OF ok idle task_statuses(1)] idle_queues [OF ok idle task_statuses(2)] idle_queues [OF ok idle task_statuses(3)]
  obtain s1 k where s1: "req_one s = Some s1" "emu_ok s1 (only_in HCE_CHECK_CACHE k f) [] [] [] (fs @ [x]) []" "single k op 0 s1"
    "st_mem_base s1 = st_mem_base s" using accept_single [OF ok idle e(1) c op sz] by blast
  let ?q = "if op = HCE_WRITE then HCE_DATAMOVED else HCE_TO_SQ"
  have n: "next_stage op HCE_CHECK_CACHE = ToQueue ?q" "next_stage HCE_WRITE HCE_DATAMOVED = ToQueue HCE_TO_SQ"
    using op by (auto simp: next_stage_def)
  have fe: "f(HCE_CHECK_CACHE := []) = f" "f(HCE_DATAMOVED := []) = f" using e by (auto simp: fun_eq_iff)
  obtain s2 where s2: "poll_one junk HCE_CHECK_CACHE s1 = Some s2" "emu_ok s2 (f(?q := [Some k])) [] [] [] (fs @ [x]) []"
    "single k op 0 s2" "st_mem_base s2 = st_mem_base s"
    using queue_single [OF s1(2) task_statuses(1) _ s1(3) n(1), of junk] e s1(4) fe by (auto split: if_splits)
  have st: "ftl_steps s s2" using ftl_steps_trans [OF ftl_steps_req [OF s1(1)] ftl_steps_poll [OF task_statuses(1) s2(1)]] .
  show ?thesis
  proof (cases "op = HCE_WRITE")
    case True
    have ok2: "emu_ok s2 (f(HCE_DATAMOVED := [Some k])) [] [] [] (fs @ [x]) []" using s2(2) True by simp
    obtain s3 where s3: "poll_one junk HCE_DATAMOVED s2 = Some s3"
      "emu_ok s3 (f(HCE_TO_SQ := [Some k])) [] [] [] (fs @ [x]) []" "single k op 0 s3" "st_mem_base s3 = st_mem_base s"
      using queue_single [OF ok2 task_statuses(3) _ s2(3), of HCE_TO_SQ junk] n(2) True e s2(4) fe by auto
    then show ?thesis using ftl_steps_trans [OF st ftl_steps_poll [OF task_statuses(3) s3(1)]] by blast
  next
    case False
    then show ?thesis using st s2(2,3,4) by auto
  qed
qed

text \<open>After the back end: the read goes through the data-move queue last.\<close>

lemma from_cq_single:
  assumes ok: "emu_ok s (f(HCE_FROM_CQ := [Some k])) [] [] [] fs rs" and si: "single k op 1 s" and op: "op = HCE_WRITE \<or> op = HCE_READ"
    and e: "f HCE_FROM_CQ = []" "f HCE_DATAMOVED = []" "f HCE_FINISH = []"
  shows "\<exists>t. ftl_steps s t \<and> emu_ok t f [] [] [] fs rs \<and> hcmd_used (st_hcl t) = {} \<and> st_mem_base t = st_mem_base s"
proof -
  fix junk
  let ?q = "if op = HCE_WRITE then HCE_FINISH else HCE_DATAMOVED"
  have n: "next_stage op HCE_FROM_CQ = ToQueue ?q" "next_stage HCE_READ HCE_DATAMOVED = ToQueue HCE_FINISH"
    using op by (auto simp: next_stage_def)
  have fe: "f(HCE_FROM_CQ := []) = f" "f(HCE_DATAMOVED := []) = f" "f(HCE_FINISH := []) = f" using e by (auto simp: fun_eq_iff)
  obtain s1 where s1: "poll_one junk HCE_FROM_CQ s = Some s1" "emu_ok s1 (f(?q := [Some k])) [] [] [] fs rs" "single k op 1 s1"
    "st_mem_base s1 = st_mem_base s"
    using queue_single [OF ok task_statuses(4) _ si n(1), of junk] e fe by (auto split: if_splits)
  obtain s2 where s2: "ftl_steps s1 s2" "emu_ok s2 (f(HCE_FINISH := [Some k])) [] [] [] fs rs" "single k op 1 s2" "st_mem_base s2 = st_mem_base s"
  proof (cases "op = HCE_WRITE")
    case True
    then show ?thesis using that s1 ftl_steps_refl by auto
  next
    case False
    then have ok1: "emu_ok s1 (f(HCE_DATAMOVED := [Some k])) [] [] [] fs rs" and r: "op = HCE_READ" using s1(2) op by simp_all
    obtain s2 where "poll_one junk HCE_DATAMOVED s1 = Some s2" "emu_ok s2 (f(HCE_FINISH := [Some k])) [] [] [] fs rs"
      "single k op 1 s2" "st_mem_base s2 = st_mem_base s"
      using queue_single [OF ok1 task_statuses(3) _ s1(3), of HCE_FINISH junk] n(2) r e s1(4) fe by auto
    then show ?thesis using that ftl_steps_poll [OF task_statuses(3)] by blast
  qed
  obtain s3 where s3: "poll_one junk HCE_FINISH s2 = Some s3" "emu_ok s3 f [] [] [] fs rs" "hcmd_used (st_hcl s3) = {}" "st_mem_base s3 = st_mem_base s"
    using finish_single [OF s2(2) _ s2(3), of junk] fe s2(4) by auto
  then show ?thesis
    using ftl_steps_trans [OF ftl_steps_trans [OF ftl_steps_poll [OF task_statuses(4) s1(1)] s2(1)] ftl_steps_poll [OF task_statuses(5) s3(1)]] by blast
qed

section \<open>The whole way\<close>

lemma command_trace:
  assumes ok: "emu_ok (sys_ftl s) f [] [] [] fs [x]" and idle: "hcmd_used (st_hcl (sys_ftl s)) = {}" "sys_be s = Be_Idle"
    and c: "cmd_payload (shm_slots (st_shm (sys_ftl s)) x) = (if op = HCE_WRITE then SHM_WRITE_OPS else SHM_READ_OPS, l, sz)"
    and op: "op = HCE_WRITE \<or> op = HCE_READ" and sz: "sz div HOST_BLOCK_SIZE div 4 = 1" and mb: "aligned16K (st_mem_base (sys_ftl s))"
    and fl: "\<And>k sq. is_request (st_mem_base (sys_ftl s)) k op sq \<Longrightarrow> be_flash junk vars sq (sys_mem s, sys_file s) = Some (Inr (mem, fl))"
  shows "\<exists>t f'. emu_step\<^sup>*\<^sup>* s t \<and> emu_ok (sys_ftl t) f' [] [] [] (fs @ [x]) [] \<and> hcmd_used (st_hcl (sys_ftl t)) = {} \<and>
    sys_mem t = mem \<and> sys_file t = fl \<and> sys_be t = Be_Idle \<and> st_mem_base (sys_ftl t) = st_mem_base (sys_ftl s)"
proof -
  note e = idle_queues [OF ok idle(1) task_statuses(2)] idle_queues [OF ok idle(1) task_statuses(3)]
    idle_queues [OF ok idle(1) task_statuses(4)] idle_queues [OF ok idle(1) task_statuses(5)]
  have fe: "f(HCE_TO_SQ := []) = f" using e by (auto simp: fun_eq_iff)
  obtain s3 k where s3: "ftl_steps (sys_ftl s) s3" "emu_ok s3 (f(HCE_TO_SQ := [Some k])) [] [] [] (fs @ [x]) []" "single k op 0 s3"
    "st_mem_base s3 = st_mem_base (sys_ftl s)" using to_sq_single [OF ok idle(1) c op sz] by blast
  obtain s4 i sq where s4: "poll_one junk HCE_TO_SQ s3 = Some s4" "emu_ok s4 f [i] [] [] (fs @ [x]) []" "single k op 0 s4"
    "st_mem_base s4 = st_mem_base (sys_ftl s)" "emu_sqs (st_be s4) i = Some sq" "is_request (st_mem_base (sys_ftl s)) k op sq"
    using send_single [OF s3(2) _ s3(3) op, of junk] mb s3(4) fe by auto
  have k: "k < HCMD_NUM" using s4(3) hcmd_used_bound [of "st_hcl s4"] by (auto simp: single_def)
  obtain b1 b2 where b: "be_take (st_be s4) = Some (Some i, b1)" "emu_sqs b1 = emu_sqs (st_be s4)" "be_complete i b1 = Some b2"
    "emu_ok (s4\<lparr>st_be := b2\<rparr>) f [] [] [i] (fs @ [x]) []" using service_single [OF s4(2)] by blast
  let ?S4 = "s\<lparr>sys_ftl := s4\<rparr>"
  let ?S5 = "s\<lparr>sys_ftl := s4\<lparr>st_be := b1\<rparr>, sys_be := Be_Taken i\<rparr>"
  let ?S6 = "?S5\<lparr>sys_be := Be_Done i, sys_mem := mem, sys_file := fl\<rparr>"
  let ?S7 = "?S6\<lparr>sys_ftl := s4\<lparr>st_be := b2\<rparr>, sys_be := Be_Idle\<rparr>"
  have 4: "emu_step\<^sup>*\<^sup>* s ?S4" using ftl_steps_trans [OF s3(1) ftl_steps_poll [OF task_statuses(2) s4(1)]] by (simp add: ftl_steps_def)
  have 5: "emu_step ?S4 ?S5" using emu_step.be_taking [of ?S4 i b1] idle(2) b(1) by simp
  have 6: "emu_step ?S5 ?S6" using emu_step.be_accessing [of ?S5 i sq junk vars mem fl] fl [OF s4(6)] b(2) s4(5) by simp
  have 7: "emu_step ?S6 ?S7" using emu_step.be_reporting [of ?S6 i b2] b(3) by simp
  have sq: "emu_sqs (st_be (s4\<lparr>st_be := b2\<rparr>)) i = Some sq"
    using b(2,3) s4(5) by (auto simp: be_complete_def split: bind_splits)
  have si: "single k op 0 (s4\<lparr>st_be := b2\<rparr>)" using s4(3) by (simp add: single_def cmd_data_def)
  obtain s8 where s8: "FTL_CQ_polling (s4\<lparr>st_be := b2\<rparr>) = Some s8" "emu_ok s8 (f(HCE_FROM_CQ := [Some k])) [] [] [] (fs @ [x]) []"
    "single k op 1 s8" "st_mem_base s8 = st_mem_base (sys_ftl s)"
    using completion_single [OF b(4) sq s4(6) k si e(3)] s4(4) by auto
  obtain s9 where s9: "ftl_steps s8 s9" "emu_ok s9 f [] [] [] (fs @ [x]) []" "hcmd_used (st_hcl s9) = {}" "st_mem_base s9 = st_mem_base (sys_ftl s)"
    using from_cq_single [OF s8(2,3) op e(3,2,4)] s8(4) by auto
  have 9: "emu_step\<^sup>*\<^sup>* ?S7 (?S7\<lparr>sys_ftl := s9\<rparr>)"
    by (rule ftl_stepsD [OF ftl_steps_trans [OF ftl_steps_cq [OF s8(1)] s9(1)]]) simp
  have "emu_step\<^sup>*\<^sup>* s (?S7\<lparr>sys_ftl := s9\<rparr>)"
    using 4 5 6 7 9 by (meson rtranclp.rtrancl_into_rtrancl rtranclp_trans)
  then show ?thesis using s9 by (intro exI [of _ "?S7\<lparr>sys_ftl := s9\<rparr>"] exI [of _ f]) simp
qed

section \<open>What the flash does with it\<close>

definition fixed_page :: log_vars where "fixed_page = (1, 0, 0, 0, 0, 20)"

lemma fixed_page_ok: "log_vars_ok fixed_page"
  by (simp add: log_vars_ok_def fixed_page_def)

lemma write_request_flash:
  assumes "is_request mb k HCE_WRITE sq"
  shows "be_flash junk vars sq (mem, Some old) =
    Some (Inr (mem, Some (old @ log_record (fixed_page, mem_bytes mem (L2P_get_buffer_addr mb 0) LOG_DATA_LEN))))"
  using assms by (simp add: is_request_def be_flash_def BE_write_log_def log_record_def fixed_page_def Let_def)

lemma read_request_flash:
  assumes "is_request mb k HCE_READ sq" and "length d = LOG_DATA_LEN"
  shows "be_flash junk vars sq (mem, Some (old @ log_record (fixed_page, d))) =
    Some (Inr (mem_write (L2P_get_buffer_addr mb 0) (dropWhile is_space d) mem, Some (old @ log_record (fixed_page, d))))"
proof -
  have a: "ppa_log_vars (be_ppa junk sq) = fixed_page" "push_bit 14 (sq_field sq_buf_adr (sq_entry sq)) = L2P_get_buffer_addr mb 0"
    "sq_field sq_op (sq_entry sq) = HCE_READ" using assms(1) by (simp_all add: is_request_def fixed_page_def)
  show ?thesis
    using read_newest [OF fixed_page_ok assms(2), of "L2P_get_buffer_addr mb 0" old vars mem]
    unfolding be_flash_def Let_def prod.case a BE_read_log_def log_record_def by (simp add: scan_ws_def)
qed

lemma reach_idle:
  assumes "emu_reach s" and "hcmd_used (st_hcl (sys_ftl s)) = {}" and "sys_be s = Be_Idle" and "shm_repr (st_shm (sys_ftl s)) fs rs"
  shows "\<exists>f. emu_ok (sys_ftl s) f [] [] [] fs rs" and "aligned16K (st_mem_base (sys_ftl s))" and "sys_file s \<noteq> None"
proof -
  have "sys_ok s" using assms(1) by (rule reach_sys_ok)
  then obtain f reg cmp fs' rs' where ok: "emu_ok (sys_ftl s) f reg [] cmp fs' rs'" "aligned16K (st_mem_base (sys_ftl s))" "sys_file s \<noteq> None"
    using assms(3) by (auto simp: sys_ok_def)
  then show "aligned16K (st_mem_base (sys_ftl s))" "sys_file s \<noteq> None" by simp_all
  have "set (places (sys_ftl s) f (reg @ [] @ cmp) HCE_WAIT_CQ) \<subseteq> Some ` {}" using ok(1) assms(2) by (auto simp: emu_ok_def own_inv_def)
  then have "reg = []" "cmp = []" by (simp_all add: places_def)
  then show "\<exists>f. emu_ok (sys_ftl s) f [] [] [] fs rs" using ok(1) assms(4) by (auto simp: emu_ok_def)
qed

text \<open>A write of one page, from the ready list to the log.\<close>

lemma write_trace:
  assumes "emu_reach s" and "hcmd_used (st_hcl (sys_ftl s)) = {}" and "sys_be s = Be_Idle"
    and "shm_repr (st_shm (sys_ftl s)) fs [x]" and "sys_file s = Some old"
    and "cmd_payload (shm_slots (st_shm (sys_ftl s)) x) = (SHM_WRITE_OPS, lpn, sz)" and "sz div HOST_BLOCK_SIZE div 4 = 1"
  shows "\<exists>t f. emu_step\<^sup>*\<^sup>* s t \<and> emu_ok (sys_ftl t) f [] [] [] (fs @ [x]) [] \<and> hcmd_used (st_hcl (sys_ftl t)) = {} \<and>
    sys_be t = Be_Idle \<and> sys_mem t = sys_mem s \<and> st_mem_base (sys_ftl t) = st_mem_base (sys_ftl s) \<and>
    sys_file t = Some (old @ log_record (fixed_page, mem_bytes (sys_mem s) (L2P_get_buffer_addr (st_mem_base (sys_ftl s)) 0) LOG_DATA_LEN))"
proof -
  fix junk vars
  obtain f where ok: "emu_ok (sys_ftl s) f [] [] [] fs [x]" using reach_idle(1) [OF assms(1-4)] by blast
  have mb: "aligned16K (st_mem_base (sys_ftl s))" using reach_idle(2) [OF assms(1-4)] .
  have p: "cmd_payload (shm_slots (st_shm (sys_ftl s)) x) = (if HCE_WRITE = HCE_WRITE then SHM_WRITE_OPS else SHM_READ_OPS, lpn, sz)"
    using assms(6) by simp
  let ?log = "Some (old @ log_record (fixed_page, mem_bytes (sys_mem s) (L2P_get_buffer_addr (st_mem_base (sys_ftl s)) 0) LOG_DATA_LEN))"
  have fl: "be_flash junk vars sq (sys_mem s, sys_file s) = Some (Inr (sys_mem s, ?log))"
    if "is_request (st_mem_base (sys_ftl s)) k HCE_WRITE sq" for k sq using write_request_flash [OF that] assms(5) by simp
  show ?thesis
    using command_trace [OF ok assms(2,3) p disjI1 [OF refl] assms(7) mb, where junk = junk and vars = vars and fl = "?log" and mem = "sys_mem s"] fl by blast
qed

end
