(* ===== verification/Fio_Axmap.thy ===== *)
theory Fio_Axmap
  imports Interfaces
begin

text \<open>
  The map of used blocks that fio keeps for random jobs: \<^verbatim>\<open>fio4emu/lib/axmap.c\<close>, with
  \<^verbatim>\<open>ffs64\<close> of \<^verbatim>\<open>fio4emu/lib/ffz.h\<close>, on a machine with 64-bit
  \<^verbatim>\<open>long\<close>. A level is its array of words; \<^verbatim>\<open>map_size\<close> and
  \<^verbatim>\<open>nr_levels\<close> are the lengths of the two arrays. \<open>None\<close> is an access outside
  an array or a failed assertion.
\<close>

section \<open>Bits of a word\<close>

lemma unat_drop_bit_div: "unat (drop_bit n w) = unat w div 2 ^ n"
  by (subst unat_drop_bit_eq) (rule drop_bit_eq_div)

definition ffs64 :: "u64 \<Rightarrow> u32" where
  "ffs64 word =
     (let (r, word) = (if word AND 0xffffffff = 0 then (32, drop_bit 32 word) else (0, word));
          (r, word) = (if word AND 0xffff = 0 then (r + 16, drop_bit 16 word) else (r, word));
          (r, word) = (if word AND 0xff = 0 then (r + 8, drop_bit 8 word) else (r, word));
          (r, word) = (if word AND 0xf = 0 then (r + 4, drop_bit 4 word) else (r, word));
          (r, word) = (if word AND 3 = 0 then (r + 2, drop_bit 2 word) else (r, word))
      in if word AND 1 = 0 then r + 1 else r)"

definition ffz :: "u64 \<Rightarrow> u32" where
  "ffz bitmask = ffs64 (NOT bitmask)"

definition bit_masks :: "u64 list" where
  "bit_masks = [
   0x0, 0x1, 0x3, 0x7,
   0xf, 0x1f, 0x3f, 0x7f,
   0xff, 0x1ff, 0x3ff, 0x7ff,
   0xfff, 0x1fff, 0x3fff, 0x7fff,
   0xffff, 0x1ffff, 0x3ffff, 0x7ffff,
   0xfffff, 0x1fffff, 0x3fffff, 0x7fffff,
   0xffffff, 0x1ffffff, 0x3ffffff, 0x7ffffff,
   0xfffffff, 0x1fffffff, 0x3fffffff, 0x7fffffff,
   0xffffffff, 0x1ffffffff, 0x3ffffffff, 0x7ffffffff,
   0xfffffffff, 0x1fffffffff, 0x3fffffffff, 0x7fffffffff,
   0xffffffffff, 0x1ffffffffff, 0x3ffffffffff, 0x7ffffffffff,
   0xfffffffffff, 0x1fffffffffff, 0x3fffffffffff, 0x7fffffffffff,
   0xffffffffffff, 0x1ffffffffffff, 0x3ffffffffffff, 0x7ffffffffffff,
   0xfffffffffffff, 0x1fffffffffffff, 0x3fffffffffffff, 0x7fffffffffffff,
   0xffffffffffffff, 0x1ffffffffffffff, 0x3ffffffffffffff, 0x7ffffffffffffff,
   0xfffffffffffffff, 0x1fffffffffffffff, 0x3fffffffffffffff, 0x7fffffffffffffff,
   0xffffffffffffffff]"

section \<open>Data\<close>

definition UNIT_SHIFT :: nat where "UNIT_SHIFT = 6"
definition BLOCKS_PER_UNIT :: u32 where "BLOCKS_PER_UNIT = push_bit UNIT_SHIFT 1"
definition BLOCKS_PER_UNIT_MASK :: u32 where "BLOCKS_PER_UNIT_MASK = BLOCKS_PER_UNIT - 1"

record axmap_level =
  al_level :: nat
  al_map :: "u64 list"

record axmap =
  ax_levels :: "axmap_level list"
  ax_nr_bits :: u64

definition map_size :: "axmap_level \<Rightarrow> nat" where "map_size al = length (al_map al)"
definition nr_levels :: "axmap \<Rightarrow> nat" where "nr_levels a = length (ax_levels a)"

text \<open>\<open>n / BLOCKS_PER_UNIT\<close>, rounded up, and the place of bit \<open>index\<close> of a level.\<close>

definition units :: "u64 \<Rightarrow> u64" where
  "units n = drop_bit UNIT_SHIFT (n + ucast BLOCKS_PER_UNIT - 1)"

definition unit_of :: "u64 \<Rightarrow> u64" where "unit_of index = drop_bit UNIT_SHIFT index"
definition bit_of :: "u64 \<Rightarrow> u32" where "bit_of index = ucast (index AND ucast BLOCKS_PER_UNIT_MASK)"

section \<open>Operations\<close>

definition axmap_reset :: "axmap \<Rightarrow> axmap" where
  "axmap_reset a = a\<lparr>ax_levels := map (\<lambda>al. al\<lparr>al_map := replicate (map_size al) 0\<rparr>) (ax_levels a)\<rparr>"

text \<open>The loop that counts the levels works on an \<^verbatim>\<open>unsigned int\<close>.\<close>

function count_levels :: "u32 \<Rightarrow> nat \<Rightarrow> nat" where
  "count_levels i levels =
     (if i > 1 then count_levels (drop_bit UNIT_SHIFT (i + BLOCKS_PER_UNIT - 1)) (levels + 1) else levels)"
  by pat_completeness auto
termination
proof (relation "measure (\<lambda>(i, levels). unat i)")
  fix i :: u32 and levels
  assume "1 < i"
  then have "1 < unat i" by (simp add: word_less_nat_alt)
  moreover have "unat (i + BLOCKS_PER_UNIT - 1) \<le> unat i + 63"
    by (simp add: BLOCKS_PER_UNIT_def UNIT_SHIFT_def unat_word_ariths)
  moreover have "unat (drop_bit UNIT_SHIFT (i + BLOCKS_PER_UNIT - 1)) = unat (i + BLOCKS_PER_UNIT - 1) div 64"
    by (simp only: unat_drop_bit_div) (simp add: UNIT_SHIFT_def)
  ultimately have "unat (drop_bit UNIT_SHIFT (i + BLOCKS_PER_UNIT - 1)) < unat i" by linarith
  then show "((drop_bit UNIT_SHIFT (i + BLOCKS_PER_UNIT - 1), levels + 1), i, levels) \<in> measure (\<lambda>(i, levels). unat i)"
    by simp
qed simp

declare count_levels.simps [simp del]

text \<open>\<open>struct_ok\<close>, \<open>levels_ok\<close>, \<open>map_ok i\<close>: whether the allocations succeed;
  \<open>junk i\<close>: what the memory of the map of level \<open>i\<close> contains.\<close>

primrec new_levels :: "(nat \<Rightarrow> bool) \<Rightarrow> (nat \<Rightarrow> nat \<Rightarrow> u64) \<Rightarrow> nat \<Rightarrow> nat \<Rightarrow> u64 \<Rightarrow> axmap_level list option" where
  "new_levels map_ok junk i 0 nr_bits = Some []"
| "new_levels map_ok junk i (Suc n) nr_bits =
     (let nr_bits = units nr_bits
      in if map_ok i then do {
           als \<leftarrow> new_levels map_ok junk (Suc i) n nr_bits;
           Some (\<lparr>al_level = i, al_map = map (junk i) [0..<unat nr_bits]\<rparr> # als)
         }
         else None)"

definition axmap_new :: "bool \<Rightarrow> bool \<Rightarrow> (nat \<Rightarrow> bool) \<Rightarrow> (nat \<Rightarrow> nat \<Rightarrow> u64) \<Rightarrow> u64 \<Rightarrow> axmap ptr" where
  "axmap_new struct_ok levels_ok map_ok junk nr_bits =
     (if \<not> struct_ok \<or> \<not> levels_ok then NULL
      else case new_levels map_ok junk 0 (count_levels (ucast (units nr_bits)) 1) nr_bits of
        None \<Rightarrow> NULL
      | Some als \<Rightarrow> Some (axmap_reset \<lparr>ax_levels = als, ax_nr_bits = nr_bits\<rparr>))"

text \<open>The walk over the levels from level 0; \<open>func\<close> may change the level and its own data.\<close>

fun axmap_handler ::
  "(axmap_level \<Rightarrow> u64 \<Rightarrow> u32 \<Rightarrow> 'd \<Rightarrow> (bool \<times> axmap_level \<times> 'd) option) \<Rightarrow> u64 \<Rightarrow> axmap_level list \<Rightarrow> 'd \<Rightarrow>
     (bool \<times> axmap_level list \<times> 'd) option" where
  "axmap_handler func index [] data = Some (False, [], data)"
| "axmap_handler func index (al # als) data = do {
     (stop, al', data') \<leftarrow> func al (unit_of index) (bit_of index) data;
     if stop then Some (True, al' # als, data')
     else do {
       (r, als', data'') \<leftarrow> axmap_handler func (if index \<noteq> 0 then unit_of index else index) als data';
       Some (r, al' # als', data'')
     }
   }"

text \<open>The walk from the highest level: \<open>i\<close> levels are left.\<close>

primrec axmap_handler_topdown ::
  "(axmap_level \<Rightarrow> u64 \<Rightarrow> u32 \<Rightarrow> bool option) \<Rightarrow> u64 \<Rightarrow> axmap \<Rightarrow> nat \<Rightarrow> bool option" where
  "axmap_handler_topdown func bit_nr a 0 = Some False"
| "axmap_handler_topdown func bit_nr a (Suc i) = do {
     let index = drop_bit (UNIT_SHIFT * i) bit_nr;
     r \<leftarrow> func (ax_levels a ! i) (unit_of index) (bit_of index);
     if r then Some True else axmap_handler_topdown func bit_nr a i
   }"

record axmap_set_data =
  sd_nr_bits :: u32
  sd_set_bits :: u32

definition axmap_set_fn :: "axmap_level \<Rightarrow> u64 \<Rightarrow> u32 \<Rightarrow> axmap_set_data \<Rightarrow> (bool \<times> axmap_level \<times> axmap_set_data) option" where
  "axmap_set_fn al offset b data =
     (if unat offset < map_size al then
        let w = al_map al ! unat offset;
            nr_bits = min (sd_nr_bits data) (BLOCKS_PER_UNIT - b);
            mask = push_bit (unat b) (bit_masks ! unat nr_bits);
            overlap = w AND mask
        in if overlap = mask then Some (True, al, data\<lparr>sd_set_bits := 0\<rparr>)
           else let nr_bits = (if overlap \<noteq> 0 then ffz (NOT overlap) - b else nr_bits);
                    mask = (if overlap \<noteq> 0 then push_bit (unat b) (bit_masks ! unat nr_bits) else mask)
           in if overlap \<noteq> 0 \<and> nr_bits = 0 then Some (True, al, data)
           else if mask = 0 \<or> w AND mask \<noteq> 0 then None
           else let w' = w OR mask
           in Some (w' \<noteq> - 1, al\<lparr>al_map := (al_map al)[unat offset := w']\<rparr>,
                \<lparr>sd_nr_bits = 1, sd_set_bits = (if al_level al = 0 then nr_bits else sd_set_bits data)\<rparr>)
      else None)"

text \<open>The local \<^verbatim>\<open>nr_bits\<close> of \<^verbatim>\<open>__axmap_set\<close> is used by its assertion only.\<close>

definition axmap_set_raw :: "u64 \<Rightarrow> axmap_set_data \<Rightarrow> axmap \<Rightarrow> (axmap_set_data \<times> axmap) option" where
  "axmap_set_raw bit_nr data a =
     (if bit_nr > ax_nr_bits a then Some (data, a)
      else let nr_bits = (if bit_nr + ucast (sd_nr_bits data) > ax_nr_bits a then ucast (ax_nr_bits a - bit_nr) else sd_nr_bits data)
      in if nr_bits \<le> BLOCKS_PER_UNIT then do {
           (_, als, data') \<leftarrow> axmap_handler axmap_set_fn bit_nr (ax_levels a) data;
           Some (data', a\<lparr>ax_levels := als\<rparr>)
         }
         else None)"

definition axmap_set :: "u64 \<Rightarrow> axmap \<Rightarrow> axmap option" where
  "axmap_set bit_nr a = map_option snd (axmap_set_raw bit_nr \<lparr>sd_nr_bits = 1, sd_set_bits = 0\<rparr> a)"

text \<open>One round of the loop of \<^verbatim>\<open>axmap_set_nr\<close>: the bits asked for and the bits set.\<close>

definition set_round :: "u64 \<Rightarrow> u32 \<Rightarrow> axmap \<Rightarrow> (u32 \<times> u32 \<times> axmap) option" where
  "set_round bit_nr nr_bits a = do {
     let max_bits = BLOCKS_PER_UNIT - bit_of bit_nr;
     let this_set = (if nr_bits > max_bits then max_bits else nr_bits);
     (data, a') \<leftarrow> axmap_set_raw bit_nr \<lparr>sd_nr_bits = this_set, sd_set_bits = 0\<rparr> a;
     Some (this_set, sd_set_bits data, a')
   }"

partial_function (option) set_nr_loop :: "u64 \<Rightarrow> u32 \<Rightarrow> u32 \<Rightarrow> axmap \<Rightarrow> (u32 \<times> axmap) option" where
  "set_nr_loop bit_nr nr_bits set_bits a = do {
     r \<leftarrow> set_round bit_nr nr_bits a;
     case r of (this_set, n, a') \<Rightarrow>
       if n \<noteq> this_set \<or> nr_bits - n = 0 then Some (set_bits + n, a')
       else set_nr_loop (bit_nr + ucast n) (nr_bits - n) (set_bits + n) a'
   }"

definition axmap_set_nr :: "u64 \<Rightarrow> u32 \<Rightarrow> axmap \<Rightarrow> (u32 \<times> axmap) option" where
  "axmap_set_nr bit_nr nr_bits a = set_nr_loop bit_nr nr_bits 0 a"

definition axmap_isset_fn :: "axmap_level \<Rightarrow> u64 \<Rightarrow> u32 \<Rightarrow> bool option" where
  "axmap_isset_fn al offset b =
     (if unat offset < map_size al then Some (al_map al ! unat offset AND push_bit (unat b) 1 \<noteq> 0) else None)"

definition axmap_isset :: "axmap \<Rightarrow> u64 \<Rightarrow> bool option" where
  "axmap_isset a bit_nr =
     (if bit_nr \<le> ax_nr_bits a then axmap_handler_topdown axmap_isset_fn bit_nr a (nr_levels a) else Some False)"

text \<open>The search for a word with a free bit from \<open>offset\<close> on: its offset and its free
  bits.\<close>

fun free_word :: "nat \<Rightarrow> u64 list \<Rightarrow> (nat \<times> u64) option" where
  "free_word offset [] = None"
| "free_word offset (w # ws) = (if NOT w \<noteq> 0 then Some (offset, NOT w) else free_word (Suc offset) ws)"

definition level_free :: "axmap_level \<Rightarrow> u64 \<Rightarrow> u64 option" where
  "level_free al index =
     (let offset = unat (unit_of index)
      in if offset \<ge> map_size al then None
         else let temp = NOT (bit_masks ! unat (bit_of index)) AND NOT (al_map al ! offset)
         in case (if temp \<noteq> 0 then Some (offset, temp) else free_word (Suc offset) (drop (Suc offset) (al_map al))) of
              None \<Rightarrow> None
            | Some (offset, temp) \<Rightarrow> Some (push_bit UNIT_SHIFT (of_nat offset) + ucast (ffz (NOT temp))))"

primrec first_free_loop :: "axmap \<Rightarrow> u64 \<Rightarrow> nat \<Rightarrow> u64 \<Rightarrow> u64 option" where
  "first_free_loop a bit_nr 0 index = Some index"
| "first_free_loop a bit_nr (Suc i) index =
     (let index = push_bit UNIT_SHIFT index;
          base_index = drop_bit (UNIT_SHIFT * i) bit_nr;
          index = (if index < base_index then base_index else index)
      in case level_free (ax_levels a ! i) index of None \<Rightarrow> None | Some index \<Rightarrow> first_free_loop a bit_nr i index)"

definition axmap_find_first_free :: "axmap \<Rightarrow> u64 \<Rightarrow> u64" where
  "axmap_find_first_free a bit_nr =
     (case first_free_loop a bit_nr (nr_levels a) 0 of
        None \<Rightarrow> - 1
      | Some index \<Rightarrow> if index \<ge> ax_nr_bits a then - 1 else index)"

definition axmap_next_free :: "axmap \<Rightarrow> u64 \<Rightarrow> u64 option" where
  "axmap_next_free a bit_nr =
     (if bit_nr \<ge> ax_nr_bits a then Some (- 1)
      else
        let next_bit = (if bit_nr + 1 = ax_nr_bits a then 0 else bit_nr + 1);
            offset = unit_of next_bit
        in if unat offset < map_size (ax_levels a ! 0) then
             let temp = NOT (bit_masks ! unat (bit_of next_bit)) AND NOT (al_map (ax_levels a ! 0) ! unat offset);
                 ret = (if temp \<noteq> 0 then
                          let ret = push_bit UNIT_SHIFT offset + ucast (ffz (NOT temp))
                          in if ret \<ge> ax_nr_bits a then - 1 else ret
                        else axmap_find_first_free a next_bit)
             in Some (if ret = - 1 \<and> next_bit \<noteq> 0 then axmap_find_first_free a 0 else ret)
           else None)"

section \<open>The lowest set bit\<close>

definition lowest :: "'a::len word \<Rightarrow> nat \<Rightarrow> bool" where
  "lowest w r \<longleftrightarrow> bit w r \<and> (\<forall>j < r. \<not> bit w j)"

lemma lowest_unique: "lowest w r \<Longrightarrow> lowest w q \<Longrightarrow> r = q"
  by (metis lowest_def linorder_neqE_nat)

lemma take_bit_zero_iff: "take_bit k w = 0 \<longleftrightarrow> (\<forall>j < k. \<not> bit w j)" for w :: "'a::len word"
  by (simp add: bit_eq_iff bit_take_bit_iff) (metis bit_imp_le_length)

text \<open>One halving of the search: if the low \<open>k\<close> bits are zero, go on with the others.\<close>

definition ffs_half :: "nat \<Rightarrow> (u32 \<Rightarrow> u64 \<Rightarrow> u32) \<Rightarrow> u32 \<Rightarrow> u64 \<Rightarrow> u32" where
  "ffs_half k g r w = (if take_bit k w = 0 then g (r + of_nat k) (drop_bit k w) else g r w)"

definition finds :: "nat \<Rightarrow> (u32 \<Rightarrow> u64 \<Rightarrow> u32) \<Rightarrow> bool" where
  "finds k g \<longleftrightarrow> (\<forall>r w. take_bit k w \<noteq> 0 \<longrightarrow> (\<exists>q < k. lowest w q \<and> g r w = r + of_nat q))"

lemma finds_half:
  assumes "finds k g"
  shows "finds (k + k) (ffs_half k g)"
  unfolding finds_def
proof (intro allI impI)
  fix r and w :: u64
  assume nz: "take_bit (k + k) w \<noteq> 0"
  show "\<exists>q < k + k. lowest w q \<and> ffs_half k g r w = r + of_nat q"
  proof (cases "take_bit k w = 0")
    case True
    then have z: "\<not> bit w j" if "j < k" for j using that by (simp add: take_bit_zero_iff)
    obtain j where j: "j < k + k" "bit w j" using nz by (auto simp: take_bit_zero_iff)
    then have "j \<ge> k" using z by (metis not_le)
    then have "bit (drop_bit k w) (j - k)" "j - k < k" using j by (simp_all add: bit_drop_bit_eq)
    then have "take_bit k (drop_bit k w) \<noteq> 0" unfolding take_bit_zero_iff by blast
    then obtain q where q: "q < k" "lowest (drop_bit k w) q" "g (r + of_nat k) (drop_bit k w) = r + of_nat k + of_nat q"
      using assms unfolding finds_def by blast
    have "lowest w (k + q)" unfolding lowest_def
    proof (intro conjI allI impI)
      show "bit w (k + q)" using q(2) by (simp add: lowest_def bit_drop_bit_eq)
      fix i assume "i < k + q"
      then show "\<not> bit w i" using z [of i] q(2) by (cases "i < k") (auto simp: lowest_def bit_drop_bit_eq dest: spec [of _ "i - k"])
    qed
    then show ?thesis using q True by (intro exI [of _ "k + q"]) (simp add: ffs_half_def)
  next
    case False
    then obtain q where "q < k" "lowest w q" "g r w = r + of_nat q" using assms unfolding finds_def by blast
    then show ?thesis using False by (intro exI [of _ q]) (simp add: ffs_half_def)
  qed
qed

lemma ffs64_halves: "ffs64 w = ffs_half 32 (ffs_half 16 (ffs_half 8 (ffs_half 4 (ffs_half 2 (ffs_half 1 (\<lambda>r w. r)))))) 0 w"
proof -
  have o: "v AND 1 = take_bit 1 v" for v :: u64 by (simp add: take_bit_eq_mask)
  have m: "(0xffffffff :: u64) = mask 32" "(0xffff :: u64) = mask 16" "(0xff :: u64) = mask 8" "(0xf :: u64) = mask 4"
    "(3 :: u64) = mask 2" by (simp_all add: mask_eq_exp_minus_1)
  have c: "(case (if b then x else y) of (r, v) \<Rightarrow> f r v) = (if b then (case x of (r, v) \<Rightarrow> f r v) else (case y of (r, v) \<Rightarrow> f r v))"
    for b and x y :: "u32 \<times> u64" and f :: "u32 \<Rightarrow> u64 \<Rightarrow> u32" by simp
  show ?thesis unfolding ffs64_def ffs_half_def Let_def m take_bit_eq_mask [symmetric] o
    by (simp only: c prod.case of_nat_numeral of_nat_1 add_0_left)
qed

lemma ffs64_lowest:
  assumes "w \<noteq> 0"
  shows "lowest w (unat (ffs64 w))" and "unat (ffs64 w) < 64"
proof -
  have "finds 1 (\<lambda>r w. r)" unfolding finds_def take_bit_zero_iff lowest_def by auto
  from finds_half [OF this] have "finds 2 (ffs_half 1 (\<lambda>r w. r))" by (simp del: One_nat_def)
  from finds_half [OF this] have "finds 4 (ffs_half 2 (ffs_half 1 (\<lambda>r w. r)))" by (simp del: One_nat_def)
  from finds_half [OF this] have "finds 8 (ffs_half 4 (ffs_half 2 (ffs_half 1 (\<lambda>r w. r))))" by (simp del: One_nat_def)
  from finds_half [OF finds_half [OF finds_half [OF this]]]
  have "finds 64 (ffs_half 32 (ffs_half 16 (ffs_half 8 (ffs_half 4 (ffs_half 2 (ffs_half 1 (\<lambda>r w. r)))))))" by (simp del: One_nat_def)
  moreover have "take_bit 64 w \<noteq> 0" using assms by (simp add: take_bit_word_eq_self)
  ultimately obtain q where q: "q < 64" "lowest w q" "ffs64 w = 0 + of_nat q" unfolding finds_def ffs64_halves by blast
  then have "unat (ffs64 w) = q" using unat_of_nat_u32 [of q] by simp
  then show "lowest w (unat (ffs64 w))" "unat (ffs64 w) < 64" using q by simp_all
qed

section \<open>Words, masks and places\<close>

lemma bit_masks_eq: "bit_masks = map mask [0..<65]"
  unfolding bit_masks_def by (simp add: upt_rec mask_eq_exp_minus_1)

lemma bit_masks_nth: "n \<le> 64 \<Longrightarrow> bit_masks ! n = mask n"
  by (simp add: bit_masks_eq nth_map_upt)

lemma unat_BLOCKS [simp]: "unat BLOCKS_PER_UNIT = 64"
  by (simp add: BLOCKS_PER_UNIT_def UNIT_SHIFT_def)

lemma unat_unit_of: "unat (unit_of i) = unat i div 64"
  by (simp add: unit_of_def UNIT_SHIFT_def unat_drop_bit_div)

lemma unat_bit_of: "unat (bit_of i) = unat i mod 64"
proof -
  have "ucast BLOCKS_PER_UNIT_MASK = (mask 6 :: u64)"
    by (simp add: BLOCKS_PER_UNIT_MASK_def BLOCKS_PER_UNIT_def UNIT_SHIFT_def mask_eq_exp_minus_1)
  then have "unat (i AND ucast BLOCKS_PER_UNIT_MASK) = unat i mod 64"
    by (simp add: take_bit_eq_mask [symmetric] unsigned_take_bit_eq take_bit_eq_mod unat_mod_distrib)
  moreover have "\<dots> < 2 ^ 32" by (rule less_trans [of _ 64]) simp_all
  ultimately show ?thesis by (simp add: bit_of_def unsigned_ucast_eq take_bit_nat_eq_self)
qed

lemma unat_units: "unat n < 2 ^ 63 \<Longrightarrow> unat (units n) = (unat n + 63) div 64"
proof -
  assume "unat n < 2 ^ 63"
  then have "unat (n + 63) = unat n + 63" by (subst unat_add_lem [THEN iffD1]) simp_all
  moreover have "n + ucast BLOCKS_PER_UNIT - 1 = n + 63" by (simp add: BLOCKS_PER_UNIT_def UNIT_SHIFT_def)
  ultimately show ?thesis by (simp only: units_def unat_drop_bit_div UNIT_SHIFT_def) simp
qed

section \<open>Runs of free bits\<close>

fun free_run :: "nat set \<Rightarrow> nat \<Rightarrow> nat \<Rightarrow> nat" where
  "free_run S j 0 = 0"
| "free_run S j (Suc n) = (if j \<in> S then 0 else Suc (free_run S (Suc j) n))"

lemma free_run_iff: "free_run S j n = c \<longleftrightarrow> c \<le> n \<and> S \<inter> {j..<j + c} = {} \<and> (c < n \<longrightarrow> j + c \<in> S)"
proof (induction S j n arbitrary: c rule: free_run.induct)
  case (1 S j)
  then show ?case by auto
next
  case (2 S j n)
  show ?case
  proof (cases c)
    case 0
    then show ?thesis by auto
  next
    case (Suc d)
    have "{j..<j + Suc d} = insert j {Suc j..<Suc j + d}" by auto
    then show ?thesis using "2.IH" [of d] Suc by auto
  qed
qed

lemma free_run_le: "free_run S j n \<le> n"
  using free_run_iff by blast

lemma free_run_add:
  "free_run S j m = m \<Longrightarrow> free_run S j (m + n) = m + free_run S (j + m) n"
  by (induction m arbitrary: j) (auto split: if_splits)

section \<open>Setting bits in a word\<close>

lemma bit_run: "bit (push_bit b (mask n) :: u64) i \<longleftrightarrow> b \<le> i \<and> i < b + n \<and> i < 64"
  by (auto simp: bit_simps)

lemma eq_of_nat_unat: "unat x = n \<Longrightarrow> x = of_nat n" for x :: "'a::len word"
  by (drule sym) simp

lemma unat_rest: "unat b < 64 \<Longrightarrow> unat (BLOCKS_PER_UNIT - b) = 64 - unat b"
  by (subst unat_sub) (simp_all add: word_le_nat_alt)

lemma unat_min: "unat (min x y) = min (unat x) (unat y)" for x y :: u32
  by (simp add: min_def word_le_nat_alt)

text \<open>The bits of \<open>w\<close> from \<open>b\<close> on: how the overlap with a run shows its free part.\<close>

lemma run_overlap:
  fixes w :: u64
  assumes "b + m \<le> 64" and "0 < m"
  defines "c \<equiv> free_run {i. bit w i} b m" and "M \<equiv> push_bit b (mask m)"
  shows "w AND M = M \<Longrightarrow> c = 0" and "w AND M = 0 \<Longrightarrow> c = m"
    and "w AND M \<noteq> 0 \<Longrightarrow> unat (ffs64 (w AND M)) = b + c"
    and "w AND push_bit b (mask c) = 0" and "0 < c \<Longrightarrow> push_bit b (mask c) \<noteq> (0 :: u64)"
    and "0 < c \<Longrightarrow> w AND M \<noteq> M"
proof -
  have c: "c \<le> m" "{i. bit w i} \<inter> {b..<b + c} = {}" "c < m \<Longrightarrow> bit w (b + c)"
    using free_run_iff [of "{i. bit w i}" b m c] by (simp_all add: c_def)
  have M: "bit M i \<longleftrightarrow> b \<le> i \<and> i < b + m" for i using assms(1) by (auto simp: M_def bit_run)
  have free: "\<not> bit w i" if "b \<le> i" "i < b + c" for i using c(2) that by auto
  show "c = 0" if "w AND M = M"
  proof (rule ccontr)
    assume "c \<noteq> 0"
    then have "\<not> bit w b" using free [of b] by simp
    moreover have "bit (w AND M) b" unfolding that using M assms(2) by simp
    ultimately show False by (simp add: bit_and_iff)
  qed
  then show "w AND M \<noteq> M" if "0 < c" using that by auto
  show "c = m" if "w AND M = 0"
  proof (rule ccontr)
    assume "c \<noteq> m"
    then have "bit (w AND M) (b + c)" using c M by (simp add: bit_and_iff)
    then show False using that by simp
  qed
  then show "unat (ffs64 (w AND M)) = b + c" if "w AND M \<noteq> 0"
  proof -
    have "c < m"
    proof (rule ccontr)
      assume "\<not> c < m"
      then have "w AND M = 0" using c(1) free M by (intro bit_word_eqI) (auto simp: bit_and_iff)
      then show False using that by simp
    qed
    then have "lowest (w AND M) (b + c)" using c(3) M free by (auto simp: lowest_def bit_and_iff)
    then show ?thesis using ffs64_lowest(1) [OF that] lowest_unique by blast
  qed
  show "w AND push_bit b (mask c) = 0" using free by (intro bit_word_eqI) (auto simp: bit_and_iff bit_run)
  show "push_bit b (mask c) \<noteq> (0 :: u64)" if "0 < c"
  proof
    assume z: "push_bit b (mask c) = (0 :: u64)"
    have "bit (push_bit b (mask c) :: u64) b" using that assms(1,2) by (simp add: bit_run)
    then show False unfolding z by simp
  qed
qed

lemma set_fn_spec:
  assumes "unat off < map_size al" and "unat b < 64" and "0 < unat (sd_nr_bits data)"
  defines "w \<equiv> al_map al ! unat off"
  defines "c \<equiv> free_run {i. bit w i} (unat b) (min (unat (sd_nr_bits data)) (64 - unat b))"
  shows "c = 0 \<Longrightarrow> sd_set_bits data = 0 \<Longrightarrow> \<exists>d. axmap_set_fn al off b data = Some (True, al, d) \<and> sd_set_bits d = 0"
    and "0 < c \<Longrightarrow> axmap_set_fn al off b data =
      Some (w OR push_bit (unat b) (mask c) \<noteq> - 1, al\<lparr>al_map := (al_map al)[unat off := w OR push_bit (unat b) (mask c)]\<rparr>,
        \<lparr>sd_nr_bits = 1, sd_set_bits = (if al_level al = 0 then of_nat c else sd_set_bits data)\<rparr>)"
proof -
  let ?m = "min (unat (sd_nr_bits data)) (64 - unat b)"
  have n: "unat (min (sd_nr_bits data) (BLOCKS_PER_UNIT - b)) = ?m" by (simp add: unat_min unat_rest [OF assms(2)])
  have m: "unat b + ?m \<le> 64" "0 < ?m" "?m \<le> 64" using assms(2,3) by auto
  note r = run_overlap [OF m(1,2), of w, folded c_def]
  have cm: "c \<le> ?m" unfolding c_def by (rule free_run_le)
  have e: "axmap_set_fn al off b data =
    (let M = push_bit (unat b) (mask ?m); overlap = w AND M
     in if overlap = M then Some (True, al, data\<lparr>sd_set_bits := 0\<rparr>)
        else let nr_bits = (if overlap \<noteq> 0 then ffs64 overlap - b else min (sd_nr_bits data) (BLOCKS_PER_UNIT - b));
                 M = (if overlap \<noteq> 0 then push_bit (unat b) (bit_masks ! unat nr_bits) else M)
        in if overlap \<noteq> 0 \<and> nr_bits = 0 then Some (True, al, data)
           else if M = 0 \<or> w AND M \<noteq> 0 then None
           else Some (w OR M \<noteq> - 1, al\<lparr>al_map := (al_map al)[unat off := w OR M]\<rparr>,
                \<lparr>sd_nr_bits = 1, sd_set_bits = (if al_level al = 0 then nr_bits else sd_set_bits data)\<rparr>))"
    using assms(1) by (simp add: axmap_set_fn_def w_def Let_def ffz_def n bit_masks_nth [OF m(3)])
  have f: "ffs64 (w AND push_bit (unat b) (mask ?m)) - b = of_nat c" if "w AND push_bit (unat b) (mask ?m) \<noteq> 0"
  proof -
    have "ffs64 (w AND push_bit (unat b) (mask ?m)) = of_nat (unat b + c)" using r(3) [OF that] by (rule eq_of_nat_unat)
    then show ?thesis by simp
  qed
  have c64: "c \<le> 64" using cm m(3) by (rule order_trans)
  then have cc: "unat (of_nat c :: u32) = c" by (intro unat_of_nat_u32) simp
  have bm: "bit_masks ! c = mask c" using c64 by (rule bit_masks_nth)
  have mm: "min (sd_nr_bits data) (BLOCKS_PER_UNIT - b) = of_nat ?m" using n by (rule eq_of_nat_unat)
  show "\<exists>d. axmap_set_fn al off b data = Some (True, al, d) \<and> sd_set_bits d = 0" if "c = 0" "sd_set_bits data = 0"
    using that f r(2) m(2) unfolding e Let_def by auto
  show "axmap_set_fn al off b data =
      Some (w OR push_bit (unat b) (mask c) \<noteq> - 1, al\<lparr>al_map := (al_map al)[unat off := w OR push_bit (unat b) (mask c)]\<rparr>,
        \<lparr>sd_nr_bits = 1, sd_set_bits = (if al_level al = 0 then of_nat c else sd_set_bits data)\<rparr>)" if "0 < c"
  proof (cases "w AND push_bit (unat b) (mask ?m) = 0")
    case True
    then show ?thesis using r(2) [OF True] r(4,5,6) that mm unfolding e Let_def by simp
  next
    case False
    have "(of_nat c :: u32) \<noteq> 0" using cc that by auto
    then show ?thesis using False f [OF False] r(4,5,6) that unfolding e Let_def by (simp add: cc bm)
  qed
qed

lemma free_run_pos: "0 < free_run S j n \<Longrightarrow> j \<notin> S"
  by (cases n) (auto split: if_splits)

section \<open>The bits of a level and the link between two levels\<close>

definition lbits :: "axmap_level \<Rightarrow> nat set" where
  "lbits al = {j. j div 64 < map_size al \<and> bit (al_map al ! (j div 64)) (j mod 64)}"

definition linked :: "axmap_level \<Rightarrow> axmap_level \<Rightarrow> bool" where
  "linked a b \<longleftrightarrow> map_size b = (map_size a + 63) div 64 \<and> (\<forall>j < map_size a. j \<in> lbits b \<longleftrightarrow> al_map a ! j = - 1)"

lemma lbits_shift: "o1 < map_size al \<Longrightarrow> i < 64 \<Longrightarrow> 64 * o1 + i \<in> lbits al \<longleftrightarrow> bit (al_map al ! o1) i"
  by (simp add: lbits_def)

lemma full_word: "w = - 1 \<longleftrightarrow> (\<forall>i < 64. bit w i)" for w :: u64
  by (auto simp: bit_eq_iff)

lemma not_full: "j div 64 < map_size al \<Longrightarrow> j \<notin> lbits al \<Longrightarrow> al_map al ! (j div 64) \<noteq> - 1"
  by (auto simp: lbits_def)

lemma free_run_word:
  assumes "j div 64 < map_size al" and "j mod 64 + m \<le> 64"
  shows "free_run {i. bit (al_map al ! (j div 64)) i} (j mod 64) m = free_run (lbits al) j m"
proof -
  let ?c = "free_run (lbits al) j m" and ?w = "al_map al ! (j div 64)"
  have c: "?c \<le> m" "lbits al \<inter> {j..<j + ?c} = {}" "?c < m \<Longrightarrow> j + ?c \<in> lbits al" using free_run_iff by blast+
  have sh: "j + k \<in> lbits al \<longleftrightarrow> bit ?w (j mod 64 + k)" if "j mod 64 + k < 64" for k
    using lbits_shift [OF assms(1) that] by (simp add: add.assoc [symmetric])
  have "\<not> bit ?w i" if "j mod 64 \<le> i" "i < j mod 64 + ?c" for i
  proof -
    have "j + (i - j mod 64) \<notin> lbits al" using c(2) that by (auto simp: disjoint_iff)
    then show ?thesis using sh [of "i - j mod 64"] that c(1) assms(2) by simp
  qed
  then have "{i. bit ?w i} \<inter> {j mod 64..<j mod 64 + ?c} = {}" by auto
  moreover have "bit ?w (j mod 64 + ?c)" if "?c < m" using sh [of ?c] c(3) that assms(2) by simp
  ultimately show ?thesis using c(1) by (subst free_run_iff) simp
qed

text \<open>Setting a run of bits in one word of a level.\<close>

definition set_run :: "nat \<Rightarrow> nat \<Rightarrow> axmap_level \<Rightarrow> axmap_level" where
  "set_run j c al = al\<lparr>al_map := (al_map al)[j div 64 := al_map al ! (j div 64) OR push_bit (j mod 64) (mask c)]\<rparr>"

lemma set_run_simps [simp]: "map_size (set_run j c al) = map_size al" "al_level (set_run j c al) = al_level al"
  by (simp_all add: set_run_def map_size_def)

lemma set_run_word:
  "k < map_size al \<Longrightarrow> al_map (set_run j c al) ! k = (if k = j div 64 then al_map al ! k OR push_bit (j mod 64) (mask c) else al_map al ! k)"
  by (simp add: set_run_def map_size_def)

lemma lbits_set_run:
  assumes "j div 64 < map_size al" and "j mod 64 + c \<le> 64"
  shows "lbits (set_run j c al) = lbits al \<union> {j..<j + c}"
proof (intro set_eqI)
  fix i
  have "i div 64 = j div 64 \<Longrightarrow> j mod 64 \<le> i mod 64 \<and> i mod 64 < j mod 64 + c \<longleftrightarrow> j \<le> i \<and> i < j + c"
    using mult_div_mod_eq [of 64 i] mult_div_mod_eq [of 64 j] by linarith
  moreover have "i div 64 = j div 64" if "j \<le> i" "i < j + c"
  proof -
    have "i < 64 * (j div 64) + 64" using that(2) assms(2) mult_div_mod_eq [of 64 j] by linarith
    then have "i div 64 \<le> j div 64" by linarith
    then show ?thesis using div_le_mono [OF that(1), of 64] by simp
  qed
  ultimately show "i \<in> lbits (set_run j c al) \<longleftrightarrow> i \<in> lbits al \<union> {j..<j + c}"
    using assms(1) by (cases "i div 64 < map_size al") (auto simp: lbits_def set_run_word bit_or_iff bit_run)
qed

section \<open>Setting bits in all levels\<close>

lemma unit_of_0: "(if index \<noteq> 0 then unit_of index else index) = unit_of index"
  by (simp add: unit_of_def)

lemma linked_bound: "linked a b \<Longrightarrow> k < map_size a \<Longrightarrow> k div 64 < map_size b"
  by (simp add: linked_def)

lemma set_fn_run:
  assumes "unat index div 64 < map_size al" and "0 < unat (sd_nr_bits data)"
  defines "c \<equiv> free_run (lbits al) (unat index) (min (unat (sd_nr_bits data)) (64 - unat index mod 64))"
  shows "c = 0 \<Longrightarrow> sd_set_bits data = 0 \<Longrightarrow> \<exists>d. axmap_set_fn al (unit_of index) (bit_of index) data = Some (True, al, d) \<and> sd_set_bits d = 0"
    and "0 < c \<Longrightarrow> axmap_set_fn al (unit_of index) (bit_of index) data =
      Some (al_map (set_run (unat index) c al) ! (unat index div 64) \<noteq> - 1, set_run (unat index) c al,
        \<lparr>sd_nr_bits = 1, sd_set_bits = (if al_level al = 0 then of_nat c else sd_set_bits data)\<rparr>)"
proof -
  let ?m = "min (unat (sd_nr_bits data)) (64 - unat index mod 64)"
  have m: "unat index mod 64 + ?m \<le> 64" using mod_less_divisor [of 64 "unat index"] by linarith
  have o: "unat (unit_of index) < map_size al" "unat (bit_of index) < 64" using assms(1) by (simp_all add: unat_unit_of unat_bit_of)
  have c: "free_run {i. bit (al_map al ! unat (unit_of index)) i} (unat (bit_of index)) (min (unat (sd_nr_bits data)) (64 - unat (bit_of index))) = c"
    unfolding c_def unat_unit_of unat_bit_of using assms(1) m by (rule free_run_word)
  note s = set_fn_spec [OF o assms(2), unfolded c]
  show "\<exists>d. axmap_set_fn al (unit_of index) (bit_of index) data = Some (True, al, d) \<and> sd_set_bits d = 0" if "c = 0" "sd_set_bits data = 0"
    using s(1) that by simp
  show "axmap_set_fn al (unit_of index) (bit_of index) data =
      Some (al_map (set_run (unat index) c al) ! (unat index div 64) \<noteq> - 1, set_run (unat index) c al,
        \<lparr>sd_nr_bits = 1, sd_set_bits = (if al_level al = 0 then of_nat c else sd_set_bits data)\<rparr>)" if "0 < c"
    using s(2) [OF that] assms(1) by (simp add: unat_unit_of unat_bit_of set_run_word) (simp add: set_run_def)
qed

lemma handler_set:
  assumes "successively linked (al # als)" and "\<forall>x \<in> set als. al_level x \<noteq> 0"
    and "unat index div 64 < map_size al" and "0 < unat (sd_nr_bits data)"
    and "c = free_run (lbits al) (unat index) (min (unat (sd_nr_bits data)) (64 - unat index mod 64))" and "0 < c"
  shows "\<exists>r als' d. axmap_handler axmap_set_fn index (al # als) data = Some (r, set_run (unat index) c al # als', d) \<and>
    sd_set_bits d = (if al_level al = 0 then of_nat c else sd_set_bits data) \<and>
    successively linked (set_run (unat index) c al # als') \<and> map al_level als' = map al_level als"
  using assms
proof (induction als arbitrary: al index data c)
  case Nil
  then show ?case using set_fn_run(2) [of index al data] by auto
next
  case (Cons b bs)
  let ?j = "unat index" and ?al = "set_run (unat index) c al"
  let ?d = "\<lparr>sd_nr_bits = 1, sd_set_bits = (if al_level al = 0 then of_nat c else sd_set_bits data)\<rparr>"
  have l: "linked al b" "successively linked (b # bs)" using Cons.prems(1) by simp_all
  have f: "axmap_set_fn al (unit_of index) (bit_of index) data = Some (al_map ?al ! (?j div 64) \<noteq> - 1, ?al, ?d)"
    using set_fn_run(2) [OF Cons.prems(3,4)] Cons.prems(5,6) by simp
  have "?j \<notin> lbits al" using free_run_pos Cons.prems(5,6) by metis
  then have nf: "al_map al ! (?j div 64) \<noteq> - 1" using Cons.prems(3) not_full by blast
  then have nb: "?j div 64 \<notin> lbits b" using l(1) Cons.prems(3) by (simp add: linked_def)
  show ?case
  proof (cases "al_map ?al ! (?j div 64) = - 1")
    case False
    then have "linked ?al b" using l(1) nf Cons.prems(3) by (auto simp: linked_def set_run_word)
    then show ?thesis using f False l(2) by (intro exI [of _ True] exI [of _ "b # bs"] exI [of _ ?d]) simp
  next
    case True
    have i: "unat (unit_of index) div 64 < map_size b" using linked_bound [OF l(1) Cons.prems(3)] by (simp add: unat_unit_of)
    have one: "1 = free_run (lbits b) (unat (unit_of index)) (min (unat (sd_nr_bits ?d)) (64 - unat (unit_of index) mod 64))"
    proof -
      have "min (unat (sd_nr_bits ?d)) (64 - unat (unit_of index) mod 64) = Suc 0"
        using mod_less_divisor [of 64 "unat (unit_of index)"] by (simp add: min_def)
      then show ?thesis using nb by (simp add: unat_unit_of)
    qed
    obtain r bs' d where h: "axmap_handler axmap_set_fn (unit_of index) (b # bs) ?d = Some (r, set_run (unat (unit_of index)) 1 b # bs', d)"
      "sd_set_bits d = (if al_level b = 0 then of_nat 1 else sd_set_bits ?d)" "successively linked (set_run (unat (unit_of index)) 1 b # bs')"
      "map al_level bs' = map al_level bs"
      using Cons.IH [OF l(2) _ i _ one] Cons.prems(2) by auto
    have "unat (unit_of index) mod 64 + 1 \<le> 64" by (simp add: Suc_leI)
    from lbits_set_run [OF i this] have "lbits (set_run (unat (unit_of index)) 1 b) = insert (?j div 64) (lbits b)"
      by (auto simp: unat_unit_of)
    then have "linked ?al (set_run (unat (unit_of index)) 1 b)" using l(1) True Cons.prems(3) by (auto simp: linked_def set_run_word)
    moreover have "axmap_handler axmap_set_fn index (al # b # bs) data = Some (r, ?al # set_run (unat (unit_of index)) 1 b # bs', d)"
      unfolding axmap_handler.simps(2) [of _ index] unit_of_0 f using True by (simp add: h(1) del: axmap_handler.simps)
    moreover have "sd_set_bits d = (if al_level al = 0 then of_nat c else sd_set_bits data)" using h(2) Cons.prems(2) by simp
    ultimately show ?thesis using h(3,4)
      by (intro exI [of _ r] exI [of _ "set_run (unat (unit_of index)) 1 b # bs'"] exI [of _ d]) simp
  qed
qed

section \<open>The invariant and the set\<close>

definition ax_ok :: "axmap \<Rightarrow> bool" where
  "ax_ok a \<longleftrightarrow> unat (ax_nr_bits a) < 2 ^ 63 \<and> (\<exists>al als. ax_levels a = al # als \<and> map_size al = (unat (ax_nr_bits a) + 63) div 64 \<and>
     successively linked (al # als) \<and> al_level al = 0 \<and> (\<forall>x \<in> set als. al_level x \<noteq> 0))"

definition ax_used :: "axmap \<Rightarrow> nat set" where
  "ax_used a = {j. j < unat (ax_nr_bits a) \<and> j \<in> lbits (hd (ax_levels a))}"

lemma free_run_cong: "S \<inter> {j..<j + n} = T \<inter> {j..<j + n} \<Longrightarrow> free_run S j n = free_run T j n"
proof (induction n arbitrary: j)
  case 0
  then show ?case by simp
next
  case (Suc n)
  have "{j..<j + Suc n} = insert j {Suc j..<Suc j + n}" by auto
  then have "(j \<in> S \<longleftrightarrow> j \<in> T)" "S \<inter> {Suc j..<Suc j + n} = T \<inter> {Suc j..<Suc j + n}" using Suc.prems by auto
  then show ?case using Suc.IH [of "Suc j"] by auto
qed

lemma set_round_ok:
  assumes "ax_ok a" and "0 < unat n" and "unat j + unat n \<le> unat (ax_nr_bits a)"
  defines "m \<equiv> min (unat n) (64 - unat j mod 64)"
  defines "c \<equiv> free_run (ax_used a) (unat j) m"
  shows "\<exists>a'. set_round j n a = Some (of_nat m, of_nat c, a') \<and> ax_ok a' \<and> ax_nr_bits a' = ax_nr_bits a \<and>
    ax_used a' = ax_used a \<union> {unat j..<unat j + c}"
proof -
  obtain al als where a: "ax_levels a = al # als" "map_size al = (unat (ax_nr_bits a) + 63) div 64"
    "successively linked (al # als)" "al_level al = 0" "\<forall>x \<in> set als. al_level x \<noteq> 0" and small: "unat (ax_nr_bits a) < 2 ^ 63"
    using assms(1) by (auto simp: ax_ok_def)
  have b: "unat (bit_of j) < 64" by (simp add: unat_bit_of)
  have ms: "m \<le> 64" "m \<le> unat n" "0 < m" "unat j mod 64 + m \<le> 64" using assms(2) mod_less_divisor [of 64 "unat j"] by (auto simp: m_def)
  have mw: "unat (of_nat m :: u32) = m" using ms(1) by (intro unat_of_nat_u32) simp
  have ts: "(if n > BLOCKS_PER_UNIT - bit_of j then BLOCKS_PER_UNIT - bit_of j else n) = of_nat m"
    by (rule eq_of_nat_unat) (auto simp: m_def word_less_nat_alt unat_rest [OF b] unat_bit_of)
  let ?d = "\<lparr>sd_nr_bits = of_nat m, sd_set_bits = 0\<rparr>"
  have jr: "unat j div 64 < map_size al" using assms(2,3) a(2) by linarith
  have "lbits al \<inter> {unat j..<unat j + m} = ax_used a \<inter> {unat j..<unat j + m}" using assms(3) ms(2) a(1) by (auto simp: ax_used_def)
  then have c: "c = free_run (lbits al) (unat j) m" unfolding c_def by (rule free_run_cong [symmetric])
  have min_m: "min (unat (sd_nr_bits ?d)) (64 - unat j mod 64) = m" using mw by (simp add: m_def)
  have "unat (j + ucast (of_nat m :: u32)) = unat j + m"
    using assms(3) ms(2) small mw by (subst unat_add_lem [THEN iffD1]) (simp_all add: unat_ucast_widen)
  then have "\<not> (j + ucast (sd_nr_bits ?d) > ax_nr_bits a)" using assms(3) ms(2) by (simp add: word_less_nat_alt)
  then have raw: "axmap_set_raw j ?d a = (do { (_, als, d) \<leftarrow> axmap_handler axmap_set_fn j (ax_levels a) ?d; Some (d, a\<lparr>ax_levels := als\<rparr>) })"
    using assms(3) ms(1) mw by (simp add: axmap_set_raw_def word_less_nat_alt word_le_nat_alt del: axmap_handler.simps)
  have sr: "set_round j n a = (do { (d, a') \<leftarrow> axmap_set_raw j ?d a; Some (of_nat m, sd_set_bits d, a') })"
    by (simp add: set_round_def ts Let_def)
  have pos: "0 < unat (sd_nr_bits ?d)" using ms(3) mw by simp
  show ?thesis
  proof (cases "c = 0")
    case True
    obtain d where "axmap_set_fn al (unit_of j) (bit_of j) ?d = Some (True, al, d)" "sd_set_bits d = 0"
      using set_fn_run(1) [OF jr pos, unfolded min_m, folded c] True by auto
    then have e: "set_round j n a = Some (of_nat m, 0, a\<lparr>ax_levels := al # als\<rparr>)" using sr raw a(1) by simp
    have "a\<lparr>ax_levels := al # als\<rparr> = a" using a(1) by simp
    from e [unfolded this] show ?thesis using True assms(1) by simp
  next
    case False
    obtain r als' d where h: "axmap_handler axmap_set_fn j (al # als) ?d = Some (r, set_run (unat j) c al # als', d)"
      "sd_set_bits d = of_nat c" "successively linked (set_run (unat j) c al # als')" "map al_level als' = map al_level als"
      using handler_set [OF a(3,5) jr pos, unfolded min_m, OF c] False a(4) by auto
    have "\<forall>x \<in> set als'. al_level x \<noteq> 0" using a(5) h(4) by (metis (no_types, lifting) image_iff list.set_map)
    then have "ax_ok (a\<lparr>ax_levels := set_run (unat j) c al # als'\<rparr>)" using a h small by (auto simp: ax_ok_def)
    moreover have "c \<le> m" unfolding c by (rule free_run_le)
    then have e: "lbits (set_run (unat j) c al) = lbits al \<union> {unat j..<unat j + c}" using ms(4) by (intro lbits_set_run [OF jr]) simp
    have "{unat j..<unat j + c} \<subseteq> {i. i < unat (ax_nr_bits a)}" using assms(3) \<open>c \<le> m\<close> ms(2) by auto
    then have "ax_used (a\<lparr>ax_levels := set_run (unat j) c al # als'\<rparr>) = ax_used a \<union> {unat j..<unat j + c}"
      unfolding ax_used_def by (simp add: e a(1) del: atLeastLessThan_iff) blast
    ultimately show ?thesis using sr raw a(1) h by (simp del: axmap_handler.simps)
  qed
qed

text \<open>The loop sets the free bits up to the first used one.\<close>

lemma set_nr_loop_ok:
  assumes "ax_ok a" and "0 < unat n" and "unat j + unat n \<le> unat (ax_nr_bits a)" and "c = free_run (ax_used a) (unat j) (unat n)"
  shows "\<exists>a'. set_nr_loop j n s a = Some (s + of_nat c, a') \<and> ax_ok a' \<and> ax_nr_bits a' = ax_nr_bits a \<and>
    ax_used a' = ax_used a \<union> {unat j..<unat j + c}"
  using assms
proof (induction "unat n" arbitrary: j n s a c rule: less_induct)
  case less
  define m1 where "m1 = min (unat n) (64 - unat j mod 64)"
  define c1 where "c1 = free_run (ax_used a) (unat j) m1"
  obtain a1 where r: "set_round j n a = Some (of_nat m1, of_nat c1, a1)" "ax_ok a1" "ax_nr_bits a1 = ax_nr_bits a"
    "ax_used a1 = ax_used a \<union> {unat j..<unat j + c1}" using set_round_ok [OF less.prems(1-3)] unfolding c1_def m1_def by blast
  have m: "m1 \<le> 64" "m1 \<le> unat n" "0 < m1" using less.prems(2) mod_less_divisor [of 64 "unat j"] by (auto simp: m1_def)
  have cm: "c1 \<le> m1" unfolding c1_def by (rule free_run_le)
  have w: "unat (of_nat m1 :: u32) = m1" "unat (of_nat c1 :: u32) = c1" using cm m(1) by (auto intro!: unat_of_nat_u32)
  have ne: "(of_nat c1 :: u32) = of_nat m1 \<longleftrightarrow> c1 = m1" using w by metis
  have step: "set_nr_loop j n s a = (if c1 \<noteq> m1 \<or> n - of_nat c1 = 0 then Some (s + of_nat c1, a1)
      else set_nr_loop (j + ucast (of_nat c1 :: u32)) (n - of_nat c1) (s + of_nat c1) a1)"
    by (subst set_nr_loop.simps) (simp add: r(1) ne)
  have sub: "unat (n - of_nat c1) = unat n - c1" using w cm m by (subst unat_sub) (simp_all add: word_le_nat_alt)
  show ?case
  proof (cases "c1 \<noteq> m1 \<or> n - of_nat c1 = 0")
    case True
    have "c = c1"
    proof (cases "c1 = m1")
      case True
      then have "unat n - m1 = 0" using \<open>c1 \<noteq> m1 \<or> n - of_nat c1 = 0\<close> sub by simp
      then have "unat n = m1" using m by simp
      then show ?thesis using less.prems(4) by (simp add: c1_def)
    next
      case False
      then have "c1 < m1" using cm by simp
      then show ?thesis using free_run_iff [of "ax_used a" "unat j" m1 c1] c1_def less.prems(4) m(2) free_run_iff [of "ax_used a" "unat j" "unat n" c1] by simp
    qed
    then show ?thesis using True step r by auto
  next
    case False
    then have e: "c1 = m1" and nz: "n - of_nat c1 \<noteq> 0" by auto
    have lt: "unat (n - of_nat c1) < unat n" using sub e m less.prems(2) by linarith
    have ps: "0 < unat (n - of_nat c1)" using nz by (rule unat_gt_0 [THEN iffD2])
    have ja: "unat (j + ucast (of_nat c1 :: u32)) = unat j + c1"
      using less.prems(1,3) w m cm by (subst unat_add_lem [THEN iffD1]) (simp_all add: unat_ucast_widen ax_ok_def)
    have rg: "unat (j + ucast (of_nat c1 :: u32)) + unat (n - of_nat c1) \<le> unat (ax_nr_bits a1)"
      using ja sub less.prems(3) r(3) m cm by simp
    let ?c2 = "free_run (ax_used a1) (unat (j + ucast (of_nat c1 :: u32))) (unat (n - of_nat c1))"
    have "?c2 = free_run (ax_used a) (unat j + m1) (unat n - m1)" unfolding ja sub r(4) unfolding e by (rule free_run_cong) auto
    then have c: "c = m1 + ?c2" using free_run_add [OF e [unfolded c1_def], of "unat n - m1"] less.prems(4) m(2) by simp
    obtain a2 where "set_nr_loop (j + ucast (of_nat c1 :: u32)) (n - of_nat c1) (s + of_nat c1) a1 = Some (s + of_nat c1 + of_nat ?c2, a2)"
      "ax_ok a2" "ax_nr_bits a2 = ax_nr_bits a1" "ax_used a2 = ax_used a1 \<union> {unat (j + ucast (of_nat c1 :: u32))..<unat (j + ucast (of_nat c1 :: u32)) + ?c2}"
      using less.hyps [OF lt r(2) ps rg refl] by blast
    moreover have "{unat j..<unat j + c1} \<union> {unat j + c1..<unat j + c1 + ?c2} = {unat j..<unat j + c}" unfolding c e by auto
    ultimately show ?thesis using step False r c e unfolding ja by (simp add: Un_assoc)
  qed
qed

section \<open>Asking for a bit\<close>

lemma levels_at:
  assumes "ax_ok a"
  shows "0 < nr_levels a" and "map_size (ax_levels a ! 0) = (unat (ax_nr_bits a) + 63) div 64" and "hd (ax_levels a) = ax_levels a ! 0"
    and "Suc k < nr_levels a \<Longrightarrow> linked (ax_levels a ! k) (ax_levels a ! Suc k)"
  using assms by (auto simp: ax_ok_def nr_levels_def hd_conv_nth successively_conv_nth)

lemma drop_levels: "unat (drop_bit (UNIT_SHIFT * i) x) = unat x div 64 ^ i"
  by (simp add: unat_drop_bit_div UNIT_SHIFT_def power_mult)

lemma div_level: "j div 64 ^ Suc k = j div 64 ^ k div (64 :: nat)"
  by (simp only: power_Suc2 div_mult2_eq)

lemma index_bound:
  "ax_ok a \<Longrightarrow> k < nr_levels a \<Longrightarrow> j < unat (ax_nr_bits a) \<Longrightarrow> j div 64 ^ k div 64 < map_size (ax_levels a ! k)"
proof (induction k)
  case 0
  then show ?case using levels_at(2) by fastforce
next
  case (Suc k)
  then show ?case using linked_bound [OF levels_at(4), of a k "j div 64 ^ Suc k"] by (simp add: div_level del: power_Suc)
qed

text \<open>A set bit of a higher level stands for a full word below it.\<close>

lemma upper_set:
  "ax_ok a \<Longrightarrow> k < nr_levels a \<Longrightarrow> j < unat (ax_nr_bits a) \<Longrightarrow> j div 64 ^ k \<in> lbits (ax_levels a ! k) \<Longrightarrow> j \<in> lbits (ax_levels a ! 0)"
proof (induction k)
  case 0
  then show ?case by simp
next
  case (Suc k)
  have b: "j div 64 ^ k div 64 < map_size (ax_levels a ! k)" using Suc.prems by (intro index_bound) simp_all
  have "j div 64 ^ k div 64 \<in> lbits (ax_levels a ! Suc k)" using Suc.prems(4) by (simp only: div_level)
  then have "al_map (ax_levels a ! k) ! (j div 64 ^ k div 64) = - 1" using levels_at(4) [OF Suc.prems(1,2)] b by (simp add: linked_def)
  then have "j div 64 ^ k \<in> lbits (ax_levels a ! k)" using b by (simp add: lbits_def)
  then show ?case using Suc by simp
qed

lemma isset_ok:
  assumes "ax_ok a" and "unat j < unat (ax_nr_bits a)"
  shows "axmap_isset a j = Some (unat j \<in> ax_used a)"
proof -
  have t: "axmap_handler_topdown axmap_isset_fn j a i = Some (\<exists>k < i. unat j div 64 ^ k \<in> lbits (ax_levels a ! k))" if "i \<le> nr_levels a" for i
    using that
  proof (induction i)
    case 0
    then show ?case by simp
  next
    case (Suc i)
    have b: "unat j div 64 ^ i div 64 < map_size (ax_levels a ! i)" using Suc.prems assms by (intro index_bound) simp_all
    have "axmap_isset_fn (ax_levels a ! i) (unit_of (drop_bit (UNIT_SHIFT * i) j)) (bit_of (drop_bit (UNIT_SHIFT * i) j)) =
        Some (unat j div 64 ^ i \<in> lbits (ax_levels a ! i))"
      using b by (simp add: axmap_isset_fn_def unat_unit_of unat_bit_of drop_levels and_exp_eq_0_iff_not_bit lbits_def)
    then show ?case using Suc by (auto simp: Let_def less_Suc_eq)
  qed
  have "(\<exists>k < nr_levels a. unat j div 64 ^ k \<in> lbits (ax_levels a ! k)) \<longleftrightarrow> unat j \<in> lbits (ax_levels a ! 0)"
    using upper_set [OF assms(1) _ assms(2)] levels_at(1) [OF assms(1)] by (metis div_by_1 power_0)
  then show ?thesis using t [of "nr_levels a"] assms levels_at(3) [OF assms(1)]
    by (simp add: axmap_isset_def word_le_nat_alt ax_used_def)
qed

end
