(* ===== verification/Fio_Axmap_Free.thy ===== *)
theory Fio_Axmap_Free
  imports Fio_Axmap
begin

text \<open>
  The search for a free block in the map of theory \<open>Fio_Axmap\<close>, and the creation of a map: the
  search from the top level finds the first free bit, and a new map is empty. The map provides the
  interface \<open>block_map\<close> that the random jobs of theory \<open>Fio_Offset\<close> use.
\<close>

section \<open>Looking for a free bit\<close>

definition lfree :: "axmap_level \<Rightarrow> nat set" where
  "lfree al = {j. j div 64 < map_size al \<and> j \<notin> lbits al}"

text \<open>\<open>x\<close> is the first element of \<open>S\<close> from \<open>i\<close> on.\<close>

definition first_from :: "nat set \<Rightarrow> nat \<Rightarrow> nat \<Rightarrow> bool" where
  "first_from S i x \<longleftrightarrow> x \<in> S \<and> i \<le> x \<and> (\<forall>j \<in> S. i \<le> j \<longrightarrow> x \<le> j)"

lemma free_word_Some:
  "free_word k ws = Some (k', t) \<Longrightarrow>
     k \<le> k' \<and> k' - k < length ws \<and> t = NOT (ws ! (k' - k)) \<and> t \<noteq> 0 \<and> (\<forall>i < k' - k. ws ! i = - 1)"
proof (induction k ws rule: free_word.induct)
  case (1 k)
  then show ?case by simp
next
  case (2 k w ws)
  show ?case
  proof (cases "NOT w = 0")
    case True
    then have "w = - 1" by (metis bit.compl_zero bit.double_compl)
    moreover have i: "Suc k \<le> k'" "k' - Suc k < length ws" "t = NOT (ws ! (k' - Suc k))" "t \<noteq> 0" "\<forall>i < k' - Suc k. ws ! i = - 1"
      using 2 True by auto
    moreover have "k' - k = Suc (k' - Suc k)" using i(1) by simp
    ultimately show ?thesis by (auto simp: nth_Cons split: nat.splits)
  next
    case False
    then show ?thesis using "2.prems" by auto
  qed
qed

lemma free_word_None: "free_word k ws = None \<Longrightarrow> w \<in> set ws \<Longrightarrow> w = - 1"
proof (induction k ws rule: free_word.induct)
  case (1 k)
  then show ?case by simp
next
  case (2 k v ws)
  then have "NOT v = 0" "free_word (Suc k) ws = None" by (auto split: if_splits)
  then show ?case using 2 by (metis bit.compl_zero bit.double_compl set_ConsD)
qed

lemma bit_above: "b \<le> 64 \<Longrightarrow> bit (NOT (bit_masks ! b) AND NOT w) i \<longleftrightarrow> b \<le> i \<and> i < 64 \<and> \<not> bit w i" for w :: u64
  by (auto simp: bit_masks_nth bit_simps)

lemma above_iff: "n \<le> 64 * (n div 64) + i \<longleftrightarrow> n mod 64 \<le> i" for n i :: nat
  using mult_div_mod_eq [of 64 n] by linarith

lemma bit_above_from:
  "bit (NOT (bit_masks ! (n mod 64)) AND NOT w) i \<longleftrightarrow> i < 64 \<and> n \<le> 64 * (n div 64) + i \<and> \<not> bit w i" for w :: u64
  unfolding above_iff using bit_above [of "n mod 64" w i] mod_less_divisor [of 64 n] by auto

text \<open>The index that the search computes from the word and its free bits.\<close>

lemma unat_found:
  assumes "t \<noteq> 0" and "64 * (k + 1) \<le> 2 ^ 64"
  shows "unat (push_bit UNIT_SHIFT (of_nat k) + ucast (ffz (NOT t)) :: u64) = 64 * k + unat (ffs64 t)"
proof -
  have k: "unat (of_nat k :: u64) = k" using assms(2) by (simp add: unat_of_nat take_bit_nat_eq_self)
  have p: "push_bit UNIT_SHIFT (of_nat k :: u64) = of_nat (64 * k)" by (simp add: UNIT_SHIFT_def push_bit_eq_mult mult.commute)
  have "unat (of_nat (64 * k) :: u64) = 64 * k" using assms(2) by (subst unat_of_nat) (simp add: take_bit_nat_eq_self)
  moreover have "unat (ucast (ffs64 t) :: u64) = unat (ffs64 t)" by (simp add: unat_ucast_widen)
  ultimately show ?thesis using assms ffs64_lowest(2) [OF assms(1)] unfolding p ffz_def
    by (subst unat_add_lem [THEN iffD1]) simp_all
qed

lemma found_first:
  assumes "k < map_size al" and "64 * map_size al \<le> 2 ^ 64" and "t \<noteq> 0"
    and t: "\<And>i. bit t i \<longleftrightarrow> i < 64 \<and> n \<le> 64 * k + i \<and> \<not> bit (al_map al ! k) i"
    and below: "\<And>j. j \<in> lfree al \<Longrightarrow> n \<le> j \<Longrightarrow> 64 * k \<le> j"
  shows "first_from (lfree al) n (unat (push_bit UNIT_SHIFT (of_nat k) + ucast (ffz (NOT t)) :: u64))"
proof -
  let ?q = "unat (ffs64 t)"
  have q: "?q < 64" "bit t ?q" "\<And>j. j < ?q \<Longrightarrow> \<not> bit t j" using ffs64_lowest [OF assms(3)] by (auto simp: lowest_def)
  have "64 * (k + 1) \<le> 64 * map_size al" using assms(1) by (intro mult_le_mono2) simp
  then have u: "unat (push_bit UNIT_SHIFT (of_nat k) + ucast (ffz (NOT t)) :: u64) = 64 * k + ?q"
    using assms(2,3) by (intro unat_found) simp_all
  have fr: "64 * k + i \<in> lfree al \<longleftrightarrow> \<not> bit (al_map al ! k) i" if "i < 64" for i
    using that assms(1) by (simp add: lfree_def lbits_shift [OF assms(1) that])
  have "64 * k + ?q \<le> j" if "j \<in> lfree al" "n \<le> j" for j
  proof (rule ccontr)
    assume "\<not> 64 * k + ?q \<le> j"
    moreover have "64 * k \<le> j" using below that by blast
    ultimately obtain i where "j = 64 * k + i" "i < ?q" by (metis add_less_cancel_left le_add_diff_inverse not_le)
    then show False using q t [of i] that fr [of i] by auto
  qed
  then show ?thesis using q t [of ?q] fr [of ?q] unfolding u first_from_def by auto
qed

lemma level_free_ok:
  assumes "64 * map_size al \<le> 2 ^ 64"
  shows "level_free al x = Some y \<Longrightarrow> first_from (lfree al) (unat x) (unat y)"
    and "level_free al x = None \<Longrightarrow> j \<in> lfree al \<Longrightarrow> j < unat x"
proof -
  let ?o = "unat x div 64"
  let ?t = "NOT (bit_masks ! (unat x mod 64)) AND NOT (al_map al ! ?o)"
  let ?ws = "drop (Suc ?o) (al_map al)"
  have e: "level_free al x = (if ?o \<ge> map_size al then None
      else case (if ?t \<noteq> 0 then Some (?o, ?t) else free_word (Suc ?o) ?ws) of
          None \<Rightarrow> None | Some (k, t) \<Rightarrow> Some (push_bit UNIT_SHIFT (of_nat k) + ucast (ffz (NOT t))))"
    by (simp add: level_free_def Let_def unat_unit_of unat_bit_of)
  have bt: "bit ?t i \<longleftrightarrow> unat x mod 64 \<le> i \<and> i < 64 \<and> \<not> bit (al_map al ! ?o) i" for i
    by (rule bit_above) (simp add: less_imp_le)
  note le = above_iff [of "unat x"]
  have next_word: "64 * Suc ?o \<le> j" if "?t = 0" "j \<in> lfree al" "unat x \<le> j" for j
  proof (rule ccontr)
    assume "\<not> 64 * Suc ?o \<le> j"
    then have "j div 64 < Suc ?o" by (simp only: not_le) (simp add: less_mult_imp_div_less mult.commute)
    then have d: "j div 64 = ?o" using div_le_mono [OF that(3), of 64] by simp
    then have "unat x mod 64 \<le> j mod 64" using le [of "j mod 64"] that(3) mult_div_mod_eq [of 64 j] by simp
    moreover have "\<not> bit (al_map al ! ?o) (j mod 64)" using that(2) d by (simp add: lfree_def lbits_def)
    ultimately have "bit ?t (j mod 64)" unfolding bt by simp
    then show False using that(1) by simp
  qed
  have skip: "64 * k \<le> j" if "?t = 0" "j \<in> lfree al" "unat x \<le> j" "\<And>i. Suc ?o \<le> i \<Longrightarrow> i < k \<Longrightarrow> al_map al ! i = - 1" for j k
  proof (rule ccontr)
    assume "\<not> 64 * k \<le> j"
    then have "j div 64 < k" by linarith
    moreover have "Suc ?o \<le> j div 64" using next_word [OF that(1-3)] by (subst less_eq_div_iff_mult_less_eq) (simp_all only: mult.commute zero_less_numeral)
    ultimately have "al_map al ! (j div 64) = - 1" using that(4) by blast
    then show False using that(2) by (auto simp: lfree_def lbits_def)
  qed
  show "first_from (lfree al) (unat x) (unat y)" if r: "level_free al x = Some y"
  proof (cases "?t = 0")
    case False
    then have o: "?o < map_size al" "y = push_bit UNIT_SHIFT (of_nat ?o) + ucast (ffz (NOT ?t))" using r unfolding e by (auto split: if_splits)
    have "64 * ?o \<le> j" if "unat x \<le> j" for j using that by (metis order_trans times_div_less_eq_dividend)
    then show ?thesis unfolding o(2) using False bt le o(1) assms by (intro found_first) auto
  next
    case True
    then obtain k t where k: "free_word (Suc ?o) ?ws = Some (k, t)" "y = push_bit UNIT_SHIFT (of_nat k) + ucast (ffz (NOT t))" "?o < map_size al"
      using r unfolding e by (auto split: if_splits option.splits)
    note f = free_word_Some [OF k(1)]
    have km: "k < map_size al" using f k(3) by (auto simp: map_size_def)
    have kt: "t = NOT (al_map al ! k)" "t \<noteq> 0" using f k(3) by (auto simp: map_size_def)
    have full: "al_map al ! i = - 1" if "Suc ?o \<le> i" "i < k" for i
    proof -
      have "?ws ! (i - Suc ?o) = - 1" using f that by auto
      then show ?thesis using that km by (simp add: map_size_def)
    qed
    have "unat x \<le> 64 * k" using f mult_div_mod_eq [of 64 "unat x"] mod_less_divisor [of 64 "unat x"] by linarith
    then have b: "bit t i \<longleftrightarrow> i < 64 \<and> unat x \<le> 64 * k + i \<and> \<not> bit (al_map al ! k) i" for i
      unfolding kt(1) by (auto simp: bit_not_iff)
    show ?thesis unfolding k(2) using km assms kt(2) b skip [OF True _ _ full] by (rule found_first)
  qed
  show "j < unat x" if r: "level_free al x = None" and j: "j \<in> lfree al"
  proof (rule ccontr)
    assume "\<not> j < unat x"
    then have ge: "unat x \<le> j" by simp
    have jm: "j div 64 < map_size al" using j by (simp add: lfree_def)
    then have "?o < map_size al" using div_le_mono [OF ge, of 64] by linarith
    then have n: "?t = 0" "free_word (Suc ?o) ?ws = None" using r unfolding e by (auto split: if_splits option.splits)
    have "64 * map_size al \<le> j"
    proof (rule skip [OF n(1) j ge])
      fix i assume i: "Suc ?o \<le> i" "i < map_size al"
      then have "?ws ! (i - Suc ?o) \<in> set ?ws" by (intro nth_mem) (auto simp: map_size_def)
      then show "al_map al ! i = - 1" using free_word_None [OF n(2)] i by (simp add: map_size_def)
    qed
    then show False using jm by linarith
  qed
qed

lemma level_sizes:
  assumes "ax_ok a"
  shows "k < nr_levels a \<Longrightarrow> map_size (ax_levels a ! k) \<le> 2 ^ 57"
    and "Suc k < nr_levels a \<Longrightarrow> 64 * map_size (ax_levels a ! Suc k) \<le> map_size (ax_levels a ! k) + 63"
proof -
  have s: "map_size (ax_levels a ! Suc k) = (map_size (ax_levels a ! k) + 63) div 64" if "Suc k < nr_levels a" for k
    using levels_at(4) [OF assms that] by (simp add: linked_def)
  then show "64 * map_size (ax_levels a ! Suc k) \<le> map_size (ax_levels a ! k) + 63" if "Suc k < nr_levels a"
    using that by (simp only: s)
  show "map_size (ax_levels a ! k) \<le> 2 ^ 57" if "k < nr_levels a"
    using that
  proof (induction k)
    case 0
    then show ?case using levels_at(2) [OF assms] assms by (simp add: ax_ok_def) linarith
  next
    case (Suc k)
    then show ?case using s [OF Suc.prems] by simp
  qed
qed

lemma free_up:
  assumes "ax_ok a" and "j \<in> lfree (ax_levels a ! 0)"
  shows "k < nr_levels a \<Longrightarrow> j div 64 ^ k \<in> lfree (ax_levels a ! k)"
proof (induction k)
  case 0
  then show ?case using assms(2) by simp
next
  case (Suc k)
  then have f: "j div 64 ^ k div 64 < map_size (ax_levels a ! k)" "j div 64 ^ k \<notin> lbits (ax_levels a ! k)" by (simp_all add: lfree_def)
  note l = levels_at(4) [OF assms(1) Suc.prems]
  have "j div 64 ^ k div 64 \<notin> lbits (ax_levels a ! Suc k)" using l not_full [OF f] f(1) by (simp add: linked_def)
  then show ?case using linked_bound [OF l f(1)] unfolding div_level lfree_def by simp
qed

lemma first_free_loop_ok:
  assumes "ax_ok a" and "0 < i" and "i \<le> nr_levels a" and "64 * unat idx < 2 ^ 64"
    and "\<And>j. j \<in> lfree (ax_levels a ! 0) \<Longrightarrow> unat b \<le> j \<Longrightarrow> unat idx \<le> j div 64 ^ i"
  shows "case first_free_loop a b i idx of None \<Rightarrow> (\<forall>j \<in> lfree (ax_levels a ! 0). j < unat b)
    | Some x \<Rightarrow> first_from (lfree (ax_levels a ! 0)) (unat b) (unat x)"
  using assms(2-)
proof (induction i arbitrary: idx)
  case 0
  then show ?case by simp
next
  case (Suc i)
  let ?L = "ax_levels a" and ?F = "lfree (ax_levels a ! 0)"
  define idx2 where "idx2 = (if push_bit UNIT_SHIFT idx < drop_bit (UNIT_SHIFT * i) b then drop_bit (UNIT_SHIFT * i) b else push_bit UNIT_SHIFT idx)"
  have loop: "first_free_loop a b (Suc i) idx = (case level_free (?L ! i) idx2 of None \<Rightarrow> None | Some x \<Rightarrow> first_free_loop a b i x)"
    by (simp add: idx2_def Let_def)
  have sz: "64 * map_size (?L ! i) \<le> 2 ^ 64" using level_sizes(1) [OF assms(1), of i] Suc.prems(2) by simp
  have "push_bit UNIT_SHIFT idx = of_nat (64 * unat idx)" by (simp add: UNIT_SHIFT_def push_bit_eq_mult mult.commute)
  then have "unat (push_bit UNIT_SHIFT idx) = 64 * unat idx"
    using Suc.prems(3) by (simp only: unat_of_nat) (simp add: take_bit_nat_eq_self)
  then have u: "unat idx2 = max (64 * unat idx) (unat b div 64 ^ i)" by (auto simp: idx2_def word_less_nat_alt drop_levels)
  have low: "unat idx2 \<le> j div 64 ^ i" if "j \<in> ?F" "unat b \<le> j" for j
  proof -
    have "64 * unat idx \<le> j div 64 ^ i" using Suc.prems(4) [OF that] unfolding div_level by simp
    then show ?thesis using div_le_mono [OF that(2), of "64 ^ i"] by (simp add: u)
  qed
  have up: "j div 64 ^ i \<in> lfree (?L ! i)" if "j \<in> ?F" for j using free_up [OF assms(1) that] Suc.prems(2) by simp
  show ?case
  proof (cases "level_free (?L ! i) idx2")
    case None
    have "j < unat b" if "j \<in> ?F" for j
      using level_free_ok(2) [OF sz None up [OF that]] low [OF that] by (metis not_le)
    then show ?thesis using None loop by simp
  next
    case (Some x)
    have x: "first_from (lfree (?L ! i)) (unat idx2) (unat x)" using level_free_ok(1) [OF sz Some] .
    have xl: "unat x \<le> j div 64 ^ i" if "j \<in> ?F" "unat b \<le> j" for j
      using x up [OF that(1)] low [OF that] by (simp add: first_from_def)
    show ?thesis
    proof (cases i)
      case 0
      have "first_from ?F (unat b) (unat x)" using x xl 0 u by (auto simp: first_from_def)
      then show ?thesis using Some 0 unfolding loop by simp
    next
      case (Suc k)
      have "unat x div 64 < map_size (?L ! i)" using x by (simp add: first_from_def lfree_def)
      then have "unat x < 64 * map_size (?L ! i)" by linarith
      also have "\<dots> \<le> map_size (?L ! k) + 63" using level_sizes(2) [OF assms(1), of k] Suc.prems(2) Suc by simp
      also have "\<dots> \<le> 2 ^ 57 + 63" using level_sizes(1) [OF assms(1), of k] Suc.prems(2) Suc by simp
      finally have "64 * unat x < 2 ^ 64" by simp
      then show ?thesis using Some Suc.IH [of x] Suc Suc.prems(2) xl unfolding loop by simp
    qed
  qed
qed

definition ax_free :: "axmap \<Rightarrow> nat set" where
  "ax_free a = {j. j < unat (ax_nr_bits a) \<and> j \<notin> ax_used a}"

lemma ax_free_level:
  "ax_ok a \<Longrightarrow> ax_free a = {j. j < unat (ax_nr_bits a) \<and> j \<in> lfree (ax_levels a ! 0)}"
  using index_bound [of a 0] levels_at(1,3) [of a] by (auto simp: ax_free_def ax_used_def lfree_def)

text \<open>\<open>r\<close> is the first free bit from \<open>n\<close> on, or \<^verbatim>\<open>-1\<close> if there is none.\<close>

definition free_from :: "axmap \<Rightarrow> nat \<Rightarrow> u64 \<Rightarrow> bool" where
  "free_from a n r \<longleftrightarrow> (if \<exists>j \<in> ax_free a. n \<le> j then first_from (ax_free a) n (unat r) else r = - 1)"

lemma free_from_level:
  assumes "ax_ok a" and "first_from (lfree (ax_levels a ! 0)) n (unat x)"
  shows "free_from a n (if x \<ge> ax_nr_bits a then - 1 else x)"
  using assms(2) by (auto simp: free_from_def first_from_def ax_free_level [OF assms(1)] word_le_nat_alt)

lemma find_first_free_ok:
  assumes "ax_ok a"
  shows "free_from a (unat b) (axmap_find_first_free a b)"
proof -
  have l: "case first_free_loop a b (nr_levels a) 0 of None \<Rightarrow> (\<forall>j \<in> lfree (ax_levels a ! 0). j < unat b)
    | Some x \<Rightarrow> first_from (lfree (ax_levels a ! 0)) (unat b) (unat x)"
    by (rule first_free_loop_ok [OF assms levels_at(1) [OF assms]]) simp_all
  show ?thesis
  proof (cases "first_free_loop a b (nr_levels a) 0")
    case None
    then have "\<forall>j \<in> ax_free a. j < unat b" using l ax_free_level [OF assms] by auto
    then show ?thesis using None by (auto simp: free_from_def axmap_find_first_free_def)
  next
    case (Some x)
    then show ?thesis using free_from_level [OF assms, of "unat b" x] l by (simp add: axmap_find_first_free_def)
  qed
qed

lemma next_free_ok:
  assumes "ax_ok a" and "unat j < unat (ax_nr_bits a)"
  defines "n \<equiv> (if unat j + 1 = unat (ax_nr_bits a) then 0 else unat j + 1)"
  shows "\<exists>r. axmap_next_free a j = Some r \<and>
    (if \<exists>k \<in> ax_free a. n \<le> k then first_from (ax_free a) n (unat r) else free_from a 0 r)"
proof -
  have u: "unat (j + 1) = unat j + 1" using assms(1,2) by (subst unat_add_lem [THEN iffD1]) (simp_all add: ax_ok_def)
  define nb where "nb = (if j + 1 = ax_nr_bits a then 0 else j + 1)"
  have n: "unat nb = n" using u by (auto simp: nb_def n_def word_unat_eq_iff)
  have nr: "n < unat (ax_nr_bits a)" using assms(2) by (auto simp: n_def)
  have o: "n div 64 < map_size (ax_levels a ! 0)" using index_bound [OF assms(1) levels_at(1) [OF assms(1)] nr] by simp
  let ?t = "NOT (bit_masks ! (n mod 64)) AND NOT (al_map (ax_levels a ! 0) ! (n div 64))"
  let ?x = "push_bit UNIT_SHIFT (of_nat (n div 64)) + ucast (ffz (NOT ?t)) :: u64"
  define ret where "ret = (if ?t \<noteq> 0 then (if ?x \<ge> ax_nr_bits a then - 1 else ?x) else axmap_find_first_free a nb)"
  have c: "\<not> ax_nr_bits a \<le> j" using assms(2) by (simp add: word_le_nat_alt)
  have uo: "unit_of nb = of_nat (n div 64)" by (rule eq_of_nat_unat) (simp add: unat_unit_of n)
  have e: "axmap_next_free a j = Some (if ret = - 1 \<and> nb \<noteq> 0 then axmap_find_first_free a 0 else ret)"
    unfolding axmap_next_free_def nb_def [symmetric] Let_def unat_unit_of unat_bit_of n uo ret_def
    by (simp only: c o if_True if_False)
  have f: "free_from a n ret"
  proof (cases "?t = 0")
    case True
    then show ?thesis using find_first_free_ok [OF assms(1), of nb] by (simp add: ret_def n)
  next
    case False
    have "first_from (lfree (ax_levels a ! 0)) n (unat ?x)"
    proof (rule found_first [OF o _ False])
      show "64 * map_size (ax_levels a ! 0) \<le> 2 ^ 64" using level_sizes(1) [OF assms(1) levels_at(1) [OF assms(1)]] by simp
      show "bit ?t i \<longleftrightarrow> i < 64 \<and> n \<le> 64 * (n div 64) + i \<and> \<not> bit (al_map (ax_levels a ! 0) ! (n div 64)) i" for i
        by (rule bit_above_from)
      show "64 * (n div 64) \<le> k" if "n \<le> k" for k using that by (metis order_trans times_div_less_eq_dividend)
    qed
    from free_from_level [OF assms(1) this] show ?thesis using False unfolding ret_def by (simp only: not_False_eq_True if_True)
  qed
  have m1: "unat (- 1 :: u64) \<notin> ax_free a" using word_order.extremum [of "ax_nr_bits a"] by (simp add: ax_free_def word_le_nat_alt)
  show ?thesis
  proof (cases "\<exists>k \<in> ax_free a. n \<le> k")
    case True
    then have ff: "first_from (ax_free a) n (unat ret)" using f by (simp add: free_from_def)
    then have "ret \<noteq> - 1" using m1 by (auto simp: first_from_def)
    then show ?thesis using e ff True by simp
  next
    case False
    then have "ret = - 1" using f by (simp add: free_from_def)
    moreover have "nb = 0 \<Longrightarrow> ax_free a = {}" using False n by auto
    ultimately show ?thesis using e False find_first_free_ok [OF assms(1), of 0] by (auto simp: free_from_def)
  qed
qed

section \<open>A new map\<close>

definition fits :: "axmap_level \<Rightarrow> axmap_level \<Rightarrow> bool" where
  "fits x y \<longleftrightarrow> map_size y = (map_size x + 63) div 64"

definition zeroed :: "axmap_level \<Rightarrow> axmap_level" where
  "zeroed al = al\<lparr>al_map := replicate (map_size al) 0\<rparr>"

lemma zeroed_simps [simp]: "map_size (zeroed al) = map_size al" "al_level (zeroed al) = al_level al" "lbits (zeroed al) = {}"
  by (auto simp: zeroed_def map_size_def lbits_def)

lemma zeroed_linked: "fits x y \<Longrightarrow> linked (zeroed x) (zeroed y)"
  by (simp add: linked_def fits_def) (simp add: zeroed_def)

lemma count_levels_ge: "n \<le> count_levels i n"
proof (induction i n rule: count_levels.induct)
  case (1 i levels)
  then show ?case by (subst count_levels.simps) (auto intro: Suc_leD)
qed

lemma units_less: "unat n < 2 ^ 63 \<Longrightarrow> unat (units n) < 2 ^ 63"
  by (simp add: unat_units)

lemma new_levels_ok:
  assumes "\<And>k. map_ok k" and "unat n < 2 ^ 63"
  shows "\<exists>al als. new_levels map_ok junk i (Suc m) n = Some (al # als) \<and> al_level al = i \<and> map_size al = (unat n + 63) div 64 \<and>
    successively fits (al # als) \<and> (\<forall>x \<in> set als. i < al_level x)"
  using assms(2)
proof (induction m arbitrary: i n)
  case 0
  then show ?case using assms(1) unat_units [OF 0] by (simp add: map_size_def)
next
  case (Suc m)
  obtain al als where a: "new_levels map_ok junk (Suc i) (Suc m) (units n) = Some (al # als)" "al_level al = Suc i"
    "map_size al = (unat (units n) + 63) div 64" "successively fits (al # als)" "\<forall>x \<in> set als. Suc i < al_level x"
    using Suc.IH [OF units_less [OF Suc.prems]] by blast
  let ?al = "\<lparr>al_level = i, al_map = map (junk i) [0..<unat (units n)]\<rparr>"
  have "map_size ?al = unat (units n)" by (simp add: map_size_def)
  then have "map_size ?al = (unat n + 63) div 64" "successively fits (?al # al # als)"
    using unat_units [OF Suc.prems] a(3,4) by (simp_all add: fits_def)
  moreover have "new_levels map_ok junk i (Suc (Suc m)) n = Some (?al # al # als)" using a(1) assms(1) unfolding new_levels.simps(2) [of _ _ i] by simp
  moreover have "\<forall>x \<in> set (al # als). i < al_level x" using a(2,5) by auto
  ultimately show ?case by (intro exI [of _ ?al] exI [of _ "al # als"]) simp
qed

lemma reset_ok:
  assumes "unat (ax_nr_bits a) < 2 ^ 63" and "ax_levels a = al # als" and "al_level al = 0" and "map_size al = (unat (ax_nr_bits a) + 63) div 64"
    and "successively fits (al # als)" and "\<forall>x \<in> set als. 0 < al_level x"
  shows "ax_ok (axmap_reset a)" and "ax_used (axmap_reset a) = {}" and "ax_nr_bits (axmap_reset a) = ax_nr_bits a"
proof -
  have r: "axmap_reset a = a\<lparr>ax_levels := zeroed al # map zeroed als\<rparr>" using assms(2) by (simp add: axmap_reset_def zeroed_def)
  have "successively linked (map zeroed (al # als))"
    unfolding successively_map using assms(5) by (rule successively_mono) (simp add: zeroed_linked)
  then show "ax_ok (axmap_reset a)" using assms(1,3,4,6) unfolding r by (auto simp: ax_ok_def)
  show "ax_used (axmap_reset a) = {}" unfolding r by (simp add: ax_used_def)
  show "ax_nr_bits (axmap_reset a) = ax_nr_bits a" by (simp add: axmap_reset_def)
qed

lemma reset_again:
  assumes "ax_ok a"
  shows "ax_ok (axmap_reset a)" and "ax_used (axmap_reset a) = {}" and "ax_nr_bits (axmap_reset a) = ax_nr_bits a"
proof -
  obtain al als where l: "ax_levels a = al # als" "map_size al = (unat (ax_nr_bits a) + 63) div 64" "successively linked (al # als)"
    "al_level al = 0" "\<forall>x \<in> set als. al_level x \<noteq> 0" and n: "unat (ax_nr_bits a) < 2 ^ 63"
    using assms by (auto simp: ax_ok_def)
  have f: "successively fits (al # als)" using l(3) by (rule successively_mono) (simp add: linked_def fits_def)
  have z: "\<forall>x \<in> set als. 0 < al_level x" using l(5) by simp
  show "ax_ok (axmap_reset a)" and "ax_used (axmap_reset a) = {}" and "ax_nr_bits (axmap_reset a) = ax_nr_bits a"
    using reset_ok [OF n l(1,4,2) f z] by simp_all
qed

lemma new_ok:
  assumes "unat n < 2 ^ 63" and "\<And>k. map_ok k"
  shows "\<exists>a. axmap_new True True map_ok junk n = Some a \<and> ax_ok a \<and> ax_used a = {} \<and> ax_nr_bits a = n"
proof -
  obtain m where m: "count_levels (ucast (units n)) 1 = Suc m" using count_levels_ge [of 1 "ucast (units n)"] by (metis One_nat_def Suc_le_D)
  obtain al als where l: "new_levels map_ok junk 0 (Suc m) n = Some (al # als)" "al_level al = 0" "map_size al = (unat n + 63) div 64"
    "successively fits (al # als)" "\<forall>x \<in> set als. 0 < al_level x"
    using new_levels_ok [of map_ok n junk 0 m] assms by blast
  let ?a = "\<lparr>ax_levels = al # als, ax_nr_bits = n\<rparr>"
  have "axmap_new True True map_ok junk n = Some (axmap_reset ?a)" unfolding axmap_new_def m l(1) by simp
  then show ?thesis using reset_ok [of ?a, OF _ _ l(2) _ l(4,5)] assms(1) l(3) by simp
qed

section \<open>The map as a set\<close>

definition ax_mark :: "nat \<Rightarrow> axmap \<Rightarrow> axmap option" where
  "ax_mark j a = map_option snd (axmap_set_nr (of_nat j) 1 a)"

definition ax_next :: "axmap \<Rightarrow> nat \<Rightarrow> nat option option" where
  "ax_next a j = map_option (\<lambda>r. if r = - 1 then None else Some (unat r)) (axmap_next_free a (of_nat j))"

lemma unat_of_nat_bit: "ax_ok a \<Longrightarrow> j < unat (ax_nr_bits a) \<Longrightarrow> unat (of_nat j :: u64) = j"
  by (auto simp: ax_ok_def unat_of_nat intro!: take_bit_nat_eq_self)

lemma set_nr_ok:
  assumes "ax_ok a" and "0 < unat n" and "unat j + unat n \<le> unat (ax_nr_bits a)" and "c = free_run (ax_used a) (unat j) (unat n)"
  shows "\<exists>a'. axmap_set_nr j n a = Some (of_nat c, a') \<and> ax_ok a' \<and> ax_nr_bits a' = ax_nr_bits a \<and> ax_used a' = ax_used a \<union> {unat j..<unat j + c}"
  using set_nr_loop_ok [OF assms, of 0] by (simp add: axmap_set_nr_def)

lemma ax_free_used: "ax_ok a \<Longrightarrow> ax_free a = {..<unat (ax_nr_bits a)} - ax_used a" and ax_used_bound: "ax_used a \<subseteq> {..<unat (ax_nr_bits a)}"
  by (auto simp: ax_free_def ax_used_def)

lemma ax_mark_ok:
  assumes "ax_ok a" and "j < unat (ax_nr_bits a)" and "j \<notin> ax_used a"
  shows "\<exists>a'. ax_mark j a = Some a' \<and> ax_ok a' \<and> unat (ax_nr_bits a') = unat (ax_nr_bits a) \<and> ax_used a' = insert j (ax_used a)"
proof -
  note u = unat_of_nat_bit [OF assms(1,2)]
  obtain a' where "axmap_set_nr (of_nat j) 1 a = Some (of_nat 1, a')" "ax_ok a'" "ax_nr_bits a' = ax_nr_bits a" "ax_used a' = ax_used a \<union> {j..<j + 1}"
    using set_nr_ok [OF assms(1), of 1 "of_nat j" 1] u assms(2,3) by auto
  then show ?thesis by (auto simp: ax_mark_def)
qed

lemma minus_one_not_free: "ax_ok a \<Longrightarrow> unat r \<in> ax_free a \<Longrightarrow> r \<noteq> - 1" for r :: u64
  using word_order.extremum [of "ax_nr_bits a"] by (auto simp: ax_free_def word_le_nat_alt dest: leD)

lemma ax_next_ok:
  assumes "ax_ok a" and "j < unat (ax_nr_bits a)"
  shows "ax_free a \<noteq> {} \<Longrightarrow> \<exists>k. ax_next a j = Some (Some k) \<and> k \<in> ax_free a" and "ax_free a = {} \<Longrightarrow> ax_next a j = Some None"
proof -
  note u = unat_of_nat_bit [OF assms]
  define n where "n = (if j + 1 = unat (ax_nr_bits a) then 0 else j + 1)"
  obtain r where r: "axmap_next_free a (of_nat j) = Some r"
    "if \<exists>k \<in> ax_free a. n \<le> k then first_from (ax_free a) n (unat r) else free_from a 0 r"
    using next_free_ok [OF assms(1), of "of_nat j", unfolded u, OF assms(2)] unfolding n_def by blast
  show "ax_next a j = Some None" if "ax_free a = {}" using r that by (simp add: ax_next_def free_from_def)
  show "\<exists>k. ax_next a j = Some (Some k) \<and> k \<in> ax_free a" if "ax_free a \<noteq> {}"
  proof -
    have "unat r \<in> ax_free a" using r(2) that by (auto simp: free_from_def first_from_def split: if_splits)
    then show ?thesis using r(1) minus_one_not_free [OF assms(1)] by (simp add: ax_next_def)
  qed
qed

interpretation axm: block_map ax_ok "\<lambda>a. unat (ax_nr_bits a)" ax_used "\<lambda>a j. axmap_isset a (of_nat j)" ax_mark ax_next
proof
  fix a j
  assume ok: "ax_ok a"
  show "ax_used a \<subseteq> {..<unat (ax_nr_bits a)}" by (rule ax_used_bound)
  assume j: "j < unat (ax_nr_bits a)"
  note u = unat_of_nat_bit [OF ok j]
  show "axmap_isset a (of_nat j) = Some (j \<in> ax_used a)" using isset_ok [OF ok, of "of_nat j"] u j by simp
  show "\<exists>a'. ax_mark j a = Some a' \<and> ax_ok a' \<and> unat (ax_nr_bits a') = unat (ax_nr_bits a) \<and> ax_used a' = insert j (ax_used a)" if "j \<notin> ax_used a"
    using ax_mark_ok [OF ok j that] .
  show "\<exists>k. ax_next a j = Some (Some k) \<and> k < unat (ax_nr_bits a) \<and> k \<notin> ax_used a" if "ax_used a \<noteq> {..<unat (ax_nr_bits a)}"
    using ax_next_ok(1) [OF ok j] that ax_used_bound [of a] by (auto simp: ax_free_def)
  show "ax_next a j = Some None" if "ax_used a = {..<unat (ax_nr_bits a)}"
    using ax_next_ok(2) [OF ok j] that by (auto simp: ax_free_def)
qed

text \<open>How far block \<open>k\<close> lies ahead of block \<open>n\<close>, going round a map of \<open>m\<close>.\<close>

definition ahead :: "nat \<Rightarrow> nat \<Rightarrow> nat \<Rightarrow> nat" where
  "ahead m n k = (if n \<le> k then k - n else k + m - n)"

lemma first_from_ahead:
  assumes "x \<in> S" and "S \<subseteq> {..<m}" and "n \<le> m" and "if \<exists>k \<in> S. n \<le> k then first_from S n x else first_from S 0 x" and "k \<in> S"
  shows "ahead m n x \<le> ahead m n k"
proof -
  have "k < m" "x < m" using assms(1,2,5) by auto
  then show ?thesis using assms(3-5) by (auto simp: ahead_def first_from_def split: if_splits)
qed

section \<open>The properties of the map\<close>

text \<open>
  C10: setting bits implements inserting into a set. Setting \<open>n\<close> bits from bit \<open>j\<close> on, inside
  the map, sets the free bits up to the first used one, returns their number, keeps the links
  between the levels, and afterwards the top-down query answers exactly whether a bit is in the set.
\<close>

theorem axmap_set_nr_refines:
  assumes "ax_ok a" and "0 < unat n" and "unat j + unat n \<le> unat (ax_nr_bits a)"
  shows "\<exists>a'. axmap_set_nr j n a = Some (of_nat (free_run (ax_used a) (unat j) (unat n)), a') \<and> ax_ok a' \<and> ax_nr_bits a' = ax_nr_bits a \<and>
    ax_used a' = ax_used a \<union> {unat j..<unat j + free_run (ax_used a) (unat j) (unat n)} \<and>
    (\<forall>k. unat k < unat (ax_nr_bits a) \<longrightarrow> axmap_isset a' k = Some (unat k \<in> ax_used a'))"
proof -
  obtain a' where a': "axmap_set_nr j n a = Some (of_nat (free_run (ax_used a) (unat j) (unat n)), a')" "ax_ok a'" "ax_nr_bits a' = ax_nr_bits a"
    "ax_used a' = ax_used a \<union> {unat j..<unat j + free_run (ax_used a) (unat j) (unat n)}"
    using set_nr_ok [OF assms refl] by blast
  then have "\<forall>k. unat k < unat (ax_nr_bits a) \<longrightarrow> axmap_isset a' k = Some (unat k \<in> ax_used a')" using isset_ok by simp
  then show ?thesis using a' by blast
qed

text \<open>
  C11: the search finds the next free block. Asked for the block after \<open>j\<close>, the map returns
  the free block that comes first going round from \<open>j + 1\<close>, and \<^verbatim>\<open>-1\<close> exactly
  when every block is used.
\<close>

theorem axmap_next_free_finds:
  assumes "ax_ok a" and "unat j < unat (ax_nr_bits a)"
  shows "\<exists>r. axmap_next_free a j = Some r \<and> (r = - 1 \<longleftrightarrow> ax_free a = {}) \<and>
    (\<forall>k \<in> ax_free a. unat r \<in> ax_free a \<and>
       ahead (unat (ax_nr_bits a)) ((unat j + 1) mod unat (ax_nr_bits a)) (unat r) \<le> ahead (unat (ax_nr_bits a)) ((unat j + 1) mod unat (ax_nr_bits a)) k)"
proof -
  let ?m = "unat (ax_nr_bits a)" and ?n = "(unat j + 1) mod unat (ax_nr_bits a)"
  have n: "(if unat j + 1 = ?m then 0 else unat j + 1) = ?n" using assms(2) by auto
  obtain r where r: "axmap_next_free a j = Some r" "if \<exists>k \<in> ax_free a. ?n \<le> k then first_from (ax_free a) ?n (unat r) else free_from a 0 r"
    using next_free_ok [OF assms] unfolding n by blast
  have f: "if \<exists>k \<in> ax_free a. ?n \<le> k then first_from (ax_free a) ?n (unat r) else first_from (ax_free a) 0 (unat r)" and i: "unat r \<in> ax_free a"
    if "ax_free a \<noteq> {}"
    using r(2) that by (auto simp: free_from_def first_from_def split: if_splits)
  have "ax_free a \<subseteq> {..<?m}" "?n \<le> ?m" using assms(2) by (auto simp: ax_free_def intro: less_imp_le)
  then have "ahead ?m ?n (unat r) \<le> ahead ?m ?n k" if "k \<in> ax_free a" for k using first_from_ahead [OF i _ _ f that] that by blast
  moreover have "r = - 1 \<longleftrightarrow> ax_free a = {}" using i minus_one_not_free [OF assms(1)] r(2) by (auto simp: free_from_def)
  ultimately show ?thesis using r(1) i by blast
qed

section \<open>Examples\<close>

lemma example_map: "\<exists>a. axmap_new True True (\<lambda>_. True) (\<lambda>_ _. 0) 100 = Some a \<and> ax_ok a \<and> ax_used a = {} \<and> ax_nr_bits a = 100"
  by (rule new_ok) simp_all

theorem axmap_set_nr_refines_witness:
  "\<exists>a a'. axmap_new True True (\<lambda>_. True) (\<lambda>_ _. 0) 100 = Some a \<and> axmap_set_nr 60 10 a = Some (10, a') \<and> ax_used a' = {60..<70} \<and> axmap_isset a' 65 = Some True"
proof -
  obtain a where a: "axmap_new True True (\<lambda>_. True) (\<lambda>_ _. 0) 100 = Some a" "ax_ok a" "ax_used a = {}" "ax_nr_bits a = 100"
    using example_map by blast
  have r: "free_run {} 60 10 = 10" by (simp add: free_run_iff)
  obtain a' where "axmap_set_nr 60 10 a = Some (10, a')" "ax_used a' = {60..<70}"
    "\<forall>k. unat k < 100 \<longrightarrow> axmap_isset a' k = Some (unat k \<in> ax_used a')"
    using axmap_set_nr_refines [of a 10 60] a by (auto simp: r)
  then show ?thesis using a(1) by (intro exI conjI) (auto dest: spec [of _ 65])
qed

theorem axmap_next_free_finds_witness:
  "\<exists>a r. axmap_new True True (\<lambda>_. True) (\<lambda>_ _. 0) 100 = Some a \<and> axmap_next_free a 99 = Some r \<and> r \<noteq> - 1"
proof -
  obtain a where a: "axmap_new True True (\<lambda>_. True) (\<lambda>_ _. 0) 100 = Some a" "ax_ok a" "ax_used a = {}" "ax_nr_bits a = 100"
    using example_map by blast
  have "0 \<in> ax_free a" using a by (simp add: ax_free_def)
  then have "ax_free a \<noteq> {}" by blast
  then show ?thesis using axmap_next_free_finds [of a 99] a by auto
qed

text \<open>The two checks against \<^verbatim>\<open>nr_bits\<close> accept \<^verbatim>\<open>nr_bits\<close> itself: on a map
  of 64 bits, asking for bit 64 and setting bits up to it go outside the array.\<close>

lemma axmap_end_overrun:
  assumes "axmap_new True True (\<lambda>_. True) (\<lambda>_ _. 0) 64 = Some a"
  shows "axmap_isset a 64 = None" and "axmap_set 64 a = None"
proof -
  have "count_levels 1 1 = 1" by (simp add: count_levels.simps)
  then have a: "a = \<lparr>ax_levels = [\<lparr>al_level = 0, al_map = [0]\<rparr>], ax_nr_bits = 64\<rparr>"
    using assms by (simp add: axmap_new_def units_def BLOCKS_PER_UNIT_def UNIT_SHIFT_def axmap_reset_def map_size_def)
  then show "axmap_isset a 64 = None"
    by (simp add: axmap_isset_def nr_levels_def axmap_isset_fn_def unat_unit_of map_size_def)
  show "axmap_set 64 a = None"
    unfolding a by (simp add: axmap_set_def axmap_set_raw_def axmap_set_fn_def unat_unit_of map_size_def BLOCKS_PER_UNIT_def UNIT_SHIFT_def)
qed

end
