(* ===== verification/Fio_LFSR.thy ===== *)
theory Fio_LFSR
  imports Emu_Prelude
begin

text \<open>
  The linear feedback shift register that gives the blocks of a random job in a fixed scrambled
  order: \<^verbatim>\<open>fio4emu/lib/lfsr.c\<close>. A register of \<open>n\<close> bits runs through its states; the
  values that are no block numbers are skipped. fio uses it with spin 0.
\<close>

section \<open>Data\<close>

definition FIO_MAX_TAPS :: nat where "FIO_MAX_TAPS = 6"

text \<open>A row holds the taps before its zeros.\<close>

definition lfsr_taps :: "nat list list" where
  "lfsr_taps = [
     [0], [0], [0], [3, 2],
     [4, 3], [5, 3], [6, 5], [7, 6],
     [8, 6, 5, 4], [9, 5], [10, 7], [11, 9],
     [12, 6, 4, 1], [13, 4, 3, 1], [14, 5, 3, 1], [15, 14],
     [16, 15, 13, 4], [17, 14], [18, 11], [19, 6, 2, 1],
     [20, 17], [21, 19], [22, 21], [23, 18],
     [24, 23, 22, 17], [25, 22], [26, 6, 2, 1], [27, 5, 2, 1],
     [28, 25], [29, 27], [30, 6, 4, 1], [31, 28],
     [32, 31, 29, 1], [33, 20], [34, 27, 2, 1], [35, 33],
     [36, 25], [37, 5, 4, 3, 2, 1], [38, 6, 5, 1], [39, 35],
     [40, 38, 21, 19], [41, 38], [42, 41, 20, 19], [43, 42, 38, 37],
     [44, 43, 18, 17], [45, 44, 42, 41], [46, 45, 26, 25], [47, 42],
     [48, 47, 21, 20], [49, 40], [50, 49, 24, 23], [51, 50, 36, 35],
     [52, 49], [53, 52, 38, 37], [54, 53, 18, 17], [55, 31],
     [56, 55, 35, 34], [57, 50], [58, 39], [59, 58, 38, 37],
     [60, 59], [61, 60, 46, 45], [62, 61, 6, 5], [63, 62]]"

record fio_lfsr =
  xormask :: u64
  last_val :: u64
  cached_bit :: u64
  max_val :: u64
  num_vals :: u64
  cycle_length :: u64
  cached_cycle_length :: u64
  spin :: u32

section \<open>Operations\<close>

definition LFSR_NEXT :: "u64 \<Rightarrow> u64 \<Rightarrow> u64 \<Rightarrow> u64" where
  "LFSR_NEXT cb xm v = (drop_bit 1 v OR cb) XOR (((v AND 1) - 1) AND xm)"

text \<open>The switch falls through: case \<open>k\<close> makes \<open>k + 1\<close> steps, a value above 15 none.\<close>

definition lfsr_advance :: "u32 \<Rightarrow> fio_lfsr \<Rightarrow> fio_lfsr" where
  "lfsr_advance k fl =
     (if k \<le> 15 then fl\<lparr>last_val := (LFSR_NEXT (cached_bit fl) (xormask fl) ^^ Suc (unat k)) (last_val fl)\<rparr> else fl)"

definition lfsr_turn :: "fio_lfsr \<Rightarrow> fio_lfsr" where
  "lfsr_turn fl =
     (if cycle_length fl = 0 then lfsr_advance (spin fl) fl
      else if cycle_length fl - 1 = 0 then
        (lfsr_advance (spin fl + 1) fl)\<lparr>cycle_length := cached_cycle_length fl\<rparr>
      else lfsr_advance (spin fl) (fl\<lparr>cycle_length := cycle_length fl - 1\<rparr>))"

partial_function (option) lfsr_loop :: "fio_lfsr \<Rightarrow> fio_lfsr option" where
  "lfsr_loop fl =
     (let fl' = lfsr_turn fl in if last_val fl' > max_val fl' then lfsr_loop fl' else Some fl')"

text \<open>\<open>Inl\<close> the return value 1, \<open>Inr\<close> the value stored in \<^verbatim>\<open>*off\<close>.\<close>

definition lfsr_next :: "fio_lfsr \<Rightarrow> ((unit + u64) \<times> fio_lfsr) option" where
  "lfsr_next fl =
     (let fl1 = fl\<lparr>num_vals := num_vals fl + 1\<rparr>
      in if num_vals fl > max_val fl then Some (Inl (), fl1)
         else do { fl2 \<leftarrow> lfsr_loop fl1; Some (Inr (last_val fl2), fl2) })"

definition lfsr_create_xormask :: "nat list \<Rightarrow> u64" where
  "lfsr_create_xormask taps =
     fold (\<lambda>t m. m OR push_bit (t - 1) 1) (takeWhile (\<lambda>t. t \<noteq> 0) (take FIO_MAX_TAPS taps)) 0"

definition find_lfsr :: "u64 \<Rightarrow> nat list ptr" where
  "find_lfsr sz = map_option (\<lambda>i. lfsr_taps ! i) (List.find (\<lambda>i. push_bit i 1 > sz) [3..<64])"

definition prepare_spin :: "u32 \<Rightarrow> fio_lfsr \<Rightarrow> u32 \<times> fio_lfsr" where
  "prepare_spin sp fl =
     (if sp > 15 then (1, fl)
      else
        let mx = push_bit 1 (cached_bit fl) - 1;
            x = mx div ucast (sp + 1);
            y = mx mod ucast (sp + 1);
            len = (case List.find (\<lambda>i. (y * of_nat i) mod ucast (sp + 1) = 0) [1..<Suc (unat sp)] of
                     None \<Rightarrow> 0
                   | Some i \<Rightarrow> x * of_nat i + (y * of_nat i) div ucast (sp + 1))
        in (0, fl\<lparr>spin := sp, cached_cycle_length := len, cycle_length := len + 1\<rparr>))"

definition lfsr_reset :: "u64 \<Rightarrow> fio_lfsr \<Rightarrow> u32 \<times> fio_lfsr" where
  "lfsr_reset seed fl =
     (let bitmask = push_bit 1 (cached_bit fl) - 1;
          fl1 = fl\<lparr>num_vals := 0, last_val := seed AND bitmask\<rparr>
      in (if last_val fl1 = bitmask then 1 else 0, fl1))"

definition lfsr_init :: "u64 \<Rightarrow> u64 \<Rightarrow> u32 \<Rightarrow> fio_lfsr \<Rightarrow> u32 \<times> fio_lfsr" where
  "lfsr_init nums seed sp fl =
     (case find_lfsr nums of
        None \<Rightarrow> (1, fl)
      | Some taps \<Rightarrow>
          let fl1 = fl\<lparr>max_val := nums - 1, xormask := lfsr_create_xormask taps, cached_bit := push_bit (taps ! 0 - 1) 1\<rparr>;
              (r, fl2) = prepare_spin sp fl1
          in if r \<noteq> 0 then (1, fl2)
             else let (r, fl3) = lfsr_reset seed fl2 in (if r \<noteq> 0 then 1 else 0, fl3))"

section \<open>One step of the register\<close>

text \<open>The taps of the register of \<open>n\<close> bits.\<close>

definition top_bit :: "nat \<Rightarrow> u64" where "top_bit n = push_bit (n - 1) 1"
definition taps_mask :: "nat \<Rightarrow> u64" where "taps_mask n = lfsr_create_xormask (lfsr_taps ! n)"
definition shift :: "nat \<Rightarrow> u64 \<Rightarrow> u64" where "shift n = LFSR_NEXT (top_bit n) (taps_mask n)"

lemma taps_rows: "list_all (\<lambda>(n, ts). ts \<noteq> [] \<and> hd ts = n \<and> list_all (\<lambda>t. 0 < t \<and> t \<le> n) ts \<and> length ts \<le> 6) (drop 3 (enumerate 0 lfsr_taps))"
  by code_simp

lemma taps_row:
  assumes "3 \<le> n" and "n < 64"
  shows "lfsr_taps ! n ! 0 = n" and "n \<in> set (lfsr_taps ! n)" and "\<forall>t \<in> set (lfsr_taps ! n). 0 < t \<and> t \<le> n" and "length (lfsr_taps ! n) \<le> 6"
proof -
  have l: "length lfsr_taps = 64" by (simp add: lfsr_taps_def)
  have "(n, lfsr_taps ! n) \<in> set (drop 3 (enumerate 0 lfsr_taps))"
    unfolding in_set_conv_nth using assms l by (intro exI [of _ "n - 3"]) (simp add: nth_enumerate_eq)
  then have "lfsr_taps ! n \<noteq> []" "hd (lfsr_taps ! n) = n" "list_all (\<lambda>t. 0 < t \<and> t \<le> n) (lfsr_taps ! n)" "length (lfsr_taps ! n) \<le> 6"
    using taps_rows unfolding list_all_iff by auto
  then show "lfsr_taps ! n ! 0 = n" "n \<in> set (lfsr_taps ! n)" "\<forall>t \<in> set (lfsr_taps ! n). 0 < t \<and> t \<le> n" "length (lfsr_taps ! n) \<le> 6"
    using hd_in_set [of "lfsr_taps ! n"] by (auto simp: hd_conv_nth list_all_iff)
qed

lemma bit_taps_fold: "bit (fold (\<lambda>t m. m OR push_bit (t - 1) 1) ts (m0 :: u64)) i \<longleftrightarrow> bit m0 i \<or> (i < 64 \<and> (\<exists>t \<in> set ts. i = t - 1))"
  by (induction ts arbitrary: m0) (auto simp: bit_simps)

lemma bit_taps_mask:
  assumes "3 \<le> n" and "n < 64"
  shows "bit (taps_mask n) i \<longleftrightarrow> Suc i \<in> set (lfsr_taps ! n)"
proof -
  note r = taps_row [OF assms]
  have "takeWhile (\<lambda>t. t \<noteq> 0) (take FIO_MAX_TAPS (lfsr_taps ! n)) = lfsr_taps ! n"
    using r(3,4) by (auto simp: FIO_MAX_TAPS_def takeWhile_eq_all_conv)
  then have "bit (taps_mask n) i \<longleftrightarrow> i < 64 \<and> (\<exists>t \<in> set (lfsr_taps ! n). i = t - 1)"
    unfolding taps_mask_def lfsr_create_xormask_def by (simp only: bit_taps_fold bit_0_eq bot_apply bot_bool_def simp_thms)
  also have "\<dots> \<longleftrightarrow> Suc i \<in> set (lfsr_taps ! n)" using r(3) assms(2) by force
  finally show ?thesis .
qed

lemma bit_shift:
  assumes "3 \<le> n" and "n < 64"
  shows "bit (shift n v) i \<longleftrightarrow> (bit v (Suc i) \<or> i = n - 1) \<noteq> (\<not> bit v 0 \<and> Suc i \<in> set (lfsr_taps ! n))"
proof -
  have m: "(v AND 1) - 1 = (if bit v 0 then 0 else - 1)"
    by (simp add: and_one_eq odd_iff_mod_2_eq_one bit_0)
  have "n - 1 < 64" "\<And>i. Suc i \<in> set (lfsr_taps ! n) \<Longrightarrow> i < 64" using assms taps_row(3) [OF assms] by fastforce+
  then show ?thesis using assms
    by (auto simp: shift_def LFSR_NEXT_def m top_bit_def bit_simps bit_taps_mask dest: bit_imp_le_length)
qed

text \<open>The values of \<open>n\<close> bits. The step keeps them, is injective on them, and only the illegal value
  of ones leads to itself.\<close>

definition bits_n :: "nat \<Rightarrow> u64 set" where "bits_n n = {v. \<forall>i \<ge> n. \<not> bit v i}"
definition states :: "nat \<Rightarrow> u64 set" where "states n = bits_n n - {mask n}"

lemma shift_bits:
  assumes "3 \<le> n" and "n < 64" and "v \<in> bits_n n"
  shows "shift n v \<in> bits_n n" and "bit (shift n v) (n - 1) \<longleftrightarrow> bit v 0"
proof -
  have "Suc i \<notin> set (lfsr_taps ! n)" if "n \<le> i" for i using taps_row(3) [OF assms(1,2)] that by fastforce
  then show "shift n v \<in> bits_n n" using assms by (auto simp: bits_n_def bit_shift)
  have "\<not> bit v n" using assms(3) by (simp add: bits_n_def)
  then show "bit (shift n v) (n - 1) \<longleftrightarrow> bit v 0" using assms taps_row(2) [OF assms(1,2)] by (simp add: bit_shift)
qed

lemma shift_inj:
  assumes "3 \<le> n" and "n < 64"
  shows "inj_on (shift n) (bits_n n)"
proof (rule inj_onI)
  fix v w
  assume v: "v \<in> bits_n n" and w: "w \<in> bits_n n" and e: "shift n v = shift n w"
  have z: "bit v 0 = bit w 0" using shift_bits(2) [OF assms v] shift_bits(2) [OF assms w] e by simp
  show "v = w"
  proof (rule bit_word_eqI)
    fix i
    show "bit v i = bit w i"
    proof (cases i)
      case 0
      then show ?thesis using z by simp
    next
      case (Suc k)
      show ?thesis
      proof (cases "k = n - 1")
        case True
        then have "i = n" using Suc assms by simp
        then show ?thesis using v w by (simp add: bits_n_def)
      next
        case False
        then have "bit (shift n v) k = bit (shift n w) k" using e by simp
        then show ?thesis using False z Suc unfolding bit_shift [OF assms] by auto
      qed
    qed
  qed
qed

lemma shift_mask:
  assumes "3 \<le> n" and "n < 64"
  shows "shift n (mask n) = mask n"
  using assms by (intro bit_word_eqI) (auto simp: bit_shift bit_mask_iff)

lemma shift_states:
  assumes "3 \<le> n" and "n < 64" and "v \<in> states n"
  shows "shift n v \<in> states n"
proof -
  have "mask n \<in> bits_n n" by (auto simp: bits_n_def bit_mask_iff)
  then show ?thesis using assms(3) shift_bits(1) [OF assms(1,2)] shift_mask [OF assms(1,2)] inj_onD [OF shift_inj [OF assms(1,2)], of v "mask n"]
    by (auto simp: states_def)
qed

lemma bits_n_eq: "n < 64 \<Longrightarrow> bits_n n = {v. unat v < 2 ^ n}"
proof -
  assume n: "n < 64"
  have "v \<in> bits_n n \<longleftrightarrow> take_bit n v = v" for v
  proof
    show "take_bit n v = v" if "v \<in> bits_n n" using that by (intro bit_word_eqI) (auto simp: bits_n_def bit_take_bit_iff not_le)
    show "v \<in> bits_n n" if t: "take_bit n v = v"
    proof -
      have "\<not> bit (take_bit n v) i" if "n \<le> i" for i using that by (simp add: bit_take_bit_iff)
      then show ?thesis unfolding t bits_n_def by blast
    qed
  qed
  moreover have "take_bit n v = v \<longleftrightarrow> unat v < 2 ^ n" for v :: u64
    using take_bit_small_word [of v n] by (metis take_bit_nat_less_exp unsigned_take_bit_eq)
  ultimately show ?thesis by auto
qed

lemma card_unat_less: "k < 2 ^ 64 \<Longrightarrow> card {v :: u64. unat v < k} = k"
proof -
  assume k: "k < 2 ^ 64"
  have u: "unat (of_nat m :: u64) = m" if "m < k" for m using that k by (simp add: unat_of_nat take_bit_nat_eq_self)
  have "unat ` {v :: u64. unat v < k} = {..<k}"
  proof (intro set_eqI iffI)
    fix m assume "m \<in> {..<k}"
    then show "m \<in> unat ` {v :: u64. unat v < k}" using u [of m] by (intro image_eqI [of _ _ "of_nat m"]) simp_all
  qed auto
  moreover have "inj_on unat {v :: u64. unat v < k}" by (auto simp: inj_on_def word_unat_eq_iff)
  ultimately show ?thesis by (metis card_image card_lessThan)
qed

lemma card_states: "n < 64 \<Longrightarrow> finite (states n) \<and> card (states n) = 2 ^ n - 1"
proof -
  assume n: "n < 64"
  have "(2 :: nat) ^ n < 2 ^ 64" using n by (intro power_strict_increasing) simp_all
  then have "card (bits_n n) = 2 ^ n" unfolding bits_n_eq [OF n] by (rule card_unat_less)
  moreover have "mask n \<in> bits_n n" by (auto simp: bits_n_def bit_mask_iff)
  ultimately show ?thesis by (simp add: states_def)
qed

section \<open>The order of the values\<close>

text \<open>The register of \<open>n\<close> bits comes back to 0 only after all its legal states.\<close>

definition lfsr_maximal :: "nat \<Rightarrow> bool" where
  "lfsr_maximal n \<longleftrightarrow> (\<forall>k \<in> {1..<2 ^ n - 1}. (shift n ^^ k) 0 \<noteq> 0)"

lemma orbit_states: "3 \<le> n \<Longrightarrow> n < 64 \<Longrightarrow> v \<in> states n \<Longrightarrow> (shift n ^^ k) v \<in> states n"
  by (induction k) (auto simp: shift_states)

lemma orbit_cancel:
  assumes "3 \<le> n" and "n < 64" and "v \<in> states n" and "w \<in> states n"
  shows "(shift n ^^ k) v = (shift n ^^ k) w \<Longrightarrow> v = w"
proof (induction k)
  case 0
  then show ?case by simp
next
  case (Suc k)
  have "(shift n ^^ k) v \<in> bits_n n" "(shift n ^^ k) w \<in> bits_n n" using orbit_states [OF assms(1,2)] assms(3,4) by (auto simp: states_def)
  then have "(shift n ^^ k) v = (shift n ^^ k) w" using Suc.prems inj_onD [OF shift_inj [OF assms(1,2)]] by simp
  then show ?case by (rule Suc.IH)
qed

lemma zero_state: "3 \<le> n \<Longrightarrow> n < 64 \<Longrightarrow> 0 \<in> states n"
proof -
  assume n: "3 \<le> n" "n < 64"
  have "bit (mask n :: u64) 0" using n by (simp add: bit_mask_iff)
  then have "mask n \<noteq> (0 :: u64)" by (metis bit_0_eq bot_apply bot_bool_def)
  then show ?thesis by (auto simp: states_def bits_n_def)
qed

lemma funpow_apart: "(f ^^ i) v = (f ^^ j) v \<Longrightarrow> i \<le> j \<Longrightarrow> (f ^^ i) v = (f ^^ i) ((f ^^ (j - i)) v)"
  by (metis funpow_add le_add_diff_inverse o_apply)

lemma orbit_distinct:
  assumes "3 \<le> n" and "n < 64" and "lfsr_maximal n" and "v \<in> states n"
  shows "distinct (map (\<lambda>i. (shift n ^^ i) v) [0..<2 ^ n - 1])" and "set (map (\<lambda>i. (shift n ^^ i) v) [0..<2 ^ n - 1]) = states n"
proof -
  let ?P = "2 ^ n - 1 :: nat" and ?o = "\<lambda>v. map (\<lambda>i. (shift n ^^ i) v) [0..<2 ^ n - 1]"
  have all: "set (?o v) = states n" if "distinct (?o v)" "v \<in> states n" for v
  proof -
    have "set (?o v) \<subseteq> states n" using orbit_states [OF assms(1,2) that(2)] by auto
    moreover have "card (set (?o v)) = card (states n)" using distinct_card [OF that(1)] card_states [OF assms(2)] by simp
    ultimately show ?thesis using card_states [OF assms(2)] by (metis card_subset_eq)
  qed
  have apart: "distinct (?o v)" if ne: "\<And>k. 0 < k \<Longrightarrow> k < ?P \<Longrightarrow> (shift n ^^ k) v \<noteq> v" and v: "v \<in> states n" for v
  proof -
    have "i = j" if "(shift n ^^ i) v = (shift n ^^ j) v" "i \<le> j" "j < ?P" for i j
    proof -
      have "v = (shift n ^^ (j - i)) v"
        using orbit_cancel [OF assms(1,2) v orbit_states [OF assms(1,2) v]] funpow_apart [OF that(1,2)] by blast
      moreover have "j - i < ?P" using that(3) by simp
      ultimately show ?thesis using ne [of "j - i"] that(2) by (metis diff_is_0_eq le_antisym not_gr_zero)
    qed
    then show ?thesis unfolding distinct_map by (auto simp: inj_on_def) (metis nat_le_linear)
  qed
  have z: "0 \<in> states n" using zero_state [OF assms(1,2)] .
  have "distinct (?o 0)" using assms(3) by (intro apart [OF _ z]) (auto simp: lfsr_maximal_def)
  note o0 = this all [OF this z]
  obtain a where a: "v = (shift n ^^ a) 0" using o0(2) assms(4) by (metis (no_types, lifting) image_iff list.set_map)
  have "(shift n ^^ k) v \<noteq> v" if "0 < k" "k < ?P" for k
  proof
    assume "(shift n ^^ k) v = v"
    then have "(shift n ^^ a) ((shift n ^^ k) 0) = (shift n ^^ a) 0" unfolding a by (metis add.commute funpow_add o_apply)
    then have "(shift n ^^ k) 0 = 0" using orbit_cancel [OF assms(1,2) orbit_states [OF assms(1,2) z] z] by blast
    then show False using assms(3) that by (auto simp: lfsr_maximal_def)
  qed
  from apart [OF this assms(4)] show "distinct (?o v)" .
  from all [OF this assms(4)] show "set (?o v) = states n" .
qed

section \<open>Calling the generator\<close>

primrec lfsr_calls :: "nat \<Rightarrow> fio_lfsr \<Rightarrow> (u64 list \<times> fio_lfsr) option" where
  "lfsr_calls 0 fl = Some ([], fl)"
| "lfsr_calls (Suc k) fl = do {
     (r, fl1) \<leftarrow> lfsr_next fl;
     case r of
       Inl _ \<Rightarrow> Some ([], fl1)
     | Inr x \<Rightarrow> do { (xs, fl2) \<leftarrow> lfsr_calls k fl1; Some (x # xs, fl2) }
   }"

definition ready :: "nat \<Rightarrow> fio_lfsr \<Rightarrow> bool" where
  "ready n fl \<longleftrightarrow> cached_bit fl = top_bit n \<and> xormask fl = taps_mask n \<and> cycle_length fl = 0 \<and> spin fl = 0"

lemma turn_ready: "ready n fl \<Longrightarrow> lfsr_turn fl = fl\<lparr>last_val := shift n (last_val fl)\<rparr>"
  by (simp add: ready_def lfsr_turn_def lfsr_advance_def shift_def)

lemma next_hit:
  assumes "ready n fl" and "num_vals fl \<le> max_val fl" and "shift n (last_val fl) \<le> max_val fl"
  shows "lfsr_next fl = Some (Inr (shift n (last_val fl)), fl\<lparr>num_vals := num_vals fl + 1, last_val := shift n (last_val fl)\<rparr>)"
proof -
  have "ready n (fl\<lparr>num_vals := num_vals fl + 1\<rparr>)" using assms(1) by (simp add: ready_def)
  from turn_ready [OF this] show ?thesis using leD [OF assms(2)] leD [OF assms(3)]
    by (simp add: lfsr_next_def Let_def lfsr_loop.simps [of "fl\<lparr>num_vals := num_vals fl + 1\<rparr>"])
qed

lemma next_miss:
  assumes "ready n fl" and "num_vals fl \<le> max_val fl" and "\<not> shift n (last_val fl) \<le> max_val fl"
  shows "lfsr_next fl = lfsr_next (fl\<lparr>last_val := shift n (last_val fl)\<rparr>)"
proof -
  have "ready n (fl\<lparr>num_vals := num_vals fl + 1\<rparr>)" using assms(1) by (simp add: ready_def)
  from turn_ready [OF this]
  have "lfsr_next fl = do { f \<leftarrow> lfsr_loop (fl\<lparr>num_vals := num_vals fl + 1, last_val := shift n (last_val fl)\<rparr>); Some (Inr (last_val f), f) }"
    using leD [OF assms(2)] assms(3) by (simp add: lfsr_next_def not_le Let_def lfsr_loop.simps [of "fl\<lparr>num_vals := num_vals fl + 1\<rparr>"])
  also have "fl\<lparr>num_vals := num_vals fl + 1, last_val := shift n (last_val fl)\<rparr> = fl\<lparr>last_val := shift n (last_val fl), num_vals := num_vals fl + 1\<rparr>"
    by simp
  finally show ?thesis using leD [OF assms(2)] by (simp add: lfsr_next_def)
qed

primrec trace :: "nat \<Rightarrow> nat \<Rightarrow> u64 \<Rightarrow> u64 list" where
  "trace n 0 v = []"
| "trace n (Suc m) v = shift n v # trace n m (shift n v)"

lemma trace_map: "trace n m v = map (\<lambda>i. (shift n ^^ i) (shift n v)) [0..<m]"
proof (induction m arbitrary: v)
  case 0
  then show ?case by simp
next
  case (Suc m)
  have "[0..<Suc m] = 0 # map Suc [0..<m]" by (simp add: map_Suc_upt upt_conv_Cons)
  then show ?case using Suc [of "shift n v"] by (simp add: funpow_swap1 del: upt_Suc)
qed

lemma calls_filter:
  assumes "ready n fl" and "unat (max_val fl) < 2 ^ 63"
    and "unat (num_vals fl) + length (filter (\<lambda>x. x \<le> max_val fl) (trace n m (last_val fl))) \<le> unat (max_val fl) + 1"
  shows "\<exists>fl'. lfsr_calls (length (filter (\<lambda>x. x \<le> max_val fl) (trace n m (last_val fl)))) fl =
      Some (filter (\<lambda>x. x \<le> max_val fl) (trace n m (last_val fl)), fl') \<and> max_val fl' = max_val fl \<and>
    unat (num_vals fl') = unat (num_vals fl) + length (filter (\<lambda>x. x \<le> max_val fl) (trace n m (last_val fl)))"
  using assms
proof (induction m arbitrary: fl)
  case 0
  then show ?case by simp
next
  case (Suc m)
  let ?x = "shift n (last_val fl)"
  show ?case
  proof (cases "?x \<le> max_val fl")
    case True
    let ?f = "fl\<lparr>num_vals := num_vals fl + 1, last_val := ?x\<rparr>"
    have le: "num_vals fl \<le> max_val fl" using Suc.prems(3) True by (simp add: word_le_nat_alt)
    have u: "unat (num_vals fl + 1) = unat (num_vals fl) + 1" using le Suc.prems(2) by (subst unat_add_lem [THEN iffD1]) (simp_all add: word_le_nat_alt)
    have "ready n ?f" using Suc.prems(1) by (simp add: ready_def)
    from Suc.IH [OF this] obtain fl' where
      "lfsr_calls (length (filter (\<lambda>x. x \<le> max_val fl) (trace n m ?x))) ?f = Some (filter (\<lambda>x. x \<le> max_val fl) (trace n m ?x), fl')"
      "max_val fl' = max_val fl" "unat (num_vals fl') = unat (num_vals fl) + 1 + length (filter (\<lambda>x. x \<le> max_val fl) (trace n m ?x))"
      using Suc.prems(2,3) True u by auto
    then show ?thesis using True next_hit [OF Suc.prems(1) le True] by simp
  next
    case False
    let ?f = "fl\<lparr>last_val := ?x\<rparr>" and ?ys = "filter (\<lambda>x. x \<le> max_val fl) (trace n m ?x)"
    have "ready n ?f" using Suc.prems(1) by (simp add: ready_def)
    from Suc.IH [OF this] obtain fl' where f: "lfsr_calls (length ?ys) ?f = Some (?ys, fl')"
      "max_val fl' = max_val fl" "unat (num_vals fl') = unat (num_vals fl) + length ?ys"
      using Suc.prems(2,3) False by auto
    show ?thesis
    proof (cases "?ys")
      case Nil
      then show ?thesis using False by simp
    next
      case (Cons y ys)
      then have le: "num_vals fl \<le> max_val fl" using Suc.prems(3) False by (simp add: word_le_nat_alt)
      have "lfsr_calls (length ?ys) fl = lfsr_calls (length ?ys) ?f" unfolding Cons using next_miss [OF Suc.prems(1) le False] by simp
      then show ?thesis using f False by (intro exI [of _ fl']) simp
    qed
  qed
qed

section \<open>The set-up with spin 0\<close>

lemma unat_2_power: "n < 64 \<Longrightarrow> unat (2 ^ n :: u64) = 2 ^ n"
proof -
  assume "n < 64"
  then have "(2 :: nat) ^ n < 2 ^ 64" by (intro power_strict_increasing) simp_all
  then have "unat (of_nat (2 ^ n) :: u64) = 2 ^ n" by (subst unat_of_nat) (simp add: take_bit_nat_eq_self)
  then show ?thesis by simp
qed

definition lfsr_size :: "u64 \<Rightarrow> nat option" where
  "lfsr_size nums = List.find (\<lambda>i. push_bit i 1 > nums) [3..<64]"

lemma lfsr_size_Some:
  assumes "lfsr_size nums = Some n"
  shows "3 \<le> n" and "n < 64" and "unat nums < 2 ^ n" and "find_lfsr nums = Some (lfsr_taps ! n)"
proof -
  have f: "3 \<le> n" "n < 64" "(push_bit n 1 :: u64) > nums"
  proof -
    obtain k where "k < length [3..<64]" "(push_bit n 1 :: u64) > nums" "n = [3..<64] ! k" using assms unfolding lfsr_size_def find_Some_iff by auto
    then have "n \<in> set [3..<64]" "(push_bit n 1 :: u64) > nums" by (metis nth_mem)+
    then show "3 \<le> n" "n < 64" "(push_bit n 1 :: u64) > nums" unfolding set_upt by simp_all
  qed
  then show "3 \<le> n" "n < 64" by simp_all
  have "unat (push_bit n 1 :: u64) = 2 ^ n" using unat_2_power [OF f(2)] by simp
  then show "unat nums < 2 ^ n" using f(3) by (simp add: word_less_nat_alt)
  show "find_lfsr nums = Some (lfsr_taps ! n)" using assms by (simp add: find_lfsr_def lfsr_size_def)
qed

lemma top_mask: "0 < n \<Longrightarrow> push_bit 1 (top_bit n) - 1 = (mask n :: u64)"
  by (cases n) (simp_all add: top_bit_def mask_eq_exp_minus_1)

definition fresh_lfsr :: "nat \<Rightarrow> u64 \<Rightarrow> u64 \<Rightarrow> fio_lfsr" where
  "fresh_lfsr n nums v = \<lparr>xormask = taps_mask n, last_val = v, cached_bit = top_bit n, max_val = nums - 1, num_vals = 0,
     cycle_length = 1, cached_cycle_length = 0, spin = 0\<rparr>"

lemma init_fresh:
  assumes "lfsr_size nums = Some n" and "seed AND mask n \<noteq> mask n"
  shows "lfsr_init nums seed 0 fl = (0, fresh_lfsr n nums (seed AND mask n))"
proof -
  note n = lfsr_size_Some [OF assms(1)]
  have t: "lfsr_taps ! n ! 0 = n" using taps_row(1) [OF n(1,2)] .
  have m: "push_bit 1 (top_bit n) - 1 = mask n" using top_mask [of n] n(1) by simp
  show ?thesis unfolding lfsr_init_def n(4) prepare_spin_def lfsr_reset_def Let_def option.case t top_bit_def [symmetric] taps_mask_def [symmetric]
    using assms(2) m by (simp add: fresh_lfsr_def m)
qed

text \<open>The first call makes two steps.\<close>

lemma first_call:
  assumes "0 < nums"
  shows "lfsr_calls (Suc k) (fresh_lfsr n nums v) = lfsr_calls (Suc k) ((fresh_lfsr n nums v)\<lparr>last_val := shift n v, cycle_length := 0\<rparr>)"
proof -
  let ?a = "(fresh_lfsr n nums v)\<lparr>num_vals := 1\<rparr>" and ?b = "(fresh_lfsr n nums v)\<lparr>num_vals := 1, last_val := shift n v, cycle_length := 0\<rparr>"
  have "lfsr_turn ?a = lfsr_turn ?b" by (simp add: lfsr_turn_def lfsr_advance_def fresh_lfsr_def shift_def funpow_swap1)
  then have "lfsr_loop ?a = lfsr_loop ?b" by (simp add: lfsr_loop.simps [of ?a] lfsr_loop.simps [of ?b])
  then have "lfsr_next (fresh_lfsr n nums v) = lfsr_next ((fresh_lfsr n nums v)\<lparr>last_val := shift n v, cycle_length := 0\<rparr>)"
    by (simp add: lfsr_next_def Let_def fresh_lfsr_def)
  then show ?thesis by simp
qed

lemma covers:
  assumes "lfsr_size nums = Some n" and "lfsr_maximal n" and "0 < nums" and "v \<in> states n"
  shows "\<exists>xs fl. lfsr_calls (unat nums) (fresh_lfsr n nums v) = Some (xs, fl) \<and> distinct xs \<and> set xs = {x. x < nums} \<and>
    (\<exists>fl'. lfsr_next fl = Some (Inl (), fl'))"
proof -
  note n = lfsr_size_Some [OF assms(1)]
  let ?f = "(fresh_lfsr n nums v)\<lparr>last_val := shift n v, cycle_length := 0\<rparr>"
  let ?xs = "trace n (2 ^ n - 1) (shift n v)"
  let ?ys = "filter (\<lambda>x. x \<le> max_val ?f) ?xs"
  have s: "shift n (shift n v) \<in> states n" using shift_states [OF n(1,2)] assms(4) by simp
  note o = orbit_distinct [OF n(1,2) assms(2) s]
  have p: "0 < unat nums" using assms(3) by (simp add: word_less_nat_alt)
  have mx: "unat (max_val ?f) = unat nums - 1" using assms(3) by (simp add: fresh_lfsr_def unat_minus_one)
  have st: "x \<in> states n" if "x < nums" for x
  proof -
    have "unat x < unat nums" using that by (simp add: word_less_nat_alt)
    moreover have "unat (mask n :: u64) = 2 ^ n - 1" using unat_2_power [OF n(2)] unat_minus_one [of "2 ^ n :: u64"] n(2)
      by (simp add: mask_eq_exp_minus_1 word_unat_eq_iff)
    ultimately show ?thesis using n(3) by (auto simp: states_def bits_n_eq [OF n(2)])
  qed
  have le: "x \<le> max_val ?f \<longleftrightarrow> x < nums" for x using mx p by (auto simp: word_le_nat_alt word_less_nat_alt)
  have d: "distinct ?ys" "set ?ys = {x. x < nums}" using o st unfolding trace_map le by auto
  have "card {x :: u64. x < nums} = unat nums"
    using card_unat_less [of "unat nums"] unsigned_less [of nums, where 'a = nat] by (simp add: word_less_nat_alt)
  then have l: "length ?ys = unat nums" using d by (metis distinct_card)
  have r: "ready n ?f" by (simp add: ready_def fresh_lfsr_def)
  have small: "unat (max_val ?f) < 2 ^ 63"
  proof -
    have "(2 :: nat) ^ n \<le> 2 ^ 63" using n(2) by (intro power_increasing) simp_all
    then show ?thesis using n(3) mx by linarith
  qed
  have v: "unat (num_vals ?f) = 0" "last_val ?f = shift n v" by (simp_all add: fresh_lfsr_def)
  obtain fl where f: "lfsr_calls (unat nums) ?f = Some (?ys, fl)" "max_val fl = max_val ?f" "unat (num_vals fl) = unat nums"
    using calls_filter [OF r small, of "2 ^ n - 1", unfolded v l] mx p by auto
  obtain k where k: "unat nums = Suc k" using p by (metis Suc_pred)
  have "num_vals fl > max_val fl" using f(2,3) mx p by (simp add: word_less_nat_alt)
  then have "\<exists>fl'. lfsr_next fl = Some (Inl (), fl')" by (simp add: lfsr_next_def Let_def)
  then show ?thesis using f(1) d first_call [OF assms(3), of k n v] unfolding k by auto
qed

lemma maximal_trace: "0 \<notin> set (trace n (2 ^ n - 2) 0) \<Longrightarrow> lfsr_maximal n"
proof -
  assume z: "0 \<notin> set (trace n (2 ^ n - 2) 0)"
  have "(shift n ^^ k) 0 \<noteq> 0" if k: "1 \<le> k" "k < 2 ^ n - 1" for k
  proof -
    obtain i where "k = Suc i" "i < 2 ^ n - 2" using k by (cases k) auto
    then show ?thesis using z unfolding trace_map by (force simp: funpow_swap1)
  qed
  then show ?thesis by (simp add: lfsr_maximal_def)
qed

lemma trace_numeral: "trace n (numeral k) v = shift n v # trace n (pred_numeral k) (shift n v)"
  by (simp add: numeral_eq_Suc)

lemma maximal_3: "lfsr_maximal 3"
proof (rule maximal_trace)
  have "shift 3 v = LFSR_NEXT 4 6 v" for v
    by (simp add: shift_def top_bit_def taps_mask_def lfsr_taps_def lfsr_create_xormask_def FIO_MAX_TAPS_def)
  then show "0 \<notin> set (trace 3 (2 ^ 3 - 2) 0)" by (simp add: trace_numeral LFSR_NEXT_def)
qed

lemma maximal_4: "lfsr_maximal 4"
proof (rule maximal_trace)
  have "shift 4 v = LFSR_NEXT 8 12 v" for v
    by (simp add: shift_def top_bit_def taps_mask_def lfsr_taps_def lfsr_create_xormask_def FIO_MAX_TAPS_def)
  then show "0 \<notin> set (trace 4 (2 ^ 4 - 2) 0)" by (simp add: trace_numeral LFSR_NEXT_def)
qed

lemma maximal_5: "lfsr_maximal 5"
proof (rule maximal_trace)
  have "shift 5 v = LFSR_NEXT 16 20 v" for v
    by (simp add: shift_def top_bit_def taps_mask_def lfsr_taps_def lfsr_create_xormask_def FIO_MAX_TAPS_def)
  then show "0 \<notin> set (trace 5 (2 ^ 5 - 2) 0)" by (simp add: trace_numeral LFSR_NEXT_def)
qed

lemma maximal_6: "lfsr_maximal 6"
proof (rule maximal_trace)
  have "shift 6 v = LFSR_NEXT 32 48 v" for v
    by (simp add: shift_def top_bit_def taps_mask_def lfsr_taps_def lfsr_create_xormask_def FIO_MAX_TAPS_def)
  then show "0 \<notin> set (trace 6 (2 ^ 6 - 2) 0)" by (simp add: trace_numeral LFSR_NEXT_def)
qed

lemma maximal_7: "lfsr_maximal 7"
proof (rule maximal_trace)
  have "shift 7 v = LFSR_NEXT 64 96 v" for v
    by (simp add: shift_def top_bit_def taps_mask_def lfsr_taps_def lfsr_create_xormask_def FIO_MAX_TAPS_def)
  then show "0 \<notin> set (trace 7 (2 ^ 7 - 2) 0)" by (simp add: trace_numeral LFSR_NEXT_def)
qed

lemma maximal_8: "lfsr_maximal 8"
proof (rule maximal_trace)
  have "shift 8 v = LFSR_NEXT 128 184 v" for v
    by (simp add: shift_def top_bit_def taps_mask_def lfsr_taps_def lfsr_create_xormask_def FIO_MAX_TAPS_def)
  then show "0 \<notin> set (trace 8 (2 ^ 8 - 2) 0)" by (simp add: trace_numeral LFSR_NEXT_def)
qed

lemmas maximal_small = maximal_3 maximal_4 maximal_5 maximal_6 maximal_7 maximal_8

section \<open>The property of the generator\<close>

text \<open>
  The generator visits every block once. Set up with spin 0 for \<open>nums\<close> blocks and a legal
  seed, with taps that make the register run through all its legal states, the first \<open>nums\<close>
  calls return, their values are the blocks \<open>0\<close> to \<open>nums - 1\<close> without repetition, and
  the next call reports the end.
\<close>

lemma init_covers:
  assumes "lfsr_size nums = Some n" and "lfsr_maximal n" and "0 < nums" and "seed AND mask n \<noteq> mask n"
  shows "\<exists>fl xs fl' fl''. lfsr_init nums seed 0 fl0 = (0, fl) \<and> lfsr_calls (unat nums) fl = Some (xs, fl') \<and>
    distinct xs \<and> set xs = {x. x < nums} \<and> lfsr_next fl' = Some (Inl (), fl'')"
proof -
  have "seed AND mask n \<in> states n" using assms(4) by (auto simp: states_def bits_n_def bit_and_iff bit_mask_iff)
  from covers [OF assms(1-3) this] show ?thesis using init_fresh [OF assms(1,4)] by blast
qed

end
