(* ===== verification/Fio_Rand.thy ===== *)
theory Fio_Rand
  imports Emu_Prelude
begin

text \<open>
  The random numbers of fio: the combined Tausworthe generators of \<^verbatim>\<open>fio4emu/lib/rand.h\<close>,
  their seeding and the random buffer contents of \<^verbatim>\<open>fio4emu/lib/rand.c\<close>, on a machine with
  32-bit \<^verbatim>\<open>int\<close> and 64-bit \<^verbatim>\<open>long\<close>. The floating-point product
  \<^verbatim>\<open>l * (r / (m + 1.0))\<close>, truncated to an integer, is an argument \<open>scale l r m\<close>
  of the functions that use it.
\<close>

section \<open>The generators\<close>

record taus88_state =
  t_s1 :: u32
  t_s2 :: u32
  t_s3 :: u32

record taus258_state =
  q_s1 :: u64
  q_s2 :: u64
  q_s3 :: u64
  q_s4 :: u64
  q_s5 :: u64

text \<open>The flag \<^verbatim>\<open>use64\<close> and the union.\<close>

datatype frand_state = State32 taus88_state | State64 taus258_state

definition FRAND32_MAX :: u32 where "FRAND32_MAX = - 1"
definition FRAND64_MAX :: u64 where "FRAND64_MAX = - 1"

definition rand_max :: "frand_state \<Rightarrow> u64" where
  "rand_max st = (case st of State64 _ \<Rightarrow> FRAND64_MAX | State32 _ \<Rightarrow> ucast FRAND32_MAX)"

text \<open>One component: the macro \<^verbatim>\<open>TAUSWORTHE\<close>, and the pair of lines per component of
  \<^verbatim>\<open>__rand64\<close>. (The macro's mask is a \<^verbatim>\<open>long\<close>; the assignment drops the upper
  half again.)\<close>

definition TAUSWORTHE :: "'a::len word \<Rightarrow> nat \<Rightarrow> nat \<Rightarrow> 'a word \<Rightarrow> nat \<Rightarrow> 'a word" where
  "TAUSWORTHE s a b c d = push_bit d (s AND c) XOR drop_bit b (push_bit a s XOR s)"

definition rand32 :: "taus88_state \<Rightarrow> u32 \<times> taus88_state" where
  "rand32 st =
     (let st' = st\<lparr>t_s1 := TAUSWORTHE (t_s1 st) 13 19 4294967294 12,
                   t_s2 := TAUSWORTHE (t_s2 st) 2 25 4294967288 4,
                   t_s3 := TAUSWORTHE (t_s3 st) 3 11 4294967280 17\<rparr>
      in (t_s1 st' XOR t_s2 st' XOR t_s3 st', st'))"

definition rand64 :: "taus258_state \<Rightarrow> u64 \<times> taus258_state" where
  "rand64 st =
     (let st' = st\<lparr>q_s1 := TAUSWORTHE (q_s1 st) 1 53 18446744073709551614 10,
                   q_s2 := TAUSWORTHE (q_s2 st) 24 50 18446744073709551104 5,
                   q_s3 := TAUSWORTHE (q_s3 st) 3 23 18446744073709547520 29,
                   q_s4 := TAUSWORTHE (q_s4 st) 5 24 18446744073709420544 23,
                   q_s5 := TAUSWORTHE (q_s5 st) 3 33 18446744073701163008 8\<rparr>
      in (q_s1 st' XOR q_s2 st' XOR q_s3 st' XOR q_s4 st' XOR q_s5 st', st'))"

definition frand :: "frand_state \<Rightarrow> u64 \<times> frand_state" where
  "frand st = (case st of
     State64 q \<Rightarrow> (case rand64 q of (r, q') \<Rightarrow> (r, State64 q'))
   | State32 t \<Rightarrow> (case rand32 t of (r, t') \<Rightarrow> (ucast r, State32 t')))"

definition get_next_seed :: "frand_state \<Rightarrow> u64 \<times> frand_state" where
  "get_next_seed st = (case frand st of (r, st1) \<Rightarrow> case frand st1 of (r', st2) \<Rightarrow> (r * r', st2))"

section \<open>Numbers in a range\<close>

type_synonym scaling = "u64 \<Rightarrow> u64 \<Rightarrow> u64 \<Rightarrow> u64"

text \<open>The result of \<^verbatim>\<open>rand32_upto\<close> goes through \<^verbatim>\<open>int\<close>: above its range the
  conversion is undefined.\<close>

definition rand32_upto :: "scaling \<Rightarrow> u32 \<Rightarrow> taus88_state \<Rightarrow> (u32 \<times> taus88_state) option" where
  "rand32_upto scale end' st =
     (case rand32 st of (r, st') \<Rightarrow>
        let v = scale (ucast (end' + 1)) (ucast r) (ucast FRAND32_MAX)
        in if v < 2 ^ 31 then Some (ucast v, st') else None)"

definition rand64_upto :: "scaling \<Rightarrow> u64 \<Rightarrow> taus258_state \<Rightarrow> u64 \<times> taus258_state" where
  "rand64_upto scale end' st = (case rand64 st of (r, st') \<Rightarrow> (scale (end' + 1) r FRAND64_MAX, st'))"

definition rand_between :: "scaling \<Rightarrow> u64 \<Rightarrow> u64 \<Rightarrow> frand_state \<Rightarrow> (u64 \<times> frand_state) option" where
  "rand_between scale start end' st = (case st of
     State64 q \<Rightarrow> (case rand64_upto scale (end' - start) q of (r, q') \<Rightarrow> Some (start + r, State64 q'))
   | State32 t \<Rightarrow> do { (r, t') \<leftarrow> rand32_upto scale (ucast (end' - start)) t; Some (start + ucast r, State32 t') })"

section \<open>Seeding\<close>

definition seed_min :: "u64 \<Rightarrow> u64 \<Rightarrow> u64" where
  "seed_min x m = (if x < m then x + m else x)"

text \<open>\<^verbatim>\<open>(2^31) + (2^17) + (2^7)\<close>: the operator is exclusive or.\<close>

definition SEED_START :: nat where
  "SEED_START = (2 XOR 31) + (2 XOR 17) + (2 XOR 7)"

definition LCG :: "u32 \<Rightarrow> u32 \<Rightarrow> u32" where "LCG x seed = (x * 69069) XOR seed"
definition LCG64 :: "u64 \<Rightarrow> u64 \<Rightarrow> u64" where "LCG64 x seed = (x * 6906969069) XOR seed"

text \<open>The state before the generator is cranked six times.\<close>

definition seeded32 :: "u32 \<Rightarrow> taus88_state" where
  "seeded32 seed =
     (let s1 = ucast (seed_min (ucast (LCG (of_nat SEED_START) seed)) 1);
          s2 = ucast (seed_min (ucast (LCG s1 seed)) 7);
          s3 = ucast (seed_min (ucast (LCG s2 seed)) 15)
      in \<lparr>t_s1 = s1, t_s2 = s2, t_s3 = s3\<rparr>)"

definition init_rand32 :: "u32 \<Rightarrow> taus88_state" where
  "init_rand32 seed = ((\<lambda>st. snd (rand32 st)) ^^ 6) (seeded32 seed)"

definition seeded64 :: "u64 \<Rightarrow> taus258_state" where
  "seeded64 seed =
     (let s1 = seed_min (LCG64 (of_nat SEED_START) seed) 1;
          s2 = seed_min (LCG64 s1 seed) 7;
          s3 = seed_min (LCG64 s2 seed) 15;
          s4 = seed_min (LCG64 s3 seed) 33;
          s5 = seed_min (LCG64 s4 seed) 49
      in \<lparr>q_s1 = s1, q_s2 = s2, q_s3 = s3, q_s4 = s4, q_s5 = s5\<rparr>)"

definition init_rand64 :: "u64 \<Rightarrow> taus258_state" where
  "init_rand64 seed = ((\<lambda>st. snd (rand64 st)) ^^ 6) (seeded64 seed)"

definition init_rand_seed :: "u64 \<Rightarrow> bool \<Rightarrow> frand_state" where
  "init_rand_seed seed use64 = (if \<not> use64 then State32 (init_rand32 (ucast seed)) else State64 (init_rand64 seed))"

definition init_rand :: "bool \<Rightarrow> frand_state" where
  "init_rand use64 = (if \<not> use64 then State32 (init_rand32 1) else State64 (init_rand64 1))"

section \<open>Random buffers\<close>

definition GOLDEN_RATIO_PRIME :: u64 where "GOLDEN_RATIO_PRIME = 0x9e37fffffffc0001"

text \<open>The bytes of a store of \<open>k\<close> bytes on a little-endian machine.\<close>

definition store_bytes :: "nat \<Rightarrow> u64 \<Rightarrow> u8 list" where
  "store_bytes k x = map (\<lambda>i. ucast (drop_bit (8 * i) x)) [0..<k]"

definition chunk_len :: "nat \<Rightarrow> nat" where
  "chunk_len len = (if len \<ge> 8 then 8 else if len \<ge> 4 then 4 else if len \<ge> 2 then 2 else 1)"

lemma chunk_len_bounds: "0 < len \<Longrightarrow> 0 < chunk_len len \<and> chunk_len len \<le> len"
  by (auto simp: chunk_len_def)

function fill_buf :: "nat \<Rightarrow> u64 \<Rightarrow> u8 list" where
  "fill_buf len seed =
     (if len = 0 then []
      else store_bytes (chunk_len len) seed @ fill_buf (len - chunk_len len) (drop_bit 3 (seed * GOLDEN_RATIO_PRIME)))"
  by pat_completeness auto
termination
  by (relation "measure fst") (auto dest: chunk_len_bounds)

declare fill_buf.simps [simp del]

definition fill_random_buf :: "frand_state \<Rightarrow> u32 \<Rightarrow> u64 \<times> u8 list \<times> frand_state" where
  "fill_random_buf st len = (case get_next_seed st of (r, st') \<Rightarrow> (r, fill_buf (unat len) r, st'))"

lemma length_fill_buf: "length (fill_buf len seed) = len"
proof (induction len seed rule: fill_buf.induct)
  case (1 len seed)
  then show ?case by (subst fill_buf.simps) (auto simp: store_bytes_def dest: chunk_len_bounds)
qed

section \<open>No component dies\<close>

text \<open>The step of a component looks at the bits from \<open>r\<close> on only; if one of them is set, one of
  them is set afterwards.\<close>

lemma TAUSWORTHE_alive:
  fixes s :: "'a::len word"
  assumes "c = NOT (mask r)" and "b + d + r = LENGTH('a)" and "a \<le> b" and "0 < a" and "drop_bit r s \<noteq> 0"
  shows "drop_bit r (TAUSWORTHE s a b c d) \<noteq> 0"
proof
  assume z: "drop_bit r (TAUSWORTHE s a b c d) = 0"
  have t: "bit (TAUSWORTHE s a b c d) i \<longleftrightarrow> (d + r \<le> i \<and> bit s (i - d)) \<noteq> (i + b < LENGTH('a) \<and> ((a \<le> i + b \<and> bit s (i + b - a)) \<noteq> bit s (i + b)))"
    if "i < LENGTH('a)" for i
    using that unfolding TAUSWORTHE_def assms(1)
    by (auto simp: bit_simps ac_simps dest: bit_imp_le_length)
  have zb: "\<not> bit (TAUSWORTHE s a b c d) i" if "r \<le> i" for i
  proof -
    have "bit (drop_bit r (TAUSWORTHE s a b c d)) (i - r) = bit (TAUSWORTHE s a b c d) i" using that by (simp add: bit_drop_bit_eq)
    then show ?thesis using z by simp
  qed
  have "\<not> bit s p" if "r \<le> p" "p < LENGTH('a)" for p
    using that
  proof (induction p rule: less_induct)
    case (less p)
    show ?case
    proof (cases "p + d < LENGTH('a)")
      case True
      then have "\<not> p + d + b < LENGTH('a)" using assms(2) less.prems(1) by simp
      then show ?thesis using t [OF True] zb [of "p + d"] less.prems(1) by auto
    next
      case False
      let ?i = "p - b"
      have i: "b \<le> p" "r \<le> ?i" "?i < d + r" "?i < LENGTH('a)" "a \<le> ?i + b" "?i + b = p"
        using False assms(2,3) less.prems by linarith+
      have "\<not> bit s (p - a)" using less.IH [of "p - a"] i assms(2-4) less.prems by simp
      then show ?thesis using t [OF i(4)] zb [OF i(2)] i less.prems(2) by auto
    qed
  qed
  then have "\<not> bit s (r + i)" for i using bit_imp_le_length [of s "r + i"] by auto
  then have "drop_bit r s = 0" by (intro bit_word_eqI) (simp add: bit_drop_bit_eq)
  then show False using assms(5) by simp
qed

definition alive32 :: "taus88_state \<Rightarrow> bool" where
  "alive32 st \<longleftrightarrow> drop_bit 1 (t_s1 st) \<noteq> 0 \<and> drop_bit 3 (t_s2 st) \<noteq> 0 \<and> drop_bit 4 (t_s3 st) \<noteq> 0"

definition alive64 :: "taus258_state \<Rightarrow> bool" where
  "alive64 st \<longleftrightarrow> drop_bit 1 (q_s1 st) \<noteq> 0 \<and> drop_bit 9 (q_s2 st) \<noteq> 0 \<and> drop_bit 12 (q_s3 st) \<noteq> 0 \<and>
     drop_bit 17 (q_s4 st) \<noteq> 0 \<and> drop_bit 23 (q_s5 st) \<noteq> 0"

definition alive :: "frand_state \<Rightarrow> bool" where
  "alive st = (case st of State32 t \<Rightarrow> alive32 t | State64 q \<Rightarrow> alive64 q)"

lemma taus_masks:
  "(4294967294 :: u32) = NOT (mask 1)" "(4294967288 :: u32) = NOT (mask 3)" "(4294967280 :: u32) = NOT (mask 4)"
  "(18446744073709551614 :: u64) = NOT (mask 1)" "(18446744073709551104 :: u64) = NOT (mask 9)" "(18446744073709547520 :: u64) = NOT (mask 12)"
  "(18446744073709420544 :: u64) = NOT (mask 17)" "(18446744073701163008 :: u64) = NOT (mask 23)"
  by (simp_all add: mask_eq_exp_minus_1)

lemma rand32_alive: "alive32 st \<Longrightarrow> alive32 (snd (rand32 st))"
  using TAUSWORTHE_alive [OF refl, of 19 12 1 13 "t_s1 st"] TAUSWORTHE_alive [OF refl, of 25 4 3 2 "t_s2 st"]
    TAUSWORTHE_alive [OF refl, of 11 17 4 3 "t_s3 st"]
  unfolding alive32_def rand32_def Let_def taus_masks by simp

lemma rand64_alive: "alive64 st \<Longrightarrow> alive64 (snd (rand64 st))"
  using TAUSWORTHE_alive [OF refl, of 53 10 1 1 "q_s1 st"] TAUSWORTHE_alive [OF refl, of 50 5 9 24 "q_s2 st"]
    TAUSWORTHE_alive [OF refl, of 23 29 12 3 "q_s3 st"] TAUSWORTHE_alive [OF refl, of 24 23 17 5 "q_s4 st"]
    TAUSWORTHE_alive [OF refl, of 33 8 23 3 "q_s5 st"]
  unfolding alive64_def rand64_def Let_def taus_masks by simp

lemma funpow_invariant: "(\<And>x. P x \<Longrightarrow> P (f x)) \<Longrightarrow> P x \<Longrightarrow> P ((f ^^ n) x)"
  by (induction n) auto

text \<open>The numbers that follow a state.\<close>

primrec draws :: "nat \<Rightarrow> frand_state \<Rightarrow> u64 list \<times> frand_state" where
  "draws 0 st = ([], st)"
| "draws (Suc n) st = (case frand st of (r, st1) \<Rightarrow> case draws n st1 of (rs, st2) \<Rightarrow> (r # rs, st2))"

lemma frand_alive: "alive st \<Longrightarrow> alive (snd (frand st))"
  using rand32_alive rand64_alive by (auto simp: alive_def frand_def split: frand_state.splits prod.splits) (metis snd_conv)+

lemma frand_bound: "fst (frand st) \<le> rand_max st" and frand_max: "rand_max (snd (frand st)) = rand_max st"
proof -
  show "rand_max (snd (frand st)) = rand_max st" by (simp add: frand_def rand_max_def split: frand_state.splits prod.splits)
  show "fst (frand st) \<le> rand_max st"
  proof (cases st)
    case (State32 t)
    have "unat (fst (rand32 t)) \<le> unat (- 1 :: u32)" using word_order.extremum [of "fst (rand32 t)"] by (simp only: word_le_nat_alt)
    moreover have "unat (ucast x :: u64) = unat x" for x :: u32 by (rule unat_ucast_widen) simp
    ultimately have "(ucast (fst (rand32 t)) :: u64) \<le> ucast (- 1 :: u32)" by (simp only: word_le_nat_alt)
    then show ?thesis using State32 by (cases "rand32 t") (simp add: frand_def rand_max_def FRAND32_MAX_def)
  next
    case (State64 q)
    then show ?thesis by (simp add: frand_def rand_max_def FRAND64_MAX_def split: prod.splits)
  qed
qed

section \<open>The properties of the generators\<close>

text \<open>
  C30: a generator keeps its period. The theory of the combined generators asks for a set bit among
  the upper bits of every component (31, 29 and 28 bits of 32; 63, 55, 52, 47 and 41 of 64). If a
  state satisfies this, so does every later state, and each number drawn is within the generator's
  range.
\<close>

theorem rand_stays_alive:
  assumes "alive st"
  shows "alive (snd (draws n st)) \<and> length (fst (draws n st)) = n \<and> (\<forall>r \<in> set (fst (draws n st)). r \<le> rand_max st)"
  using assms
proof (induction n arbitrary: st)
  case 0
  then show ?case by simp
next
  case (Suc n)
  have "alive (snd (frand st))" using Suc.prems by (rule frand_alive)
  from Suc.IH [OF this] show ?case using frand_bound [of st] frand_max [of st] by (auto split: prod.splits)
qed

lemma init_rand32_alive: "alive32 (seeded32 seed) \<Longrightarrow> alive32 (init_rand32 seed)"
  unfolding init_rand32_def by (rule funpow_invariant [where P = alive32]) (rule rand32_alive)

theorem rand_stays_alive_witness: "alive (snd (draws 1000 (init_rand_seed 1 False)))"
proof -
  have "alive32 (seeded32 1)" by (simp add: alive32_def seeded32_def seed_min_def LCG_def SEED_START_def)
  then have "alive (init_rand_seed 1 False)" using init_rand32_alive by (simp add: alive_def init_rand_seed_def)
  then show ?thesis using rand_stays_alive by blast
qed

text \<open>
  Some seeds lose a component. The seeding only makes the components at least 1, 7 and 15, one
  less than the theory asks for. With the seed 3660657 the first component starts as 1, is 0 after
  the seeding and stays 0 for ever.
\<close>

theorem rand_dead_seed:
  "\<exists>t. snd (draws n (init_rand_seed 3660657 False)) = State32 t \<and> t_s1 t = 0"
proof -
  have z: "t_s1 (snd (rand32 t)) = 0" if "t_s1 t = 0" for t using that by (simp add: rand32_def TAUSWORTHE_def)
  have "t_s1 (snd (rand32 (seeded32 3660657))) = 0"
    by (simp add: rand32_def TAUSWORTHE_def seeded32_def seed_min_def LCG_def SEED_START_def)
  from funpow_invariant [where P = "\<lambda>t. t_s1 t = 0" and n = 5, OF z this]
  have i: "t_s1 (init_rand32 3660657) = 0" by (simp add: init_rand32_def numeral_eq_Suc funpow_swap1)
  have "\<exists>t'. snd (draws n (State32 t)) = State32 t' \<and> t_s1 t' = 0" if "t_s1 t = 0" for t
    using that
  proof (induction n arbitrary: t)
    case 0
    then show ?case by simp
  next
    case (Suc n)
    from Suc.IH [OF z [OF Suc.prems]] show ?case by (auto simp: frand_def split: prod.splits)
  qed
  from this [OF i] show ?thesis by (simp add: init_rand_seed_def)
qed

end
