(* ===== verification/Fio_Offset.thy ===== *)
theory Fio_Offset
  imports Fio_Engine Fio_Axmap_Free Fio_LFSR Fio_Rand
begin

text \<open>
  Where fio places the next I/O of a job: \<^verbatim>\<open>get_next_offset\<close> and what it calls in
  \<^verbatim>\<open>fio4emu/io_u.c\<close>, with the set-up and the reset of the random map in
  \<^verbatim>\<open>fio4emu/filesetup.c\<close>, and the direction of the next I/O. Zoned block devices, the
  three random distributions that need floating point (Zipf, Pareto, Gauss) and the barrier flag are
  left out. A function that returns 1 in C returns \<open>None\<close> inside the outer
  \<open>Some\<close>; the outer \<open>None\<close> is a failed assertion or an access outside an array.
  The argument \<open>scale\<close> stands for the floating-point product that brings a random number into
  a range.
\<close>

section \<open>Data\<close>

datatype rand_generator = FIO_RAND_GEN_TAUSWORTHE | FIO_RAND_GEN_LFSR | FIO_RAND_GEN_TAUSWORTHE64
datatype zone_mode = ZONE_MODE_NONE | ZONE_MODE_STRIDED
datatype random_distribution = FIO_RAND_DIST_RANDOM | FIO_RAND_DIST_ZONED | FIO_RAND_DIST_ZONED_ABS
datatype rw_seq = RW_SEQ_SEQ | RW_SEQ_IDENT | RW_SEQ_Other

text \<open>The union of the map and the register, with the flags that say which is in use.\<close>

datatype file_map = No_Map | Io_Axmap axmap | Lfsr fio_lfsr

record fio_file =
  ff_is_file :: bool
  ff_real_size :: u64
  ff_offset :: u64
  ff_io_size :: u64
  ff_last_pos :: "fio_ddir \<Rightarrow> u64"
  ff_last_start :: "fio_ddir \<Rightarrow> u64"
  ff_map :: file_map

record zone_split_index =
  size_perc :: u8
  size_perc_prev :: u8
  zsi_size :: u64
  zsi_size_prev :: u64

text \<open>The bits of \<^verbatim>\<open>td_ddir\<close> are the first four options.\<close>

record thread_options =
  to_read :: bool
  to_write :: bool
  to_random :: bool
  to_trim :: bool
  to_rwmix :: "fio_ddir \<Rightarrow> u32"
  to_fsync_blocks :: u32
  to_fdatasync_blocks :: u32
  to_override_sync :: bool
  to_timeout :: u64
  to_random_distribution :: random_distribution
  to_zone_split_nr :: "fio_ddir \<Rightarrow> u32"
  to_min_bs :: "fio_ddir \<Rightarrow> u64"
  to_max_bs :: "fio_ddir \<Rightarrow> u64"
  to_ba :: "fio_ddir \<Rightarrow> u64"
  to_bssplit :: "fio_ddir \<Rightarrow> (u64 \<times> u32) list"
  to_bs_unaligned :: bool
  to_perc_rand :: "fio_ddir \<Rightarrow> u32"
  to_rw_min_bs :: u64
  to_bs_is_seq_rand :: bool
  to_zone_mode :: zone_mode
  to_zone_range :: u64
  to_zone_size :: u64
  to_zone_skip :: u64
  to_norandommap :: bool
  to_softrandommap :: bool
  to_random_generator :: rand_generator
  to_generator_set :: bool
  to_time_based :: bool
  to_nonuniform :: bool
  to_ddir_seq_nr :: u32
  to_ddir_seq_add :: u64
  to_rw_seq :: rw_seq
  to_file_append :: bool
  to_offset_increment_percent :: u32
  to_offset_increment :: u64
  to_start_offset_percent :: u32
  to_start_offset :: u64
  to_start_offset_align :: "u64 ptr"

record thread_data =
  td_o :: thread_options
  td_random_state :: frand_state
  td_seq_rand_state :: "fio_ddir \<Rightarrow> frand_state"
  td_bsrange_state :: "fio_ddir \<Rightarrow> frand_state"
  td_rand_seed :: u64
  td_zone_state :: frand_state
  td_zone_state_index :: "fio_ddir \<Rightarrow> zone_split_index list"
  td_rwmix_state :: frand_state
  td_rwmix_issues :: u64
  td_rwmix_ddir :: fio_ddir
  td_io_issues :: "fio_ddir \<Rightarrow> u64"
  td_last_was_sync :: bool
  td_sync_file_range_nr :: u32
  td_rate_next_io_time :: "fio_ddir \<Rightarrow> u64"
  td_terminate :: bool
  td_ddir_seq_nr :: u32
  td_subjob_number :: u32
  td_zone_bytes :: u64
  td_io_skip_bytes :: u64

definition ddir_rw :: "fio_ddir \<Rightarrow> bool" where
  "ddir_rw d \<longleftrightarrow> d = DDIR_READ \<or> d = DDIR_WRITE \<or> d = DDIR_TRIM"

definition file_randommap :: "thread_data \<Rightarrow> fio_file \<Rightarrow> bool" where
  "file_randommap td f \<longleftrightarrow> \<not> to_norandommap (td_o td) \<and> (case ff_map f of Io_Axmap _ \<Rightarrow> True | _ \<Rightarrow> False)"

section \<open>The file's offsets and maps\<close>

definition td_min_bs :: "thread_data \<Rightarrow> u64" where
  "td_min_bs td = min (to_min_bs (td_o td) DDIR_TRIM) (min (to_min_bs (td_o td) DDIR_READ) (to_min_bs (td_o td) DDIR_WRITE))"

definition get_start_offset :: "thread_data \<Rightarrow> fio_file \<Rightarrow> u64 option" where
  "get_start_offset td f =
     (let o' = td_o td; size = ff_real_size f; job = ucast (td_subjob_number td)
      in if to_file_append o' \<and> ff_is_file f then Some size
         else if to_offset_increment_percent o' \<noteq> 0 \<and> to_offset_increment o' \<noteq> 0 then None
         else
           let increment = (if to_offset_increment_percent o' \<noteq> 0 then ucast (to_offset_increment_percent o') * size div 100 else to_offset_increment o');
               align = (to_offset_increment_percent o' \<noteq> 0 \<or> to_start_offset_percent o' > 0);
               offset = (if to_start_offset_percent o' > 0 then size * ucast (to_start_offset_percent o') div 100 + job * increment
                         else to_start_offset o' + job * increment)
           in if align then
                let align_bs = (case to_start_offset_align o' of Some a \<Rightarrow> a | None \<Rightarrow> td_min_bs td)
                in if align_bs = 0 then None
                   else Some ((offset div align_bs + (if offset mod align_bs \<noteq> 0 then 1 else 0)) * align_bs)
              else Some offset)"

definition fio_file_reset :: "thread_data \<Rightarrow> fio_file \<Rightarrow> fio_file" where
  "fio_file_reset td f =
     f\<lparr>ff_last_pos := (\<lambda>d. if ddir_rw d then ff_offset f else ff_last_pos f d),
       ff_last_start := (\<lambda>d. if ddir_rw d then - 1 else ff_last_start f d),
       ff_map := (case ff_map f of
                    Io_Axmap a \<Rightarrow> Io_Axmap (axmap_reset a)
                  | Lfsr fl \<Rightarrow> Lfsr (snd (lfsr_reset (td_rand_seed td) fl))
                  | No_Map \<Rightarrow> No_Map)\<rparr>"

definition check_rand_gen_limits :: "thread_data \<Rightarrow> u64 \<Rightarrow> thread_data" where
  "check_rand_gen_limits td blocks =
     (if blocks \<le> ucast FRAND32_MAX then td
      else if to_random_generator (td_o td) \<noteq> FIO_RAND_GEN_TAUSWORTHE then td
      else if \<not> to_generator_set (td_o td) then td\<lparr>td_o := (td_o td)\<lparr>to_random_generator := FIO_RAND_GEN_TAUSWORTHE64\<rparr>\<rparr>
      else td)"

text \<open>One file of \<^verbatim>\<open>init_random_map\<close>: \<open>new\<close> is \<^verbatim>\<open>axmap_new\<close>,
  \<open>fl0\<close> the register's memory; the flag is false when the function gives up.\<close>

definition init_random_map_file ::
  "(u64 \<Rightarrow> axmap ptr) \<Rightarrow> fio_lfsr \<Rightarrow> thread_data \<Rightarrow> fio_file \<Rightarrow> (bool \<times> thread_data \<times> fio_file) option" where
  "init_random_map_file new fl0 td f =
     (let fsize = (if to_zone_mode (td_o td) = ZONE_MODE_STRIDED then to_zone_range (td_o td) else min (ff_real_size f) (ff_io_size f))
      in if to_rw_min_bs (td_o td) = 0 then None
         else
           let blocks = fsize div to_rw_min_bs (td_o td);
               td1 = check_rand_gen_limits td blocks
           in if to_random_generator (td_o td1) = FIO_RAND_GEN_LFSR then
                (case lfsr_init blocks (td_rand_seed td1) 0 fl0 of
                   (r, fl) \<Rightarrow> Some (if r = 0 then (True, td1, f\<lparr>ff_map := Lfsr fl\<rparr>) else (False, td1, f)))
              else if \<not> to_norandommap (td_o td1) then
                (case new blocks of
                   Some a \<Rightarrow> Some (True, td1, f\<lparr>ff_map := Io_Axmap a\<rparr>)
                 | None \<Rightarrow> Some (to_softrandommap (td_o td1), td1, f))
              else Some (True, td1, f))"

section \<open>Random offsets\<close>

definition random_map_free :: "fio_file \<Rightarrow> u64 \<Rightarrow> bool option" where
  "random_map_free f block = (case ff_map f of Io_Axmap a \<Rightarrow> map_option Not (axmap_isset a block) | _ \<Rightarrow> None)"

definition mark_random_map :: "thread_data \<Rightarrow> fio_ddir \<Rightarrow> bool \<Rightarrow> u64 \<Rightarrow> u64 \<Rightarrow> fio_file \<Rightarrow> (u64 \<times> fio_file) option" where
  "mark_random_map td ddir busy_ok offset buflen f =
     (let min_bs = to_min_bs (td_o td) ddir
      in if min_bs = 0 then None
         else
           let block = (offset - ff_offset f) div min_bs;
               nr_blocks = (buflen + min_bs - 1) div min_bs
           in if nr_blocks = 0 then None
              else do {
                (nr, f1) \<leftarrow> (if busy_ok then Some (nr_blocks, f)
                  else (case ff_map f of
                      Io_Axmap a \<Rightarrow> do {
                        (n, a1) \<leftarrow> axmap_set_nr block (ucast nr_blocks) a;
                        if n = 0 then None else Some (ucast n, f\<lparr>ff_map := Io_Axmap a1\<rparr>)
                      }
                    | _ \<Rightarrow> None));
                Some (if nr * min_bs < buflen then nr * min_bs else buflen, f1)
              })"

definition last_block :: "thread_data \<Rightarrow> fio_file \<Rightarrow> fio_ddir \<Rightarrow> u64 option" where
  "last_block td f ddir =
     (let o' = td_o td
      in if \<not> ddir_rw ddir \<or> to_ba o' ddir = 0 then None
         else
           let max_size = (if ff_io_size f > ff_real_size f then ff_real_size f else ff_io_size f);
               max_size = (if to_zone_mode o' = ZONE_MODE_STRIDED \<and> to_zone_range o' \<noteq> 0 then to_zone_range o' else max_size);
               max_size = (if to_min_bs o' ddir > to_ba o' ddir then max_size - (to_min_bs o' ddir - to_ba o' ddir) else max_size)
           in Some (max_size div to_ba o' ddir))"

text \<open>\<^verbatim>\<open>__get_next_rand_offset\<close>\<close>

definition next_rand_offset ::
  "scaling \<Rightarrow> u64 \<Rightarrow> thread_data \<Rightarrow> fio_file \<Rightarrow> (u64 option \<times> thread_data \<times> fio_file) option" where
  "next_rand_offset scale lastb td f = do {
     (b, td1, f1) \<leftarrow>
       (if to_random_generator (td_o td) = FIO_RAND_GEN_TAUSWORTHE \<or> to_random_generator (td_o td) = FIO_RAND_GEN_TAUSWORTHE64 then
          case frand (td_random_state td) of
            (r, st) \<Rightarrow> Some (Some (scale lastb r (rand_max st)), td\<lparr>td_random_state := st\<rparr>, f)
        else (case ff_map f of
            Lfsr fl \<Rightarrow> do {
              (r, fl1) \<leftarrow> lfsr_next fl;
              Some (case r of Inl _ \<Rightarrow> None | Inr off \<Rightarrow> Some off, td, f\<lparr>ff_map := Lfsr fl1\<rparr>)
            }
          | _ \<Rightarrow> None));
     case b of
       None \<Rightarrow> Some (None, td1, f1)
     | Some blk \<Rightarrow>
         if \<not> file_randommap td1 f1 then Some (Some blk, td1, f1)
         else do {
           free \<leftarrow> random_map_free f1 blk;
           if free then Some (Some blk, td1, f1)
           else (case ff_map f1 of
               Io_Axmap a \<Rightarrow> do {
                 r \<leftarrow> axmap_next_free a blk;
                 Some (if r = - 1 then None else Some r, td1, f1)
               }
             | _ \<Rightarrow> None)
         }
   }"

text \<open>\<^verbatim>\<open>__get_next_rand_offset_zoned_abs\<close> and \<^verbatim>\<open>__get_next_rand_offset_zoned\<close>: a
  number from 1 to 100 chooses the zone, given by sizes or by percentages of the file.\<close>

definition zone_of :: "scaling \<Rightarrow> fio_ddir \<Rightarrow> thread_data \<Rightarrow> (zone_split_index \<times> thread_data) option" where
  "zone_of scale ddir td = do {
     (v, st) \<leftarrow> rand_between scale 1 100 (td_zone_state td);
     let i = unat ((ucast v :: u32) - 1);
     if i < length (td_zone_state_index td ddir)
     then Some (td_zone_state_index td ddir ! i, td\<lparr>td_zone_state := st\<rparr>) else None
   }"

definition rand_offset_zoned_abs ::
  "scaling \<Rightarrow> fio_ddir \<Rightarrow> thread_data \<Rightarrow> fio_file \<Rightarrow> (u64 option \<times> thread_data \<times> fio_file) option" where
  "rand_offset_zoned_abs scale ddir td f = do {
     lastb \<leftarrow> last_block td f ddir;
     if lastb = 0 then Some (None, td, f)
     else if to_zone_split_nr (td_o td) ddir = 0 then next_rand_offset scale lastb td f
     else do {
       (zsi, td1) \<leftarrow> zone_of scale ddir td;
       let stotal = zsi_size_prev zsi div to_ba (td_o td) ddir;
       let send = zsi_size zsi div to_ba (td_o td) ddir;
       if send = 0xffffffff then next_rand_offset scale lastb td1 f
       else if send > lastb then Some (None, td1, f)
       else do {
         (b, td2, f2) \<leftarrow> next_rand_offset scale (send - stotal) td1 f;
         Some (map_option (\<lambda>x. x + stotal) b, td2, f2)
       }
     }
   }"

definition rand_offset_zoned ::
  "scaling \<Rightarrow> fio_ddir \<Rightarrow> thread_data \<Rightarrow> fio_file \<Rightarrow> (u64 option \<times> thread_data \<times> fio_file) option" where
  "rand_offset_zoned scale ddir td f = do {
     lastb \<leftarrow> last_block td f ddir;
     if lastb = 0 then Some (None, td, f)
     else if to_zone_split_nr (td_o td) ddir = 0 then next_rand_offset scale lastb td f
     else do {
       (zsi, td1) \<leftarrow> zone_of scale ddir td;
       let stotal = (ucast (size_perc_prev zsi) :: u32);
       let send = (ucast (size_perc zsi) :: u32);
       if send = - 1 then next_rand_offset scale lastb td1 f
       else do {
         let offset = (if stotal \<noteq> 0 then ucast stotal * lastb div 100 else 0);
         (b, td2, f2) \<leftarrow> next_rand_offset scale (lastb * ucast (send - stotal) div 100) td1 f;
         Some (map_option (\<lambda>x. x + offset) b, td2, f2)
       }
     }
   }"

definition get_next_rand_offset ::
  "scaling \<Rightarrow> fio_ddir \<Rightarrow> thread_data \<Rightarrow> fio_file \<Rightarrow> (u64 option \<times> thread_data \<times> fio_file) option" where
  "get_next_rand_offset scale ddir td f = (case to_random_distribution (td_o td) of
     FIO_RAND_DIST_RANDOM \<Rightarrow> do {
       lastb \<leftarrow> last_block td f ddir;
       if lastb = 0 then Some (None, td, f) else next_rand_offset scale lastb td f
     }
   | FIO_RAND_DIST_ZONED \<Rightarrow> rand_offset_zoned scale ddir td f
   | FIO_RAND_DIST_ZONED_ABS \<Rightarrow> rand_offset_zoned_abs scale ddir td f)"

definition get_next_rand_block ::
  "scaling \<Rightarrow> fio_ddir \<Rightarrow> thread_data \<Rightarrow> fio_file \<Rightarrow> (u64 option \<times> thread_data \<times> fio_file) option" where
  "get_next_rand_block scale ddir td f = do {
     (b, td1, f1) \<leftarrow> get_next_rand_offset scale ddir td f;
     if b \<noteq> None then Some (b, td1, f1)
     else if to_time_based (td_o td1) \<or> to_nonuniform (td_o td1) then
       get_next_rand_offset scale ddir td1 (fio_file_reset td1 f1)
     else Some (None, td1, f1)
   }"

definition should_do_random :: "scaling \<Rightarrow> fio_ddir \<Rightarrow> thread_data \<Rightarrow> (bool \<times> thread_data) option" where
  "should_do_random scale ddir td =
     (if to_perc_rand (td_o td) ddir = 100 then Some (True, td)
      else do {
        (v, st) \<leftarrow> rand_between scale 1 100 (td_seq_rand_state td ddir);
        Some ((ucast v :: u32) \<le> to_perc_rand (td_o td) ddir, td\<lparr>td_seq_rand_state := (td_seq_rand_state td)(ddir := st)\<rparr>)
      })"

section \<open>Sequential offsets\<close>

definition get_next_seq_offset :: "fio_ddir \<Rightarrow> thread_data \<Rightarrow> fio_file \<Rightarrow> (u64 option \<times> fio_file) option" where
  "get_next_seq_offset ddir td f =
     (if \<not> ddir_rw ddir then None
      else do {
        start \<leftarrow> get_start_offset td f;
        let o' = td_o td;
        let add = to_ddir_seq_add o';
        let f1 = (if ff_last_pos f ddir \<ge> ff_io_size f + start \<and> to_time_based o'
                  then f\<lparr>ff_last_pos := (ff_last_pos f)(ddir := ff_offset f)\<rparr> else f);
        let end_pos = (if ff_real_size f > ff_io_size f then ff_io_size f else ff_real_size f);
        if ff_last_pos f1 ddir < ff_real_size f then
          let f2 = (if ff_last_pos f1 ddir = ff_offset f \<and> ff_offset f \<noteq> 0 \<and> sint add < 0
                    then f1\<lparr>ff_last_pos := (ff_last_pos f1)(ddir := end_pos)\<rparr> else f1);
              pos = ff_last_pos f2 ddir - ff_offset f;
              pos = (if pos \<noteq> 0 \<and> add \<noteq> 0 then
                       (if pos + add \<ge> ff_real_size f then
                          (if sint add > 0 then ff_offset f else end_pos + add)
                        else pos + add)
                     else pos)
          in Some (Some pos, f2)
        else Some (None, f1)
      })"

section \<open>The next I/O unit\<close>

text \<open>The results: the offset (\<^verbatim>\<open>ret = 0\<close>), whether it counts as random, and whether the
  unit may use a busy block.\<close>

definition get_next_block ::
  "scaling \<Rightarrow> fio_ddir \<Rightarrow> bool \<Rightarrow> thread_data \<Rightarrow> fio_file \<Rightarrow>
     (u64 option \<times> bool \<times> bool \<times> thread_data \<times> fio_file) option" where
  "get_next_block scale ddir hit td f =
     (if \<not> ddir_rw ddir then None
      else do {
        (b, offset, ok, is_random, busy_ok, td1, f1) \<leftarrow>
          (if hit then
             if to_random (td_o td) then do {
               (do_random, td0) \<leftarrow> should_do_random scale ddir td;
               if do_random then do {
                 (b, td1, f1) \<leftarrow> get_next_rand_block scale ddir td0 f;
                 Some (b, None, b \<noteq> None, True, False, td1, f1)
               }
               else do {
                 (off, f1) \<leftarrow> get_next_seq_offset ddir td0 f;
                 if off \<noteq> None then Some (None, off, True, False, True, td0, f1)
                 else do {
                   (b, td1, f2) \<leftarrow> get_next_rand_block scale ddir td0 f1;
                   Some (b, None, b \<noteq> None, False, True, td1, f2)
                 }
               }
             }
             else do {
               (off, f1) \<leftarrow> get_next_seq_offset ddir td f;
               Some (None, off, off \<noteq> None, False, False, td, f1)
             }
           else (case to_rw_seq (td_o td) of
               RW_SEQ_SEQ \<Rightarrow> do {
                 (off, f1) \<leftarrow> get_next_seq_offset ddir td f;
                 if off \<noteq> None then Some (None, off, True, False, True, td, f1)
                 else do {
                   (b, td1, f2) \<leftarrow> get_next_rand_block scale ddir td f1;
                   Some (b, None, b \<noteq> None, False, True, td1, f2)
                 }
               }
             | RW_SEQ_IDENT \<Rightarrow>
                 Some (None, Some (if ff_last_start f ddir \<noteq> - 1 then ff_last_start f ddir - ff_offset f else 0), True, False, True, td, f)
             | RW_SEQ_Other \<Rightarrow> Some (None, None, False, False, True, td, f)));
        Some (if \<not> ok then None
              else if offset \<noteq> None \<and> offset \<noteq> Some (- 1) then offset
              else (case b of
                      Some blk \<Rightarrow> if blk \<noteq> - 1 then Some (blk * to_ba (td_o td1) ddir) else None
                    | None \<Rightarrow> None),
              is_random, busy_ok, td1, f1)
      })"

definition get_next_offset ::
  "scaling \<Rightarrow> fio_ddir \<Rightarrow> thread_data \<Rightarrow> fio_file \<Rightarrow>
     (u64 option \<times> bool \<times> bool \<times> thread_data \<times> fio_file) option" where
  "get_next_offset scale ddir td f =
     (let hit = (to_ddir_seq_nr (td_o td) \<noteq> 0 \<and> td_ddir_seq_nr td - 1 = 0);
          td1 = (if to_ddir_seq_nr (td_o td) = 0 then td
                 else td\<lparr>td_ddir_seq_nr := (if hit then to_ddir_seq_nr (td_o td) else td_ddir_seq_nr td - 1)\<rparr>)
      in do {
        (off, is_random, busy_ok, td2, f2) \<leftarrow> get_next_block scale ddir hit td1 f;
        Some (case off of
                None \<Rightarrow> None
              | Some o' \<Rightarrow> if o' \<ge> ff_io_size f2 then None
                          else if o' + ff_offset f2 \<ge> ff_real_size f2 then None
                          else Some (o' + ff_offset f2),
              is_random, busy_ok, td2, f2)
      })"

definition io_u_fits :: "thread_data \<Rightarrow> fio_file \<Rightarrow> u64 \<Rightarrow> u64 \<Rightarrow> bool option" where
  "io_u_fits td f offset buflen = do { start \<leftarrow> get_start_offset td f; Some (offset + buflen \<le> ff_io_size f + start) }"

definition is_power_of_2 :: "u64 \<Rightarrow> bool" where
  "is_power_of_2 val \<longleftrightarrow> val \<noteq> 0 \<and> val AND (val - 1) = 0"

text \<open>The loop over the entries (size, percentage) of a split, with the percentages so far; the size
  stays as it was when no entry has a percentage. The sum is a \<^verbatim>\<open>long long\<close>, converted to
  unsigned for the division.\<close>

fun split_loop :: "(u64 \<Rightarrow> bool) \<Rightarrow> u64 \<Rightarrow> u64 \<Rightarrow> u64 \<Rightarrow> u64 \<Rightarrow> (u64 \<times> u32) list \<Rightarrow> u64" where
  "split_loop fit r mx buflen perc [] = buflen"
| "split_loop fit r mx buflen perc ((bs, p) # bsps) =
     (if p = 0 then split_loop fit r mx buflen perc bsps
      else if r div (perc + ucast p) \<le> mx div 100 \<and> fit bs then bs
      else split_loop fit r mx bs (perc + ucast p) bsps)"

text \<open>One turn of the loop that draws a length, and the loop; \<open>len\<close> is the length of the
  previous turn.\<close>

definition draw_buflen :: "scaling \<Rightarrow> (u64 \<Rightarrow> bool) \<Rightarrow> thread_options \<Rightarrow> fio_ddir \<Rightarrow> u64 \<Rightarrow> u64 \<Rightarrow> u64 \<Rightarrow> u64" where
  "draw_buflen scale fit o' ddir mx r len =
     (let minbs = to_min_bs o' ddir; maxbs = to_max_bs o' ddir;
          len = (if to_bssplit o' ddir = [] then minbs + scale maxbs r mx else split_loop fit r mx len 0 (to_bssplit o' ddir));
          len = (if \<not> to_bs_unaligned o' \<and> is_power_of_2 minbs then len AND NOT (minbs - 1)
                 else if \<not> to_bs_unaligned o' then len - len mod minbs else len)
      in if len > maxbs then maxbs else len)"

partial_function (option) buflen_loop ::
  "scaling \<Rightarrow> (u64 \<Rightarrow> bool) \<Rightarrow> thread_options \<Rightarrow> fio_ddir \<Rightarrow> u64 \<Rightarrow> frand_state \<Rightarrow> (u64 \<times> frand_state) option" where
  "buflen_loop scale fit o' ddir len st =
     (case frand st of (r, st') \<Rightarrow>
        let len' = draw_buflen scale fit o' ddir (rand_max st) r len
        in if fit len' then Some (len', st') else buflen_loop scale fit o' ddir len' st')"

text \<open>A failed assertion, a division by zero and a loop that does not end are \<open>None\<close>.\<close>

definition get_next_buflen :: "scaling \<Rightarrow> fio_ddir \<Rightarrow> bool \<Rightarrow> thread_data \<Rightarrow> fio_file \<Rightarrow> u64 \<Rightarrow> (u64 \<times> thread_data) option" where
  "get_next_buflen scale ddir is_random td f offset =
     (if \<not> ddir_rw ddir then None
      else
        let o' = td_o td;
            ddir = (if to_bs_is_seq_rand o' then (if is_random then DDIR_WRITE else DDIR_READ) else ddir);
            minbs = to_min_bs o' ddir
        in if minbs = to_max_bs o' ddir then Some (minbs, td)
           else do {
             fit \<leftarrow> io_u_fits td f offset minbs;
             if \<not> fit then Some (0, td)
             else if \<not> to_bs_unaligned o' \<and> minbs = 0 then None
             else do {
               (len, st) \<leftarrow> buflen_loop scale (\<lambda>n. io_u_fits td f offset n = Some True) o' ddir 0 (td_bsrange_state td ddir);
               Some (len, td\<lparr>td_bsrange_state := (td_bsrange_state td)(ddir := st)\<rparr>)
             }
           })"

definition setup_strided_zone_mode :: "fio_ddir \<Rightarrow> thread_data \<Rightarrow> fio_file \<Rightarrow> (thread_data \<times> fio_file) option" where
  "setup_strided_zone_mode ddir td f =
     (let o' = td_o td
      in if to_zone_size o' = 0 \<or> to_zone_range o' = 0 then None
         else do {
           (td1, f1) \<leftarrow>
             (if td_zone_bytes td \<ge> to_zone_size o' then do {
                let off = ff_offset f + to_zone_range o' + to_zone_skip o';
                off \<leftarrow> (if off \<ge> ff_real_size f then get_start_offset td f else Some off);
                Some (td\<lparr>td_zone_bytes := 0, td_io_skip_bytes := td_io_skip_bytes td + to_zone_skip o'\<rparr>,
                      f\<lparr>ff_offset := off, ff_last_pos := (ff_last_pos f)(ddir := off)\<rparr>)
              }
              else Some (td, f));
           let f2 = (if ff_last_pos f1 ddir \<ge> ff_offset f1 + to_zone_range o'
                     then f1\<lparr>ff_last_pos := (ff_last_pos f1)(ddir := ff_offset f1)\<rparr> else f1);
           Some (td1, if td_zone_bytes td1 mod to_zone_range o' = 0 then fio_file_reset td1 f2 else f2)
         })"

section \<open>The direction of the next unit\<close>

text \<open>\<^verbatim>\<open>ddir ^ 1\<close> for a direction of data.\<close>

definition other_ddir :: "fio_ddir \<Rightarrow> fio_ddir" where
  "other_ddir d = (case d of DDIR_READ \<Rightarrow> DDIR_WRITE | DDIR_WRITE \<Rightarrow> DDIR_READ | _ \<Rightarrow> DDIR_SYNC)"

definition td_rw :: "thread_data \<Rightarrow> bool" where "td_rw td \<longleftrightarrow> to_read (td_o td) \<and> to_write (td_o td)"

definition td_trimwrite :: "thread_data \<Rightarrow> bool" where "td_trimwrite td \<longleftrightarrow> to_trim (td_o td) \<and> to_write (td_o td)"

definition set_rwmix_bytes :: "thread_data \<Rightarrow> thread_data option" where
  "set_rwmix_bytes td =
     (if ddir_rw (other_ddir (td_rwmix_ddir td))
      then Some (td\<lparr>td_rwmix_issues := td_io_issues td (td_rwmix_ddir td) * ucast (to_rwmix (td_o td) (other_ddir (td_rwmix_ddir td))) div 100\<rparr>)
      else None)"

definition get_rand_ddir :: "scaling \<Rightarrow> thread_data \<Rightarrow> (fio_ddir \<times> thread_data) option" where
  "get_rand_ddir scale td = do {
     (v, st) \<leftarrow> rand_between scale 1 100 (td_rwmix_state td);
     Some (if (ucast v :: u32) \<le> to_rwmix (td_o td) DDIR_READ then DDIR_READ else DDIR_WRITE, td\<lparr>td_rwmix_state := st\<rparr>)
   }"

text \<open>The time \<open>now\<close> since the start of the job, and \<open>later\<close>, after the sleep. The call of
  \<^verbatim>\<open>io_u_quiesce\<close> before the sleep waits for completions and does not bear on the result.\<close>

definition rate_ddir :: "u64 \<Rightarrow> u64 \<Rightarrow> thread_data \<Rightarrow> fio_ddir \<Rightarrow> fio_ddir option" where
  "rate_ddir now later td ddir =
     (let o' = td_o td; odir = other_ddir ddir; rate = td_rate_next_io_time td
      in if \<not> ddir_rw ddir then None
         else if rate ddir \<le> now then Some ddir
         else if td_rw td \<and> \<not> ddir_rw odir then None
         else
           let both = (td_rw td \<and> to_rwmix o' odir \<noteq> 0)
           in if both \<and> rate odir \<le> now then Some odir
              else
                let d = (if both \<and> \<not> rate ddir \<le> rate odir then odir else ddir);
                    usec = rate d - now
                in if to_timeout o' \<noteq> 0 \<and> usec + now > to_timeout o' \<and> now > to_timeout o' then Some DDIR_INVAL
                   else if to_timeout o' \<noteq> 0 \<and> later > to_timeout o' \<or> td_terminate td then Some DDIR_INVAL
                   else Some d)"

definition should_fsync :: "thread_data \<Rightarrow> bool" where
  "should_fsync td \<longleftrightarrow> \<not> td_last_was_sync td \<and> (to_write (td_o td) \<or> to_override_sync (td_o td))"

definition sync_due :: "thread_data \<Rightarrow> u32 \<Rightarrow> bool" where
  "sync_due td blocks \<longleftrightarrow> blocks \<noteq> 0 \<and> td_io_issues td DDIR_WRITE \<noteq> 0 \<and> td_io_issues td DDIR_WRITE mod ucast blocks = 0"

text \<open>A \<^verbatim>\<open>rwmix_ddir\<close> that is no direction of data indexes outside the counters.\<close>

definition get_rw_ddir :: "scaling \<Rightarrow> u64 \<Rightarrow> u64 \<Rightarrow> thread_data \<Rightarrow> (fio_ddir \<times> thread_data) option" where
  "get_rw_ddir scale now later td =
     (let o' = td_o td
      in if should_fsync td \<and> sync_due td (to_fsync_blocks o') then Some (DDIR_SYNC, td)
         else if should_fsync td \<and> sync_due td (to_fdatasync_blocks o') then Some (DDIR_DATASYNC, td)
         else if should_fsync td \<and> sync_due td (td_sync_file_range_nr td) then Some (DDIR_SYNC_FILE_RANGE, td)
         else do {
           (ddir, td1) \<leftarrow>
             (if td_rw td then
                if \<not> ddir_rw (td_rwmix_ddir td) then None
                else if td_io_issues td (td_rwmix_ddir td) \<ge> td_rwmix_issues td then do {
                  (d, td1) \<leftarrow> get_rand_ddir scale td;
                  td2 \<leftarrow> (if d \<noteq> td_rwmix_ddir td1 then set_rwmix_bytes td1 else Some td1);
                  Some (d, td2\<lparr>td_rwmix_ddir := d\<rparr>)
                }
                else Some (td_rwmix_ddir td, td)
              else Some (if to_read o' then DDIR_READ else if to_write o' then DDIR_WRITE else if to_trim o' then DDIR_TRIM else DDIR_INVAL, td));
           d \<leftarrow> rate_ddir now later td1 ddir;
           Some (d, td1\<lparr>td_rwmix_ddir := d\<rparr>)
         })"

definition set_rw_ddir :: "scaling \<Rightarrow> u64 \<Rightarrow> u64 \<Rightarrow> thread_data \<Rightarrow> fio_file \<Rightarrow> (fio_ddir \<times> thread_data) option" where
  "set_rw_ddir scale now later td f = do {
     (d, td1) \<leftarrow> get_rw_ddir scale now later td;
     Some (if td_trimwrite td1 then (if ff_last_pos f DDIR_WRITE = ff_last_pos f DDIR_TRIM then DDIR_TRIM else DDIR_WRITE) else d, td1)
   }"

section \<open>Filling a unit\<close>

text \<open>The part of \<^verbatim>\<open>fill_io_u\<close> for a transfer in direction \<open>ddir\<close>: offset and
  length.\<close>

definition fill_rw ::
  "scaling \<Rightarrow> fio_ddir \<Rightarrow> thread_data \<Rightarrow> fio_file \<Rightarrow>
     ((u64 \<times> u64) option \<times> thread_data \<times> fio_file) option" where
  "fill_rw scale ddir td f = do {
     (td0, f0) \<leftarrow> (if to_zone_mode (td_o td) = ZONE_MODE_STRIDED then setup_strided_zone_mode ddir td f else Some (td, f));
     (off, is_random, busy_ok, td1, f1) \<leftarrow> get_next_offset scale ddir td0 f0;
     case off of
       None \<Rightarrow> Some (None, td1, f1)
     | Some offset \<Rightarrow> do {
         (buflen, td1) \<leftarrow> get_next_buflen scale ddir is_random td1 f1 offset;
         if buflen = 0 \<or> offset + buflen > ff_real_size f1 then Some (None, td1, f1)
         else do {
           (buflen, f2) \<leftarrow> (if to_random (td_o td1) \<and> file_randommap td1 f1
             then mark_random_map td1 ddir busy_ok offset buflen f1 else Some (buflen, f1));
           Some (Some (offset, buflen), td1\<lparr>td_zone_bytes := td_zone_bytes td1 + buflen\<rparr>, f2)
         }
       }
   }"

text \<open>\<^verbatim>\<open>fill_io_u\<close> for the unit \<open>u\<close>, for an engine that does I/O; a sync leaves
  offset and length as they were.\<close>

type_synonym io_unit = "fio_ddir \<times> u64 \<times> u64"

definition fill_io_u ::
  "scaling \<Rightarrow> u64 \<Rightarrow> u64 \<Rightarrow> io_unit \<Rightarrow> thread_data \<Rightarrow> fio_file \<Rightarrow> (io_unit option \<times> thread_data \<times> fio_file) option" where
  "fill_io_u scale now later u td f = do {
     (ddir, td1) \<leftarrow> set_rw_ddir scale now later td f;
     if ddir = DDIR_INVAL then Some (None, td1, f)
     else if \<not> ddir_rw ddir then Some (Some (ddir, snd u), td1\<lparr>td_zone_bytes := td_zone_bytes td1 + snd (snd u)\<rparr>, f)
     else do {
       (r, td2, f2) \<leftarrow> fill_rw scale ddir td1 f;
       Some (map_option (Pair ddir) r, td2, f2)
     }
   }"

text \<open>\<^verbatim>\<open>get_io_u\<close>: the file remembers where the unit lies.\<close>

definition get_io_u ::
  "scaling \<Rightarrow> u64 \<Rightarrow> u64 \<Rightarrow> io_unit \<Rightarrow> thread_data \<Rightarrow> fio_file \<Rightarrow> (io_unit option \<times> thread_data \<times> fio_file) option" where
  "get_io_u scale now later u td f = do {
     (r, td1, f1) \<leftarrow> fill_io_u scale now later u td f;
     Some (case r of
       None \<Rightarrow> (None, td1, f1)
     | Some (ddir, offset, buflen) \<Rightarrow>
         if \<not> ddir_rw ddir then (r, td1, f1)
         else if buflen = 0 then (None, td1, f1)
         else (r, td1, f1\<lparr>ff_last_start := (ff_last_start f1)(ddir := offset),
                         ff_last_pos := (ff_last_pos f1)(ddir := offset + buflen)\<rparr>))
   }"

end
