(* ===== verification/Fio_Jobs.thy ===== *)
theory Fio_Jobs
  imports Fio_Offset
begin

text \<open>
  What a job's calls of \<^verbatim>\<open>get_io_u\<close> amount to (\<^verbatim>\<open>fio4emu/io_u.c\<close>, modelled in
  \<open>Fio_Offset\<close>): a job with one block size and the default order covers its part of the file,
  randomly over the map (through the interpretation \<open>axm\<close> of \<open>block_map\<close>), randomly over the
  shift register, or in order; and the lengths of a job with a range of block sizes.
\<close>

section \<open>Jobs\<close>

text \<open>The units of a job until it ends or \<open>n\<close> of them are made. For each call, \<open>env\<close> has
  the two times and what the unit held before.\<close>

primrec job_run ::
  "scaling \<Rightarrow> (nat \<Rightarrow> u64 \<times> u64 \<times> io_unit) \<Rightarrow> nat \<Rightarrow> thread_data \<Rightarrow> fio_file \<Rightarrow> (io_unit list \<times> thread_data \<times> fio_file) option" where
  "job_run scale env 0 td f = Some ([], td, f)"
| "job_run scale env (Suc n) td f = (case env n of (now, later, u) \<Rightarrow> do {
     (r, td1, f1) \<leftarrow> get_io_u scale now later u td f;
     case r of
       None \<Rightarrow> Some ([], td1, f1)
     | Some x \<Rightarrow> do { (xs, td2, f2) \<leftarrow> job_run scale env n td1 f1; Some (x # xs, td2, f2) }
   })"

text \<open>A job in one direction with one block size \<open>bs\<close>, without rate or sync, and with the default
  options for the order.\<close>

definition plain_job :: "fio_ddir \<Rightarrow> u64 \<Rightarrow> thread_data \<Rightarrow> bool" where
  "plain_job ddir bs td \<longleftrightarrow> ddir_rw ddir \<and> to_read (td_o td) = (ddir = DDIR_READ) \<and> to_write (td_o td) = (ddir = DDIR_WRITE) \<and>
     to_trim (td_o td) = (ddir = DDIR_TRIM) \<and> to_fsync_blocks (td_o td) = 0 \<and> to_fdatasync_blocks (td_o td) = 0 \<and> td_sync_file_range_nr td = 0 \<and>
     td_rate_next_io_time td ddir = 0 \<and> to_random_distribution (td_o td) = FIO_RAND_DIST_RANDOM \<and>
     bs \<noteq> 0 \<and> unat bs < 2 ^ 62 \<and> to_min_bs (td_o td) ddir = bs \<and> to_max_bs (td_o td) ddir = bs \<and>
     to_ba (td_o td) ddir = bs \<and> to_rw_min_bs (td_o td) = bs \<and> \<not> to_bs_is_seq_rand (td_o td) \<and> to_perc_rand (td_o td) ddir = 100 \<and>
     to_zone_mode (td_o td) = ZONE_MODE_NONE \<and>
     \<not> to_norandommap (td_o td) \<and> \<not> to_time_based (td_o td) \<and> \<not> to_nonuniform (td_o td) \<and> to_ddir_seq_nr (td_o td) = 1 \<and> td_ddir_seq_nr td = 1"

text \<open>Such a job always asks for a transfer in its direction.\<close>

definition rw_io_u :: "scaling \<Rightarrow> fio_ddir \<Rightarrow> thread_data \<Rightarrow> fio_file \<Rightarrow> ((u64 \<times> u64) option \<times> thread_data \<times> fio_file) option" where
  "rw_io_u scale ddir td f = do {
     (r, td1, f1) \<leftarrow> fill_rw scale ddir td f;
     Some (case r of
       None \<Rightarrow> (None, td1, f1)
     | Some (offset, buflen) \<Rightarrow>
         if buflen = 0 then (None, td1, f1)
         else (r, td1, f1\<lparr>ff_last_start := (ff_last_start f1)(ddir := offset),
                         ff_last_pos := (ff_last_pos f1)(ddir := offset + buflen)\<rparr>))
   }"

lemma plain_direction:
  assumes "plain_job ddir bs td"
  shows "set_rw_ddir scale now later td f = Some (ddir, td\<lparr>td_rwmix_ddir := ddir\<rparr>)"
proof -
  have d: "ddir = DDIR_READ \<or> ddir = DDIR_WRITE \<or> ddir = DDIR_TRIM" using assms by (auto simp: plain_job_def ddir_rw_def)
  have "rate_ddir now later td ddir = Some ddir" using assms by (simp add: rate_ddir_def plain_job_def Let_def)
  then show ?thesis using d assms by (auto simp: set_rw_ddir_def get_rw_ddir_def plain_job_def sync_due_def td_rw_def td_trimwrite_def)
qed

lemma plain_unit:
  assumes "plain_job ddir bs td" and "rw_io_u scale ddir (td\<lparr>td_rwmix_ddir := ddir\<rparr>) f = Some (r, td1, f1)"
  shows "get_io_u scale now later u td f = Some (map_option (Pair ddir) r, td1, f1)"
proof -
  have d: "ddir_rw ddir" "ddir \<noteq> DDIR_INVAL" using assms(1) by (auto simp: plain_job_def ddir_rw_def)
  obtain x td2 f2 where x: "fill_rw scale ddir (td\<lparr>td_rwmix_ddir := ddir\<rparr>) f = Some (x, td2, f2)" using assms(2) by (auto simp: rw_io_u_def bind_eq_Some_conv)
  show ?thesis using assms(2) d by (cases x) (auto simp: get_io_u_def fill_io_u_def plain_direction [OF assms(1)] rw_io_u_def x split: if_splits)
qed

text \<open>The part of the file that the job uses lies inside the file.\<close>

definition file_part :: "u64 \<Rightarrow> fio_file \<Rightarrow> bool" where
  "file_part bs f \<longleftrightarrow> unat (ff_offset f) + unat (ff_io_size f) \<le> unat (ff_real_size f) \<and> unat (ff_real_size f) < 2 ^ 62"

definition file_blocks :: "u64 \<Rightarrow> fio_file \<Rightarrow> nat" where
  "file_blocks bs f = unat (ff_io_size f) div unat bs"

definition block_unit :: "u64 \<Rightarrow> fio_file \<Rightarrow> nat \<Rightarrow> u64 \<times> u64" where
  "block_unit bs f k = (of_nat k * bs + ff_offset f, bs)"

definition job_unit :: "fio_ddir \<Rightarrow> u64 \<Rightarrow> fio_file \<Rightarrow> nat \<Rightarrow> io_unit" where
  "job_unit ddir bs f k = (ddir, block_unit bs f k)"

lemma job_step:
  assumes "plain_job ddir bs td" and "rw_io_u scale ddir (td\<lparr>td_rwmix_ddir := ddir\<rparr>) f = Some (map_option (block_unit bs f) r, td1, f1)"
  shows "job_run scale env (Suc n) td f = (case r of
       None \<Rightarrow> Some ([], td1, f1)
     | Some k \<Rightarrow> do { (xs, td2, f2) \<leftarrow> job_run scale env n td1 f1; Some (job_unit ddir bs f k # xs, td2, f2) })"
  using plain_unit [OF assms] by (cases r; cases "env n") (simp_all add: job_unit_def)

lemma unat_of_nat_u64: "n < 2 ^ 64 \<Longrightarrow> unat (of_nat n :: u64) = n"
  by (simp add: unat_of_nat take_bit_nat_eq_self)

lemma last_block_plain:
  assumes "plain_job ddir bs td" and "file_part bs f"
  shows "last_block td f ddir = Some (of_nat (file_blocks bs f))"
proof -
  have "(if ff_io_size f > ff_real_size f then ff_real_size f else ff_io_size f) = ff_io_size f"
    using assms(2) by (auto simp: file_part_def word_less_nat_alt)
  moreover have "ff_io_size f div bs = of_nat (file_blocks bs f)" by (simp add: file_blocks_def word_arith_nat_div)
  ultimately show ?thesis using assms(1) by (simp add: last_block_def plain_job_def Let_def)
qed

text \<open>The arithmetic of block \<open>k\<close>.\<close>

lemma block_arith:
  assumes "plain_job ddir bs td" and "file_part bs f" and "k < file_blocks bs f"
  shows "k * unat bs + unat bs \<le> unat (ff_io_size f)" and "unat (of_nat k * bs) = k * unat bs"
    and "unat (of_nat k :: u64) = k" and "unat (of_nat k * bs + ff_offset f) = k * unat bs + unat (ff_offset f)"
proof -
  have "Suc k \<le> unat (ff_io_size f) div unat bs" using assms(3) by (simp add: file_blocks_def)
  moreover have p: "0 < unat bs" using assms(1) by (simp add: plain_job_def unat_gt_0)
  ultimately have "Suc k * unat bs \<le> unat (ff_io_size f)" by (simp only: less_eq_div_iff_mult_less_eq)
  then show le: "k * unat bs + unat bs \<le> unat (ff_io_size f)" by simp
  have b: "unat (ff_offset f) + unat (ff_io_size f) < 2 ^ 62" using assms(2) by (auto simp: file_part_def)
  have "k \<le> k * unat bs" using p by simp
  then have "k < 2 ^ 62" using le b by linarith
  then show uk: "unat (of_nat k :: u64) = k" by (intro unat_of_nat_u64) simp
  have "k * unat bs < 2 ^ 64" using le b by simp
  then show u: "unat (of_nat k * bs) = k * unat bs" using uk unat_mult_lem [of "of_nat k" bs] by simp
  show "unat (of_nat k * bs + ff_offset f) = k * unat bs + unat (ff_offset f)"
    using le b u by (subst unat_add_lem [THEN iffD1]) simp_all
qed

text \<open>From a block to the unit: the checks of \<^verbatim>\<open>get_next_offset\<close> and \<^verbatim>\<open>fill_io_u\<close>
  pass.\<close>

lemma block_checks:
  assumes "plain_job ddir bs td" and "file_part bs f" and "k < file_blocks bs f"
  shows "\<not> of_nat k * bs \<ge> ff_io_size f" and "\<not> of_nat k * bs + ff_offset f \<ge> ff_real_size f"
    and "\<not> of_nat k * bs + ff_offset f + bs > ff_real_size f" and "(of_nat k :: u64) \<noteq> - 1"
proof -
  note a = block_arith [OF assms]
  have b: "0 < unat bs" "unat (ff_offset f) + unat (ff_io_size f) \<le> unat (ff_real_size f)" "unat (ff_real_size f) < 2 ^ 62"
    using assms(1,2) by (auto simp: file_part_def plain_job_def unat_gt_0)
  show "\<not> of_nat k * bs \<ge> ff_io_size f" unfolding word_le_nat_alt using a(1,2) b by linarith
  show "\<not> of_nat k * bs + ff_offset f \<ge> ff_real_size f" unfolding word_le_nat_alt using a(1,4) b by linarith
  have "unat (of_nat k * bs + ff_offset f + bs) = k * unat bs + unat (ff_offset f) + unat bs"
    using a(1,4) b by (subst unat_add_lem [THEN iffD1]) simp_all
  then show "\<not> of_nat k * bs + ff_offset f + bs > ff_real_size f" unfolding word_less_nat_alt using a(1) b by linarith
  have "k \<le> k * unat bs" using b(1) by simp
  then have "k < unat (ff_io_size f)" using a(1) b(1) by linarith
  then have "(of_nat k :: u64) < ff_io_size f" using a(3) by (simp add: word_less_nat_alt)
  then show "(of_nat k :: u64) \<noteq> - 1" using word_order.extremum [of "ff_io_size f"] by auto
qed

lemma plain_hit:
  assumes "plain_job ddir bs td"
  shows "get_next_offset scale ddir td f = do {
        (off, is_random, busy_ok, td2, f2) \<leftarrow> get_next_block scale ddir True td f;
        Some (case off of
                None \<Rightarrow> None
              | Some o' \<Rightarrow> if o' \<ge> ff_io_size f2 then None
                          else if o' + ff_offset f2 \<ge> ff_real_size f2 then None
                          else Some (o' + ff_offset f2),
              is_random, busy_ok, td2, f2)
      }"
proof -
  have t: "td\<lparr>td_ddir_seq_nr := 1\<rparr> = td" and h: "(to_ddir_seq_nr (td_o td) \<noteq> 0 \<and> td_ddir_seq_nr td - 1 = 0) = True" and n: "to_ddir_seq_nr (td_o td) = 1"
    using assms by (simp_all add: plain_job_def)
  show ?thesis unfolding get_next_offset_def Let_def unfolding h if_True unfolding n t by simp
qed

lemma random_offset:
  assumes "plain_job ddir bs td" and "to_random (td_o td)"
    and "get_next_rand_block scale ddir td f = Some (map_option of_nat b, td1, f1)" and "td_o td1 = td_o td"
    and "file_part bs f1" and "\<And>k. b = Some k \<Longrightarrow> k < file_blocks bs f1"
  shows "get_next_offset scale ddir td f = Some (map_option (\<lambda>k. fst (block_unit bs f1 k)) b, True, False, td1, f1)"
proof -
  have g: "get_next_block scale ddir True td f =
      Some (case b of None \<Rightarrow> None | Some k \<Rightarrow> if (of_nat k :: u64) \<noteq> - 1 then Some (of_nat k * bs) else None, True, False, td1, f1)"
    using assms(1-4) by (cases b) (simp_all add: get_next_block_def should_do_random_def plain_job_def)
  show ?thesis
  proof (cases b)
    case None
    then show ?thesis unfolding plain_hit [OF assms(1)] g by simp
  next
    case (Some k)
    note c = block_checks [OF assms(1,5) assms(6) [OF Some]]
    show ?thesis unfolding plain_hit [OF assms(1)] g block_unit_def Some using c by simp
  qed
qed

section \<open>Random jobs\<close>

text \<open>The parts of a file that no I/O changes.\<close>

definition same_part :: "fio_file \<Rightarrow> fio_file \<Rightarrow> bool" where
  "same_part f f' \<longleftrightarrow> ff_offset f' = ff_offset f \<and> ff_io_size f' = ff_io_size f \<and> ff_real_size f' = ff_real_size f"

lemma same_part_simps:
  assumes "same_part f f'"
  shows "file_part bs f' = file_part bs f" and "file_blocks bs f' = file_blocks bs f" and "block_unit bs f' = block_unit bs f"
  using assms by (simp_all add: same_part_def file_part_def file_blocks_def block_unit_def fun_eq_iff)

lemma same_part_unit: "same_part f f' \<Longrightarrow> job_unit ddir bs f' = job_unit ddir bs f"
  by (simp add: job_unit_def fun_eq_iff same_part_simps)

lemma same_part_refl [simp]: "same_part f f" by (simp add: same_part_def)

lemma same_part_trans: "same_part f g \<Longrightarrow> same_part g h \<Longrightarrow> same_part f h" by (simp add: same_part_def)

text \<open>A random job, between two units.\<close>

definition random_job :: "fio_ddir \<Rightarrow> u64 \<Rightarrow> thread_data \<Rightarrow> fio_file \<Rightarrow> bool" where
  "random_job ddir bs td f \<longleftrightarrow> plain_job ddir bs td \<and> to_random (td_o td) \<and> file_part bs f \<and> 0 < file_blocks bs f"

text \<open>With a map and a generator whose draws, scaled, are blocks of the file.\<close>

definition in_range :: "scaling \<Rightarrow> nat \<Rightarrow> frand_state \<Rightarrow> bool" where
  "in_range scale n st \<longleftrightarrow> (\<forall>r \<le> rand_max st. unat (scale (of_nat n) r (rand_max st)) < n)"

definition axmap_job :: "scaling \<Rightarrow> fio_ddir \<Rightarrow> u64 \<Rightarrow> thread_data \<Rightarrow> fio_file \<Rightarrow> axmap \<Rightarrow> bool" where
  "axmap_job scale ddir bs td f a \<longleftrightarrow> random_job ddir bs td f \<and> to_random_generator (td_o td) \<noteq> FIO_RAND_GEN_LFSR \<and>
     ff_map f = Io_Axmap a \<and> ax_ok a \<and> unat (ax_nr_bits a) = file_blocks bs f \<and> in_range scale (file_blocks bs f) (td_random_state td)"

lemma file_blocks_u64:
  assumes "random_job ddir bs td f"
  shows "(of_nat (file_blocks bs f) :: u64) \<noteq> 0" and "file_blocks bs f < 2 ^ 62"
proof -
  have "unat (ff_io_size f) < 2 ^ 62" using assms by (auto simp: random_job_def file_part_def)
  then show l: "file_blocks bs f < 2 ^ 62" unfolding file_blocks_def by (rule le_less_trans [OF div_le_dividend])
  have "unat (of_nat (file_blocks bs f) :: u64) = file_blocks bs f" using l by (intro unat_of_nat_u64) simp
  then show "(of_nat (file_blocks bs f) :: u64) \<noteq> 0" using assms by (auto simp: random_job_def)
qed

text \<open>The next block: a draw, and \<^verbatim>\<open>axmap_next_free\<close> when it is used.\<close>

lemma axmap_block:
  assumes "axmap_job scale ddir bs td f a"
  shows "\<exists>j st. j < file_blocks bs f \<and> rand_max st = rand_max (td_random_state td) \<and>
    (\<forall>b. axm.pick a j = Some b \<longrightarrow> get_next_rand_block scale ddir td f = Some (map_option of_nat b, td\<lparr>td_random_state := st\<rparr>, f))"
proof -
  note r = assms [unfolded axmap_job_def]
  have lb: "last_block td f ddir = Some (of_nat (file_blocks bs f))" using last_block_plain r by (auto simp: random_job_def)
  have nz: "(of_nat (file_blocks bs f) :: u64) \<noteq> 0" using file_blocks_u64 r by blast
  obtain x st where x: "frand (td_random_state td) = (x, st)" by fastforce
  have mx: "rand_max st = rand_max (td_random_state td)" "x \<le> rand_max (td_random_state td)"
    using frand_max [of "td_random_state td"] frand_bound [of "td_random_state td"] x by simp_all
  define w where "w = scale (of_nat (file_blocks bs f)) x (rand_max st)"
  have w: "unat w < file_blocks bs f" using r mx by (simp add: w_def in_range_def)
  have g: "to_random_generator (td_o td) = FIO_RAND_GEN_TAUSWORTHE \<or> to_random_generator (td_o td) = FIO_RAND_GEN_TAUSWORTHE64"
    using r by (cases "to_random_generator (td_o td)") auto
  have nm: "\<not> to_norandommap (td_o td)" "\<not> to_time_based (td_o td)" "\<not> to_nonuniform (td_o td)" "to_random_distribution (td_o td) = FIO_RAND_DIST_RANDOM"
    using r by (simp_all add: random_job_def plain_job_def)
  have "get_next_rand_block scale ddir td f = Some (map_option of_nat b, td\<lparr>td_random_state := st\<rparr>, f)"
    if p: "axm.pick a (unat w) = Some b" for b
  proof -
    obtain u where u: "axmap_isset a w = Some u" using p by (auto simp: axm.pick_def bind_eq_Some_conv)
    have n: "next_rand_offset scale (of_nat (file_blocks bs f)) td f = Some (map_option of_nat b, td\<lparr>td_random_state := st\<rparr>, f)"
    proof (cases u)
      case False
      then have "b = Some (unat w)" using p u by (simp add: axm.pick_def)
      then show ?thesis using False u g r nm by (simp add: next_rand_offset_def x w_def [symmetric] file_randommap_def random_map_free_def)
    next
      case True
      then have "ax_next a (unat w) = Some b" using p u by (simp add: axm.pick_def)
      then obtain v where v: "axmap_next_free a w = Some v" "b = (if v = - 1 then None else Some (unat v))" by (auto simp: ax_next_def)
      then show ?thesis using True u g r nm by (simp add: next_rand_offset_def x w_def [symmetric] file_randommap_def random_map_free_def)
    qed
    then show ?thesis using lb nz nm by (cases b) (simp_all add: get_next_rand_block_def get_next_rand_offset_def)
  qed
  then show ?thesis using w mx by blast
qed

text \<open>Marking one block of the file.\<close>

lemma mark_block:
  assumes "random_job ddir bs td f" and "k < file_blocks bs f" and "ff_map f = Io_Axmap a" and "ax_mark k a = Some a'"
    and "ax_ok a" and "unat (ax_nr_bits a) = file_blocks bs f" and "k \<notin> ax_used a"
  shows "mark_random_map td ddir False (fst (block_unit bs f k)) bs f = Some (bs, f\<lparr>ff_map := Io_Axmap a'\<rparr>)"
proof -
  have p: "plain_job ddir bs td" "file_part bs f" using assms(1) by (simp_all add: random_job_def)
  note ar = block_arith [OF p assms(2)]
  have b: "0 < unat bs" "unat bs < 2 ^ 62" "bs \<noteq> 0" "to_min_bs (td_o td) ddir = bs" using p(1) by (auto simp: plain_job_def unat_gt_0)
  have k: "(of_nat k * bs) div bs = (of_nat k :: u64)"
    using ar(2,3) b(1) by (simp add: word_unat_eq_iff unat_div)
  have u: "unat (bs + bs) = unat bs + unat bs" using b(2) by (subst unat_add_lem [THEN iffD1]) simp_all
  then have "unat (bs + bs - 1) = unat bs + unat bs - 1" using b(1) by (subst unat_minus_one) auto
  moreover have "(unat bs + unat bs - 1) div unat bs = 1" using b(1) by (simp add: div_nat_eqI)
  ultimately have n: "(bs + bs - 1) div bs = 1" by (simp add: word_unat_eq_iff unat_div)
  obtain a2 where "axmap_set_nr (of_nat k) 1 a = Some (1, a2)"
    using set_nr_ok [OF assms(5), of 1 "of_nat k" 1] ar(3) assms(2,6,7) by auto
  then have s: "axmap_set_nr (of_nat k) 1 a = Some (1, a')" using assms(4) by (simp add: ax_mark_def)
  show ?thesis using b s assms(3) by (simp add: mark_random_map_def block_unit_def Let_def k n [simplified])
qed

text \<open>One unit of a random job: the end, or block \<open>k\<close>.\<close>

lemma random_end:
  assumes "random_job ddir bs td f" and "get_next_rand_block scale ddir td f = Some (None, td1, f1)"
    and "td_o td1 = td_o td" and "same_part f f1"
  shows "rw_io_u scale ddir td f = Some (None, td1, f1)"
proof -
  have p: "plain_job ddir bs td" "to_random (td_o td)" "file_part bs f1" "to_zone_mode (td_o td) = ZONE_MODE_NONE"
    using assms(1) same_part_simps [OF assms(4), of bs] by (simp_all add: random_job_def plain_job_def)
  show ?thesis using random_offset [OF p(1,2), of scale f None td1 f1] assms(2,3) p(3,4) by (simp add: rw_io_u_def fill_rw_def)
qed

lemma random_unit:
  assumes "random_job ddir bs td f" and "get_next_rand_block scale ddir td f = Some (Some (of_nat k), td1, f1)"
    and "td_o td1 = td_o td" and "same_part f f1" and "k < file_blocks bs f"
    and "(if file_randommap td1 f1 then mark_random_map td1 ddir False (fst (block_unit bs f k)) bs f1 else Some (bs, f1)) = Some (bs, f2)"
  shows "rw_io_u scale ddir td f = Some (Some (block_unit bs f k), td1\<lparr>td_zone_bytes := td_zone_bytes td1 + bs\<rparr>,
    f2\<lparr>ff_last_start := (ff_last_start f2)(ddir := fst (block_unit bs f k)),
       ff_last_pos := (ff_last_pos f2)(ddir := fst (block_unit bs f k) + bs)\<rparr>)"
proof -
  have p: "plain_job ddir bs td" "to_random (td_o td)" "file_part bs f" "to_zone_mode (td_o td) = ZONE_MODE_NONE"
    "to_min_bs (td_o td) ddir = bs" "to_max_bs (td_o td) ddir = bs" "\<not> to_bs_is_seq_rand (td_o td)" "bs \<noteq> 0" "ddir_rw ddir"
    using assms(1) by (simp_all add: random_job_def plain_job_def)
  note s = same_part_simps [OF assms(4), of bs]
  have o: "get_next_offset scale ddir td f = Some (Some (fst (block_unit bs f k)), True, False, td1, f1)"
    using random_offset [OF p(1,2), of scale f "Some k" td1 f1] assms(2,3,5) p(3) s by simp
  have l: "get_next_buflen scale ddir True td1 f1 (fst (block_unit bs f k)) = Some (bs, td1)"
    using p(5-7,9) assms(3) by (simp add: get_next_buflen_def)
  have r: "\<not> fst (block_unit bs f k) + bs > ff_real_size f1"
    using block_checks(3) [OF p(1,3) assms(5)] assms(4) by (simp add: block_unit_def same_part_def)
  have u: "block_unit bs f k = (fst (block_unit bs f k), bs)" by (simp add: block_unit_def)
  show ?thesis using assms(6) r p(2,4,8) assms(3) by (subst u) (simp add: rw_io_u_def fill_rw_def o l)
qed

text \<open>So a unit of a job with a map is a pick of the map's client.\<close>

lemma axmap_unit:
  assumes "axmap_job scale ddir bs td f a"
  shows "\<exists>j < file_blocks bs f. \<exists>r td' f'. rw_io_u scale ddir td f = Some (map_option (block_unit bs f) r, td', f') \<and> same_part f f' \<and>
    axm.pick a j = Some r \<and> (case r of None \<Rightarrow> axmap_job scale ddir bs td' f' a | Some k \<Rightarrow> \<exists>a'. ax_mark k a = Some a' \<and> axmap_job scale ddir bs td' f' a')"
proof -
  note r = assms [unfolded axmap_job_def]
  obtain j st where j: "j < file_blocks bs f" "rand_max st = rand_max (td_random_state td)"
    "\<And>b. axm.pick a j = Some b \<Longrightarrow> get_next_rand_block scale ddir td f = Some (map_option of_nat b, td\<lparr>td_random_state := st\<rparr>, f)"
    using axmap_block [OF assms] by blast
  let ?td = "td\<lparr>td_random_state := st\<rparr>"
  have keep: "axmap_job scale ddir bs (?td\<lparr>td_zone_bytes := z\<rparr>) (f\<lparr>ff_map := Io_Axmap a', ff_last_start := x, ff_last_pos := y\<rparr>) a'"
    if "ax_ok a'" "unat (ax_nr_bits a') = unat (ax_nr_bits a)" for a' x y z
    using r j(2) that by (simp add: axmap_job_def random_job_def plain_job_def file_part_def file_blocks_def in_range_def)
  show ?thesis
  proof (cases "ax_used a = {..<file_blocks bs f}")
    case True
    then have p: "axm.pick a j = Some None" using axm.pick_full [of a j] r j(1) by simp
    have "rw_io_u scale ddir td f = Some (None, ?td, f)" using random_end [of ddir bs td f scale ?td f] r j(3) [OF p] by simp
    moreover have "axmap_job scale ddir bs ?td f a" using r j(2)
      by (simp add: axmap_job_def random_job_def plain_job_def in_range_def)
    ultimately show ?thesis using j(1) p by (intro exI [of _ j] conjI exI [of _ None] exI [of _ ?td] exI [of _ f]) simp_all
  next
    case False
    obtain k where k: "axm.pick a j = Some (Some k)" "k < file_blocks bs f" "k \<notin> ax_used a" using axm.pick_free [of a j] r j(1) False by auto
    obtain a' where a': "ax_mark k a = Some a'" "ax_ok a'" "unat (ax_nr_bits a') = unat (ax_nr_bits a)" using axm.mark_used [of a k] r k(2,3) by auto
    let ?f = "f\<lparr>ff_map := Io_Axmap a'\<rparr>"
    have "random_job ddir bs ?td f" using r by (simp add: random_job_def plain_job_def)
    then have "mark_random_map ?td ddir False (fst (block_unit bs f k)) bs f = Some (bs, ?f)" using mark_block [OF _ k(2)] r a'(1) k(3) by blast
    moreover have "file_randommap ?td f" using r by (simp add: file_randommap_def random_job_def plain_job_def)
    ultimately have "\<exists>x y z. rw_io_u scale ddir td f =
        Some (Some (block_unit bs f k), ?td\<lparr>td_zone_bytes := z\<rparr>, f\<lparr>ff_map := Io_Axmap a', ff_last_start := x, ff_last_pos := y\<rparr>)"
      using random_unit [of ddir bs td f scale k ?td f ?f] r j(3) [OF k(1)] k(2) by (intro exI) simp
    then obtain td' f' where u: "rw_io_u scale ddir td f = Some (Some (block_unit bs f k), td', f')" "axmap_job scale ddir bs td' f' a'" "same_part f f'"
      using keep [OF a'(2,3)] by (fastforce simp: same_part_def)
    then show ?thesis using a'(1) j(1) k(1) by (intro exI [of _ j] conjI exI [of _ "Some k"] exI [of _ td'] exI [of _ f']) auto
  qed
qed

lemma axmap_job_ddir: "axmap_job scale ddir bs (td\<lparr>td_rwmix_ddir := d\<rparr>) f a = axmap_job scale ddir bs td f a"
  by (simp add: axmap_job_def random_job_def plain_job_def)

lemma axmap_run:
  "axmap_job scale ddir bs td f a \<Longrightarrow>
     \<exists>js ks td' f' a'. job_run scale env n td f = Some (map (job_unit ddir bs f) ks, td', f') \<and> length js = n \<and> (\<forall>j \<in> set js. j < file_blocks bs f) \<and>
       axm.picks js a = Some (ks, a') \<and> axmap_job scale ddir bs td' f' a' \<and> same_part f f'"
proof (induction n arbitrary: td f a)
  case 0
  then show ?case by (intro exI [of _ "[]"]) simp
next
  case (Suc n)
  have p: "plain_job ddir bs td" using Suc.prems by (simp add: axmap_job_def random_job_def)
  obtain j r td1 f1 where u: "j < file_blocks bs f" "rw_io_u scale ddir (td\<lparr>td_rwmix_ddir := ddir\<rparr>) f = Some (map_option (block_unit bs f) r, td1, f1)"
    "same_part f f1" "axm.pick a j = Some r"
    "case r of None \<Rightarrow> axmap_job scale ddir bs td1 f1 a | Some k \<Rightarrow> \<exists>a'. ax_mark k a = Some a' \<and> axmap_job scale ddir bs td1 f1 a'"
    using axmap_unit [of scale ddir bs "td\<lparr>td_rwmix_ddir := ddir\<rparr>" f a] Suc.prems unfolding axmap_job_ddir by blast
  note step = job_step [OF p u(2), of env n]
  show ?case
  proof (cases r)
    case None
    then show ?thesis using u step by (intro exI [of _ "replicate (Suc n) j"] exI [of _ "[]"]) (simp del: job_run.simps)
  next
    case (Some k)
    then obtain a1 where a1: "ax_mark k a = Some a1" "axmap_job scale ddir bs td1 f1 a1" using u(5) by auto
    note s = same_part_simps [OF u(3), of bs] same_part_unit [OF u(3), of ddir bs]
    obtain js ks td' f' a' where "job_run scale env n td1 f1 = Some (map (job_unit ddir bs f) ks, td', f')" "length js = n" "\<forall>j \<in> set js. j < file_blocks bs f"
      "axm.picks js a1 = Some (ks, a')" "axmap_job scale ddir bs td' f' a'" "same_part f1 f'"
      using Suc.IH [OF a1(2), unfolded s] by blast
    then show ?thesis using u Some a1 step same_part_trans [OF u(3)]
      by (intro exI [of _ "j # js"] exI [of _ "k # ks"] exI [of _ td'] exI [of _ f']) (simp del: job_run.simps)
  qed
qed

lemma axmap_covers:
  assumes "axmap_job scale ddir bs td f a"
  shows "\<exists>ks td' f'. job_run scale env n td f = Some (map (job_unit ddir bs f) ks, td', f') \<and> distinct ks \<and>
    set ks \<subseteq> {..<file_blocks bs f} - ax_used a \<and> length ks = min n (card ({..<file_blocks bs f} - ax_used a))"
proof -
  obtain js ks td' f' a' where r: "job_run scale env n td f = Some (map (job_unit ddir bs f) ks, td', f')" "length js = n"
    "\<forall>j \<in> set js. j < file_blocks bs f" "axm.picks js a = Some (ks, a')" using axmap_run [OF assms] by blast
  have a: "ax_ok a" "unat (ax_nr_bits a) = file_blocks bs f" using assms by (simp_all add: axmap_job_def)
  have "distinct ks \<and> set ks \<inter> ax_used a = {} \<and> ax_used a' = ax_used a \<union> set ks \<and> length ks = min n (card ({..<file_blocks bs f} - ax_used a)) \<and>
      ax_ok a' \<and> unat (ax_nr_bits a') = file_blocks bs f"
    using axm.picks_cover [OF a(1), of js] r a(2) by auto
  moreover from this have "ax_used a' \<subseteq> {..<file_blocks bs f}" using ax_used_bound [of a'] by simp
  ultimately show ?thesis using r(1) by blast
qed

text \<open>With a shift register: a unit is a step of the register.\<close>

definition lfsr_job :: "fio_ddir \<Rightarrow> u64 \<Rightarrow> thread_data \<Rightarrow> fio_file \<Rightarrow> fio_lfsr \<Rightarrow> bool" where
  "lfsr_job ddir bs td f fl \<longleftrightarrow> random_job ddir bs td f \<and> to_random_generator (td_o td) = FIO_RAND_GEN_LFSR \<and> ff_map f = Lfsr fl"

lemma lfsr_block:
  assumes "lfsr_job ddir bs td f fl" and "lfsr_next fl = Some (r, fl1)"
  shows "get_next_rand_block scale ddir td f = Some (case r of Inl _ \<Rightarrow> None | Inr x \<Rightarrow> Some x, td, f\<lparr>ff_map := Lfsr fl1\<rparr>)"
proof -
  note j = assms(1) [unfolded lfsr_job_def]
  have lb: "last_block td f ddir = Some (of_nat (file_blocks bs f))" using last_block_plain j by (auto simp: random_job_def)
  have nz: "(of_nat (file_blocks bs f) :: u64) \<noteq> 0" using file_blocks_u64 j by blast
  have nt: "\<not> to_time_based (td_o td)" "\<not> to_nonuniform (td_o td)" "to_random_distribution (td_o td) = FIO_RAND_DIST_RANDOM" using j by (simp_all add: random_job_def plain_job_def)
  have "next_rand_offset scale (of_nat (file_blocks bs f)) td f = Some (case r of Inl _ \<Rightarrow> None | Inr x \<Rightarrow> Some x, td, f\<lparr>ff_map := Lfsr fl1\<rparr>)"
    using j assms(2) by (cases r) (simp_all add: next_rand_offset_def file_randommap_def)
  then show ?thesis using lb nz nt by (cases r) (simp_all add: get_next_rand_block_def get_next_rand_offset_def)
qed

lemma lfsr_unit:
  assumes "lfsr_job ddir bs td f fl" and "lfsr_next fl = Some (Inr x, fl1)" and "unat x < file_blocks bs f"
  shows "\<exists>td' f'. rw_io_u scale ddir td f = Some (Some (block_unit bs f (unat x)), td', f') \<and> lfsr_job ddir bs td' f' fl1 \<and> same_part f f'"
proof -
  note j = assms(1) [unfolded lfsr_job_def]
  let ?f = "f\<lparr>ff_map := Lfsr fl1\<rparr>"
  have "\<not> file_randommap td ?f" "same_part f ?f" by (simp_all add: file_randommap_def same_part_def)
  then show ?thesis using random_unit [of ddir bs td f scale "unat x" td ?f ?f] j lfsr_block [OF assms(1,2)] assms(3)
    by (simp add: lfsr_job_def random_job_def plain_job_def file_part_def file_blocks_def same_part_def)
qed

lemma lfsr_end:
  assumes "lfsr_job ddir bs td f fl" and "lfsr_next fl = Some (Inl u, fl1)"
  shows "rw_io_u scale ddir td f = Some (None, td, f\<lparr>ff_map := Lfsr fl1\<rparr>)"
proof -
  have "random_job ddir bs td f" using assms(1) by (simp add: lfsr_job_def)
  then show ?thesis using lfsr_block [OF assms] by (intro random_end) (simp_all add: same_part_def)
qed

lemma lfsr_job_ddir: "lfsr_job ddir bs (td\<lparr>td_rwmix_ddir := d\<rparr>) f fl = lfsr_job ddir bs td f fl"
  by (simp add: lfsr_job_def random_job_def plain_job_def)

lemma calls_Suc:
  assumes "lfsr_calls (Suc n) fl = Some (xs, fl1)" and "length xs = Suc n"
  obtains x fl' ys where "lfsr_next fl = Some (Inr x, fl')" "lfsr_calls n fl' = Some (ys, fl1)" "xs = x # ys"
proof (cases "lfsr_next fl")
  case None
  then show ?thesis using assms(1) by simp
next
  case (Some p)
  then show ?thesis using that assms by (cases p; cases "fst p") (auto simp: bind_eq_Some_conv)
qed

lemma lfsr_run:
  "lfsr_job ddir bs td f fl \<Longrightarrow> lfsr_calls n fl = Some (xs, fl1) \<Longrightarrow> length xs = n \<Longrightarrow> \<forall>x \<in> set xs. unat x < file_blocks bs f \<Longrightarrow> lfsr_next fl1 = Some (Inl (), fl2) \<Longrightarrow>
     \<exists>td' f'. job_run scale env (Suc n) td f = Some (map (job_unit ddir bs f) (map unat xs), td', f')"
proof (induction n arbitrary: td f fl xs)
  case 0
  let ?td = "td\<lparr>td_rwmix_ddir := ddir\<rparr>"
  have "rw_io_u scale ddir ?td f = Some (map_option (block_unit bs f) None, ?td, f\<lparr>ff_map := Lfsr fl2\<rparr>)"
    using lfsr_end [of ddir bs ?td f fl "()" fl2 scale] 0 unfolding lfsr_job_ddir by simp
  moreover have "plain_job ddir bs td" using "0.prems"(1) by (simp add: lfsr_job_def random_job_def)
  ultimately show ?case using job_step [of ddir bs td scale f None ?td "f\<lparr>ff_map := Lfsr fl2\<rparr>" env 0] "0.prems"(2) by (simp del: job_run.simps)
next
  case (Suc n)
  obtain x fl' ys where x: "lfsr_next fl = Some (Inr x, fl')" "lfsr_calls n fl' = Some (ys, fl1)" "xs = x # ys"
    using Suc.prems(2,3) by (rule calls_Suc)
  have p: "plain_job ddir bs td" using Suc.prems(1) by (simp add: lfsr_job_def random_job_def)
  obtain td' f' where u: "rw_io_u scale ddir (td\<lparr>td_rwmix_ddir := ddir\<rparr>) f = Some (map_option (block_unit bs f) (Some (unat x)), td', f')" "lfsr_job ddir bs td' f' fl'" "same_part f f'"
    using lfsr_unit [of ddir bs "td\<lparr>td_rwmix_ddir := ddir\<rparr>" f fl x fl' scale] Suc.prems(1,4) x(1,3) unfolding lfsr_job_ddir by auto
  note s = same_part_simps [OF u(3), of bs] same_part_unit [OF u(3), of ddir bs]
  obtain td'' f'' where "job_run scale env (Suc n) td' f' = Some (map (job_unit ddir bs f) (map unat ys), td'', f'')"
    using Suc.IH [OF u(2) x(2), unfolded s] Suc.prems(3-5) x(3) by auto
  then show ?case using job_step [OF p u(1), of env "Suc n"] x(3) by (simp del: job_run.simps)
qed

section \<open>Sequential jobs\<close>

definition seq_job :: "fio_ddir \<Rightarrow> u64 \<Rightarrow> thread_data \<Rightarrow> fio_file \<Rightarrow> bool" where
  "seq_job ddir bs td f \<longleftrightarrow> plain_job ddir bs td \<and> \<not> to_random (td_o td) \<and> to_ddir_seq_add (td_o td) = 0 \<and> file_part bs f \<and>
     unat bs dvd unat (ff_io_size f) \<and> get_start_offset td f \<noteq> None"

lemma start_offset_cong:
  assumes "td_o td' = td_o td" and "td_subjob_number td' = td_subjob_number td" and "ff_real_size f' = ff_real_size f" and "ff_is_file f' = ff_is_file f"
  shows "get_start_offset td' f' = get_start_offset td f"
  by (simp only: get_start_offset_def td_min_bs_def assms)

lemma seq_block:
  assumes "seq_job ddir bs td f" and "ff_last_pos f ddir = of_nat k * bs + ff_offset f" and "k \<le> file_blocks bs f"
  shows "\<exists>r. get_next_block scale ddir True td f = Some (r, False, False, td, f) \<and>
    (if k < file_blocks bs f then r = Some (of_nat k * bs) else r = None \<or> r = Some (ff_io_size f))"
proof -
  note j = assms(1) [unfolded seq_job_def]
  obtain s where s: "get_start_offset td f = Some s" using j by auto
  have d: "ddir_rw ddir" "\<not> to_time_based (td_o td)" using j by (simp_all add: plain_job_def)
  have seq: "get_next_seq_offset ddir td f = Some (if of_nat k * bs + ff_offset f < ff_real_size f then Some (of_nat k * bs) else None, f)"
    using d j assms(2) by (simp add: get_next_seq_offset_def s Let_def)
  have r: "get_next_block scale ddir True td f = Some (if of_nat k * bs + ff_offset f < ff_real_size f \<and> of_nat k * bs \<noteq> - 1 then Some (of_nat k * bs) else None, False, False, td, f)"
    using d j by (simp add: get_next_block_def seq)
  show ?thesis
  proof (cases "k < file_blocks bs f")
    case True
    have "of_nat k * bs < ff_io_size f" "of_nat k * bs + ff_offset f < ff_real_size f"
      using block_checks(1,2) [of ddir bs td f k] j True by (auto simp: not_le)
    moreover from this have "of_nat k * bs \<noteq> - 1" using word_order.extremum [of "ff_io_size f"] by auto
    ultimately show ?thesis using True r by simp
  next
    case False
    then have "k = unat (ff_io_size f) div unat bs" using assms(3) by (simp add: file_blocks_def)
    then have "k * unat bs = unat (ff_io_size f)" using j by simp
    then have "of_nat k * bs = ff_io_size f" using of_nat_mult [of k "unat bs", where ?'a = u64] by simp
    then show ?thesis using False r by simp
  qed
qed

lemma seq_unit:
  assumes "seq_job ddir bs td f" and "ff_last_pos f ddir = of_nat k * bs + ff_offset f" and "k \<le> file_blocks bs f"
  shows "if k < file_blocks bs f
    then \<exists>td' f'. rw_io_u scale ddir td f = Some (Some (block_unit bs f k), td', f') \<and> seq_job ddir bs td' f' \<and> same_part f f' \<and>
           ff_last_pos f' ddir = of_nat (Suc k) * bs + ff_offset f
    else rw_io_u scale ddir td f = Some (None, td, f)"
proof -
  note j = assms(1) [unfolded seq_job_def]
  have p: "plain_job ddir bs td" "file_part bs f" "to_zone_mode (td_o td) = ZONE_MODE_NONE" "to_min_bs (td_o td) ddir = bs" "to_max_bs (td_o td) ddir = bs"
    "\<not> to_bs_is_seq_rand (td_o td)" "bs \<noteq> 0" "\<not> to_random (td_o td)" "ddir_rw ddir"
    using j by (simp_all add: plain_job_def)
  obtain r where r: "get_next_block scale ddir True td f = Some (r, False, False, td, f)"
    "if k < file_blocks bs f then r = Some (of_nat k * bs) else r = None \<or> r = Some (ff_io_size f)" using seq_block [OF assms] by blast
  show ?thesis
  proof (cases "k < file_blocks bs f")
    case True
    note c = block_checks [OF p(1,2) True]
    have o: "get_next_offset scale ddir td f = Some (Some (of_nat k * bs + ff_offset f), False, False, td, f)"
      unfolding plain_hit [OF p(1)] using r True c by simp
    let ?td = "td\<lparr>td_zone_bytes := td_zone_bytes td + bs\<rparr>"
    let ?f = "f\<lparr>ff_last_start := (ff_last_start f)(ddir := of_nat k * bs + ff_offset f), ff_last_pos := (ff_last_pos f)(ddir := of_nat k * bs + ff_offset f + bs)\<rparr>"
    have "rw_io_u scale ddir td f = Some (Some (block_unit bs f k), ?td, ?f)"
      using c(3) p by (simp add: rw_io_u_def fill_rw_def o get_next_buflen_def block_unit_def)
    moreover have "get_start_offset ?td ?f = get_start_offset td f" by (intro start_offset_cong) simp_all
    then have "seq_job ddir bs ?td ?f" using j by (simp add: seq_job_def plain_job_def file_part_def)
    moreover have "ff_last_pos ?f ddir = of_nat (Suc k) * bs + ff_offset f" by (simp add: algebra_simps)
    ultimately show ?thesis using True by (auto simp: same_part_def)
  next
    case False
    then have "get_next_offset scale ddir td f = Some (None, False, False, td, f)"
      unfolding plain_hit [OF p(1)] using r by auto
    then show ?thesis using False p(3) by (simp add: rw_io_u_def fill_rw_def)
  qed
qed

lemma seq_job_ddir: "seq_job ddir bs (td\<lparr>td_rwmix_ddir := d\<rparr>) f = seq_job ddir bs td f"
proof -
  have "get_start_offset (td\<lparr>td_rwmix_ddir := d\<rparr>) f = get_start_offset td f" by (intro start_offset_cong) simp_all
  then show ?thesis by (simp add: seq_job_def plain_job_def)
qed

lemma seq_run:
  "seq_job ddir bs td f \<Longrightarrow> ff_last_pos f ddir = of_nat k * bs + ff_offset f \<Longrightarrow> k + n = file_blocks bs f \<Longrightarrow>
     \<exists>td' f'. job_run scale env (Suc n) td f = Some (map (job_unit ddir bs f) [k..<file_blocks bs f], td', f')"
proof (induction n arbitrary: k td f)
  case 0
  let ?td = "td\<lparr>td_rwmix_ddir := ddir\<rparr>"
  have "rw_io_u scale ddir ?td f = Some (map_option (block_unit bs f) None, ?td, f)"
    using seq_unit [of ddir bs ?td f k scale] 0 unfolding seq_job_ddir by simp
  moreover have "plain_job ddir bs td" using "0.prems"(1) by (simp add: seq_job_def)
  ultimately show ?case using job_step [of ddir bs td scale f None ?td f env 0] "0.prems"(3) by (simp del: job_run.simps)
next
  case (Suc n)
  have p: "plain_job ddir bs td" using Suc.prems(1) by (simp add: seq_job_def)
  obtain td1 f1 where u: "rw_io_u scale ddir (td\<lparr>td_rwmix_ddir := ddir\<rparr>) f = Some (map_option (block_unit bs f) (Some k), td1, f1)" "seq_job ddir bs td1 f1" "same_part f f1"
    "ff_last_pos f1 ddir = of_nat (Suc k) * bs + ff_offset f"
    using seq_unit [of ddir bs "td\<lparr>td_rwmix_ddir := ddir\<rparr>" f k scale] Suc.prems unfolding seq_job_ddir by auto
  note s = same_part_simps [OF u(3), of bs] same_part_unit [OF u(3), of ddir bs]
  have "ff_offset f1 = ff_offset f" using u(3) by (simp add: same_part_def)
  then obtain td' f' where "job_run scale env (Suc n) td1 f1 = Some (map (job_unit ddir bs f) [Suc k..<file_blocks bs f], td', f')"
    using Suc.IH [OF u(2), of "Suc k", unfolded s] u(4) Suc.prems(3) by auto
  then show ?case using job_step [OF p u(1), of env "Suc n"] Suc.prems(3) by (simp add: upt_conv_Cons del: job_run.simps upt_Suc)
qed

section \<open>The properties of the jobs\<close>

lemma init_blocks:
  assumes "random_job ddir bs td f"
  shows "min (ff_real_size f) (ff_io_size f) div to_rw_min_bs (td_o td) = of_nat (file_blocks bs f)" and "to_rw_min_bs (td_o td) \<noteq> 0"
    and "to_zone_mode (td_o td) = ZONE_MODE_NONE" and "\<not> to_norandommap (td_o td)"
proof -
  have "ff_io_size f \<le> ff_real_size f" using assms by (auto simp: random_job_def file_part_def word_le_nat_alt)
  then show "min (ff_real_size f) (ff_io_size f) div to_rw_min_bs (td_o td) = of_nat (file_blocks bs f)"
    using assms by (simp add: random_job_def plain_job_def file_blocks_def word_arith_nat_div min_def)
qed (use assms in \<open>simp_all add: random_job_def plain_job_def\<close>)

lemma check_limits:
  "to_random_generator (td_o td) = g \<Longrightarrow> g \<noteq> FIO_RAND_GEN_LFSR \<Longrightarrow>
     \<exists>g'. check_rand_gen_limits td n = td\<lparr>td_o := (td_o td)\<lparr>to_random_generator := g'\<rparr>\<rparr> \<and> g' \<noteq> FIO_RAND_GEN_LFSR"
  by (cases td; cases "td_o td") (auto simp: check_rand_gen_limits_def)

text \<open>The job after \<^verbatim>\<open>init_random_map\<close>.\<close>

lemma random_start:
  assumes "random_job ddir bs td f" and "to_random_generator (td_o td) \<noteq> FIO_RAND_GEN_LFSR"
    and "in_range scale (file_blocks bs f) (td_random_state td)"
  shows "\<exists>td1 f1 a. init_random_map_file (axmap_new True True (\<lambda>_. True) junk) fl0 td f = Some (True, td1, f1) \<and>
    axmap_job scale ddir bs td1 f1 a \<and> ax_used a = {} \<and> same_part f f1"
proof -
  note b = init_blocks [OF assms(1)]
  have l: "file_blocks bs f < 2 ^ 62" by (rule file_blocks_u64(2) [OF assms(1)])
  then have u: "unat (of_nat (file_blocks bs f) :: u64) = file_blocks bs f" by (intro unat_of_nat_u64) simp
  obtain g where g: "check_rand_gen_limits td (of_nat (file_blocks bs f)) = td\<lparr>td_o := (td_o td)\<lparr>to_random_generator := g\<rparr>\<rparr>" "g \<noteq> FIO_RAND_GEN_LFSR"
    using check_limits [OF refl assms(2)] by blast
  obtain a where a: "axmap_new True True (\<lambda>_. True) junk (of_nat (file_blocks bs f)) = Some a" "ax_ok a" "ax_used a = {}" "ax_nr_bits a = of_nat (file_blocks bs f)"
    using new_ok [of "of_nat (file_blocks bs f)" "\<lambda>_. True" junk] u l by auto
  let ?td = "td\<lparr>td_o := (td_o td)\<lparr>to_random_generator := g\<rparr>\<rparr>" and ?f = "f\<lparr>ff_map := Io_Axmap a\<rparr>"
  have i: "init_random_map_file (axmap_new True True (\<lambda>_. True) junk) fl0 td f = Some (True, ?td, ?f)"
    using b a(1) g by (simp add: init_random_map_file_def Let_def)
  have s: "file_blocks bs ?f = file_blocks bs f" "block_unit bs ?f = block_unit bs f" by (rule same_part_simps, simp add: same_part_def)+
  have "axmap_job scale ddir bs ?td ?f a"
    using assms a(2,4) g(2) u by (simp add: axmap_job_def random_job_def plain_job_def file_part_def s)
  moreover have "same_part f ?f" by (simp add: same_part_def)
  ultimately show ?thesis using i a(3) by blast
qed

text \<open>
  C9: a random job with a map visits every block once. From \<^verbatim>\<open>init_random_map\<close> on, the first
  \<open>n\<close> calls of \<^verbatim>\<open>get_io_u\<close> return whole blocks of the job's part of the file, no
  block twice; they stop short of \<open>n\<close> only when every block has been used, and then they have
  been used all. The scaled draws are assumed to be blocks.
\<close>

theorem random_job_covers:
  assumes "random_job ddir bs td f" and "to_random_generator (td_o td) \<noteq> FIO_RAND_GEN_LFSR"
    and "in_range scale (file_blocks bs f) (td_random_state td)"
  shows "\<exists>td1 f1 ks td2 f2. init_random_map_file (axmap_new True True (\<lambda>_. True) junk) fl0 td f = Some (True, td1, f1) \<and>
    job_run scale env n td1 f1 = Some (map (job_unit ddir bs f) ks, td2, f2) \<and>
    distinct ks \<and> set ks \<subseteq> {..<file_blocks bs f} \<and> length ks = min n (file_blocks bs f)"
proof -
  obtain td1 f1 a where s: "init_random_map_file (axmap_new True True (\<lambda>_. True) junk) fl0 td f = Some (True, td1, f1)"
    "axmap_job scale ddir bs td1 f1 a" "ax_used a = {}" "same_part f f1" using random_start [OF assms] by blast
  from axmap_covers [OF s(2), of env n] s(1,3) same_part_simps [OF s(4), of bs] same_part_unit [OF s(4), of ddir bs] show ?thesis by auto
qed



section \<open>Examples\<close>

text \<open>Ten blocks of 16 KB from the second megabyte of a file of 4 MB.\<close>

definition sample_options :: "bool \<Rightarrow> rand_generator \<Rightarrow> thread_options" where
  "sample_options rnd gen = \<lparr>to_read = False, to_write = True, to_random = rnd, to_trim = False, to_rwmix = (\<lambda>_. 50), to_fsync_blocks = 0,
     to_fdatasync_blocks = 0, to_override_sync = False, to_timeout = 0, to_random_distribution = FIO_RAND_DIST_RANDOM, to_zone_split_nr = (\<lambda>_. 0),
     to_min_bs = (\<lambda>_. 16384), to_max_bs = (\<lambda>_. 16384), to_ba = (\<lambda>_. 16384), to_bssplit = (\<lambda>_. []), to_bs_unaligned = False, to_perc_rand = (\<lambda>_. 100), to_rw_min_bs = 16384,
     to_bs_is_seq_rand = False, to_zone_mode = ZONE_MODE_NONE, to_zone_range = 0, to_zone_size = 0, to_zone_skip = 0, to_norandommap = False,
     to_softrandommap = False, to_random_generator = gen, to_generator_set = False, to_time_based = False, to_nonuniform = False,
     to_ddir_seq_nr = 1, to_ddir_seq_add = 0, to_rw_seq = RW_SEQ_SEQ, to_file_append = False, to_offset_increment_percent = 0,
     to_offset_increment = 0, to_start_offset_percent = 0, to_start_offset = 1048576, to_start_offset_align = None\<rparr>"

definition sample_job :: "bool \<Rightarrow> rand_generator \<Rightarrow> thread_data" where
  "sample_job rnd gen = \<lparr>td_o = sample_options rnd gen, td_random_state = init_rand False, td_seq_rand_state = (\<lambda>_. init_rand False), td_bsrange_state = (\<lambda>_. init_rand False), td_rand_seed = 7,
     td_zone_state = init_rand False, td_zone_state_index = (\<lambda>_. []), td_rwmix_state = init_rand False, td_rwmix_issues = 0, td_rwmix_ddir = DDIR_READ,
     td_io_issues = (\<lambda>_. 0), td_last_was_sync = False, td_sync_file_range_nr = 0, td_rate_next_io_time = (\<lambda>_. 0), td_terminate = False,
     td_ddir_seq_nr = 1,
     td_subjob_number = 0, td_zone_bytes = 0, td_io_skip_bytes = 0\<rparr>"

definition sample_file :: fio_file where
  "sample_file = \<lparr>ff_is_file = True, ff_real_size = 4194304, ff_offset = 1048576, ff_io_size = 163840,
     ff_last_pos = (\<lambda>_. 0), ff_last_start = (\<lambda>_. 0), ff_map = No_Map\<rparr>"

definition exact_scale :: "u64 \<Rightarrow> u64 \<Rightarrow> u64 \<Rightarrow> u64" where
  "exact_scale l r m = of_nat (unat l * unat r div (unat m + 1))"

lemma exact_in_range:
  assumes "0 < n" and "n < 2 ^ 64"
  shows "in_range exact_scale n st"
  unfolding in_range_def
proof (intro allI impI)
  fix r assume "r \<le> rand_max st"
  then have r: "unat r < unat (rand_max st) + 1" by (simp add: word_le_nat_alt)
  have "n * unat r < n * (unat (rand_max st) + 1)" using r assms(1) by (rule mult_strict_left_mono)
  then have "n * unat r div (unat (rand_max st) + 1) < n" by (simp add: div_less_iff_less_mult)
  then show "unat (exact_scale (of_nat n) r (rand_max st)) < n"
    using assms(2) by (simp add: exact_scale_def unat_of_nat_u64)
qed

lemma sample_blocks: "file_blocks 16384 sample_file = 10" and sample_part: "file_part 16384 sample_file"
  by (simp_all add: file_blocks_def file_part_def sample_file_def)

lemma sample_plain: "plain_job DDIR_WRITE 16384 (sample_job rnd gen)"
  by (simp add: plain_job_def sample_job_def sample_options_def ddir_rw_def)

lemma sample_random: "random_job DDIR_WRITE 16384 (sample_job True gen) sample_file"
  using sample_plain sample_blocks sample_part by (simp add: random_job_def) (simp add: sample_job_def sample_options_def)

theorem random_job_covers_witness:
  "\<exists>td1 f1 ks td2 f2.
     init_random_map_file (axmap_new True True (\<lambda>_. True) (\<lambda>_ _. 0)) (fresh_lfsr 3 1 0) (sample_job True FIO_RAND_GEN_TAUSWORTHE) sample_file = Some (True, td1, f1) \<and>
     job_run exact_scale (\<lambda>_. (0, 0, DDIR_INVAL, 0, 0)) 100 td1 f1 = Some (map (job_unit DDIR_WRITE 16384 sample_file) ks, td2, f2) \<and> distinct ks \<and> length ks = 10"
  using random_job_covers [of DDIR_WRITE 16384 "sample_job True FIO_RAND_GEN_TAUSWORTHE" sample_file exact_scale "\<lambda>_ _. 0" "fresh_lfsr 3 1 0" "\<lambda>_. (0, 0, DDIR_INVAL, 0, 0)" 100, OF sample_random]
    exact_in_range [of 10] sample_blocks by (auto simp: sample_job_def sample_options_def)



section \<open>Lengths\<close>

lemma and_pred_zero: "(m :: nat) \<noteq> 0 \<Longrightarrow> m AND (m - 1) = 0 \<Longrightarrow> \<exists>k. m = 2 ^ k"
proof (induction m rule: less_induct)
  case (less m)
  have d: "drop_bit 1 m AND drop_bit 1 (m - 1) = 0" using less.prems(2) by (metis drop_bit_and drop_bit_of_0)
  show ?case
  proof (cases "even m")
    case True
    then obtain n where n: "m = 2 * n" by blast
    have "drop_bit 1 m = n" "drop_bit 1 (m - 1) = n - 1" using n less.prems(1) by (simp_all add: drop_bit_Suc)
    then have "\<exists>k. n = 2 ^ k" using less.IH [of n] d less.prems(1) n by simp
    then show ?thesis using n by (metis power_Suc)
  next
    case False
    then obtain n where n: "m = 2 * n + 1" using oddE by blast
    have "drop_bit 1 m = n" "drop_bit 1 (m - 1) = n" using n by (simp_all add: drop_bit_Suc)
    then show ?thesis using d n by (intro exI [of _ 0]) simp
  qed
qed

lemma and_not_eq: "x AND NOT y = x - (x AND y)" for x y :: "'a::len word"
proof -
  have "(x AND NOT y) + (x AND y) = (x AND NOT y) OR (x AND y)" by (rule disjunctive_add) (auto simp: bit_simps)
  also have "\<dots> = x" by (rule bit_word_eqI) (auto simp: bit_simps)
  finally show ?thesis by (simp add: algebra_simps)
qed

lemma power_2_round:
  assumes "is_power_of_2 m"
  shows "len AND NOT (m - 1) = len - len mod m"
proof -
  have nz: "m \<noteq> 0" "m AND (m - 1) = 0" using assms by (simp_all add: is_power_of_2_def)
  then have "unat m AND (unat m - 1) = 0" by (metis unat_minus_one unsigned_0 unsigned_and_eq)
  then obtain k where k: "unat m = 2 ^ k" using and_pred_zero [of "unat m"] nz by (auto simp: unat_gt_0)
  then have "of_nat (unat m) = (of_nat (2 ^ k) :: u64)" by simp
  then have m: "m = 2 ^ k" by simp
  show ?thesis unfolding and_not_eq m by (simp add: mask_eq_exp_minus_1 [symmetric] take_bit_eq_mask [symmetric] take_bit_eq_mod)
qed

lemma round_down:
  fixes len :: u64
  assumes "minbs \<noteq> 0" and "minbs \<le> len"
  shows "minbs \<le> len - len mod minbs" and "unat minbs dvd unat (len - len mod minbs)"
proof -
  have p: "0 < unat minbs" using assms(1) by (simp add: unat_gt_0)
  have "len mod minbs \<le> len" by (simp add: word_le_nat_alt unat_mod)
  then have u: "unat (len - len mod minbs) = unat len - unat len mod unat minbs" by (simp add: unat_sub unat_mod)
  also have m: "\<dots> = unat minbs * (unat len div unat minbs)" by (simp add: minus_mod_eq_mult_div)
  finally show "unat minbs dvd unat (len - len mod minbs)" by simp
  have "1 \<le> unat len div unat minbs" using assms(2) p by (simp add: word_le_nat_alt div_greater_zero_iff Suc_leI)
  then have "unat minbs * 1 \<le> unat minbs * (unat len div unat minbs)" by (intro mult_le_mono2)
  then show "minbs \<le> len - len mod minbs" unfolding word_le_nat_alt u m by simp
qed

text \<open>One draw of a length, without a split.\<close>

lemma draw_in_range:
  fixes fit and l
  assumes "to_bssplit o' ddir = []" and "to_min_bs o' ddir \<noteq> 0" and "to_min_bs o' ddir \<le> to_max_bs o' ddir"
    and "unat (to_max_bs o' ddir) < 2 ^ 62" and "scale (to_max_bs o' ddir) r mx \<le> to_max_bs o' ddir"
  defines "len \<equiv> draw_buflen scale fit o' ddir mx r l"
  shows "to_min_bs o' ddir \<le> len" and "len \<le> to_max_bs o' ddir"
    and "to_bs_unaligned o' \<or> len = to_max_bs o' ddir \<or> unat (to_min_bs o' ddir) dvd unat len"
proof -
  let ?mn = "to_min_bs o' ddir" and ?mx = "to_max_bs o' ddir"
  define x where "x = ?mn + scale ?mx r mx"
  have "unat ?mn + unat (scale ?mx r mx) < 2 ^ 64" using assms(3-5) by (simp add: word_le_nat_alt)
  then have "unat x = unat ?mn + unat (scale ?mx r mx)" unfolding x_def by (subst unat_add_lem [THEN iffD1]) simp_all
  then have x: "?mn \<le> x" by (simp add: word_le_nat_alt)
  note rd = round_down [OF assms(2) x]
  define y where "y = (if to_bs_unaligned o' then x else x - x mod ?mn)"
  have y: "?mn \<le> y" "to_bs_unaligned o' \<or> unat ?mn dvd unat y" using x rd by (simp_all add: y_def)
  have "len = (if y > ?mx then ?mx else y)"
    unfolding len_def draw_buflen_def Let_def y_def x_def [symmetric] using assms(1) by (auto simp: x_def power_2_round)
  then show "?mn \<le> len" "len \<le> ?mx" "to_bs_unaligned o' \<or> len = ?mx \<or> unat ?mn dvd unat len" using y assms(3) by (auto simp: not_less)
qed



end
