(* ===== verification/Emu_Job.thy ===== *)
theory Emu_Job
  imports Emu_EndToEnd Fio_Jobs
begin

text \<open>
  A write job of fio on the emulator: the units that \<^verbatim>\<open>get_io_u\<close> makes, one after the
  other, through the engine, the shared memory, the FTL thread and the back end into the log.
\<close>

section \<open>An emulator at rest\<close>

definition at_rest :: "u8 list \<Rightarrow> emu_sys \<Rightarrow> bool" where
  "at_rest log s \<longleftrightarrow> emu_reach s \<and> hcmd_used (st_hcl (sys_ftl s)) = {} \<and> sys_be s = Be_Idle \<and> sys_file s = Some log \<and>
     (\<exists>x fs. shm_repr (st_shm (sys_ftl s)) (x # fs) [])"

text \<open>The engine's open file.\<close>

definition engine_open :: "nat \<Rightarrow> fio_state \<Rightarrow> bool" where
  "engine_open file eng \<longleftrightarrow> \<not> fio_mu eng \<and> (\<exists>fed. eng_data eng file = Some fed \<and> base_ok (fed_shm_base fed))"

definition unit_io :: "nat \<Rightarrow> io_unit \<Rightarrow> io_u" where
  "unit_io file u = \<lparr>io_ddir = fst u, io_offset = fst (snd u), io_xfer_buflen = snd (snd u), io_file = file\<rparr>"

text \<open>The page that every write stores: the first buffer.\<close>

definition first_page :: "emu_sys \<Rightarrow> u8 list" where
  "first_page s = mem_bytes (sys_mem s) (L2P_get_buffer_addr (st_mem_base (sys_ftl s)) 0) LOG_DATA_LEN"

text \<open>Serving the units one at a time: fio submits the unit, which is then the only ready command, with
  its block number and length, and the threads take the emulator to rest.\<close>

primrec serves :: "nat \<Rightarrow> io_unit list \<Rightarrow> fio_state \<Rightarrow> emu_sys \<Rightarrow> emu_sys \<Rightarrow> bool" where
  "serves file [] eng s t \<longleftrightarrow> s = t"
| "serves file (u # us) eng s t \<longleftrightarrow> (\<exists>eng' h x fs s' log.
     fio_emussd_queue True False (unit_io file u) (eng, st_shm (sys_ftl s)) = Inr (FIO_Q_COMPLETED, eng', h) \<and>
     shm_repr h fs [x] \<and> cmd_payload (shm_slots h x) = (SHM_WRITE_OPS, ucast (fst (snd u) div 4096), ucast (snd (snd u))) \<and>
     emu_step\<^sup>*\<^sup>* (with_shm h s) s' \<and> at_rest log s' \<and> serves file us eng' s' t)"

lemma serve_unit:
  assumes "at_rest log s" and "engine_open file eng" and "fst u = DDIR_WRITE" and "snd (snd u) = 16384"
  shows "\<exists>eng' h x fs s'. fio_emussd_queue True False (unit_io file u) (eng, st_shm (sys_ftl s)) = Inr (FIO_Q_COMPLETED, eng', h) \<and>
     shm_repr h fs [x] \<and> cmd_payload (shm_slots h x) = (SHM_WRITE_OPS, ucast (fst (snd u) div 4096), ucast (snd (snd u))) \<and>
     emu_step\<^sup>*\<^sup>* (with_shm h s) s' \<and> at_rest (log @ log_record (fixed_page, first_page s)) s' \<and> engine_open file eng' \<and> first_page s' = first_page s"
proof -
  obtain x fs where r: "emu_reach s" "hcmd_used (st_hcl (sys_ftl s)) = {}" "sys_be s = Be_Idle" "sys_file s = Some log"
    "shm_repr (st_shm (sys_ftl s)) (x # fs) []" using assms(1) by (auto simp: at_rest_def)
  obtain fed where e: "\<not> fio_mu eng" "eng_data eng file = Some fed" "base_ok (fed_shm_base fed)" using assms(2) by (auto simp: engine_open_def)
  let ?io = "unit_io file u" and ?eng = "eng\<lparr>fio_c := fio_c eng + 1\<rparr>"
  have io: "eng_data eng (io_file ?io) = Some fed" "fio_ro_check True False ?io" "ddir_ops (io_ddir ?io) = Some SHM_WRITE_OPS" "io_ddir ?io \<noteq> DDIR_TRIM"
    using e(2) assms(3) by (simp_all add: unit_io_def fio_ro_check_def ddir_ops_def)
  obtain h where h: "fio_emussd_queue True False ?io (eng, st_shm (sys_ftl s)) = Inr (FIO_Q_COMPLETED, ?eng, h)" "shm_repr h fs [x]"
    "cmd_payload (shm_slots h x) = (SHM_WRITE_OPS, ucast (fst (snd u) div 4096), ucast (snd (snd u)))"
    using queue_rw [OF r(5) e(1) io(1) e(3) io(2,3)] by (auto simp: unit_io_def)
  have st: "emu_step s (with_shm h s)" using emu_step.fio_command [OF h(1) io(4)] io(1) e(3) by simp
  have "(ucast (snd (snd u)) :: u32) div HOST_BLOCK_SIZE div 4 = 1" using assms(4) by (simp add: HOST_BLOCK_SIZE_def KB_def)
  then obtain t f where t: "emu_step\<^sup>*\<^sup>* (with_shm h s) t" "emu_ok (sys_ftl t) f [] [] [] (fs @ [x]) []" "hcmd_used (st_hcl (sys_ftl t)) = {}"
    "sys_be t = Be_Idle" "sys_mem t = sys_mem s" "st_mem_base (sys_ftl t) = st_mem_base (sys_ftl s)"
    "sys_file t = Some (log @ log_record (fixed_page, first_page s))"
    using write_trace [of "with_shm h s" fs x log "ucast (fst (snd u) div 4096)" "ucast (snd (snd u))"] emu_next [OF r(1) st] r(2-4) h(2,3)
    by (auto simp: first_page_def)
  have "shm_repr (st_shm (sys_ftl t)) (fs @ [x]) []" using t(2) by (simp add: emu_ok_def)
  then have "\<exists>y ys. shm_repr (st_shm (sys_ftl t)) (y # ys) []" by (cases fs) auto
  then have "at_rest (log @ log_record (fixed_page, first_page s)) t"
    using t reach_steps [OF t(1) emu_next [OF r(1) st]] by (simp add: at_rest_def)
  moreover have "engine_open file ?eng" using e by (simp add: engine_open_def)
  moreover have "first_page t = first_page s" using t by (simp add: first_page_def)
  ultimately show ?thesis using h t(1) by blast
qed

lemma serve_units:
  "at_rest log s \<Longrightarrow> engine_open file eng \<Longrightarrow> \<forall>u \<in> set us. fst u = DDIR_WRITE \<and> snd (snd u) = 16384 \<Longrightarrow>
     \<exists>t. serves file us eng s t \<and> at_rest (log @ concat (replicate (length us) (log_record (fixed_page, first_page s)))) t"
proof (induction us arbitrary: log s eng)
  case Nil
  then show ?case by simp
next
  case (Cons u us)
  have u: "fst u = DDIR_WRITE" "snd (snd u) = 16384" using Cons.prems(3) by simp_all
  obtain eng' h x fs s' where s: "fio_emussd_queue True False (unit_io file u) (eng, st_shm (sys_ftl s)) = Inr (FIO_Q_COMPLETED, eng', h)"
     "shm_repr h fs [x]" "cmd_payload (shm_slots h x) = (SHM_WRITE_OPS, ucast (fst (snd u) div 4096), ucast (snd (snd u)))"
     "emu_step\<^sup>*\<^sup>* (with_shm h s) s'" "at_rest (log @ log_record (fixed_page, first_page s)) s'" "engine_open file eng'" "first_page s' = first_page s"
    using serve_unit [OF Cons.prems(1,2) u] by blast
  obtain t where t: "serves file us eng' s' t"
    "at_rest ((log @ log_record (fixed_page, first_page s)) @ concat (replicate (length us) (log_record (fixed_page, first_page s)))) t"
    using Cons.IH [OF s(5,6)] Cons.prems(3) s(7) by auto
  have "serves file (u # us) eng s t" using s(1-5) t(1) by auto
  moreover have "at_rest (log @ concat (replicate (length (u # us)) (log_record (fixed_page, first_page s)))) t" using t(2) by simp
  ultimately show ?case by blast
qed

section \<open>A job from start to end\<close>

text \<open>
  C5: a random write job of 16 KB blocks on the emulator. With the emulator at rest and the engine
  open, the job makes a unit for every block of its part of the file, each once, and ends; served one
  at a time, every unit becomes a ready command with its block number, and the threads can carry it to
  its end. At the end the emulator is at rest and the log has one more record per block, but all at
  the same flash address and with the contents of the first buffer.
\<close>

theorem write_job_served:
  assumes "random_job DDIR_WRITE 16384 td f" and "to_random_generator (td_o td) \<noteq> FIO_RAND_GEN_LFSR"
    and "in_range scale (file_blocks 16384 f) (td_random_state td)" and "at_rest log s" and "engine_open file eng"
  shows "\<exists>td1 f1 ks td2 f2 t. init_random_map_file (axmap_new True True (\<lambda>_. True) junk) fl0 td f = Some (True, td1, f1) \<and>
    job_run scale env (Suc (file_blocks 16384 f)) td1 f1 = Some (map (job_unit DDIR_WRITE 16384 f) ks, td2, f2) \<and>
    distinct ks \<and> set ks = {..<file_blocks 16384 f} \<and> serves file (map (job_unit DDIR_WRITE 16384 f) ks) eng s t \<and>
    at_rest (log @ concat (replicate (file_blocks 16384 f) (log_record (fixed_page, first_page s)))) t"
proof -
  obtain td1 f1 a where i: "init_random_map_file (axmap_new True True (\<lambda>_. True) junk) fl0 td f = Some (True, td1, f1)"
    "axmap_job scale DDIR_WRITE 16384 td1 f1 a" "ax_used a = {}" "same_part f f1" using random_start [OF assms(1-3)] by blast
  note p = same_part_simps [OF i(4), of 16384] same_part_unit [OF i(4), of DDIR_WRITE 16384]
  obtain ks td2 f2 where r: "job_run scale env (Suc (file_blocks 16384 f)) td1 f1 = Some (map (job_unit DDIR_WRITE 16384 f) ks, td2, f2)"
    "distinct ks" "set ks \<subseteq> {..<file_blocks 16384 f}" "length ks = file_blocks 16384 f"
    using axmap_covers [OF i(2), of env "Suc (file_blocks 16384 f)"] i(3) p by auto
  have "card (set ks) = file_blocks 16384 f" using distinct_card [OF r(2)] r(4) by simp
  then have all: "set ks = {..<file_blocks 16384 f}" using r(3) by (intro card_subset_eq) simp_all
  have "\<forall>u \<in> set (map (job_unit DDIR_WRITE 16384 f) ks). fst u = DDIR_WRITE \<and> snd (snd u) = 16384"
    by (simp add: job_unit_def block_unit_def)
  from serve_units [OF assms(4,5) this] r(4) obtain t where "serves file (map (job_unit DDIR_WRITE 16384 f) ks) eng s t"
    "at_rest (log @ concat (replicate (file_blocks 16384 f) (log_record (fixed_page, first_page s)))) t" by auto
  then show ?thesis using i(1) r(1,2) all by blast
qed

lemma boot_at_rest: "at_rest log (demo_boot log)"
proof -
  have "[0..<CMD_SLOT_NUM] = 0 # [1..<CMD_SLOT_NUM]" using upt_conv_Cons [of 0 CMD_SLOT_NUM] by (simp add: CMD_SLOT_NUM_def del: upt_Suc)
  then have "shm_repr (st_shm (sys_ftl (demo_boot log))) (0 # [1..<CMD_SLOT_NUM]) []" using demo_boot_ok(2) [of log] by (simp add: emu_ok_def)
  then show ?thesis using demo_reach demo_boot_ok(3-5) by (auto simp: at_rest_def)
qed

theorem write_job_served_witness:
  "\<exists>ks t. set ks = {..<10} \<and> distinct ks \<and> serves 0 (map (job_unit DDIR_WRITE 16384 sample_file) ks) demo_fio (demo_boot []) t \<and>
     at_rest (concat (replicate 10 (log_record (fixed_page, first_page (demo_boot []))))) t"
proof -
  have g: "to_random_generator (td_o (sample_job True FIO_RAND_GEN_TAUSWORTHE)) \<noteq> FIO_RAND_GEN_LFSR" by (simp add: sample_job_def sample_options_def)
  have e: "engine_open 0 demo_fio" using demo_base by (simp add: engine_open_def demo_fio_def)
  have r: "in_range exact_scale (file_blocks 16384 sample_file) (td_random_state (sample_job True FIO_RAND_GEN_TAUSWORTHE))"
    unfolding sample_blocks by (rule exact_in_range) simp_all
  from write_job_served [OF sample_random g r boot_at_rest e, where log = "[]"] show ?thesis unfolding sample_blocks by fastforce
qed

end
