(* ===== verification/Fio_Direction.thy ===== *)
theory Fio_Direction
  imports Fio_Jobs
begin

text \<open>
  The direction of a job's next unit (\<^verbatim>\<open>set_rw_ddir\<close> and what it calls in
  \<^verbatim>\<open>fio4emu/io_u.c\<close>): it is always one that the options allow.
\<close>

section \<open>Percentages\<close>

lemma rand_between_percent:
  assumes "in_range scale 100 st"
  shows "\<exists>v st'. rand_between scale 1 100 st = Some (v, st') \<and> 1 \<le> unat v \<and> unat v \<le> 100 \<and> rand_max st' = rand_max st"
proof -
  have sc: "unat (scale 100 r (rand_max st)) < 100" if "r \<le> rand_max st" for r using assms that by (simp add: in_range_def)
  have one: "unat (1 + x) = unat x + 1" if "unat x < 100" for x :: u64 using that by (subst unat_add_lem [THEN iffD1]) simp_all
  show ?thesis
  proof (cases st)
    case (State32 t)
    obtain r t' where r: "rand32 t = (r, t')" by fastforce
    have "frand st = (ucast r, State32 t')" using State32 r by (simp add: frand_def)
    then have le: "(ucast r :: u64) \<le> rand_max st" using frand_bound [of st] by simp
    define v where "v = scale 100 (ucast r) (ucast FRAND32_MAX)"
    have v: "unat v < 100" using sc [OF le] State32 by (simp add: v_def rand_max_def)
    then have v31: "v < 2 ^ 31" by (simp add: word_less_nat_alt)
    have "unat (ucast v :: u32) = unat v" using v by (simp add: unsigned_ucast_eq take_bit_nat_eq_self)
    then have "(ucast (ucast v :: u32) :: u64) = v" by (simp add: word_unat_eq_iff unsigned_ucast_eq unsigned_take_bit_eq take_bit_nat_eq_self)
    then have "rand_between scale 1 100 st = Some (1 + v, State32 t')"
      using State32 r v31 by (simp add: rand_between_def rand32_upto_def Let_def v_def [symmetric])
    then show ?thesis using one [OF v] v State32 by (simp add: rand_max_def)
  next
    case (State64 q)
    obtain r q' where r: "rand64 q = (r, q')" by fastforce
    have "frand st = (r, State64 q')" using State64 r by (simp add: frand_def)
    then have le: "r \<le> rand_max st" using frand_bound [of st] by simp
    have v: "unat (scale 100 r FRAND64_MAX) < 100" using sc [OF le] State64 by (simp add: rand_max_def)
    have "rand_between scale 1 100 st = Some (1 + scale 100 r FRAND64_MAX, State64 q')"
      using State64 r by (simp add: rand_between_def rand64_upto_def)
    then show ?thesis using one [OF v] v State64 by (simp add: rand_max_def)
  qed
qed

section \<open>Directions\<close>

definition allowed :: "thread_data \<Rightarrow> fio_ddir \<Rightarrow> bool" where
  "allowed td d = (case d of
     DDIR_READ \<Rightarrow> to_read (td_o td)
   | DDIR_WRITE \<Rightarrow> to_write (td_o td)
   | DDIR_TRIM \<Rightarrow> to_trim (td_o td)
   | DDIR_SYNC \<Rightarrow> should_fsync td \<and> sync_due td (to_fsync_blocks (td_o td))
   | DDIR_DATASYNC \<Rightarrow> should_fsync td \<and> sync_due td (to_fdatasync_blocks (td_o td))
   | DDIR_SYNC_FILE_RANGE \<Rightarrow> should_fsync td \<and> sync_due td (td_sync_file_range_nr td)
   | DDIR_INVAL \<Rightarrow> to_timeout (td_o td) \<noteq> 0 \<or> td_terminate td
   | _ \<Rightarrow> False)"

text \<open>In a mixed job, the last direction was reading or writing.\<close>

definition mix_ok :: "thread_data \<Rightarrow> bool" where
  "mix_ok td \<longleftrightarrow> (td_rw td \<longrightarrow> td_rwmix_ddir td = DDIR_READ \<or> td_rwmix_ddir td = DDIR_WRITE)"

lemma rate_ddir_allowed:
  assumes "ddir_rw ddir" and "td_rw td \<Longrightarrow> ddir = DDIR_READ \<or> ddir = DDIR_WRITE"
  shows "\<exists>d. rate_ddir now later td ddir = Some d \<and> (d = ddir \<or> td_rw td \<and> d = other_ddir ddir \<or> d = DDIR_INVAL \<and> allowed td d)"
proof -
  have "td_rw td \<Longrightarrow> ddir_rw (other_ddir ddir)" using assms(2) by (auto simp: other_ddir_def ddir_rw_def)
  then show ?thesis using assms(1) by (auto simp: rate_ddir_def Let_def allowed_def)
qed

lemma mixed_direction:
  assumes "in_range scale 100 (td_rwmix_state td)" and "td_rw td" and "mix_ok td"
  shows "\<exists>d td1 td2. get_rand_ddir scale td = Some (d, td1) \<and> (if d \<noteq> td_rwmix_ddir td1 then set_rwmix_bytes td1 else Some td1) = Some td2 \<and>
    (d = DDIR_READ \<or> d = DDIR_WRITE) \<and> td_o td2 = td_o td \<and> td_terminate td2 = td_terminate td \<and>
    in_range scale 100 (td_rwmix_state td2)"
proof -
  obtain v st where v: "rand_between scale 1 100 (td_rwmix_state td) = Some (v, st)" "rand_max st = rand_max (td_rwmix_state td)"
    using rand_between_percent [OF assms(1)] by blast
  have "in_range scale 100 st" using assms(1) v(2) by (simp add: in_range_def)
  moreover have "ddir_rw (other_ddir (td_rwmix_ddir td))" using assms(2,3) by (auto simp: mix_ok_def other_ddir_def ddir_rw_def)
  ultimately show ?thesis using v(1) by (auto simp: get_rand_ddir_def set_rwmix_bytes_def)
qed

lemma rated_allowed:
  assumes "td_o td1 = td_o td" and "td_terminate td1 = td_terminate td" and "ddir_rw ddir" and "allowed td ddir"
    and "td_rw td \<Longrightarrow> ddir = DDIR_READ \<or> ddir = DDIR_WRITE"
  shows "\<exists>d. rate_ddir now later td1 ddir = Some d \<and> allowed td d \<and> (td_rw td \<longrightarrow> d = DDIR_READ \<or> d = DDIR_WRITE \<or> d = DDIR_INVAL)"
proof -
  have rw: "td_rw td1 = td_rw td" using assms(1) by (simp add: td_rw_def)
  obtain d where d: "rate_ddir now later td1 ddir = Some d" "d = ddir \<or> td_rw td1 \<and> d = other_ddir ddir \<or> d = DDIR_INVAL \<and> allowed td1 d"
    using rate_ddir_allowed [of ddir td1] assms(3,5) rw by blast
  have o: "allowed td (other_ddir ddir)" "other_ddir ddir = DDIR_READ \<or> other_ddir ddir = DDIR_WRITE" if "td_rw td"
    using that assms(5) by (auto simp: allowed_def other_ddir_def td_rw_def)
  have "allowed td d" using d(2) assms(1,2,4) o(1) rw by (auto simp: allowed_def)
  then show ?thesis using d o(2) assms(5) rw by auto
qed

lemma rw_ddir_allowed:
  assumes "to_read (td_o td) \<or> to_write (td_o td) \<or> to_trim (td_o td)" and "mix_ok td" and "in_range scale 100 (td_rwmix_state td)"
  shows "\<exists>d td'. get_rw_ddir scale now later td = Some (d, td') \<and> allowed td d \<and> td_o td' = td_o td \<and> in_range scale 100 (td_rwmix_state td') \<and>
    (d \<noteq> DDIR_INVAL \<longrightarrow> mix_ok td')"
proof (cases "should_fsync td \<and> (sync_due td (to_fsync_blocks (td_o td)) \<or> sync_due td (to_fdatasync_blocks (td_o td)) \<or> sync_due td (td_sync_file_range_nr td))")
  case True
  then show ?thesis using assms(2,3) by (auto simp: get_rw_ddir_def allowed_def Let_def)
next
  case False
  define pick where "pick = (if td_rw td then
      if \<not> ddir_rw (td_rwmix_ddir td) then None
      else if td_io_issues td (td_rwmix_ddir td) \<ge> td_rwmix_issues td then do {
        (d, td1) \<leftarrow> get_rand_ddir scale td;
        td2 \<leftarrow> (if d \<noteq> td_rwmix_ddir td1 then set_rwmix_bytes td1 else Some td1);
        Some (d, td2\<lparr>td_rwmix_ddir := d\<rparr>)
      }
      else Some (td_rwmix_ddir td, td)
    else Some (if to_read (td_o td) then DDIR_READ else if to_write (td_o td) then DDIR_WRITE else if to_trim (td_o td) then DDIR_TRIM else DDIR_INVAL, td))"
  have g: "get_rw_ddir scale now later td = do { (ddir, td1) \<leftarrow> pick; d \<leftarrow> rate_ddir now later td1 ddir; Some (d, td1\<lparr>td_rwmix_ddir := d\<rparr>) }"
    using False by (auto simp: get_rw_ddir_def Let_def pick_def)
  obtain ddir td1 where p: "pick = Some (ddir, td1)" "td_o td1 = td_o td" "td_terminate td1 = td_terminate td" "ddir_rw ddir" "allowed td ddir"
    "td_rw td \<Longrightarrow> ddir = DDIR_READ \<or> ddir = DDIR_WRITE" "in_range scale 100 (td_rwmix_state td1)"
  proof (cases "td_rw td")
    case True
    obtain d td1 td2 where m: "get_rand_ddir scale td = Some (d, td1)" "(if d \<noteq> td_rwmix_ddir td1 then set_rwmix_bytes td1 else Some td1) = Some td2"
      "d = DDIR_READ \<or> d = DDIR_WRITE" "td_o td2 = td_o td" "td_terminate td2 = td_terminate td" "in_range scale 100 (td_rwmix_state td2)"
      using mixed_direction [OF assms(3) True assms(2)] by blast
    have w: "to_read (td_o td)" "to_write (td_o td)" using True by (simp_all add: td_rw_def)
    have r: "td_rwmix_ddir td = DDIR_READ \<or> td_rwmix_ddir td = DDIR_WRITE" using assms(2) True by (simp add: mix_ok_def)
    show ?thesis
    proof (cases "td_io_issues td (td_rwmix_ddir td) \<ge> td_rwmix_issues td")
      case True
      then show ?thesis using that [of d "td2\<lparr>td_rwmix_ddir := d\<rparr>"] \<open>td_rw td\<close> m w r by (auto simp: pick_def ddir_rw_def allowed_def)
    next
      case False
      then show ?thesis using that [of "td_rwmix_ddir td" td] \<open>td_rw td\<close> assms(3) w r by (auto simp: pick_def ddir_rw_def allowed_def)
    qed
  next
    case False
    define d where "d = (if to_read (td_o td) then DDIR_READ else if to_write (td_o td) then DDIR_WRITE else DDIR_TRIM)"
    have "pick = Some (d, td)" using False assms(1) by (auto simp: pick_def d_def)
    moreover have "ddir_rw d" "allowed td d" using assms(1) by (auto simp: d_def ddir_rw_def allowed_def)
    ultimately show ?thesis using that [of d td] False assms(3) by simp
  qed
  obtain d where d: "rate_ddir now later td1 ddir = Some d" "allowed td d" "td_rw td \<longrightarrow> d = DDIR_READ \<or> d = DDIR_WRITE \<or> d = DDIR_INVAL"
    using rated_allowed [OF p(2-6)] by blast
  have "get_rw_ddir scale now later td = Some (d, td1\<lparr>td_rwmix_ddir := d\<rparr>)" using g p(1) d(1) by simp
  moreover have "d \<noteq> DDIR_INVAL \<longrightarrow> mix_ok (td1\<lparr>td_rwmix_ddir := d\<rparr>)" using d(3) p(2) by (auto simp: mix_ok_def td_rw_def)
  ultimately show ?thesis using d(2) p(2,7) by auto
qed



end
