(* ===== verification/Fio_Zones.thy ===== *)
theory Fio_Zones
  imports Fio_Direction
begin

text \<open>
  Zoned random jobs of fio: the table of 100 entries that turns a percentage of the accesses into a
  zone of the file (\<^verbatim>\<open>fio4emu/zone-dist.c\<close>), and the blocks that a job chooses with it
  (\<^verbatim>\<open>__get_next_rand_offset_zoned_abs\<close>).
\<close>

section \<open>The table\<close>

record zone_split =
  access_perc :: u8
  zs_size_perc :: u8
  zs_size :: u64

definition zone_entry :: "u32 \<Rightarrow> u64 \<Rightarrow> zone_split \<Rightarrow> zone_split_index" where
  "zone_entry sprev sprev_sz zsp =
     \<lparr>size_perc = ucast (sprev + ucast (zs_size_perc zsp)), size_perc_prev = ucast sprev,
      zsi_size = sprev_sz + zs_size zsp, zsi_size_prev = sprev_sz\<rparr>"

text \<open>The inner loop writes \<open>n\<close> entries from \<open>j\<close> on.\<close>

primrec fill_entries :: "nat \<Rightarrow> nat \<Rightarrow> zone_split_index \<Rightarrow> zone_split_index list \<Rightarrow> zone_split_index list option" where
  "fill_entries 0 j e tab = Some tab"
| "fill_entries (Suc n) j e tab = (if j < length tab then fill_entries n (j + 1) e (tab[j := e]) else None)"

primrec gen_index_loop :: "zone_split list \<Rightarrow> u32 \<Rightarrow> u32 \<Rightarrow> u64 \<Rightarrow> zone_split_index list \<Rightarrow> zone_split_index list option" where
  "gen_index_loop [] aprev sprev sprev_sz tab = Some tab"
| "gen_index_loop (zsp # zs) aprev sprev sprev_sz tab = do {
     tab1 \<leftarrow> fill_entries (unat (access_perc zsp)) (unat aprev) (zone_entry sprev sprev_sz zsp) tab;
     gen_index_loop zs (aprev + ucast (access_perc zsp)) (sprev + ucast (zs_size_perc zsp)) (sprev_sz + zs_size zsp) tab1
   }"

text \<open>\<^verbatim>\<open>__td_zone_gen_index\<close> for the zones of a direction; \<open>junk\<close> is what
  \<^verbatim>\<open>malloc\<close> returns.\<close>

definition zone_gen_index :: "zone_split list \<Rightarrow> zone_split_index list \<Rightarrow> zone_split_index list option" where
  "zone_gen_index zs junk = gen_index_loop zs 0 0 0 (take 100 junk)"

definition has_zones :: "thread_options \<Rightarrow> bool" where
  "has_zones o' \<longleftrightarrow> to_zone_split_nr o' DDIR_READ + to_zone_split_nr o' DDIR_WRITE + to_zone_split_nr o' DDIR_TRIM \<noteq> 0"

definition td_zone_gen_index :: "(fio_ddir \<Rightarrow> zone_split list) \<Rightarrow> (fio_ddir \<Rightarrow> zone_split_index list) \<Rightarrow> thread_data \<Rightarrow> thread_data option" where
  "td_zone_gen_index zs junk td =
     (if \<not> has_zones (td_o td) then Some td
      else do {
        r \<leftarrow> zone_gen_index (zs DDIR_READ) (junk DDIR_READ);
        w \<leftarrow> zone_gen_index (zs DDIR_WRITE) (junk DDIR_WRITE);
        t \<leftarrow> zone_gen_index (zs DDIR_TRIM) (junk DDIR_TRIM);
        Some (td\<lparr>td_zone_state_index := (td_zone_state_index td)(DDIR_READ := r, DDIR_WRITE := w, DDIR_TRIM := t)\<rparr>)
      })"

section \<open>What the table holds\<close>

text \<open>Each zone has as many entries as its share of the accesses, and the sizes add up.\<close>

primrec zone_table :: "u32 \<Rightarrow> u64 \<Rightarrow> zone_split list \<Rightarrow> zone_split_index list" where
  "zone_table sprev sprev_sz [] = []"
| "zone_table sprev sprev_sz (z # zs) =
     replicate (unat (access_perc z)) (zone_entry sprev sprev_sz z) @ zone_table (sprev + ucast (zs_size_perc z)) (sprev_sz + zs_size z) zs"

definition accesses :: "zone_split list \<Rightarrow> nat" where "accesses zs = sum_list (map (\<lambda>z. unat (access_perc z)) zs)"

lemma fill_entries_eq: "length pre = j \<Longrightarrow> n \<le> length rest \<Longrightarrow> fill_entries n j e (pre @ rest) = Some (pre @ replicate n e @ drop n rest)"
proof (induction n arbitrary: j pre rest)
  case (Suc n)
  then obtain x xs where rest: "rest = x # xs" by (cases rest) simp_all
  have "(pre @ rest)[j := e] = (pre @ [e]) @ xs" using Suc.prems(1) rest by (simp add: list_update_append)
  then show ?case using Suc.IH [of "pre @ [e]" "j + 1" xs] Suc.prems rest by (simp add: replicate_app_Cons_same)
qed simp

lemma gen_index_eq:
  "length pre = unat aprev \<Longrightarrow> accesses zs \<le> length rest \<Longrightarrow> length pre + length rest \<le> 100 \<Longrightarrow>
   gen_index_loop zs aprev sprev sz (pre @ rest) = Some (pre @ zone_table sprev sz zs @ drop (accesses zs) rest)"
proof (induction zs arbitrary: aprev sprev sz pre rest)
  case (Cons z zs)
  let ?n = "unat (access_perc z)"
  have n: "?n \<le> length rest" using Cons.prems(2) by (simp add: accesses_def)
  have "unat (aprev + ucast (access_perc z)) = unat aprev + ?n"
    using Cons.prems n by (simp add: unat_word_ariths unat_ucast_widen)
  then have "gen_index_loop zs (aprev + ucast (access_perc z)) s t ((pre @ replicate ?n e) @ drop ?n rest)
      = Some ((pre @ replicate ?n e) @ zone_table s t zs @ drop (accesses zs) (drop ?n rest))" for s t e
    using Cons.prems n by (intro Cons.IH) (simp_all add: accesses_def)
  then show ?case using fill_entries_eq [OF Cons.prems(1) n] by (simp add: accesses_def add.commute)
qed (simp add: accesses_def)

lemma zone_table_length: "length (zone_table sprev sz zs) = accesses zs"
  by (induction zs arbitrary: sprev sz) (simp_all add: accesses_def)

lemma zone_index_exact:
  assumes "accesses zs = 100" and "100 \<le> length junk"
  shows "zone_gen_index zs junk = Some (zone_table 0 0 zs)"
  using gen_index_eq [of "[]" 0 zs "take 100 junk" 0 0] assms by (simp add: zone_gen_index_def)

section \<open>Blocks in their zone\<close>

text \<open>Every zone has at least one block and ends inside the file.\<close>

definition zones_fit :: "u64 \<Rightarrow> u64 \<Rightarrow> zone_split_index list \<Rightarrow> bool" where
  "zones_fit ba lastb tab \<longleftrightarrow>
     (\<forall>e \<in> set tab. zsi_size_prev e div ba < zsi_size e div ba \<and> zsi_size e div ba \<le> lastb \<and> zsi_size e div ba \<noteq> 0xffffffff)"

lemma zone_of_entry:
  assumes "in_range scale 100 (td_zone_state td)" and "length (td_zone_state_index td ddir) = 100"
  shows "\<exists>e st. zone_of scale ddir td = Some (e, td\<lparr>td_zone_state := st\<rparr>) \<and> e \<in> set (td_zone_state_index td ddir)"
proof -
  obtain v st where v: "rand_between scale 1 100 (td_zone_state td) = Some (v, st)" "1 \<le> unat v" "unat v \<le> 100"
    using rand_between_percent [OF assms(1)] by blast
  have "unat (ucast v :: u32) = unat v" using v(3) by (simp add: unsigned_ucast_eq take_bit_nat_eq_self)
  then have "unat ((ucast v :: u32) - 1) = unat v - 1" using v(2) by (subst unat_minus_one) auto
  then have "unat ((ucast v :: u32) - 1) < 100" using v(2,3) by simp
  then show ?thesis using v(1) assms(2) by (auto simp: zone_of_def Let_def)
qed

lemma rand_block_in_range:
  assumes "to_random_generator (td_o td) \<noteq> FIO_RAND_GEN_LFSR" and "to_norandommap (td_o td)"
    and "in_range scale (unat lastb) (td_random_state td)"
  shows "\<exists>b st. next_rand_offset scale lastb td f = Some (Some b, td\<lparr>td_random_state := st\<rparr>, f) \<and> b < lastb"
proof -
  obtain r st where r: "frand (td_random_state td) = (r, st)" by fastforce
  have "r \<le> rand_max (td_random_state td)" "rand_max st = rand_max (td_random_state td)" using frand_max [of "td_random_state td"] frand_bound [of "td_random_state td"] r by simp_all
  then have "scale lastb r (rand_max st) < lastb" using assms(3) by (simp add: in_range_def word_less_nat_alt)
  moreover have "to_random_generator (td_o td) = FIO_RAND_GEN_TAUSWORTHE \<or> to_random_generator (td_o td) = FIO_RAND_GEN_TAUSWORTHE64"
    using assms(1) by (cases "to_random_generator (td_o td)") simp_all
  ultimately show ?thesis using r assms(2) by (auto simp: next_rand_offset_def file_randommap_def)
qed

text \<open>A job with zones given by sizes and without a random map: the table is generated without leaving
  it, one of its entries is drawn, and the block lies in the zone of that entry.\<close>

lemma zoned_abs_in_zone:
  assumes "zone_gen_index zs junk = Some (td_zone_state_index td ddir)" and "accesses zs = 100" and "100 \<le> length junk"
    and "last_block td f ddir = Some lastb" and "lastb \<noteq> 0" and "to_zone_split_nr (td_o td) ddir \<noteq> 0"
    and "to_random_generator (td_o td) \<noteq> FIO_RAND_GEN_LFSR" and "to_norandommap (td_o td)"
    and "in_range scale 100 (td_zone_state td)" and "\<forall>n > 0. n < 2 ^ 64 \<longrightarrow> in_range scale n (td_random_state td)"
    and "zones_fit (to_ba (td_o td) ddir) lastb (zone_table 0 0 zs)"
  shows "\<exists>e b td'. rand_offset_zoned_abs scale ddir td f = Some (Some b, td', f) \<and> e \<in> set (zone_table 0 0 zs) \<and>
    zsi_size_prev e div to_ba (td_o td) ddir \<le> b \<and> b < zsi_size e div to_ba (td_o td) ddir \<and> td_o td' = td_o td"
proof -
  have t: "td_zone_state_index td ddir = zone_table 0 0 zs" using zone_index_exact [OF assms(2,3)] assms(1) by simp
  then obtain e st where e: "zone_of scale ddir td = Some (e, td\<lparr>td_zone_state := st\<rparr>)" "e \<in> set (zone_table 0 0 zs)"
    using zone_of_entry [OF assms(9), of ddir] assms(2) by (auto simp: zone_table_length)
  let ?stotal = "zsi_size_prev e div to_ba (td_o td) ddir" and ?send = "zsi_size e div to_ba (td_o td) ddir"
  have z: "?stotal < ?send" "?send \<le> lastb" "?send \<noteq> 0xffffffff" using assms(11) e(2) by (simp_all add: zones_fit_def)
  have u: "unat (?send - ?stotal) = unat ?send - unat ?stotal" using z(1) by (simp add: unat_sub less_imp_le)
  have "0 < unat (?send - ?stotal)" using z(1) u by (simp add: word_less_nat_alt)
  moreover have "unat (?send - ?stotal) < 2 ^ 64" using unsigned_less [of "?send - ?stotal", where 'a = nat] by simp
  ultimately have "in_range scale (unat (?send - ?stotal)) (td_random_state td)" using assms(10) by blast
  then obtain b st' where b: "next_rand_offset scale (?send - ?stotal) (td\<lparr>td_zone_state := st\<rparr>) f = Some (Some b, td\<lparr>td_zone_state := st, td_random_state := st'\<rparr>, f)"
    "b < ?send - ?stotal" using rand_block_in_range [of "td\<lparr>td_zone_state := st\<rparr>" scale "?send - ?stotal" f] assms(7,8) by auto
  have r: "rand_offset_zoned_abs scale ddir td f = Some (Some (b + ?stotal), td\<lparr>td_zone_state := st, td_random_state := st'\<rparr>, f)"
    using assms(4,5,6) e(1) z b(1) by (simp add: rand_offset_zoned_abs_def Let_def)
  have l: "unat b + unat ?stotal < unat ?send" using b(2) u z(1) by (simp add: word_less_nat_alt)
  then have "unat b + unat ?stotal < 2 ^ 64" using unsigned_less [of ?send, where 'a = nat] by simp
  then have "unat (b + ?stotal) = unat b + unat ?stotal" by (simp add: unat_word_ariths)
  then have "?stotal \<le> b + ?stotal" "b + ?stotal < ?send" using l by (simp_all add: word_le_nat_alt word_less_nat_alt)
  then show ?thesis using r e(2) by (intro exI [of _ e] exI [of _ "b + ?stotal"]) simp
qed

end
