(* ===== verification/Fio_Pattern.thy ===== *)
theory Fio_Pattern
  imports Fio_Rand
begin

text \<open>
  Buffer contents of fio: copying a pattern over a buffer and comparing a buffer with a pattern
  (\<^verbatim>\<open>fio4emu/lib/pattern.c\<close>), and buffers that are partly random and partly a pattern
  (\<^verbatim>\<open>fio4emu/lib/rand.c\<close>). A buffer is the list of its bytes; \<open>None\<close> is an access
  outside it or a loop that does not end. Parsing patterns is left out.
\<close>

section \<open>Memory\<close>

text \<open>\<^verbatim>\<open>memcpy(out + off, src, len)\<close> and \<^verbatim>\<open>memcmp(a, b, len) == 0\<close>.\<close>

definition mem_copy :: "u8 list \<Rightarrow> nat \<Rightarrow> u8 list \<Rightarrow> nat \<Rightarrow> u8 list option" where
  "mem_copy out off src len =
     (if off + len \<le> length out \<and> len \<le> length src then Some (take off out @ take len src @ drop (off + len) out) else None)"

definition mem_eq :: "u8 list \<Rightarrow> u8 list \<Rightarrow> nat \<Rightarrow> bool option" where
  "mem_eq a b len = (if len \<le> length a \<and> len \<le> length b then Some (take len a = take len b) else None)"

section \<open>Patterns\<close>

partial_function (option) dup_loop :: "u8 list \<Rightarrow> u32 \<Rightarrow> u32 \<Rightarrow> u32 \<Rightarrow> u8 list option" where
  "dup_loop out left off len =
     (if left = 0 then Some out
      else do {
        out' \<leftarrow> mem_copy out (unat off) out (unat len);
        dup_loop out' (left - len) (push_bit 1 off) (min (left - len) (push_bit 1 off))
      })"

definition dup_pattern :: "u8 list \<Rightarrow> u32 \<Rightarrow> u32 \<Rightarrow> u8 list option" where
  "dup_pattern out out_len pattern_len =
     (if out_len \<le> pattern_len then Some out
      else dup_loop out (out_len - pattern_len) pattern_len (min (out_len - pattern_len) pattern_len))"

text \<open>\<open>Inl ()\<close> is the result \<^verbatim>\<open>-EINVAL\<close>.\<close>

definition cpy_pattern :: "u8 list ptr \<Rightarrow> u32 \<Rightarrow> u8 list ptr \<Rightarrow> u32 \<Rightarrow> (unit + u8 list) option" where
  "cpy_pattern pattern pattern_len out out_len =
     (case (pattern, out) of
        (Some p, Some buf) \<Rightarrow>
          if pattern_len = 0 \<or> out_len = 0 then Some (Inl ())
          else do {
            buf1 \<leftarrow> mem_copy buf 0 p (unat (min pattern_len out_len));
            buf2 \<leftarrow> dup_pattern buf1 out_len pattern_len;
            Some (Inr buf2)
          }
      | _ \<Rightarrow> Some (Inl ()))"

text \<open>The last comparison, and the whole: true for the result 0, false for \<^verbatim>\<open>-EILSEQ\<close>.\<close>

definition cmp_rest :: "u8 list \<Rightarrow> u32 \<Rightarrow> u32 \<Rightarrow> u8 list \<Rightarrow> u32 \<Rightarrow> bool option" where
  "cmp_rest pattern pattern_size off buf len =
     (if len \<noteq> 0 then mem_eq buf pattern (unat (min len (if off \<noteq> 0 then off else pattern_size))) else Some True)"

definition cmp_pattern :: "u8 list \<Rightarrow> u32 \<Rightarrow> u32 \<Rightarrow> u8 list \<Rightarrow> u32 \<Rightarrow> bool option" where
  "cmp_pattern pattern pattern_size off buf len = do {
     same \<leftarrow> (if len > pattern_size then mem_eq buf (drop (unat pattern_size) buf) (unat (len - pattern_size)) else Some True);
     if \<not> same then Some False
     else if off \<noteq> 0 then do {
       let size = min len (pattern_size - off);
       same \<leftarrow> mem_eq buf (drop (unat off) pattern) (unat size);
       if \<not> same then Some False else cmp_rest pattern pattern_size off (drop (unat size) buf) (len - size)
     }
     else cmp_rest pattern pattern_size off buf len
   }"

section \<open>Partly random buffers\<close>

text \<open>The other part of a segment: the pattern, or zeros. The result of \<^verbatim>\<open>cpy_pattern\<close> is
  ignored.\<close>

definition fill_plain :: "u8 list ptr \<Rightarrow> u32 \<Rightarrow> u8 list \<Rightarrow> u32 \<Rightarrow> u8 list option" where
  "fill_plain pattern pbytes buf n =
     (if pbytes \<noteq> 0 then map_option (case_sum (\<lambda>_. buf) (\<lambda>b. b)) (cpy_pattern pattern pbytes (Some buf) n)
      else mem_copy buf 0 (replicate (unat n) 0) (unat n))"

text \<open>The lengths of the random part and of the other part of a segment.\<close>

definition random_len :: "u32 \<Rightarrow> u32 \<Rightarrow> u32 \<Rightarrow> u32" where
  "random_len percentage segment len =
     (let this_len = ucast ((ucast segment :: u64) * ucast (100 - percentage) div 100)
      in if this_len > len then len else this_len)"

definition plain_len :: "u32 \<Rightarrow> u32 \<Rightarrow> u32 \<Rightarrow> u32" where
  "plain_len segment this_len len =
     (let this_len = segment - this_len
      in if this_len > len then len else if (ucast (len - this_len) :: u64) \<le> 8 then len else this_len)"

text \<open>The loop of \<^verbatim>\<open>__fill_random_buf_percentage\<close>, on the rest of the buffer.\<close>

partial_function (option) percentage_loop ::
  "u64 \<Rightarrow> u32 \<Rightarrow> u32 \<Rightarrow> u8 list ptr \<Rightarrow> u32 \<Rightarrow> u8 list \<Rightarrow> u32 \<Rightarrow> u8 list option" where
  "percentage_loop seed percentage segment pattern pbytes buf len =
     (if len = 0 then Some buf
      else do {
        let n1 = random_len percentage segment len;
        buf1 \<leftarrow> mem_copy buf 0 (fill_buf (unat n1) seed) (unat n1);
        if len - n1 = 0 then Some buf1
        else do {
          let n2 = plain_len segment n1 (len - n1);
          buf2 \<leftarrow> fill_plain pattern pbytes (drop (unat n1) buf1) n2;
          rest \<leftarrow> percentage_loop seed percentage segment pattern pbytes (drop (unat n2) buf2) (len - n1 - n2);
          Some (take (unat n1) buf1 @ take (unat n2) buf2 @ rest)
        }
      })"

definition fill_buf_percentage ::
  "u64 \<Rightarrow> u8 list \<Rightarrow> u32 \<Rightarrow> u32 \<Rightarrow> u32 \<Rightarrow> u8 list ptr \<Rightarrow> u32 \<Rightarrow> u8 list option" where
  "fill_buf_percentage seed buf percentage segment len pattern pbytes =
     (if percentage = 100 then fill_plain pattern pbytes buf len
      else percentage_loop seed percentage (if segment > len then len else segment) pattern pbytes buf len)"

definition fill_random_buf_percentage ::
  "frand_state \<Rightarrow> u8 list \<Rightarrow> u32 \<Rightarrow> u32 \<Rightarrow> u32 \<Rightarrow> u8 list ptr \<Rightarrow> u32 \<Rightarrow> (u64 \<times> u8 list \<times> frand_state) option" where
  "fill_random_buf_percentage fs buf percentage segment len pattern pbytes =
     (case get_next_seed fs of (r, fs') \<Rightarrow>
        map_option (\<lambda>b. (r, b, fs')) (fill_buf_percentage r buf percentage segment len pattern pbytes))"

section \<open>Copying\<close>

text \<open>The first \<open>n\<close> bytes repeat the pattern, from position \<open>j\<close> of it on.\<close>

definition repeats :: "u8 list \<Rightarrow> nat \<Rightarrow> nat \<Rightarrow> u8 list \<Rightarrow> bool" where
  "repeats p j n xs \<longleftrightarrow> n \<le> length xs \<and> (\<forall>i < n. xs ! i = p ! ((i + j) mod length p))"

lemma nth_mem_copy:
  assumes "mem_copy out off src len = Some out'"
  shows "length out' = length out" and "i < length out \<Longrightarrow> out' ! i = (if off \<le> i \<and> i < off + len then src ! (i - off) else out ! i)"
  using assms by (auto simp: mem_copy_def nth_append min_def split: if_splits)

lemma mod_minus_dvd:
  assumes "d dvd k" and "k \<le> i"
  shows "(i - k) mod d = i mod (d :: nat)"
proof -
  obtain q where "k = d * q" using assms(1) by blast
  then have "i = (i - k) + d * q" using assms(2) by simp
  then show ?thesis by (metis mod_mult_self2)
qed

lemma dup_loop_repeats:
  assumes "repeats p 0 (unat off) out" and "length p dvd unat off" and "0 < unat off"
    and "unat off + unat left \<le> length out" and "unat off + unat left < 2 ^ 32" and "len = min left off"
  shows "\<exists>out'. dup_loop out left off len = Some out' \<and> repeats p 0 (unat off + unat left) out' \<and> length out' = length out \<and>
    drop (unat off + unat left) out' = drop (unat off + unat left) out"
  using assms
proof (induction "unat left" arbitrary: out left off len rule: less_induct)
  case less
  show ?case
  proof (cases "left = 0")
    case True
    then show ?thesis using less.prems(1) by (subst dup_loop.simps) simp
  next
    case False
    have l: "unat len = min (unat left) (unat off)" using less.prems(6) by (simp add: min_def word_le_nat_alt)
    have pos: "0 < unat len" using l False less.prems(3) by (simp add: unat_gt_0)
    have fit: "unat off + unat len \<le> length out" using less.prems(4) l by linarith
    then obtain out1 where c: "mem_copy out (unat off) out (unat len) = Some out1" by (simp add: mem_copy_def)
    note n = nth_mem_copy [OF c]
    have r1: "repeats p 0 (unat off + unat len) out1"
      unfolding repeats_def
    proof (intro conjI allI impI)
      show "unat off + unat len \<le> length out1" using n(1) l less.prems(4) by simp
    next
      fix i assume i: "i < unat off + unat len"
      then have "i < length out" using l less.prems(4) by simp
      moreover have "(i - unat off) mod length p = i mod length p" if "unat off \<le> i" using mod_minus_dvd [OF less.prems(2) that] .
      ultimately show "out1 ! i = p ! ((i + 0) mod length p)" using n(2) [of i] i l less.prems(1) by (auto simp: repeats_def)
    qed
    have dl: "unat (left - len) = unat left - unat len" using l by (simp add: unat_sub word_le_nat_alt)
    show ?thesis
    proof (cases "unat left \<le> unat off")
      case True
      then have z: "left - len = 0" using dl l by (simp add: word_unat_eq_iff)
      have "dup_loop out left off len = Some out1" using False c z by (subst dup_loop.simps) (simp add: dup_loop.simps [of out1 0])
      moreover have "drop (unat off + unat left) out1 = drop (unat off + unat left) out"
        using n True l by (intro nth_equalityI) simp_all
      ultimately show ?thesis using r1 n(1) True l by simp
    next
      case big: False
      then have lo: "unat len = unat off" using l by simp
      have "unat off * unat (2 :: u32) < 2 ^ LENGTH(32)" using less.prems(5) big by simp
      then have "unat (off * 2) = unat off * 2" by (subst unat_mult_lem [THEN iffD1]) simp_all
      then have s: "unat (push_bit 1 off) = 2 * unat off" by (simp add: push_bit_eq_mult)
      have sum: "2 * unat off + unat (left - len) = unat off + unat left" using dl lo big by simp
      have "\<exists>out'. dup_loop out1 (left - len) (push_bit 1 off) (min (left - len) (push_bit 1 off)) = Some out' \<and>
          repeats p 0 (unat (push_bit 1 off) + unat (left - len)) out' \<and> length out' = length out1 \<and>
          drop (unat (push_bit 1 off) + unat (left - len)) out' = drop (unat (push_bit 1 off) + unat (left - len)) out1"
        using r1 less.prems(2-5) lo s sum dl pos big n(1) by (intro less.hyps) (simp_all add: mult_2)
      then obtain out' where "dup_loop out1 (left - len) (push_bit 1 off) (min (left - len) (push_bit 1 off)) = Some out'"
        "repeats p 0 (unat off + unat left) out'" "length out' = length out" "drop (unat off + unat left) out' = drop (unat off + unat left) out1"
        unfolding s sum n(1) by blast
      moreover have "drop (unat off + unat left) out1 = drop (unat off + unat left) out"
        using n big lo by (intro nth_equalityI) simp_all
      ultimately show ?thesis using False c by (subst dup_loop.simps) simp
    qed
  qed
qed

lemma cpy_repeats:
  assumes "length p = unat plen" and "0 < unat plen" and "0 < unat n" and "unat n \<le> length buf"
  shows "\<exists>buf'. cpy_pattern (Some p) plen (Some buf) n = Some (Inr buf') \<and> repeats p 0 (unat n) buf' \<and> length buf' = length buf \<and>
    drop (unat n) buf' = drop (unat n) buf"
proof -
  have mn: "unat (min plen n) = min (unat plen) (unat n)" by (simp add: min_def word_le_nat_alt)
  have le: "min (unat plen) (unat n) \<le> length buf" using assms(4) by linarith
  then obtain b1 where c: "mem_copy buf 0 p (unat (min plen n)) = Some b1" using mn assms(1) by (simp add: mem_copy_def)
  note k = nth_mem_copy [OF c]
  have r: "repeats p 0 (min (unat plen) (unat n)) b1" using k le assms(1) mn by (auto simp: repeats_def)
  have nz: "plen \<noteq> 0" "n \<noteq> 0" using assms(2,3) by auto
  have tl: "drop (unat n) b1 = drop (unat n) buf" using k mn by (intro nth_equalityI) simp_all
  show ?thesis
  proof (cases "n \<le> plen")
    case True
    then have "dup_pattern b1 n plen = Some b1" by (simp add: dup_pattern_def)
    moreover have "min (unat plen) (unat n) = unat n" using True by (simp add: word_le_nat_alt)
    ultimately show ?thesis using c nz r tl k(1) by (simp add: cpy_pattern_def)
  next
    case False
    then have lt: "unat plen < unat n" by (simp add: word_le_nat_alt)
    have u: "unat (n - plen) = unat n - unat plen" using lt by (simp add: unat_sub word_le_nat_alt)
    have nn: "unat n < 2 ^ 32" using unsigned_less [of n] by simp
    have "\<exists>out'. dup_loop b1 (n - plen) plen (min (n - plen) plen) = Some out' \<and> repeats p 0 (unat plen + unat (n - plen)) out' \<and> length out' = length b1 \<and>
        drop (unat plen + unat (n - plen)) out' = drop (unat plen + unat (n - plen)) b1"
      using r lt assms(1,2,4) k(1) u nn by (intro dup_loop_repeats) simp_all
    then obtain b2 where "dup_pattern b1 n plen = Some b2" "repeats p 0 (unat n) b2" "length b2 = length b1" "drop (unat n) b2 = drop (unat n) b1"
      using u lt False by (auto simp: dup_pattern_def)
    then show ?thesis using c nz tl k(1) by (simp add: cpy_pattern_def)
  qed
qed

section \<open>Comparing\<close>

lemma mem_eq_nth: "len \<le> length a \<Longrightarrow> len \<le> length b \<Longrightarrow> mem_eq a b len = Some (\<forall>i < len. a ! i = b ! i)"
  by (auto simp: mem_eq_def list_eq_iff_nth_eq)

text \<open>A buffer repeats a pattern of length \<open>d\<close> when it agrees with itself shifted by \<open>d\<close> and
  its first \<open>d\<close> bytes are right.\<close>

lemma periodic:
  assumes "\<forall>i. i + d < n \<longrightarrow> xs ! i = xs ! (i + d)" and "\<forall>i < min n d. xs ! i = f (i mod d)" and "0 < d"
  shows "i < n \<Longrightarrow> xs ! i = f (i mod (d :: nat))"
proof (induction i rule: less_induct)
  case (less i)
  show ?case
  proof (cases "i < d")
    case True
    then show ?thesis using assms(2) less.prems by simp
  next
    case False
    then have "xs ! (i - d) = xs ! i" using assms(1) [THEN spec, of "i - d"] less.prems by simp
    moreover have "xs ! (i - d) = f ((i - d) mod d)" using less.IH [of "i - d"] less.prems False assms(3) by simp
    ultimately show ?thesis using False by (simp add: mod_minus_dvd)
  qed
qed

text \<open>The two parts of a pattern that starts at position \<open>j\<close>.\<close>

lemma split_pattern:
  assumes "j < d" and "d = length p"
  shows "(\<forall>i < min n d. xs ! i = p ! ((i + j) mod d)) \<longleftrightarrow>
    (\<forall>i < min n (d - j). xs ! i = p ! (j + i)) \<and> (\<forall>i < min (n - min n (d - j)) j. xs ! (min n (d - j) + i) = p ! i)" (is "?A \<longleftrightarrow> ?B \<and> ?C")
proof (intro iffI conjI)
  assume a: ?A
  show ?B using a assms(1) by (auto simp: add.commute)
  show ?C
  proof (intro allI impI)
    fix i assume i: "i < min (n - min n (d - j)) j"
    then have m: "min n (d - j) = d - j" by linarith
    have "d - j + i < min n d" using i assms(1) m by auto
    then have "xs ! (d - j + i) = p ! ((d - j + i + j) mod d)" using a by blast
    moreover have "(d - j + i + j) mod d = i" using i assms(1) by simp
    ultimately show "xs ! (min n (d - j) + i) = p ! i" unfolding m by simp
  qed
next
  assume b: "?B \<and> ?C"
  show ?A
  proof (intro allI impI)
    fix i assume i: "i < min n d"
    show "xs ! i = p ! ((i + j) mod d)"
    proof (cases "i < d - j")
      case True
      then show ?thesis using b i by (simp add: add.commute)
    next
      case False
      then have m: "min n (d - j) = d - j" "i = d - j + (i - (d - j))" "i - (d - j) < min (n - (d - j)) j" using i assms(1) by auto
      define x where "x = i - (d - j)"
      have x: "i + j = x + d" "x < d" "i = d - j + x" "x < min (n - (d - j)) j" using False assms(1) m(3) by (auto simp: x_def)
      have "(i + j) mod d = x" using x(2) by (simp add: x(1))
      moreover have "xs ! (d - j + x) = p ! x" using conjunct2 [OF b] x(4) unfolding m(1) by blast
      ultimately show ?thesis using x(3) by simp
    qed
  qed
qed

lemma cmp_first:
  assumes "length p = unat ps" and "unat off < unat ps" and "unat len \<le> length buf"
  shows "(if off \<noteq> 0 then do {
       let size = min len (ps - off);
       same \<leftarrow> mem_eq buf (drop (unat off) p) (unat size);
       if \<not> same then Some False else cmp_rest p ps off (drop (unat size) buf) (len - size)
     }
     else cmp_rest p ps off buf len) = Some (\<forall>i < min (unat len) (unat ps). buf ! i = p ! ((i + unat off) mod unat ps))"
proof (cases "off = 0")
  case True
  have "unat (min len ps) = min (unat len) (unat ps)" by (simp add: min_def word_le_nat_alt)
  then show ?thesis using True assms(1,3) mem_eq_nth [of "min (unat len) (unat ps)" buf p] by (simp add: cmp_rest_def unat_eq_zero)
next
  case False
  let ?d = "unat ps" and ?j = "unat off" and ?n = "unat len"
  have u: "unat (ps - off) = ?d - ?j" using assms(2) by (simp add: unat_sub word_le_nat_alt)
  then have m: "unat (min len (ps - off)) = min ?n (?d - ?j)" by (simp add: min_def word_le_nat_alt)
  then have l: "unat (len - min len (ps - off)) = ?n - min ?n (?d - ?j)" by (simp add: unat_sub)
  have e1: "mem_eq buf (drop ?j p) (min ?n (?d - ?j)) = Some (\<forall>i < min ?n (?d - ?j). buf ! i = p ! (?j + i))"
    using assms by (subst mem_eq_nth) auto
  let ?k = "min (?n - min ?n (?d - ?j)) ?j"
  have "unat (min (len - min len (ps - off)) off) = ?k" using l by (simp add: min_def word_le_nat_alt)
  moreover have "mem_eq (drop (min ?n (?d - ?j)) buf) p ?k = Some (\<forall>i < ?k. buf ! (min ?n (?d - ?j) + i) = p ! i)"
    using assms by (subst mem_eq_nth) auto
  ultimately have e2: "cmp_rest p ps off (drop (min ?n (?d - ?j)) buf) (len - min len (ps - off)) = Some (\<forall>i < ?k. buf ! (min ?n (?d - ?j) + i) = p ! i)"
    using False l by (auto simp: cmp_rest_def unat_eq_zero)
  show ?thesis using False assms(2) by (simp add: Let_def m e1 e2 split_pattern [OF assms(2) assms(1) [symmetric]] del: min_less_iff_conj)
qed

lemma cmp_repeats:
  assumes "length p = unat ps" and "unat off < unat ps" and "unat len \<le> length buf"
  shows "cmp_pattern p ps off buf len = Some (repeats p (unat off) (unat len) buf)"
proof -
  let ?d = "unat ps" and ?j = "unat off" and ?n = "unat len"
  have s: "(if len > ps then mem_eq buf (drop ?d buf) (unat (len - ps)) else Some True) = Some (\<forall>i. i + ?d < ?n \<longrightarrow> buf ! i = buf ! (i + ?d))"
  proof (cases "len > ps")
    case True
    then have "unat (len - ps) = ?n - ?d" by (intro unat_sub less_imp_le)
    then show ?thesis using True assms(3) mem_eq_nth [of "?n - ?d" buf "drop ?d buf"] by (auto simp: word_less_nat_alt less_diff_conv add.commute)
  next
    case False
    then show ?thesis by (simp add: word_less_nat_alt)
  qed
  have "(\<forall>i. i + ?d < ?n \<longrightarrow> buf ! i = buf ! (i + ?d)) \<and> (\<forall>i < min ?n ?d. buf ! i = p ! ((i + ?j) mod ?d)) \<longleftrightarrow> repeats p ?j ?n buf" (is "?P \<and> ?F \<longleftrightarrow> _")
  proof
    assume a: "?P \<and> ?F"
    then have "\<forall>i < min ?n ?d. buf ! i = (\<lambda>k. p ! ((k + ?j) mod ?d)) (i mod ?d)" by simp
    from periodic [OF conjunct1 [OF a] this] assms show "repeats p ?j ?n buf" by (auto simp: repeats_def mod_add_left_eq)
  next
    have e: "(i + ?d + ?j) mod ?d = (i + ?j) mod ?d" for i by (metis add.assoc add.commute mod_add_self2)
    assume r: "repeats p ?j ?n buf"
    then show "?P \<and> ?F" using assms(1) by (auto simp: repeats_def e)
  qed
  then show ?thesis unfolding cmp_pattern_def s cmp_first [OF assms] by auto
qed

section \<open>Partly random buffers fill up\<close>

text \<open>A buffer after its first \<open>n\<close> bytes have been written.\<close>

definition overwritten :: "nat \<Rightarrow> u8 list \<Rightarrow> u8 list \<Rightarrow> bool" where
  "overwritten n buf buf' \<longleftrightarrow> length buf' = length buf \<and> drop n buf' = drop n buf"

definition pattern_ok :: "u8 list ptr \<Rightarrow> u32 \<Rightarrow> bool" where
  "pattern_ok pattern pbytes \<longleftrightarrow> pbytes = 0 \<or> (\<exists>p. pattern = Some p \<and> length p = unat pbytes)"

lemma copy_overwrites: "n \<le> length buf \<Longrightarrow> n \<le> length src \<Longrightarrow> \<exists>buf'. mem_copy buf 0 src n = Some buf' \<and> overwritten n buf buf'"
  by (simp add: mem_copy_def overwritten_def)

lemma plain_overwrites:
  assumes "pattern_ok pattern pbytes" and "unat n \<le> length buf"
  shows "\<exists>buf'. fill_plain pattern pbytes buf n = Some buf' \<and> overwritten (unat n) buf buf'"
proof (cases "pbytes = 0")
  case True
  then show ?thesis using copy_overwrites [OF assms(2), of "replicate (unat n) 0"] by (simp add: fill_plain_def)
next
  case False
  then obtain p where p: "pattern = Some p" "length p = unat pbytes" using assms(1) by (auto simp: pattern_ok_def)
  show ?thesis
  proof (cases "n = 0")
    case True
    then show ?thesis using False p by (simp add: fill_plain_def cpy_pattern_def overwritten_def)
  next
    case n: False
    then show ?thesis using False p cpy_repeats [OF p(2), of n buf] assms(2) by (auto simp: fill_plain_def overwritten_def unat_gt_0)
  qed
qed

lemma random_len_le:
  assumes "percentage \<le> 100"
  shows "random_len percentage segment len \<le> len" and "unat (random_len percentage segment len) \<le> unat segment"
proof -
  let ?x = "(ucast segment :: u64) * ucast (100 - percentage)"
  have a: "unat (100 - percentage) \<le> 100" using assms by (simp add: unat_sub)
  have s: "unat segment < 2 ^ 32" using unsigned_less [of segment] by simp
  have w: "unat (ucast y :: u64) = unat y" for y :: u32 by (rule unat_ucast_widen) simp
  have m: "unat segment * unat (100 - percentage) \<le> unat segment * 100" using a by (rule mult_le_mono2)
  also have "\<dots> < 2 ^ 64" using s by simp
  finally have "unat ?x = unat segment * unat (100 - percentage)" by (subst unat_mult_lem [THEN iffD1]) (simp_all add: w)
  then have "unat (?x div 100) = unat segment * unat (100 - percentage) div 100" by (simp add: unat_div)
  also have "\<dots> \<le> unat segment * 100 div 100" using m by (rule div_le_mono)
  finally have "unat (?x div 100) \<le> unat segment" by simp
  moreover from this have "unat (ucast (?x div 100) :: u32) = unat (?x div 100)" using s by (simp add: unsigned_ucast_eq take_bit_nat_eq_self)
  ultimately show "unat (random_len percentage segment len) \<le> unat segment" and "random_len percentage segment len \<le> len"
    by (auto simp: random_len_def Let_def word_le_nat_alt word_less_nat_alt)
qed

lemma plain_len_le:
  shows "plain_len segment this_len len \<le> len" and "this_len \<noteq> segment \<Longrightarrow> len \<noteq> 0 \<Longrightarrow> plain_len segment this_len len \<noteq> 0"
  by (auto simp: plain_len_def Let_def)

lemma percentage_fills:
  assumes "percentage \<le> 100" and "segment \<noteq> 0" and "pattern_ok pattern pbytes"
  shows "unat len \<le> length buf \<Longrightarrow> \<exists>buf'. percentage_loop seed percentage segment pattern pbytes buf len = Some buf' \<and> overwritten (unat len) buf buf'"
proof (induction "unat len" arbitrary: len buf rule: less_induct)
  case less
  show ?case
  proof (cases "len = 0")
    case True
    then show ?thesis by (subst percentage_loop.simps) (simp add: overwritten_def)
  next
    case False
    define n1 where "n1 = random_len percentage segment len"
    define n2 where "n2 = plain_len segment n1 (len - n1)"
    have n1: "n1 \<le> len" using random_len_le(1) [OF assms(1)] by (simp add: n1_def)
    then have u1: "unat (len - n1) = unat len - unat n1" "unat n1 \<le> unat len" by (simp_all add: unat_sub word_le_nat_alt)
    obtain b1 where b1: "mem_copy buf 0 (fill_buf (unat n1) seed) (unat n1) = Some b1" "overwritten (unat n1) buf b1"
      using copy_overwrites [of "unat n1" buf "fill_buf (unat n1) seed"] less.prems u1(2) by (auto simp: length_fill_buf)
    have l1: "length b1 = length buf" "drop (unat n1) b1 = drop (unat n1) buf" using b1(2) by (simp_all add: overwritten_def)
    show ?thesis
    proof (cases "len - n1 = 0")
      case True
      then show ?thesis using False b1 by (subst percentage_loop.simps) (auto simp: Let_def n1_def)
    next
      case rest: False
      have n2: "n2 \<le> len - n1" by (simp add: n2_def plain_len_le(1))
      then have u2: "unat (len - n1 - n2) = unat len - unat n1 - unat n2" "unat n1 + unat n2 \<le> unat len"
        using u1 by (simp_all add: unat_sub word_le_nat_alt)
      have "n1 \<noteq> 0 \<or> n2 \<noteq> 0" using plain_len_le(2) [of n1 segment "len - n1"] rest assms(2) by (auto simp: n2_def)
      then have "0 < unat n1 \<or> 0 < unat n2" by (simp add: unat_gt_0)
      then have prog: "unat (len - n1 - n2) < unat len" unfolding u2(1) using u2(2) by linarith
      have r2: "unat n2 \<le> length (drop (unat n1) b1)" using u2(2) l1(1) less.prems by simp
      obtain b2 where b2: "fill_plain pattern pbytes (drop (unat n1) b1) n2 = Some b2" "overwritten (unat n2) (drop (unat n1) b1) b2"
        using plain_overwrites [OF assms(3) r2] by blast
      have l2: "length b2 = length buf - unat n1" "drop (unat n2) b2 = drop (unat n1 + unat n2) buf"
        using b2(2) l1 by (simp_all add: overwritten_def add.commute)
      obtain r where r: "percentage_loop seed percentage segment pattern pbytes (drop (unat n2) b2) (len - n1 - n2) = Some r"
        "overwritten (unat (len - n1 - n2)) (drop (unat n2) b2) r"
        using less.hyps [OF prog, of "drop (unat n2) b2"] u2 l2(1) less.prems by fastforce
      have "percentage_loop seed percentage segment pattern pbytes buf len = Some (take (unat n1) b1 @ take (unat n2) b2 @ r)"
        unfolding percentage_loop.simps [of seed percentage segment pattern pbytes buf len] Let_def n1_def [symmetric] n2_def [symmetric]
        using False rest b1(1) b2(1) r(1) by simp
      moreover have "overwritten (unat len) buf (take (unat n1) b1 @ take (unat n2) b2 @ r)"
        using r(2) l1(1) l2 u2 less.prems by (auto simp: overwritten_def)
      ultimately show ?thesis by blast
    qed
  qed
qed

section \<open>The properties\<close>

text \<open>
  C24: writing a pattern and checking it. \<^verbatim>\<open>cpy_pattern\<close> returns for every pattern and buffer,
  writes the first \<open>n\<close> bytes and no others; \<^verbatim>\<open>cmp_pattern\<close> accepts the buffer as a whole
  and from every byte on with the matching position in the pattern, and it accepts no other contents.
  So the comparison without a loop over the bytes is exact.
\<close>

theorem pattern_round_trip:
  assumes "length p = unat plen" and "0 < unat plen" and "0 < unat n" and "unat n \<le> length buf"
  shows "\<exists>buf'. cpy_pattern (Some p) plen (Some buf) n = Some (Inr buf') \<and> length buf' = length buf \<and> drop (unat n) buf' = drop (unat n) buf \<and>
    (\<forall>k \<le> unat n. cmp_pattern p plen (of_nat (k mod unat plen)) (drop k buf') (n - of_nat k) = Some True) \<and>
    (\<forall>xs. length xs = length buf \<longrightarrow> cmp_pattern p plen 0 xs n = Some (take (unat n) xs = take (unat n) buf'))"
proof -
  obtain buf' where b: "cpy_pattern (Some p) plen (Some buf) n = Some (Inr buf')" "repeats p 0 (unat n) buf'" "length buf' = length buf"
    "drop (unat n) buf' = drop (unat n) buf" using cpy_repeats [OF assms] by blast
  have nn: "unat n < 2 ^ 32" "unat plen < 2 ^ 32" using unsigned_less [of n] unsigned_less [of plen] by simp_all
  have "cmp_pattern p plen (of_nat (k mod unat plen)) (drop k buf') (n - of_nat k) = Some True" if "k \<le> unat n" for k
  proof -
    have "k mod unat plen < unat plen" using assms(2) by simp
    then have k: "unat (of_nat (k mod unat plen) :: u32) = k mod unat plen" "unat (of_nat k :: u32) = k"
      using that nn by (simp_all add: unat_of_nat take_bit_nat_eq_self)
    then have l: "unat (n - of_nat k) = unat n - k" using that by (simp add: unat_sub word_le_nat_alt)
    have "repeats p (k mod unat plen) (unat n - k) (drop k buf')"
      using b(2,3) assms(1,4) that by (auto simp: repeats_def mod_add_right_eq add.commute)
    then show ?thesis using cmp_repeats [of p plen "of_nat (k mod unat plen)" "n - of_nat k" "drop k buf'"] assms k l b(3) by simp
  qed
  moreover have "cmp_pattern p plen 0 xs n = Some (take (unat n) xs = take (unat n) buf')" if "length xs = length buf" for xs
  proof -
    have "repeats p 0 (unat n) xs = (take (unat n) xs = take (unat n) buf')"
      using b(2,3) that assms(4) by (auto simp: repeats_def list_eq_iff_nth_eq)
    then show ?thesis using cmp_repeats [of p plen 0 n xs] assms that by simp
  qed
  ultimately show ?thesis using b by blast
qed

theorem pattern_round_trip_witness:
  "\<exists>buf'. cpy_pattern (Some [1, 2, 3]) 3 (Some (replicate 10 0)) 8 = Some (Inr buf') \<and> length buf' = 10 \<and>
     cmp_pattern [1, 2, 3] 3 2 (drop 5 buf') 3 = Some True \<and> cmp_pattern [1, 2, 3] 3 0 (replicate 10 0) 8 = Some False"
proof -
  obtain buf' where b: "cpy_pattern (Some [1, 2, 3]) 3 (Some (replicate 10 0)) 8 = Some (Inr buf')" "length buf' = 10"
    "\<forall>k \<le> unat (8 :: u32). cmp_pattern [1, 2, 3] 3 (of_nat (k mod 3)) (drop k buf') (8 - of_nat k) = Some True"
    using pattern_round_trip [of "[1, 2, 3]" 3 8 "replicate 10 0"] by auto
  have "cmp_pattern [1, 2, 3] 3 2 (drop 5 buf') 3 = Some True" using b(3) [rule_format, of 5] by simp
  moreover have "cmp_pattern [1, 2, 3] 3 0 (replicate 10 0) 8 = Some False"
    by code_simp
  ultimately show ?thesis using b(1,2) by blast
qed

text \<open>Filling a buffer with a percentage of a pattern returns, for at most 100 percent and segments
  that are not empty, and writes inside the buffer.\<close>

lemma percentage_returns:
  assumes "percentage \<le> 100" and "segment \<noteq> 0" and "pattern_ok pattern pbytes" and "unat len \<le> length buf"
  shows "\<exists>r buf' fs'. fill_random_buf_percentage fs buf percentage segment len pattern pbytes = Some (r, buf', fs') \<and> overwritten (unat len) buf buf'"
proof -
  obtain r fs' where r: "get_next_seed fs = (r, fs')" by fastforce
  have "\<exists>buf'. fill_buf_percentage r buf percentage segment len pattern pbytes = Some buf' \<and> overwritten (unat len) buf buf'"
  proof (cases "percentage = 100 \<or> len = 0")
    case True
    then show ?thesis using plain_overwrites [OF assms(3,4)]
      by (auto simp: fill_buf_percentage_def percentage_loop.simps [of _ _ _ _ _ _ 0] overwritten_def)
  next
    case False
    then have "(if segment > len then len else segment) \<noteq> 0" using assms(2) by simp
    from percentage_fills [OF assms(1) this assms(3,4)] show ?thesis using False by (simp add: fill_buf_percentage_def)
  qed
  then show ?thesis using r by (auto simp: fill_random_buf_percentage_def)
qed

end
