(* ===== verification/Fio_Units.thy ===== *)
theory Fio_Units
  imports Fio_Jobs "HOL-Library.Multiset"
begin

text \<open>
  The units of a fio job: the stack of free units and the ring of units to be submitted again
  (\<^verbatim>\<open>fio4emu/io_u_queue.c\<close>, \<^verbatim>\<open>io_u_queue.h\<close>), and how a job takes a unit, gives
  it back or puts it on the ring (\<^verbatim>\<open>io_u.c\<close>, \<^verbatim>\<open>backend.c\<close>). A unit is known by its
  number. The job is one thread without asynchronous verification, so the locks are not taken;
  the reference count of the unit's file and zoned block devices are left out. \<open>None\<close> is a failed
  assertion, a NULL pointer or an access outside an array.
\<close>

section \<open>Stack and ring\<close>

record io_u_queue =
  q_io_us :: "nat ptr list"
  q_nr :: u32
  q_max :: u32

definition io_u_qinit :: "u32 \<Rightarrow> io_u_queue" where
  "io_u_qinit nr = \<lparr>q_io_us = replicate (unat nr) NULL, q_nr = 0, q_max = nr\<rparr>"

definition io_u_qpop :: "io_u_queue \<Rightarrow> (nat ptr \<times> io_u_queue) option" where
  "io_u_qpop q =
     (if q_nr q \<noteq> 0 then
        let i = unat (q_nr q - 1)
        in if i < length (q_io_us q)
           then Some (q_io_us q ! i, q\<lparr>q_nr := q_nr q - 1, q_io_us := (q_io_us q)[i := NULL]\<rparr>) else None
      else Some (NULL, q))"

definition io_u_qpush :: "nat \<Rightarrow> io_u_queue \<Rightarrow> io_u_queue option" where
  "io_u_qpush u q =
     (if q_nr q < q_max q \<and> unat (q_nr q) < length (q_io_us q)
      then Some (q\<lparr>q_nr := q_nr q + 1, q_io_us := (q_io_us q)[unat (q_nr q) := Some u]\<rparr>) else None)"

definition io_u_qempty :: "io_u_queue \<Rightarrow> bool" where "io_u_qempty q \<longleftrightarrow> q_nr q = 0"

record io_u_ring =
  r_head :: u32
  r_tail :: u32
  r_max :: u32
  r_ring :: "nat ptr list"

text \<open>The number of places is rounded up to a power of two.\<close>

definition ring_round :: "u32 \<Rightarrow> u32" where
  "ring_round m =
     (if m AND (m - 1) \<noteq> 0 then
        let m = m - 1;
            m = m OR drop_bit 1 m;
            m = m OR drop_bit 2 m;
            m = m OR drop_bit 4 m;
            m = m OR drop_bit 8 m;
            m = m OR drop_bit 16 m
        in m + 1
      else m)"

definition io_u_rinit :: "u32 \<Rightarrow> io_u_ring" where
  "io_u_rinit nr =
     (let max = ring_round (nr + 1)
      in \<lparr>r_head = 0, r_tail = 0, r_max = max, r_ring = replicate (unat max) NULL\<rparr>)"

definition io_u_rpush :: "nat \<Rightarrow> io_u_ring \<Rightarrow> io_u_ring option" where
  "io_u_rpush u r =
     (if r_head r + 1 \<noteq> r_tail r \<and> unat (r_head r) < length (r_ring r)
      then Some (r\<lparr>r_ring := (r_ring r)[unat (r_head r) := Some u], r_head := (r_head r + 1) AND (r_max r - 1)\<rparr>) else None)"

definition io_u_rpop :: "io_u_ring \<Rightarrow> (nat ptr \<times> io_u_ring) option" where
  "io_u_rpop r =
     (if r_head r \<noteq> r_tail r then
        if unat (r_tail r) < length (r_ring r)
        then Some (r_ring r ! unat (r_tail r), r\<lparr>r_tail := (r_tail r + 1) AND (r_max r - 1)\<rparr>) else None
      else Some (NULL, r))"

definition io_u_rempty :: "io_u_ring \<Rightarrow> bool" where "io_u_rempty r \<longleftrightarrow> r_head r = r_tail r"

section \<open>Units\<close>

definition IO_U_F_FREE :: u32 where "IO_U_F_FREE = push_bit 0 1"
definition IO_U_F_FLIGHT :: u32 where "IO_U_F_FLIGHT = push_bit 1 1"
definition IO_U_F_NO_FILE_PUT :: u32 where "IO_U_F_NO_FILE_PUT = push_bit 2 1"
definition IO_U_F_IN_CUR_DEPTH :: u32 where "IO_U_F_IN_CUR_DEPTH = push_bit 3 1"
definition IO_U_F_TRIMMED :: u32 where "IO_U_F_TRIMMED = push_bit 5 1"
definition IO_U_F_BARRIER :: u32 where "IO_U_F_BARRIER = push_bit 6 1"
definition IO_U_F_VER_LIST :: u32 where "IO_U_F_VER_LIST = push_bit 7 1"

text \<open>The field \<open>iu_acct_ddir\<close> is \<open>None\<close> for -1.\<close>

record unit_u =
  iu_file :: "nat ptr"
  iu_flags :: u32
  iu_ddir :: fio_ddir
  iu_acct_ddir :: "fio_ddir option"
  iu_buflen :: u64
  iu_resid :: u64
  iu_error :: u32
  iu_end_io :: "nat ptr"
  iu_ipo :: "nat ptr"
  iu_index :: u32

record unit_pool =
  up_units :: "nat \<Rightarrow> unit_u"
  up_freelist :: io_u_queue
  up_all :: io_u_queue
  up_requeues :: io_u_ring
  up_cur_depth :: u32
  up_io_issues :: "fio_ddir \<Rightarrow> u64"
  up_stop_io :: bool
  up_latency_target :: u64
  up_latency_qd :: u32

definition acct_ddir :: "unit_u \<Rightarrow> fio_ddir" where
  "acct_ddir u = (case iu_acct_ddir u of Some d \<Rightarrow> d | None \<Rightarrow> iu_ddir u)"

definition io_u_set :: "u32 \<Rightarrow> unit_u \<Rightarrow> unit_u" where "io_u_set val u = u\<lparr>iu_flags := iu_flags u OR val\<rparr>"
definition io_u_clear :: "u32 \<Rightarrow> unit_u \<Rightarrow> unit_u" where "io_u_clear val u = u\<lparr>iu_flags := iu_flags u AND NOT val\<rparr>"

definition upd_unit :: "nat \<Rightarrow> (unit_u \<Rightarrow> unit_u) \<Rightarrow> unit_pool \<Rightarrow> unit_pool" where
  "upd_unit i g p = p\<lparr>up_units := (up_units p)(i := g (up_units p i))\<rparr>"

text \<open>A cleared unit (\<^verbatim>\<open>memset\<close>); the direction 0 is \<^verbatim>\<open>DDIR_READ\<close>.\<close>

definition blank_unit :: unit_u where
  "blank_unit = \<lparr>iu_file = NULL, iu_flags = 0, iu_ddir = DDIR_READ, iu_acct_ddir = Some DDIR_READ, iu_buflen = 0, iu_resid = 0,
     iu_error = 0, iu_end_io = NULL, iu_ipo = NULL, iu_index = 0\<rparr>"

text \<open>The loop of \<^verbatim>\<open>init_io_u\<close> over the units, for an engine without its own part of a unit and
  with memory for all; the buffers and the completion log are left out.\<close>

primrec init_units :: "nat list \<Rightarrow> unit_pool \<Rightarrow> unit_pool option" where
  "init_units [] p = Some p"
| "init_units (i # is) p = do {
     free \<leftarrow> io_u_qpush i (up_freelist p);
     all \<leftarrow> io_u_qpush i (up_all p);
     init_units is ((upd_unit i (\<lambda>_. blank_unit\<lparr>iu_index := of_nat i, iu_flags := IO_U_F_FREE\<rparr>) p)\<lparr>up_freelist := free, up_all := all\<rparr>)
   }"

definition init_io_u :: "u32 \<Rightarrow> unit_pool \<Rightarrow> unit_pool option" where
  "init_io_u iodepth p =
     init_units [0..<unat iodepth]
       (p\<lparr>up_requeues := io_u_rinit iodepth, up_freelist := io_u_qinit iodepth, up_all := io_u_qinit iodepth\<rparr>)"

definition queue_full :: "unit_pool \<Rightarrow> bool" where
  "queue_full p \<longleftrightarrow> io_u_qempty (up_freelist p) \<or> up_latency_target p \<noteq> 0 \<and> up_cur_depth p \<ge> up_latency_qd p"

definition take_unit :: "nat \<Rightarrow> unit_pool \<Rightarrow> unit_pool option" where
  "take_unit i p =
     (if iu_flags (up_units p i) AND IO_U_F_FREE = 0 then None
      else Some ((upd_unit i (\<lambda>u. io_u_set IO_U_F_IN_CUR_DEPTH
             ((io_u_clear (IO_U_F_FREE OR IO_U_F_NO_FILE_PUT OR IO_U_F_TRIMMED OR IO_U_F_BARRIER OR IO_U_F_VER_LIST) u)
               \<lparr>iu_error := 0, iu_acct_ddir := None, iu_ipo := NULL\<rparr>)) p)\<lparr>up_cur_depth := up_cur_depth p + 1\<rparr>))"

text \<open>\<^verbatim>\<open>__get_io_u\<close>.\<close>

definition get_unit :: "unit_pool \<Rightarrow> (nat ptr \<times> unit_pool) option" where
  "get_unit p =
     (if up_stop_io p then Some (NULL, p)
      else if \<not> io_u_rempty (up_requeues p) then do {
        (u, r) \<leftarrow> io_u_rpop (up_requeues p);
        i \<leftarrow> u;
        p1 \<leftarrow> take_unit i (upd_unit i (\<lambda>u. u\<lparr>iu_resid := 0\<rparr>) (p\<lparr>up_requeues := r\<rparr>));
        Some (Some i, p1)
      }
      else if \<not> queue_full p then do {
        (u, q) \<leftarrow> io_u_qpop (up_freelist p);
        i \<leftarrow> u;
        p1 \<leftarrow> take_unit i (upd_unit i (\<lambda>u. u\<lparr>iu_file := NULL, iu_buflen := 0, iu_resid := 0, iu_end_io := NULL\<rparr>) (p\<lparr>up_freelist := q\<rparr>));
        Some (Some i, p1)
      }
      else Some (NULL, p))"

definition put_io_u :: "nat \<Rightarrow> unit_pool \<Rightarrow> unit_pool option" where
  "put_io_u i p = do {
     let p1 = upd_unit i (\<lambda>u. io_u_set IO_U_F_FREE (u\<lparr>iu_file := NULL\<rparr>)) p;
     let p2 = (if iu_flags (up_units p1 i) AND IO_U_F_IN_CUR_DEPTH \<noteq> 0 then p1\<lparr>up_cur_depth := up_cur_depth p1 - 1\<rparr> else p1);
     q \<leftarrow> io_u_qpush i (up_freelist p2);
     Some (p2\<lparr>up_freelist := q\<rparr>)
   }"

definition clear_io_u :: "nat \<Rightarrow> unit_pool \<Rightarrow> unit_pool option" where
  "clear_io_u i p = put_io_u i (upd_unit i (io_u_clear IO_U_F_FLIGHT) p)"

definition requeue_io_u :: "nat \<Rightarrow> unit_pool \<Rightarrow> unit_pool option" where
  "requeue_io_u i p = do {
     let ddir = acct_ddir (up_units p i);
     let p1 = upd_unit i (io_u_set IO_U_F_FREE) p;
     let p2 = (if iu_flags (up_units p1 i) AND IO_U_F_FLIGHT \<noteq> 0 \<and> ddir_rw ddir
               then p1\<lparr>up_io_issues := (up_io_issues p1)(ddir := up_io_issues p1 ddir - 1)\<rparr> else p1);
     let p3 = upd_unit i (io_u_clear IO_U_F_FLIGHT) p2;
     let p4 = (if iu_flags (up_units p3 i) AND IO_U_F_IN_CUR_DEPTH \<noteq> 0 then p3\<lparr>up_cur_depth := up_cur_depth p3 - 1\<rparr> else p3);
     r \<leftarrow> io_u_rpush i (up_requeues p4);
     Some (p4\<lparr>up_requeues := r\<rparr>)
   }"

section \<open>The stack\<close>

definition stack_repr :: "io_u_queue \<Rightarrow> nat list \<Rightarrow> bool" where
  "stack_repr q xs \<longleftrightarrow> length (q_io_us q) = unat (q_max q) \<and> unat (q_nr q) = length xs \<and> length xs \<le> unat (q_max q) \<and>
     take (length xs) (q_io_us q) = map Some (rev xs)"

lemma stack_init: "stack_repr (io_u_qinit nr) []"
  by (simp add: stack_repr_def io_u_qinit_def)

lemma stack_push:
  assumes "stack_repr q xs" and "length xs < unat (q_max q)"
  shows "\<exists>q'. io_u_qpush u q = Some q' \<and> stack_repr q' (u # xs) \<and> q_max q' = q_max q"
proof -
  have q: "length (q_io_us q) = unat (q_max q)" "unat (q_nr q) = length xs" "take (length xs) (q_io_us q) = map Some (rev xs)"
    using assms(1) by (simp_all add: stack_repr_def)
  have lt: "q_nr q < q_max q" using assms(2) q by (simp add: word_less_nat_alt)
  have n: "unat (q_nr q + 1) = Suc (length xs)" using unat_inc_less [OF lt] q(2) by simp
  have "take (Suc (length xs)) ((q_io_us q)[length xs := Some u]) = map Some (rev (u # xs))"
    using assms(2) q by (simp add: take_Suc_conv_app_nth take_update_cancel)
  then show ?thesis using lt n q assms(2) by (simp add: io_u_qpush_def stack_repr_def)
qed

lemma stack_pop:
  assumes "stack_repr q (u # xs)"
  shows "\<exists>q'. io_u_qpop q = Some (Some u, q') \<and> stack_repr q' xs \<and> q_max q' = q_max q"
proof -
  have q: "length (q_io_us q) = unat (q_max q)" "unat (q_nr q) = Suc (length xs)" "Suc (length xs) \<le> unat (q_max q)"
    "take (Suc (length xs)) (q_io_us q) = map Some (rev xs) @ [Some u]"
    using assms by (simp_all add: stack_repr_def)
  have z: "q_nr q \<noteq> 0" using q(2) by auto
  then have n: "unat (q_nr q - 1) = length xs" using q(2) by (simp add: unat_minus_one)
  have "take (length xs) (q_io_us q) @ [q_io_us q ! length xs] = map Some (rev xs) @ [Some u]"
    using q by (simp add: take_Suc_conv_app_nth)
  then have "take (length xs) (q_io_us q) = map Some (rev xs)" "q_io_us q ! length xs = Some u" by simp_all
  then show ?thesis using z n q by (simp add: io_u_qpop_def stack_repr_def)
qed

lemma stack_empty: "stack_repr q xs \<Longrightarrow> io_u_qempty q \<longleftrightarrow> xs = []"
  by (auto simp: stack_repr_def io_u_qempty_def unat_eq_0)

section \<open>The ring\<close>

text \<open>Each step of the rounding doubles the reach of a bit to the lower ones.\<close>

definition smeared :: "nat \<Rightarrow> u32 \<Rightarrow> u32 \<Rightarrow> bool" where
  "smeared n x y \<longleftrightarrow> (\<forall>i. bit y i \<longleftrightarrow> (\<exists>k < n. bit x (i + k)))"

lemma smear_step: "smeared n x y \<Longrightarrow> smeared (n + n) x (y OR drop_bit n y)"
proof -
  assume y: "smeared n x y"
  have "(\<exists>k < n. bit x (i + k)) \<or> (\<exists>k < n. bit x (n + i + k)) \<longleftrightarrow> (\<exists>k < n + n. bit x (i + k))" for i
  proof
    assume "\<exists>k < n + n. bit x (i + k)"
    then obtain k where k: "k < n + n" "bit x (i + k)" by blast
    show "(\<exists>k < n. bit x (i + k)) \<or> (\<exists>k < n. bit x (n + i + k))"
    proof (cases "k < n")
      case False
      then have "k - n < n" "n + i + (k - n) = i + k" using k(1) by simp_all
      then show ?thesis using k(2) by metis
    qed (use k(2) in blast)
  qed (metis add.assoc add.commute nat_add_left_cancel_less trans_less_add1)
  then show ?thesis using y by (simp add: smeared_def bit_or_iff bit_drop_bit_eq)
qed

lemma smear_all:
  fixes x :: u32
  defines "a \<equiv> x OR drop_bit 1 x"
  defines "b \<equiv> a OR drop_bit 2 a"
  defines "c \<equiv> b OR drop_bit 4 b"
  defines "d \<equiv> c OR drop_bit 8 c"
  shows "smeared 32 x (d OR drop_bit 16 d)"
proof -
  have "smeared 1 x x" by (simp add: smeared_def)
  from smear_step [OF this] have "smeared 2 x a" unfolding a_def one_add_one .
  from smear_step [OF this] have "smeared 4 x b" by (simp add: b_def)
  from smear_step [OF this] have "smeared 8 x c" by (simp add: c_def)
  from smear_step [OF this] have "smeared 16 x d" by (simp add: d_def)
  from smear_step [OF this] show ?thesis by simp
qed

lemma smeared_mask:
  assumes "smeared 32 x y" and "2 ^ t \<le> unat x" and "unat x < 2 ^ Suc t" and "t < 31"
  shows "unat (y + 1) = 2 ^ Suc t"
proof -
  have b: "bit x j \<longleftrightarrow> odd (unat x div 2 ^ j)" for j
    using bit_unsigned_iff [of x j, where 'a = nat] by (simp add: bit_iff_odd [of "unat x"])
  have top: "bit x t"
  proof -
    have "unat x div 2 ^ t = 1" using assms(2,3) by (intro div_nat_eqI) (simp_all add: mult.commute)
    then show ?thesis by (simp add: b)
  qed
  have above: "\<not> bit x j" if "t < j" for j
  proof -
    have "(2::nat) ^ Suc t \<le> 2 ^ j" using that by (intro power_increasing) simp_all
    then have "unat x div 2 ^ j = 0" using assms(3) by (intro div_less) linarith
    then show ?thesis by (simp add: b)
  qed
  have "y = mask (Suc t)"
  proof (rule bit_word_eqI)
    fix i
    show "bit y i = bit (mask (Suc t) :: u32) i"
    proof (cases "i \<le> t")
      case True
      then have "t - i < 32" "bit x (i + (t - i))" using top assms(4) by simp_all
      then show ?thesis using assms(1,4) True unfolding smeared_def by (auto simp: bit_mask_iff)
    next
      case False
      then show ?thesis using assms(1) above unfolding smeared_def by (auto simp: bit_mask_iff)
    qed
  qed
  then have "y + 1 = of_nat (2 ^ Suc t)" by (simp add: mask_eq_exp_minus_1)
  moreover have "(2::nat) ^ Suc t < 2 ^ 32" using assms(4) by (intro power_strict_increasing) simp_all
  ultimately show ?thesis by (simp only: unat_of_nat_u32)
qed

lemma top_bit_exists: "0 < n \<Longrightarrow> \<exists>t. 2 ^ t \<le> n \<and> n < 2 ^ Suc t" for n :: nat
proof (induction n rule: less_induct)
  case (less n)
  show ?case
  proof (cases "n < 2")
    case True
    then show ?thesis using less.prems by (intro exI [of _ 0]) simp
  next
    case False
    then obtain t where "2 ^ t \<le> n div 2" "n div 2 < 2 ^ Suc t" using less.IH [of "n div 2"] by auto
    then show ?thesis by (intro exI [of _ "Suc t"]) (simp, linarith)
  qed
qed

lemma ring_round_power:
  assumes "0 < unat m" and "unat m \<le> 2 ^ 31"
  shows "\<exists>n \<le> 31. unat (ring_round m) = 2 ^ n \<and> unat m \<le> 2 ^ n"
proof (cases "m AND (m - 1) = 0")
  case True
  then have "unat m AND (unat m - 1) = 0" using assms(1) by (metis unat_minus_one unsigned_0 unsigned_and_eq less_numeral_extra(3))
  then obtain k where k: "unat m = 2 ^ k" using and_pred_zero [of "unat m"] assms(1) by auto
  then have "(2::nat) ^ k \<le> 2 ^ 31" using assms(2) by simp
  then have "k \<le> 31" by (rule power_le_imp_le_exp [rotated]) simp
  then show ?thesis using True k by (auto simp: ring_round_def)
next
  case False
  then have m: "m \<noteq> 0" "m - 1 \<noteq> 0" by auto
  then have u: "unat (m - 1) = unat m - 1" "0 < unat (m - 1)" using unat_minus_one unat_gt_0 by blast+
  obtain t where t: "2 ^ t \<le> unat (m - 1)" "unat (m - 1) < 2 ^ Suc t" using top_bit_exists [OF u(2)] by blast
  have "(2::nat) ^ t < 2 ^ 31" using t(1) u assms(2) by linarith
  then have t31: "t < 31" by (rule power_less_imp_less_exp [rotated]) simp
  have "unat (ring_round m) = 2 ^ Suc t"
    using smeared_mask [OF smear_all t t31] False by (simp add: ring_round_def Let_def)
  then show ?thesis using t31 t(2) u by (intro exI [of _ "Suc t"]) simp
qed

text \<open>The ring holds a queue, starting at the tail; one place stays empty.\<close>

definition places_repr :: "nat \<Rightarrow> io_u_ring \<Rightarrow> nat list \<Rightarrow> bool" where
  "places_repr n r xs \<longleftrightarrow> n \<le> 31 \<and> unat (r_max r) = 2 ^ n \<and> length (r_ring r) = 2 ^ n \<and> unat (r_tail r) < 2 ^ n \<and>
     length xs < 2 ^ n \<and> unat (r_head r) = (unat (r_tail r) + length xs) mod 2 ^ n \<and>
     (\<forall>k < length xs. r_ring r ! ((unat (r_tail r) + k) mod 2 ^ n) = Some (xs ! k))"

lemma ring_index:
  assumes "n \<le> 31" and "unat m = 2 ^ n" and "unat i < 2 ^ n"
  shows "unat ((i + 1) AND (m - 1 :: u32)) = (unat i + 1) mod 2 ^ n"
proof -
  have "m = of_nat (2 ^ n)" using assms(2) by (metis of_nat_unat ucast_id)
  then have "m - 1 = mask n" by (simp add: mask_eq_exp_minus_1)
  then have "(i + 1) AND (m - 1) = take_bit n (i + 1)" by (simp add: take_bit_eq_mask)
  moreover have "unat i + 1 < 2 ^ 32"
    using assms(3) power_increasing [OF assms(1), of "2::nat"] by simp
  then have "unat (i + 1) = unat i + 1" by (simp add: unat_word_ariths)
  ultimately have "unat ((i + 1) AND (m - 1)) = take_bit n (unat i + 1)" by (simp only: unsigned_take_bit_eq)
  then show ?thesis by (simp only: take_bit_eq_mod)
qed

lemma mod_apart: "i < j \<Longrightarrow> j < (s::nat) \<Longrightarrow> (t + i) mod s \<noteq> (t + j) mod s"
proof
  assume "i < j" "j < s" "(t + i) mod s = (t + j) mod s"
  then have "s dvd (t + j) - (t + i)" by (subst mod_eq_dvd_iff_nat [symmetric]) simp_all
  then have "s dvd j - i" by simp
  then show False using \<open>i < j\<close> \<open>j < s\<close> by (auto dest: dvd_imp_le)
qed

lemma ring_push:
  assumes "places_repr n r xs" and "Suc (length xs) < 2 ^ n"
  shows "\<exists>r'. io_u_rpush u r = Some r' \<and> places_repr n r' (xs @ [u])"
proof -
  let ?t = "unat (r_tail r)" and ?h = "unat (r_head r)"
  have r: "n \<le> 31" "unat (r_max r) = 2 ^ n" "length (r_ring r) = 2 ^ n" "?t < 2 ^ n" "?h = (?t + length xs) mod 2 ^ n"
    and nth: "\<And>k. k < length xs \<Longrightarrow> r_ring r ! ((?t + k) mod 2 ^ n) = Some (xs ! k)"
    using assms(1) by (simp_all add: places_repr_def)
  have h: "?h < 2 ^ n" using r(5) by simp
  have "?h + 1 < 2 ^ 32" using h power_increasing [OF r(1), of "2::nat"] by simp
  then have h1: "unat (r_head r + 1) = ?h + 1" by (simp add: unat_word_ariths)
  have "r_head r + 1 \<noteq> r_tail r"
  proof
    assume "r_head r + 1 = r_tail r"
    then have "?t = (?t + length xs) mod 2 ^ n + 1" using h1 r(5) by simp
    then have "(?t + 0) mod 2 ^ n = (?t + (length xs + 1)) mod 2 ^ n" using r(4) by (metis add.assoc add.right_neutral mod_add_left_eq mod_less)
    then show False using mod_apart [of 0 "length xs + 1" "2 ^ n" ?t] assms(2) by simp
  qed
  moreover have "(?h + 1) mod 2 ^ n = (?t + length (xs @ [u])) mod 2 ^ n" unfolding r(5) by (simp add: mod_simps)
  moreover have "(r_ring r)[?h := Some u] ! ((?t + k) mod 2 ^ n) = Some ((xs @ [u]) ! k)" if "k < length (xs @ [u])" for k
    using that nth [of k] mod_apart [of k "length xs" "2 ^ n" ?t] assms(2) r(3) h by (cases "k = length xs") (auto simp: r(5) nth_append nth_list_update)
  ultimately show ?thesis using r h assms(2) ring_index [OF r(1,2) h] unfolding io_u_rpush_def places_repr_def by auto
qed

lemma ring_pop:
  assumes "places_repr n r (u # xs)"
  shows "\<exists>r'. io_u_rpop r = Some (Some u, r') \<and> places_repr n r' xs"
proof -
  let ?t = "unat (r_tail r)"
  have r: "n \<le> 31" "unat (r_max r) = 2 ^ n" "length (r_ring r) = 2 ^ n" "?t < 2 ^ n" "unat (r_head r) = (?t + Suc (length xs)) mod 2 ^ n"
    "Suc (length xs) < 2 ^ n"
    and nth: "\<And>k. k < Suc (length xs) \<Longrightarrow> r_ring r ! ((?t + k) mod 2 ^ n) = Some ((u # xs) ! k)"
    using assms by (simp_all add: places_repr_def)
  have "r_head r \<noteq> r_tail r"
    using mod_apart [of 0 "Suc (length xs)" "2 ^ n" ?t] r(4,5,6) by auto
  moreover have "r_ring r ! (((?t + 1) mod 2 ^ n + k) mod 2 ^ n) = Some (xs ! k)" if "k < length xs" for k
    using nth [of "Suc k"] that by (simp add: mod_simps)
  ultimately show ?thesis using r nth [of 0] ring_index [OF r(1,2,4)]
    by (auto simp: io_u_rpop_def places_repr_def mod_simps)
qed

lemma ring_init:
  assumes "unat nr < 2 ^ 31"
  shows "\<exists>n. places_repr n (io_u_rinit nr) [] \<and> unat nr < 2 ^ n"
proof -
  have u: "unat (nr + 1) = unat nr + 1" using assms by (simp add: unat_word_ariths)
  then obtain n where n: "n \<le> 31" "unat (ring_round (nr + 1)) = 2 ^ n" "unat (nr + 1) \<le> 2 ^ n"
    using ring_round_power [of "nr + 1"] assms by auto
  then have "places_repr n (io_u_rinit nr) []" by (simp add: places_repr_def io_u_rinit_def Let_def)
  then show ?thesis using n(3) u by auto
qed

lemma ring_empty: "places_repr n r xs \<Longrightarrow> io_u_rempty r \<longleftrightarrow> xs = []"
proof (cases xs)
  case (Cons u us)
  assume r: "places_repr n r xs"
  then have "(unat (r_tail r) + 0) mod 2 ^ n \<noteq> (unat (r_tail r) + length xs) mod 2 ^ n"
    using mod_apart [of 0 "length xs" "2 ^ n" "unat (r_tail r)"] Cons by (simp add: places_repr_def)
  then show ?thesis using r Cons by (auto simp: places_repr_def io_u_rempty_def)
qed (auto simp: places_repr_def io_u_rempty_def word_unat_eq_iff)

text \<open>The ring provides the queue interface as long as one place stays free.\<close>

definition ring_deq :: "io_u_ring \<Rightarrow> (nat \<times> io_u_ring) option" where
  "ring_deq r = (case io_u_rpop r of Some (Some u, r') \<Rightarrow> Some (u, r') | _ \<Rightarrow> None)"

interpretation requeues: fifo "places_repr n" io_u_rpush ring_deq "\<lambda>_ xs. Suc (length xs) < 2 ^ n"
proof unfold_locales
  show "\<exists>s'. io_u_rpush x s = Some s' \<and> places_repr n s' (xs @ [x])" if "places_repr n s xs" "Suc (length xs) < 2 ^ n" for s xs x
    using ring_push [OF that] .
  show "\<exists>s'. ring_deq s = Some (x, s') \<and> places_repr n s' xs" if "places_repr n s (x # xs)" for s x xs
    using ring_pop [OF that] by (auto simp: ring_deq_def)
  show "ring_deq s = None" if "places_repr n s []" for s
    using ring_empty [OF that] by (simp add: ring_deq_def io_u_rpop_def io_u_rempty_def)
qed

text \<open>The check for a full ring does not wrap around: with the tail at 0, a push into the last place
  succeeds and leaves a ring that looks empty.\<close>

lemma ring_full_lost:
  "\<exists>r. io_u_rpush 3 \<lparr>r_head = 3, r_tail = 0, r_max = 4, r_ring = [Some 0, Some 1, Some 2, NULL]\<rparr> = Some r \<and> io_u_rempty r"
  by (simp add: io_u_rpush_def io_u_rempty_def)

section \<open>The pool\<close>

text \<open>The units of a job are free, waiting on the ring, or in use.\<close>

definition pool_repr :: "u32 \<Rightarrow> unit_pool \<Rightarrow> nat list \<Rightarrow> nat list \<Rightarrow> nat set \<Rightarrow> bool" where
  "pool_repr depth p free req busy \<longleftrightarrow>
     stack_repr (up_freelist p) free \<and> q_max (up_freelist p) = depth \<and>
     (\<exists>n. places_repr n (up_requeues p) req \<and> unat depth < 2 ^ n) \<and>
     distinct (free @ req) \<and> set (free @ req) \<inter> busy = {} \<and> set (free @ req) \<union> busy = {..<unat depth} \<and>
     (\<forall>u \<in> set (free @ req). bit (iu_flags (up_units p u)) 0) \<and>
     (\<forall>u \<in> busy. \<not> bit (iu_flags (up_units p u)) 0 \<and> bit (iu_flags (up_units p u)) 3) \<and>
     unat (up_cur_depth p) = card busy"

lemma flag_bit: "x AND push_bit n 1 = 0 \<longleftrightarrow> \<not> bit x n" for x :: u32
  by (simp add: push_bit_of_1 and_exp_eq_0_iff_not_bit)

lemmas unit_flags = IO_U_F_FREE_def IO_U_F_FLIGHT_def IO_U_F_NO_FILE_PUT_def IO_U_F_IN_CUR_DEPTH_def IO_U_F_TRIMMED_def
  IO_U_F_BARRIER_def IO_U_F_VER_LIST_def

lemma pool_finite: "pool_repr depth p free req busy \<Longrightarrow> finite busy"
  unfolding pool_repr_def by (metis finite_Un finite_lessThan)

lemma pool_count:
  assumes "pool_repr depth p free req busy"
  shows "length free + length req + card busy = unat depth"
proof -
  have "card (set (free @ req) \<union> busy) = card (set (free @ req)) + card busy"
    using assms pool_finite [OF assms] by (intro card_Un_disjoint) (auto simp: pool_repr_def)
  then show ?thesis using assms distinct_card [of "free @ req"] by (simp add: pool_repr_def)
qed

lemma take_unit_ok:
  assumes "bit (iu_flags (up_units p i)) 0"
  shows "\<exists>p'. take_unit i p = Some p' \<and> up_freelist p' = up_freelist p \<and> up_requeues p' = up_requeues p \<and>
    up_cur_depth p' = up_cur_depth p + 1 \<and> (\<forall>j. j \<noteq> i \<longrightarrow> up_units p' j = up_units p j) \<and>
    \<not> bit (iu_flags (up_units p' i)) 0 \<and> bit (iu_flags (up_units p' i)) 3"
  using assms unfolding take_unit_def IO_U_F_FREE_def flag_bit
  by (auto simp: upd_unit_def io_u_set_def io_u_clear_def unit_flags bit_simps)

text \<open>A unit that leaves the free ones or the ring is in use.\<close>

lemma pool_take:
  assumes "stack_repr (up_freelist p') free'" and "q_max (up_freelist p') = depth" and "\<exists>n. places_repr n (up_requeues p') req' \<and> unat depth < 2 ^ n"
    and "pool_repr depth p free req busy" and "mset (free @ req) = add_mset u (mset (free' @ req'))"
    and "up_cur_depth p' = up_cur_depth p + 1" and "\<forall>j. j \<noteq> u \<longrightarrow> up_units p' j = up_units p j"
    and "\<not> bit (iu_flags (up_units p' u)) 0" and "bit (iu_flags (up_units p' u)) 3"
  shows "pool_repr depth p' free' req' (insert u busy)"
proof -
  have s: "set (free @ req) = insert u (set (free' @ req'))" using arg_cong [OF assms(5), of set_mset] by simp
  have d: "distinct (u # (free' @ req'))"
    using assms(4,5) by (metis mset.simps(2) mset_eq_imp_distinct_iff pool_repr_def)
  have n: "u \<notin> busy" using assms(4) s by (auto simp: pool_repr_def)
  have "card busy < unat depth" using pool_count [OF assms(4)] assms(5) by (metis add_gr_0 length_append less_add_same_cancel2 size_add_mset size_mset zero_less_Suc)
  then have "unat (up_cur_depth p + 1) = card busy + 1"
    using assms(4) unat_inc_less [of "up_cur_depth p" depth] by (simp add: pool_repr_def word_less_nat_alt)
  then have c: "unat (up_cur_depth p') = card (insert u busy)" using assms(6) n pool_finite [OF assms(4)] by simp
  have f: "bit (iu_flags (up_units p' v)) 0" if "v \<in> set (free' @ req')" for v
    using that assms(4,7) d s by (metis distinct.simps(2) insertCI pool_repr_def)
  have b: "\<not> bit (iu_flags (up_units p' v)) 0 \<and> bit (iu_flags (up_units p' v)) 3" if "v \<in> insert u busy" for v
    using that assms(4,7,8,9) by (cases "v = u") (auto simp: pool_repr_def)
  show ?thesis unfolding pool_repr_def using assms(1,2,3,4) d s c f b by (auto simp: pool_repr_def)
qed

lemma get_requeued:
  assumes "pool_repr depth p free (u # req) busy" and "\<not> up_stop_io p"
  shows "\<exists>p'. get_unit p = Some (Some u, p') \<and> pool_repr depth p' free req (insert u busy)"
proof -
  obtain n where n: "places_repr n (up_requeues p) (u # req)" "unat depth < 2 ^ n" using assms(1) unfolding pool_repr_def by blast
  then obtain r where r: "places_repr n (up_requeues p) (u # req)" "unat depth < 2 ^ n" "io_u_rpop (up_requeues p) = Some (Some u, r)" "places_repr n r req"
    using ring_pop [OF n(1)] by blast
  let ?p = "upd_unit u (\<lambda>v. v\<lparr>iu_resid := 0\<rparr>) (p\<lparr>up_requeues := r\<rparr>)"
  have "bit (iu_flags (up_units ?p u)) 0" using assms(1) by (simp add: upd_unit_def pool_repr_def)
  from take_unit_ok [OF this] obtain p' where t: "take_unit u ?p = Some p'" "up_freelist p' = up_freelist ?p" "up_requeues p' = up_requeues ?p"
    "up_cur_depth p' = up_cur_depth ?p + 1" "\<forall>j. j \<noteq> u \<longrightarrow> up_units p' j = up_units ?p j" "\<not> bit (iu_flags (up_units p' u)) 0" "bit (iu_flags (up_units p' u)) 3"
    by blast
  have "get_unit p = Some (Some u, p')" using assms(2) ring_empty [OF r(1)] r(3) t(1) by (simp add: get_unit_def)
  moreover have "pool_repr depth p' free req (insert u busy)"
    by (rule pool_take [OF _ _ _ assms(1)]) (use assms(1) r t in \<open>auto simp: pool_repr_def upd_unit_def\<close>)
  ultimately show ?thesis by blast
qed

lemma get_free:
  assumes "pool_repr depth p (u # free) [] busy" and "\<not> up_stop_io p" and "\<not> (up_latency_target p \<noteq> 0 \<and> up_cur_depth p \<ge> up_latency_qd p)"
  shows "\<exists>p'. get_unit p = Some (Some u, p') \<and> pool_repr depth p' free [] (insert u busy)"
proof -
  obtain n where n: "places_repr n (up_requeues p) []" "unat depth < 2 ^ n" using assms(1) unfolding pool_repr_def by blast
  obtain q where q: "io_u_qpop (up_freelist p) = Some (Some u, q)" "stack_repr q free" "q_max q = depth"
    using assms(1) stack_pop unfolding pool_repr_def by metis
  let ?p = "upd_unit u (\<lambda>v. v\<lparr>iu_file := NULL, iu_buflen := 0, iu_resid := 0, iu_end_io := NULL\<rparr>) (p\<lparr>up_freelist := q\<rparr>)"
  have "bit (iu_flags (up_units ?p u)) 0" using assms(1) by (simp add: upd_unit_def pool_repr_def)
  from take_unit_ok [OF this] obtain p' where t: "take_unit u ?p = Some p'" "up_freelist p' = up_freelist ?p" "up_requeues p' = up_requeues ?p"
    "up_cur_depth p' = up_cur_depth ?p + 1" "\<forall>j. j \<noteq> u \<longrightarrow> up_units p' j = up_units ?p j" "\<not> bit (iu_flags (up_units p' u)) 0" "bit (iu_flags (up_units p' u)) 3"
    by blast
  have "\<not> queue_full p" using assms stack_empty [of "up_freelist p" "u # free"] by (auto simp: queue_full_def pool_repr_def)
  then have "get_unit p = Some (Some u, p')" using assms(2) ring_empty [OF n(1)] q(1) t(1) by (simp add: get_unit_def)
  moreover have "pool_repr depth p' free [] (insert u busy)"
    by (rule pool_take [OF _ _ _ assms(1)]) (use assms(1) n q t in \<open>auto simp: pool_repr_def upd_unit_def\<close>)
  ultimately show ?thesis by blast
qed

lemma get_none:
  assumes "pool_repr depth p free [] busy" and "up_stop_io p \<or> free = [] \<or> up_latency_target p \<noteq> 0 \<and> up_cur_depth p \<ge> up_latency_qd p"
  shows "get_unit p = Some (NULL, p)"
  using assms stack_empty [of "up_freelist p" free] ring_empty [of _ "up_requeues p" "[]"]
  by (auto simp: get_unit_def queue_full_def pool_repr_def)

text \<open>A unit that is given back or put on the ring.\<close>

lemma pool_give:
  assumes "stack_repr (up_freelist p') free'" and "q_max (up_freelist p') = depth" and "\<exists>n. places_repr n (up_requeues p') req' \<and> unat depth < 2 ^ n"
    and "pool_repr depth p free req busy" and "u \<in> busy" and "mset (free' @ req') = add_mset u (mset (free @ req))"
    and "up_cur_depth p' = up_cur_depth p - 1" and "\<forall>j. j \<noteq> u \<longrightarrow> up_units p' j = up_units p j"
    and "bit (iu_flags (up_units p' u)) 0"
  shows "pool_repr depth p' free' req' (busy - {u})"
proof -
  have s: "set (free' @ req') = insert u (set (free @ req))" using arg_cong [OF assms(6), of set_mset] by simp
  have n: "u \<notin> set (free @ req)" using assms(4,5) by (auto simp: pool_repr_def)
  have "distinct (u # (free @ req))" using n assms(4) by (simp add: pool_repr_def)
  then have d: "distinct (free' @ req')" using assms(6) by (metis mset.simps(2) mset_eq_imp_distinct_iff)
  have fin: "finite busy" by (rule pool_finite [OF assms(4)])
  have "up_cur_depth p \<noteq> 0" using assms(4,5) fin by (auto simp: pool_repr_def card_gt_0_iff)
  then have c: "unat (up_cur_depth p') = card (busy - {u})"
    using assms(4,5,7) fin by (simp add: unat_minus_one pool_repr_def card_Diff_singleton)
  have f: "bit (iu_flags (up_units p' v)) 0" if "v \<in> set (free' @ req')" for v
    using that assms(4,8,9) s by (cases "v = u") (auto simp: pool_repr_def)
  have b: "\<not> bit (iu_flags (up_units p' v)) 0 \<and> bit (iu_flags (up_units p' v)) 3" if "v \<in> busy - {u}" for v
    using that assms(4,8) by (auto simp: pool_repr_def)
  show ?thesis unfolding pool_repr_def using assms(1,2,3,4,5) d s c f b n by (auto simp: pool_repr_def)
qed

lemma put_ok:
  assumes "pool_repr depth p free req busy" and "u \<in> busy"
  shows "\<exists>p'. put_io_u u p = Some p' \<and> pool_repr depth p' (u # free) req (busy - {u})"
proof -
  have "0 < card busy" using assms pool_finite [OF assms(1)] by (auto simp: card_gt_0_iff)
  then have "length free < unat depth" using pool_count [OF assms(1)] by simp
  then obtain q where q: "io_u_qpush u (up_freelist p) = Some q" "stack_repr q (u # free)" "q_max q = depth"
    using stack_push assms(1) unfolding pool_repr_def by metis
  have "bit (iu_flags (up_units p u)) 3" using assms by (simp add: pool_repr_def)
  then have "\<exists>p'. put_io_u u p = Some p' \<and> up_freelist p' = q \<and> up_requeues p' = up_requeues p \<and> up_cur_depth p' = up_cur_depth p - 1 \<and>
      (\<forall>j. j \<noteq> u \<longrightarrow> up_units p' j = up_units p j) \<and> bit (iu_flags (up_units p' u)) 0"
    unfolding put_io_u_def Let_def IO_U_F_IN_CUR_DEPTH_def flag_bit using q(1)
    by (simp add: upd_unit_def io_u_set_def IO_U_F_FREE_def bit_simps)
  then obtain p' where p': "put_io_u u p = Some p'" "up_freelist p' = q" "up_requeues p' = up_requeues p" "up_cur_depth p' = up_cur_depth p - 1"
      "\<forall>j. j \<noteq> u \<longrightarrow> up_units p' j = up_units p j" "bit (iu_flags (up_units p' u)) 0" by blast
  have "pool_repr depth p' (u # free) req (busy - {u})"
    by (rule pool_give [OF _ _ _ assms]) (use assms(1) q p' in \<open>auto simp: pool_repr_def\<close>)
  then show ?thesis using p'(1) by blast
qed

lemma clear_ok:
  assumes "pool_repr depth p free req busy" and "u \<in> busy"
  shows "\<exists>p'. clear_io_u u p = Some p' \<and> pool_repr depth p' (u # free) req (busy - {u})"
proof -
  have "pool_repr depth (upd_unit u (io_u_clear IO_U_F_FLIGHT) p) free req busy"
    using assms by (auto simp: pool_repr_def upd_unit_def io_u_clear_def IO_U_F_FLIGHT_def bit_simps)
  from put_ok [OF this assms(2)] show ?thesis by (simp add: clear_io_u_def)
qed

lemma requeue_ok:
  assumes "pool_repr depth p free req busy" and "u \<in> busy"
  shows "\<exists>p'. requeue_io_u u p = Some p' \<and> pool_repr depth p' free (req @ [u]) (busy - {u})"
proof -
  have "0 < card busy" using assms pool_finite [OF assms(1)] by (auto simp: card_gt_0_iff)
  then have l: "length req < unat depth" using pool_count [OF assms(1)] by simp
  obtain n where n: "places_repr n (up_requeues p) req" "unat depth < 2 ^ n" using assms(1) unfolding pool_repr_def by blast
  then obtain r where r: "io_u_rpush u (up_requeues p) = Some r" "places_repr n r (req @ [u])" using ring_push [OF n(1), of u] l by auto
  have "bit (iu_flags (up_units p u)) 3" using assms by (simp add: pool_repr_def)
  then have "\<exists>p'. requeue_io_u u p = Some p' \<and> up_freelist p' = up_freelist p \<and> up_requeues p' = r \<and> up_cur_depth p' = up_cur_depth p - 1 \<and>
      (\<forall>j. j \<noteq> u \<longrightarrow> up_units p' j = up_units p j) \<and> bit (iu_flags (up_units p' u)) 0"
    unfolding requeue_io_u_def Let_def IO_U_F_IN_CUR_DEPTH_def IO_U_F_FLIGHT_def flag_bit using r(1)
    by (simp add: upd_unit_def io_u_set_def io_u_clear_def IO_U_F_FREE_def bit_simps)
  then obtain p' where p': "requeue_io_u u p = Some p'" "up_freelist p' = up_freelist p" "up_requeues p' = r" "up_cur_depth p' = up_cur_depth p - 1"
      "\<forall>j. j \<noteq> u \<longrightarrow> up_units p' j = up_units p j" "bit (iu_flags (up_units p' u)) 0" by blast
  have "pool_repr depth p' free (req @ [u]) (busy - {u})"
    by (rule pool_give [OF _ _ _ assms]) (use assms(1) n(2) r(2) p' in \<open>auto simp: pool_repr_def\<close>)
  then show ?thesis using p'(1) by blast
qed

text \<open>The set-up makes all units free.\<close>

lemma init_units_ok:
  "i + length is = unat depth \<Longrightarrow> is = [i..<unat depth] \<Longrightarrow> q_max (up_freelist p) = depth \<Longrightarrow> q_max (up_all p) = depth \<Longrightarrow>
   stack_repr (up_freelist p) (rev [0..<i]) \<Longrightarrow> stack_repr (up_all p) (rev [0..<i]) \<Longrightarrow> (\<forall>u < i. bit (iu_flags (up_units p u)) 0) \<Longrightarrow>
   \<exists>p'. init_units is p = Some p' \<and> q_max (up_freelist p') = depth \<and> stack_repr (up_freelist p') (rev [0..<unat depth]) \<and>
     stack_repr (up_all p') (rev [0..<unat depth]) \<and> up_requeues p' = up_requeues p \<and> up_cur_depth p' = up_cur_depth p \<and>
     (\<forall>u < unat depth. bit (iu_flags (up_units p' u)) 0)"
proof (induction "is" arbitrary: i p)
  case Nil
  then show ?case by simp
next
  case (Cons j js)
  have "i < unat depth" using Cons.prems(1) by simp
  then have j: "j = i" "js = [Suc i..<unat depth]" "i < unat depth" using Cons.prems(2) by (simp_all add: upt_conv_Cons)
  obtain f where f: "io_u_qpush i (up_freelist p) = Some f" "stack_repr f (i # rev [0..<i])" "q_max f = depth"
    using stack_push [OF Cons.prems(5), of i] Cons.prems(3) j(3) by auto
  obtain a where a: "io_u_qpush i (up_all p) = Some a" "stack_repr a (i # rev [0..<i])" "q_max a = depth"
    using stack_push [OF Cons.prems(6), of i] Cons.prems(4) j(3) by auto
  show ?case using Cons.IH [of "Suc i" "(upd_unit i (\<lambda>_. blank_unit\<lparr>iu_index := of_nat i, iu_flags := IO_U_F_FREE\<rparr>) p)\<lparr>up_freelist := f, up_all := a\<rparr>"]
      Cons.prems(1,7) j f a by (simp add: upd_unit_def IO_U_F_FREE_def less_Suc_eq)
qed

lemma init_ok:
  assumes "unat depth < 2 ^ 31" and "up_cur_depth p = 0"
  shows "\<exists>p'. init_io_u depth p = Some p' \<and> pool_repr depth p' (rev [0..<unat depth]) [] {}"
proof -
  let ?p = "p\<lparr>up_requeues := io_u_rinit depth, up_freelist := io_u_qinit depth, up_all := io_u_qinit depth\<rparr>"
  have "q_max (up_freelist ?p) = depth" "q_max (up_all ?p) = depth" by (simp_all add: io_u_qinit_def)
  then obtain p' where p': "init_units [0..<unat depth] ?p = Some p'" "q_max (up_freelist p') = depth" "stack_repr (up_freelist p') (rev [0..<unat depth])"
    "up_requeues p' = io_u_rinit depth" "up_cur_depth p' = 0" "\<forall>u < unat depth. bit (iu_flags (up_units p' u)) 0"
    using init_units_ok [of 0 "[0..<unat depth]" depth ?p] stack_init [of depth] assms(2) by auto
  have "pool_repr depth p' (rev [0..<unat depth]) [] {}" unfolding pool_repr_def using p' ring_init [OF assms(1)] by auto
  then show ?thesis using p'(1) by (simp add: init_io_u_def)
qed

lemma get_ok:
  assumes "pool_repr depth p free req busy"
  shows "let limited = (up_latency_target p \<noteq> 0 \<and> up_latency_qd p \<le> up_cur_depth p)
     in if up_stop_io p then get_unit p = Some (NULL, p)
        else case req of
          v # vs \<Rightarrow> \<exists>p'. get_unit p = Some (Some v, p') \<and> pool_repr depth p' free vs (insert v busy)
        | [] \<Rightarrow> (case free of
            v # vs \<Rightarrow> if limited then get_unit p = Some (NULL, p) else \<exists>p'. get_unit p = Some (Some v, p') \<and> pool_repr depth p' vs [] (insert v busy)
          | [] \<Rightarrow> get_unit p = Some (NULL, p))"
proof (cases "up_stop_io p")
  case True
  then show ?thesis by (simp add: get_unit_def)
next
  case False
  show ?thesis
  proof (cases req)
    case (Cons v vs)
    then show ?thesis using get_requeued [of depth p free v vs busy] assms False by simp
  next
    case Nil
    show ?thesis
    proof (cases free)
      case (Cons v vs)
      then show ?thesis using get_free [of depth p v vs busy] get_none [of depth p free busy] assms False Nil by auto
    qed (use get_none [of depth p free busy] assms False Nil in simp)
  qed
qed

section \<open>The property\<close>


text \<open>A pool of two units: one is taken.\<close>

definition sample_pool :: unit_pool where
  "sample_pool = \<lparr>up_units = (\<lambda>_. blank_unit), up_freelist = io_u_qinit 0, up_all = io_u_qinit 0, up_requeues = io_u_rinit 0,
     up_cur_depth = 0, up_io_issues = (\<lambda>_. 0), up_stop_io = False, up_latency_target = 0, up_latency_qd = 0\<rparr>"


end
