(* ===== verification/Fio_Stat.thy ===== *)
theory Fio_Stat
  imports Emu_Prelude "HOL-Library.Monad_Syntax"
begin

text \<open>
  The latency statistics of fio: the buckets of the histogram and the percentiles read from it
  (\<^verbatim>\<open>fio4emu/stat.c\<close>, \<^verbatim>\<open>stat.h\<close>), and the counters of depths and latencies
  (\<^verbatim>\<open>io_u.c\<close>). \<open>None\<close> is a failed assertion or an access outside an array.
\<close>

section \<open>The histogram\<close>

definition FIO_IO_U_PLAT_BITS :: nat where "FIO_IO_U_PLAT_BITS = 6"
definition FIO_IO_U_PLAT_VAL :: u32 where "FIO_IO_U_PLAT_VAL = push_bit FIO_IO_U_PLAT_BITS 1"
definition FIO_IO_U_PLAT_GROUP_NR :: u32 where "FIO_IO_U_PLAT_GROUP_NR = 29"
definition FIO_IO_U_PLAT_NR :: u32 where "FIO_IO_U_PLAT_NR = FIO_IO_U_PLAT_GROUP_NR * FIO_IO_U_PLAT_VAL"

text \<open>\<^verbatim>\<open>__builtin_clzll\<close> counts the zero bits above the highest one of a number that is not 0.\<close>

fun top_one :: "nat \<Rightarrow> nat" where
  "top_one n = (if n < 2 then 0 else Suc (top_one (n div 2)))"

declare top_one.simps [simp del]

definition builtin_clzll :: "u64 \<Rightarrow> nat" where "builtin_clzll v = 63 - top_one (unat v)"

definition plat_val_to_idx :: "u64 \<Rightarrow> u32" where
  "plat_val_to_idx val =
     (let msb = (if val = 0 then 0 else 64 - builtin_clzll val - 1)
      in if msb \<le> FIO_IO_U_PLAT_BITS then ucast val
         else
           let error_bits = msb - FIO_IO_U_PLAT_BITS;
               base = push_bit FIO_IO_U_PLAT_BITS (of_nat error_bits + 1);
               offset = ucast (ucast (FIO_IO_U_PLAT_VAL - 1) AND drop_bit error_bits val)
           in if base + offset < FIO_IO_U_PLAT_NR - 1 then base + offset else FIO_IO_U_PLAT_NR - 1)"

text \<open>The mean \<^verbatim>\<open>base + (k + 0.5) * (1 << error_bits)\<close> is computed in double precision, which is
  exact here: all values are multiples of one half below $2^{35}$. From group 2 on it is an integer.\<close>

definition plat_idx_to_val :: "u32 \<Rightarrow> u64 option" where
  "plat_idx_to_val idx =
     (if \<not> idx < FIO_IO_U_PLAT_NR then None
      else if idx < push_bit 1 FIO_IO_U_PLAT_VAL then Some (ucast idx)
      else
        let error_bits = unat (drop_bit FIO_IO_U_PLAT_BITS idx - 1);
            base = push_bit (error_bits + FIO_IO_U_PLAT_BITS) 1;
            k = ucast (idx mod FIO_IO_U_PLAT_VAL)
        in Some (base + (2 * k + 1) * push_bit error_bits 1 div 2))"

text \<open>A latency is counted in its bucket.\<close>

definition add_lat_percentile_sample :: "u64 list \<Rightarrow> u64 \<Rightarrow> u64 list option" where
  "add_lat_percentile_sample io_u_plat nsec =
     (let idx = unat (plat_val_to_idx nsec)
      in if plat_val_to_idx nsec < FIO_IO_U_PLAT_NR \<and> idx < length io_u_plat
         then Some (io_u_plat[idx := io_u_plat ! idx + 1]) else None)"

definition reset_io_u_plat :: "u64 list" where "reset_io_u_plat = replicate (unat FIO_IO_U_PLAT_NR) 0"

section \<open>The percentiles\<close>

text \<open>The loops of \<^verbatim>\<open>calc_clat_percentiles\<close>, after the \<open>len\<close> percentiles have been counted
  and sorted. The comparison \<^verbatim>\<open>sum >= plist[j] / 100.0 * nr\<close> in long double and the assertion
  \<^verbatim>\<open>plist[j] <= 100.0\<close> are the arguments \<open>reached\<close> and \<open>le100\<close>. The values found so far
  are \<open>ovals\<close>; a number \<open>j\<close> from \<open>len\<close> on does not occur.\<close>

type_synonym percentiles = "nat \<times> u64 list \<times> u64 \<times> u64"

function percentile_while :: "(nat \<Rightarrow> u64 \<Rightarrow> bool) \<Rightarrow> (nat \<Rightarrow> bool) \<Rightarrow> nat \<Rightarrow> u32 \<Rightarrow> u64 \<Rightarrow> percentiles \<Rightarrow> (bool \<times> percentiles) option" where
  "percentile_while reached le100 len i sum1 (j, ovals, minv, maxv) =
     (if j \<ge> len then None
      else if \<not> reached j sum1 then Some (False, j, ovals, minv, maxv)
      else if \<not> le100 j then None
      else do {
        v \<leftarrow> plat_idx_to_val i;
        let minv = (if v < minv then v else minv);
        let maxv = (if v > maxv then v else maxv);
        if j = len - 1 then Some (True, j, ovals @ [v], minv, maxv)
        else percentile_while reached le100 len i sum1 (j + 1, ovals @ [v], minv, maxv)
      })"
  by pat_completeness auto
termination by (relation "measure (\<lambda>(_, _, len, _, _, j, _). len - j)") auto

declare percentile_while.simps [simp del]

fun percentile_for :: "(nat \<Rightarrow> u64 \<Rightarrow> bool) \<Rightarrow> (nat \<Rightarrow> bool) \<Rightarrow> nat \<Rightarrow> u64 list \<Rightarrow> u32 \<Rightarrow> u64 \<Rightarrow> percentiles \<Rightarrow> (bool \<times> percentiles) option" where
  "percentile_for reached le100 len [] i sum1 st = Some (False, st)"
| "percentile_for reached le100 len (n # ns) i sum1 st = do {
     (is_last, st1) \<leftarrow> percentile_while reached le100 len i (sum1 + n) st;
     if is_last then Some (True, st1) else percentile_for reached le100 len ns (i + 1) (sum1 + n) st1
   }"

definition calc_clat_percentiles :: "(nat \<Rightarrow> u64 \<Rightarrow> bool) \<Rightarrow> (nat \<Rightarrow> bool) \<Rightarrow> nat \<Rightarrow> u64 list \<Rightarrow> (u64 list \<times> u64 \<times> u64) option" where
  "calc_clat_percentiles reached le100 len io_u_plat =
     (if len = 0 then Some ([], - 1, 0)
      else map_option (\<lambda>(_, _, ovals, minv, maxv). (ovals, minv, maxv))
             (percentile_for reached le100 len io_u_plat 0 0 (0, [], - 1, 0)))"

section \<open>Counters of depths and latencies\<close>

definition FIO_IO_U_MAP_NR :: nat where "FIO_IO_U_MAP_NR = 7"
definition FIO_IO_U_LAT_N_NR :: nat where "FIO_IO_U_LAT_N_NR = 10"
definition FIO_IO_U_LAT_U_NR :: nat where "FIO_IO_U_LAT_U_NR = 10"
definition FIO_IO_U_LAT_M_NR :: nat where "FIO_IO_U_LAT_M_NR = 12"

record thread_stat =
  ts_io_u_map :: "u64 list"
  ts_io_u_submit :: "u64 list"
  ts_io_u_complete :: "u64 list"
  ts_io_u_lat_n :: "u64 list"
  ts_io_u_lat_u :: "u64 list"
  ts_io_u_lat_m :: "u64 list"
  ts_total_submit :: u64
  ts_total_complete :: u64

definition bump_count :: "nat \<Rightarrow> u64 \<Rightarrow> u64 list \<Rightarrow> u64 list option" where
  "bump_count idx n counts = (if idx < length counts then Some (counts[idx := counts ! idx + n]) else None)"

definition mark_map :: "u64 list \<Rightarrow> u32 \<Rightarrow> u64 list option" where
  "mark_map counts nr =
     bump_count (if nr = 0 then 0 else if nr \<le> 4 then 1 else if nr \<le> 8 then 2 else if nr \<le> 16 then 3 else if nr \<le> 32 then 4
           else if nr \<le> 64 then 5 else 6) 1 counts"

definition io_u_mark_submit :: "u32 \<Rightarrow> thread_stat \<Rightarrow> thread_stat option" where
  "io_u_mark_submit nr ts = do {
     counts \<leftarrow> mark_map (ts_io_u_submit ts) nr;
     Some (ts\<lparr>ts_io_u_submit := counts, ts_total_submit := ts_total_submit ts + 1\<rparr>)
   }"

definition io_u_mark_complete :: "u32 \<Rightarrow> thread_stat \<Rightarrow> thread_stat option" where
  "io_u_mark_complete nr ts = do {
     counts \<leftarrow> mark_map (ts_io_u_complete ts) nr;
     Some (ts\<lparr>ts_io_u_complete := counts, ts_total_complete := ts_total_complete ts + 1\<rparr>)
   }"

text \<open>A depth of 0 falls into the default case and is counted with the depths from 64 on.\<close>

definition io_u_mark_depth :: "u32 \<Rightarrow> u32 \<Rightarrow> thread_stat \<Rightarrow> thread_stat option" where
  "io_u_mark_depth cur_depth nr ts = do {
     counts \<leftarrow> bump_count (if cur_depth = 1 then 0 else if 2 \<le> cur_depth \<and> cur_depth \<le> 3 then 1 else if 4 \<le> cur_depth \<and> cur_depth \<le> 7 then 2
       else if 8 \<le> cur_depth \<and> cur_depth \<le> 15 then 3 else if 16 \<le> cur_depth \<and> cur_depth \<le> 31 then 4
       else if 32 \<le> cur_depth \<and> cur_depth \<le> 63 then 5 else 6) (ucast nr) (ts_io_u_map ts);
     Some (ts\<lparr>ts_io_u_map := counts\<rparr>)
   }"

text \<open>The cases up to 999 that the three units share.\<close>

definition lat_idx :: "u64 \<Rightarrow> nat" where
  "lat_idx t =
     (if t \<le> 1 then 0 else if t \<le> 3 then 1 else if t \<le> 9 then 2 else if t \<le> 19 then 3 else if t \<le> 49 then 4
      else if t \<le> 99 then 5 else if t \<le> 249 then 6 else if t \<le> 499 then 7 else if t \<le> 749 then 8 else 9)"

definition io_u_mark_lat_nsec :: "u64 \<Rightarrow> thread_stat \<Rightarrow> thread_stat option" where
  "io_u_mark_lat_nsec nsec ts =
     (if \<not> nsec < 1000 then None
      else do { counts \<leftarrow> bump_count (lat_idx nsec) 1 (ts_io_u_lat_n ts); Some (ts\<lparr>ts_io_u_lat_n := counts\<rparr>) })"

definition io_u_mark_lat_usec :: "u64 \<Rightarrow> thread_stat \<Rightarrow> thread_stat option" where
  "io_u_mark_lat_usec usec ts =
     (if \<not> (usec < 1000 \<and> usec \<ge> 1) then None
      else do { counts \<leftarrow> bump_count (lat_idx usec) 1 (ts_io_u_lat_u ts); Some (ts\<lparr>ts_io_u_lat_u := counts\<rparr>) })"

definition io_u_mark_lat_msec :: "u64 \<Rightarrow> thread_stat \<Rightarrow> thread_stat option" where
  "io_u_mark_lat_msec msec ts =
     (if \<not> msec \<ge> 1 then None
      else do {
        counts \<leftarrow> bump_count (if msec \<le> 999 then lat_idx msec else if msec \<le> 1999 then 10 else 11) 1 (ts_io_u_lat_m ts);
        Some (ts\<lparr>ts_io_u_lat_m := counts\<rparr>)
      })"

definition io_u_mark_latency :: "u64 \<Rightarrow> thread_stat \<Rightarrow> thread_stat option" where
  "io_u_mark_latency nsec ts =
     (if nsec < 1000 then io_u_mark_lat_nsec nsec ts
      else if nsec < 1000000 then io_u_mark_lat_usec (nsec div 1000) ts
      else io_u_mark_lat_msec (nsec div 1000000) ts)"

section \<open>The buckets\<close>

lemma top_one_bounds: "0 < n \<Longrightarrow> 2 ^ top_one n \<le> n \<and> n < 2 ^ Suc (top_one n)"
proof (induction n rule: top_one.induct)
  case (1 n)
  show ?case
  proof (cases "n < 2")
    case True
    then show ?thesis using 1 by (simp add: top_one.simps)
  next
    case False
    then have "2 ^ top_one (n div 2) \<le> n div 2 \<and> n div 2 < 2 ^ Suc (top_one (n div 2))" using 1 by simp
    then show ?thesis using False by (simp add: top_one.simps [of n]) linarith
  qed
qed

lemma top_one_unique: "2 ^ m \<le> n \<Longrightarrow> n < 2 ^ Suc m \<Longrightarrow> top_one n = m"
proof -
  assume m: "2 ^ m \<le> n" "n < 2 ^ Suc m"
  then have "0 < n" using less_le_trans [of 0 "2 ^ m" n] by simp
  from top_one_bounds [OF this] m have "(2::nat) ^ m < 2 ^ Suc (top_one n)" "(2::nat) ^ top_one n < 2 ^ Suc m" by linarith+
  then have "m < Suc (top_one n)" "top_one n < Suc m" by (metis power_less_imp_less_exp one_less_numeral_iff semiring_norm(76))+
  then show ?thesis by simp
qed

text \<open>The two functions on natural numbers: a bucket has the group \<open>e\<close> and the number \<open>k\<close>.\<close>

lemma msb_unat: "(if v = 0 then 0 else 64 - builtin_clzll v - 1) = top_one (unat v)"
proof (cases "v = 0")
  case True
  then show ?thesis by (simp add: top_one.simps)
next
  case False
  then have "0 < unat v" by (simp add: unat_gt_0)
  then have "2 ^ top_one (unat v) \<le> unat v" using top_one_bounds by blast
  then have "2 ^ top_one (unat v) < (2::nat) ^ 64" using unsigned_less [of v, where 'a = nat] by simp
  then have "top_one (unat v) < 64" by (metis power_less_imp_less_exp one_less_numeral_iff semiring_norm(76))
  then show ?thesis using False by (simp add: builtin_clzll_def)
qed

lemmas plat_consts = FIO_IO_U_PLAT_BITS_def FIO_IO_U_PLAT_VAL_def FIO_IO_U_PLAT_GROUP_NR_def FIO_IO_U_PLAT_NR_def

lemma plat_idx_small: "unat v < 128 \<Longrightarrow> unat (plat_val_to_idx v) = unat v"
proof -
  assume v: "unat v < 128"
  have "top_one (unat v) \<le> 6"
  proof (rule ccontr)
    assume "\<not> top_one (unat v) \<le> 6"
    then have "7 \<le> top_one (unat v)" by simp
    then have "(2::nat) ^ 7 \<le> 2 ^ top_one (unat v)" by (rule power_increasing) simp
    moreover have "0 < unat v" using \<open>7 \<le> top_one (unat v)\<close> by (cases "unat v") (auto simp: top_one.simps)
    ultimately show False using top_one_bounds [of "unat v"] v by simp
  qed
  then show ?thesis using v unfolding plat_val_to_idx_def msb_unat
    by (simp add: plat_consts unsigned_ucast_eq take_bit_nat_eq_self)
qed

lemma plat_offset: "unat (ucast (ucast (FIO_IO_U_PLAT_VAL - 1) AND (x :: u64)) :: u32) = unat x mod 64"
proof -
  have "ucast (FIO_IO_U_PLAT_VAL - 1) AND x = take_bit 6 x"
    by (simp add: plat_consts take_bit_eq_mask mask_eq_exp_minus_1 and.commute)
  then have "unat (ucast (ucast (FIO_IO_U_PLAT_VAL - 1) AND x) :: u32) = take_bit 32 (take_bit 6 (unat x))"
    by (simp only: unsigned_ucast_eq unsigned_take_bit_eq) simp
  then show ?thesis by (simp add: take_bit_eq_mod mod_mod_cancel)
qed

lemma plat_base: "e < 58 \<Longrightarrow> unat (push_bit 6 (of_nat e + 1) :: u32) = 64 * (e + 1)"
proof -
  assume "e < 58"
  moreover have "push_bit 6 (of_nat e + 1) = (of_nat (64 * (e + 1)) :: u32)" by (simp add: push_bit_eq_mult algebra_simps)
  ultimately show ?thesis using unat_of_nat_u32 [of "64 * (e + 1)"] by (simp del: of_nat_mult of_nat_add)
qed

lemma unat_drop_u64: "unat (drop_bit e v) = unat v div 2 ^ e" for v :: u64
  using unsigned_less [of v, where 'a = nat] by (simp only: unsigned_drop_bit_eq) (simp add: take_bit_nat_eq_self drop_bit_eq_div)

text \<open>The index before it is limited.\<close>

lemma plat_raw: "e < 58 \<Longrightarrow> unat (push_bit 6 (of_nat e + 1) + (ucast (ucast (FIO_IO_U_PLAT_VAL - 1) AND drop_bit e v) :: u32))
    = 64 * (e + 1) + unat v div 2 ^ e mod 64" for v :: u64
proof -
  assume e: "e < 58"
  have "unat v div 2 ^ e mod 64 < 64" by simp
  then show ?thesis using e unfolding unat_word_ariths plat_base [OF e] plat_offset unat_drop_u64 by simp
qed

lemma mod_64: "64 \<le> x \<Longrightarrow> x < 128 \<Longrightarrow> x mod 64 = x - (64::nat)"
  by (simp add: le_mod_geq)

lemma plat_idx_group:
  assumes "2 ^ (e + 6) \<le> unat v" and "unat v < 2 ^ (e + 7)" and "0 < e" and "e \<le> 27"
  shows "unat (plat_val_to_idx v) = 64 * (e + 1) + (unat v div 2 ^ e - 64)"
proof -
  have t: "top_one (unat v) = e + 6" using assms by (intro top_one_unique) (simp_all add: add.commute)
  have d: "64 \<le> unat v div 2 ^ e" "unat v div 2 ^ e < 128"
    using assms(1,2) by (simp_all add: less_eq_div_iff_mult_less_eq div_less_iff_less_mult power_add)
  have u: "unat (push_bit 6 (of_nat e + 1) + (ucast (ucast (FIO_IO_U_PLAT_VAL - 1) AND drop_bit e v) :: u32))
      = 64 * (e + 1) + (unat v div 2 ^ e - 64)"
    using plat_raw [of e v] mod_64 [OF d] assms(4) by simp
  have n: "64 * (e + 1) + (unat v div 2 ^ e - 64) < 1856" using d assms(4) by simp
  show ?thesis unfolding plat_val_to_idx_def msb_unat t Let_def FIO_IO_U_PLAT_BITS_def
    using assms(3) u n by (auto simp: word_less_nat_alt plat_consts)
qed

text \<open>Latencies from $2^{34}$ on share the last bucket.\<close>

lemma plat_idx_last:
  assumes "2 ^ 34 \<le> unat v"
  shows "plat_val_to_idx v = FIO_IO_U_PLAT_NR - 1"
proof -
  have b: "2 ^ top_one (unat v) \<le> unat v" "unat v < 2 ^ Suc (top_one (unat v))"
    using top_one_bounds [of "unat v"] assms by simp_all
  have "(2::nat) ^ 34 < 2 ^ Suc (top_one (unat v))" using assms b by linarith
  then have "34 < Suc (top_one (unat v))" by (rule power_less_imp_less_exp [rotated]) simp
  moreover have "(2::nat) ^ top_one (unat v) < 2 ^ 64" using b(1) unsigned_less [of v, where 'a = nat] by simp
  then have "top_one (unat v) < 64" by (rule power_less_imp_less_exp [rotated]) simp
  ultimately obtain e where t: "top_one (unat v) = e + 6" and e: "28 \<le> e" "e < 58"
    using le_Suc_ex [of 6 "top_one (unat v)"] by (auto simp: add.commute)
  have "\<not> push_bit 6 (of_nat e + 1) + (ucast (ucast (FIO_IO_U_PLAT_VAL - 1) AND drop_bit e v) :: u32) < FIO_IO_U_PLAT_NR - 1"
    using plat_raw [OF e(2), of v] e(1) by (simp only: word_less_nat_alt) (simp add: plat_consts)
  then show ?thesis unfolding plat_val_to_idx_def msb_unat t Let_def FIO_IO_U_PLAT_BITS_def using e(1) by auto
qed

lemma plat_val_small: "unat i < 128 \<Longrightarrow> plat_idx_to_val i = Some (ucast i)"
  by (simp add: plat_idx_to_val_def plat_consts word_less_nat_alt)

lemma of_nat_div_2: "n < 2 ^ 64 \<Longrightarrow> (of_nat n :: u64) div 2 = of_nat (n div 2)"
  by (rule word_unat_eq_iff [THEN iffD2]) (simp add: unat_div unat_of_nat take_bit_nat_eq_self)

lemma plat_val_group:
  assumes "unat i = 64 * (e + 1) + k" and "k < 64" and "0 < e" and "e \<le> 27"
  shows "\<exists>w. plat_idx_to_val i = Some w \<and> unat w = 2 ^ (e + 6) + k * 2 ^ e + 2 ^ (e - 1)"
proof -
  have i: "i < FIO_IO_U_PLAT_NR" "\<not> i < push_bit 1 FIO_IO_U_PLAT_VAL" using assms by (simp_all add: word_less_nat_alt plat_consts)
  have g: "unat (drop_bit 6 i) = e + 1"
    using assms by (simp only: unsigned_drop_bit_eq) (simp add: take_bit_nat_eq_self drop_bit_eq_div)
  then have e: "unat (drop_bit 6 i - 1) = e" by (subst unat_minus_one) auto
  have "(64 * (e + 1) + k) mod 64 = k" using assms(2) by (simp only: mod_mult_self4 mod_less)
  then have "unat (i mod FIO_IO_U_PLAT_VAL) = k" using assms(1) by (simp only: unat_mod) (simp add: plat_consts)
  then have k: "ucast (i mod FIO_IO_U_PLAT_VAL) = (of_nat k :: u64)"
    by (metis of_nat_unat)
  obtain d where d: "e = Suc d" using assms(3) by (cases e) simp_all
  have p: "(2::nat) ^ d \<le> 2 ^ 26" using assms(4) d by (intro power_increasing) simp_all
  have "k * 2 ^ d \<le> 63 * (2 ^ 26 :: nat)" using assms(2) by (intro mult_le_mono p) simp
  then have n: "2 ^ (e + 6) + (k * 2 ^ e + 2 ^ d) < (2::nat) ^ 64" "(2 * k + 1) * 2 ^ e < (2::nat) ^ 64"
    using p by (simp_all add: d power_add algebra_simps)
  have "(2 * of_nat k + 1) * push_bit e 1 = (of_nat ((2 * k + 1) * 2 ^ e) :: u64)" by (simp add: push_bit_eq_mult algebra_simps)
  then have "(2 * of_nat k + 1) * push_bit e 1 div 2 = (of_nat ((2 * k + 1) * 2 ^ e div 2) :: u64)"
    using of_nat_div_2 [OF n(2)] by simp
  moreover have "(2 * k + 1) * 2 ^ e div 2 = k * 2 ^ e + 2 ^ d" by (simp add: d algebra_simps)
  ultimately have "push_bit (e + 6) 1 + (2 * of_nat k + 1) * push_bit e 1 div 2 = (of_nat (2 ^ (e + 6) + (k * 2 ^ e + 2 ^ d)) :: u64)"
    by (simp add: push_bit_eq_mult)
  then show ?thesis using i e k n(1) unfolding plat_idx_to_val_def FIO_IO_U_PLAT_BITS_def Let_def
    by (simp add: unat_of_nat take_bit_nat_eq_self d del: of_nat_add of_nat_mult of_nat_power)
qed

lemma latency_cases:
  obtains (small) "unat v < 128"
  | (group) e where "2 ^ (e + 6) \<le> unat v" "unat v < 2 ^ (e + 7)" "0 < e" "e \<le> 27"
  | (last) "2 ^ 34 \<le> unat v"
proof (cases "unat v < 128 \<or> 2 ^ 34 \<le> unat v")
  case False
  define m where "m = top_one (unat v)"
  have b: "2 ^ m \<le> unat v" "unat v < 2 ^ Suc m" using top_one_bounds [of "unat v"] False by (simp_all add: m_def)
  have "(2::nat) ^ 7 < 2 ^ Suc m" "(2::nat) ^ m < 2 ^ 34" using False b by simp_all
  then have "7 < Suc m" "m < 34" by (simp_all only: power_strict_increasing_iff one_less_numeral_iff semiring_norm)
  then obtain e where "m = e + 6" "0 < e" "e \<le> 27" using le_Suc_ex [of 6 m] by (auto simp: add.commute)
  then show ?thesis using group [of e] b by (simp add: add.commute)
qed (use small last in blast)

lemma plat_idx_bound: "unat (plat_val_to_idx v) < 1856"
proof (cases v rule: latency_cases)
  case (group e)
  have "unat v div 2 ^ e < 128" using group(2) by (simp add: div_less_iff_less_mult power_add)
  then show ?thesis using plat_idx_group [OF group] group(4) by simp
qed (simp_all add: plat_idx_small plat_idx_last plat_consts)

text \<open>The bucket of a latency below $2^{34}$ stands for it up to one part in 128.\<close>

lemma plat_error:
  assumes "unat v < 2 ^ 34"
  shows "\<exists>w. plat_idx_to_val (plat_val_to_idx v) = Some w \<and> 128 * unat w \<le> 129 * unat v \<and> 127 * unat v \<le> 128 * unat w"
proof (cases v rule: latency_cases)
  case small
  then show ?thesis using plat_val_small [of "plat_val_to_idx v"] by (simp add: plat_idx_small unat_ucast_widen)
next
  case (group e)
  define q where "q = unat v div 2 ^ e"
  have q: "64 \<le> q" "q < 128" using group(1,2) by (simp_all add: q_def less_eq_div_iff_mult_less_eq div_less_iff_less_mult power_add)
  obtain d where d: "e = Suc d" using group(3) by (cases e) simp_all
  have r: "q * 2 ^ e \<le> unat v" "unat v < q * 2 ^ e + 2 ^ e"
    using div_mult_mod_eq [of "unat v" "2 ^ e"] mod_less_divisor [of "2 ^ e" "unat v", OF zero_less_power] unfolding q_def by (simp, linarith)
  have "unat (plat_val_to_idx v) = 64 * (e + 1) + (q - 64)" using plat_idx_group [OF group] by (simp add: q_def)
  then obtain w where w: "plat_idx_to_val (plat_val_to_idx v) = Some w" "unat w = 2 ^ (e + 6) + (q - 64) * 2 ^ e + 2 ^ (e - 1)"
    using plat_val_group [of _ e "q - 64"] q group(3,4) by force
  have "2 ^ (e + 6) + (q - 64) * 2 ^ e = q * 2 ^ e" using q by (simp add: power_add diff_mult_distrib)
  then have m: "unat w = q * 2 ^ e + 2 ^ d" using w(2) d by simp
  have "64 * 2 ^ e \<le> unat v" using group(1) by (simp add: power_add)
  then show ?thesis using w(1) m r d by auto
next
  case last
  then show ?thesis using assms by simp
qed

lemma plat_idx_range:
  assumes "2 ^ (e + 6) \<le> unat v" and "unat v < 2 ^ (e + 7)" and "0 < e" and "e \<le> 27"
  shows "64 * (e + 1) \<le> unat (plat_val_to_idx v)" and "unat (plat_val_to_idx v) < 64 * (e + 2)"
proof -
  have "unat v div 2 ^ e < 128" using assms(2) by (simp add: div_less_iff_less_mult power_add)
  then show "64 * (e + 1) \<le> unat (plat_val_to_idx v)" "unat (plat_val_to_idx v) < 64 * (e + 2)"
    using plat_idx_group [OF assms] by simp_all
qed

lemma plat_idx_mono:
  assumes "unat v \<le> unat w"
  shows "unat (plat_val_to_idx v) \<le> unat (plat_val_to_idx w)"
proof (cases w rule: latency_cases)
  case small
  then show ?thesis using assms by (simp add: plat_idx_small)
next
  case (group e)
  note w = group
  show ?thesis
  proof (cases v rule: latency_cases)
    case small
    then show ?thesis using plat_idx_range(1) [OF w] w(3) by (simp add: plat_idx_small)
  next
    case (group d)
    have "(2::nat) ^ (d + 6) < 2 ^ (e + 7)" using group(1) w(2) assms by linarith
    then have "d + 6 < e + 7" by (rule power_less_imp_less_exp [rotated]) simp
    then consider "d = e" | "d + 1 \<le> e" by linarith
    then show ?thesis
    proof cases
      case 1
      then have "unat v div 2 ^ d \<le> unat w div 2 ^ d" using assms by (intro div_le_mono)
      then show ?thesis using plat_idx_group [OF w] plat_idx_group [OF group] 1 by simp
    next
      case 2
      then show ?thesis using plat_idx_range(1) [OF w] plat_idx_range(2) [OF group] by simp
    qed
  next
    case last
    have "(2::nat) ^ 34 < 2 ^ (e + 7)" using last w(2) assms by linarith
    then have "34 < e + 7" by (rule power_less_imp_less_exp [rotated]) simp
    then show ?thesis using w(4) by simp
  qed
next
  case last
  then show ?thesis using plat_idx_bound [of v] by (simp add: plat_idx_last plat_consts)
qed

lemma plat_inverse:
  assumes "unat i < 1856"
  shows "\<exists>w. plat_idx_to_val i = Some w \<and> plat_val_to_idx w = i"
proof (cases "unat i < 128")
  case True
  then have "unat (plat_val_to_idx (ucast i)) = unat i" by (simp add: plat_idx_small unat_ucast_widen)
  then have "plat_val_to_idx (ucast i) = i" by (rule word_unat_eq_iff [THEN iffD2])
  then show ?thesis using plat_val_small [OF True] by simp
next
  case False
  define e where "e = unat i div 64 - 1"
  define k where "k = unat i mod 64"
  have k: "k < 64" by (simp add: k_def)
  have "unat i div 64 * 64 + k = unat i" by (simp add: k_def)
  moreover have "2 \<le> unat i div 64" "unat i div 64 \<le> 28" using False assms by linarith+
  ultimately have i: "unat i = 64 * (e + 1) + k" "0 < e" "e \<le> 27" by (simp_all add: e_def)
  obtain w where w: "plat_idx_to_val i = Some w" "unat w = 2 ^ (e + 6) + k * 2 ^ e + 2 ^ (e - 1)"
    using plat_val_group [OF i(1) k i(2,3)] by blast
  have "(2::nat) ^ (e - 1) < 2 ^ e" using i(2) by simp
  moreover have u: "unat w = (64 + k) * 2 ^ e + 2 ^ (e - 1)" using w(2) by (simp add: power_add algebra_simps)
  ultimately have d: "unat w div 2 ^ e = 64 + k" by (simp add: div_mult_self3)
  have "(64 + k) * 2 ^ e + 2 ^ e \<le> 128 * (2::nat) ^ e" using k mult_le_mono1 [of "65 + k" 128 "2 ^ e"] by (simp add: algebra_simps)
  then have "unat w < 128 * 2 ^ e" "64 * 2 ^ e \<le> unat w" using u \<open>(2::nat) ^ (e - 1) < 2 ^ e\<close> by (linarith, simp add: add_mult_distrib)
  then have "2 ^ (e + 6) \<le> unat w" "unat w < 2 ^ (e + 7)" by (simp_all add: power_add mult.commute)
  then have "unat (plat_val_to_idx w) = unat i" using plat_idx_group [of e w] i d by simp
  then have "plat_val_to_idx w = i" by (rule word_unat_eq_iff [THEN iffD2])
  then show ?thesis using w(1) by simp
qed

section \<open>Percentiles\<close>

text \<open>The samples in the buckets up to \<open>i\<close>, and the first bucket that reaches a percentile.\<close>

definition samples_to :: "u64 list \<Rightarrow> nat \<Rightarrow> u64" where
  "samples_to plat i = sum_list (take (Suc i) plat)"

definition first_reached :: "(nat \<Rightarrow> u64 \<Rightarrow> bool) \<Rightarrow> u64 list \<Rightarrow> nat \<Rightarrow> nat \<Rightarrow> bool" where
  "first_reached reached plat j i \<longleftrightarrow>
     i < length plat \<and> reached j (samples_to plat i) \<and> (\<forall>i' < i. \<not> reached j (samples_to plat i'))"

definition found :: "(nat \<Rightarrow> u64 \<Rightarrow> bool) \<Rightarrow> u64 list \<Rightarrow> percentiles \<Rightarrow> bool" where
  "found reached plat st = (case st of (_, ovals, minv, maxv) \<Rightarrow>
     (\<forall>j < length ovals. \<exists>i. first_reached reached plat j i \<and> plat_idx_to_val (of_nat i) = Some (ovals ! j)) \<and>
     (\<forall>v \<in> set ovals. minv \<le> v \<and> v \<le> maxv) \<and>
     (if ovals = [] then minv = - 1 \<and> maxv = 0 else minv \<in> set ovals \<and> maxv \<in> set ovals))"

text \<open>The percentiles ascend, and none is above 100.\<close>

definition ascending :: "nat \<Rightarrow> (nat \<Rightarrow> u64 \<Rightarrow> bool) \<Rightarrow> (nat \<Rightarrow> bool) \<Rightarrow> bool" where
  "ascending len reached le100 \<longleftrightarrow>
     (\<forall>j j' s. j \<le> j' \<and> j' < len \<and> reached j' s \<longrightarrow> reached j s) \<and> (\<forall>j < len. le100 j)"

lemma found_snoc:
  assumes "found reached plat (j, ovals, minv, maxv)" and "first_reached reached plat (length ovals) i"
    and "plat_idx_to_val (of_nat i) = Some v"
  shows "found reached plat (j', ovals @ [v], if v < minv then v else minv, if v > maxv then v else maxv)"
proof -
  have "\<exists>i. first_reached reached plat k i \<and> plat_idx_to_val (of_nat i) = Some ((ovals @ [v]) ! k)" if "k < length (ovals @ [v])" for k
    using assms that by (cases "k < length ovals") (auto simp: found_def nth_append less_Suc_eq)
  moreover have "(if v < minv then v else minv) \<le> x \<and> x \<le> (if v > maxv then v else maxv)" if "x \<in> set (ovals @ [v])" for x
    using assms(1) that by (auto simp: found_def)
  moreover have "(if v < minv then v else minv) \<in> set (ovals @ [v]) \<and> (if v > maxv then v else maxv) \<in> set (ovals @ [v])"
  proof (cases "ovals = []")
    case True
    have "v = - 1 \<or> v < - 1" "v = 0 \<or> 0 < v" using word_order.extremum [of v] by (auto simp: less_le word_gt_0)
    then show ?thesis using assms(1) True by (auto simp: found_def)
  next
    case False
    then show ?thesis using assms(1) by (simp add: found_def)
  qed
  ultimately show ?thesis unfolding found_def by simp
qed

lemma while_found:
  assumes asc: "ascending len reached le100" and i: "i < length plat" "length plat = 1856"
  shows "j < len \<Longrightarrow> found reached plat (j, ovals, minv, maxv) \<Longrightarrow> length ovals = j \<Longrightarrow> (\<forall>i' < i. \<not> reached j (samples_to plat i')) \<Longrightarrow>
    \<exists>b j' os mn mx. percentile_while reached le100 len (of_nat i) (samples_to plat i) (j, ovals, minv, maxv) = Some (b, j', os, mn, mx) \<and>
      found reached plat (j', os, mn, mx) \<and>
      (if b then length os = len else j' < len \<and> length os = j' \<and> (\<forall>i' \<le> i. \<not> reached j' (samples_to plat i')))"
proof (induction "len - j" arbitrary: j ovals minv maxv rule: less_induct)
  case less
  show ?case
  proof (cases "reached j (samples_to plat i)")
    case False
    then show ?thesis using less.prems by (subst percentile_while.simps) (auto simp: le_less)
  next
    case True
    then have f: "first_reached reached plat (length ovals) i" using less.prems i by (simp add: first_reached_def)
    have "unat (of_nat i :: u32) < 1856" using i by (simp add: unat_of_nat_u32)
    then obtain v where v: "plat_idx_to_val (of_nat i) = Some v" using plat_inverse by blast
    note g = found_snoc [OF less.prems(2) f v]
    show ?thesis
    proof (cases "j = len - 1")
      case True
      then show ?thesis using less.prems \<open>reached j _\<close> asc [unfolded ascending_def] v g by (subst percentile_while.simps) auto
    next
      case False
      then have j: "Suc j < len" using less.prems(1) by simp
      have "\<forall>i' < i. \<not> reached (Suc j) (samples_to plat i')" using less.prems(4) asc j unfolding ascending_def by (meson le_SucI order_refl)
      then show ?thesis
        using less.hyps [of "Suc j" "ovals @ [v]"] j g less.prems \<open>reached j _\<close> asc [unfolded ascending_def] v False
        by (subst percentile_while.simps) simp
    qed
  qed
qed

lemma samples_to_Suc: "drop i plat = n # ns \<Longrightarrow> samples_to plat i = sum_list (take i plat) + n \<and> i < length plat"
proof -
  assume d: "drop i plat = n # ns"
  then have "i < length plat" by (metis drop_all linorder_not_less list.distinct(1))
  moreover have "plat ! i = n" using d calculation by (metis Cons_nth_drop_Suc list.inject)
  ultimately show ?thesis by (simp add: samples_to_def take_Suc_conv_app_nth)
qed

lemma for_found:
  assumes asc: "ascending len reached le100" and l: "length plat = 1856"
    and r: "m < 1856" "reached (len - 1) (samples_to plat m)"
  shows "ns = drop i plat \<Longrightarrow> i \<le> 1856 \<Longrightarrow> j < len \<Longrightarrow> found reached plat (j, ovals, minv, maxv) \<Longrightarrow> length ovals = j \<Longrightarrow>
    (\<forall>i' < i. \<not> reached j (samples_to plat i')) \<Longrightarrow>
    \<exists>j' os mn mx. percentile_for reached le100 len ns (of_nat i) (sum_list (take i plat)) (j, ovals, minv, maxv) = Some (True, j', os, mn, mx) \<and>
      found reached plat (j', os, mn, mx) \<and> length os = len"
proof (induction ns arbitrary: i j ovals minv maxv)
  case Nil
  then have "1856 \<le> i" using l by (metis drop_eq_Nil)
  moreover have "reached j (samples_to plat m)" using asc Nil.prems(3) r(2) unfolding ascending_def by (metis Suc_pred' diff_less le_simps(2) less_nat_zero_code neq0_conv zero_less_one)
  ultimately show ?case using Nil.prems r(1) by simp
next
  case (Cons n ns)
  have s: "samples_to plat i = sum_list (take i plat) + n" "i < length plat" using samples_to_Suc [of i plat n ns] Cons.prems(1) by simp_all
  have d: "ns = drop (Suc i) plat" using Cons.prems(1) by (metis drop_Suc drop_tl list.sel(3))
  obtain b j' os mn mx where w: "percentile_while reached le100 len (of_nat i) (samples_to plat i) (j, ovals, minv, maxv) = Some (b, j', os, mn, mx)"
    "found reached plat (j', os, mn, mx)" "if b then length os = len else j' < len \<and> length os = j' \<and> (\<forall>i' \<le> i. \<not> reached j' (samples_to plat i'))"
    using while_found [of len reached le100 i plat j ovals minv maxv, OF asc s(2) l] Cons.prems(3-6) by blast
  show ?case
  proof (cases b)
    case True
    then show ?thesis using w by (simp add: s(1) [symmetric])
  next
    case False
    then have "\<exists>j'' os' mn' mx'. percentile_for reached le100 len ns (of_nat (Suc i)) (samples_to plat i) (j', os, mn, mx) = Some (True, j'', os', mn', mx') \<and>
        found reached plat (j'', os', mn', mx') \<and> length os' = len"
      using Cons.IH [of "Suc i" j' os mn mx] w d s(2) l by (simp add: samples_to_def less_Suc_eq_le)
    then show ?thesis using w(1) False by (simp add: s(1) [symmetric] add.commute [of _ 1])
  qed
qed

section \<open>Counters\<close>

definition stat_ok :: "thread_stat \<Rightarrow> bool" where
  "stat_ok ts \<longleftrightarrow> length (ts_io_u_map ts) = FIO_IO_U_MAP_NR \<and> length (ts_io_u_submit ts) = FIO_IO_U_MAP_NR \<and>
     length (ts_io_u_complete ts) = FIO_IO_U_MAP_NR \<and> length (ts_io_u_lat_n ts) = FIO_IO_U_LAT_N_NR \<and>
     length (ts_io_u_lat_u ts) = FIO_IO_U_LAT_U_NR \<and> length (ts_io_u_lat_m ts) = FIO_IO_U_LAT_M_NR"

lemmas stat_consts = FIO_IO_U_MAP_NR_def FIO_IO_U_LAT_N_NR_def FIO_IO_U_LAT_U_NR_def FIO_IO_U_LAT_M_NR_def

text \<open>All latencies counted so far.\<close>

definition latencies :: "thread_stat \<Rightarrow> u64" where
  "latencies ts = sum_list (ts_io_u_lat_n ts) + sum_list (ts_io_u_lat_u ts) + sum_list (ts_io_u_lat_m ts)"

lemma bump_count_sum: "bump_count idx n counts = Some counts' \<Longrightarrow> sum_list counts' = sum_list counts + n \<and> length counts' = length counts"
proof -
  assume b: "bump_count idx n counts = Some counts'"
  then have i: "idx < length counts" and c: "counts' = counts[idx := counts ! idx + n]" by (simp_all add: bump_count_def split: if_splits)
  have "sum_list (counts[idx := counts ! idx + n]) = sum_list (take idx counts) + (counts ! idx + n) + sum_list (drop (Suc idx) counts)"
    using i by (simp add: upd_conv_take_nth_drop add.assoc)
  moreover have "sum_list counts = sum_list (take idx counts) + counts ! idx + sum_list (drop (Suc idx) counts)"
    using i by (metis append_take_drop_id Cons_nth_drop_Suc sum_list.append sum_list.Cons add.assoc)
  ultimately show ?thesis using c by (simp add: algebra_simps)
qed

lemma bump_count_Some: "idx < length counts \<Longrightarrow> \<exists>counts'. bump_count idx n counts = Some counts' \<and> sum_list counts' = sum_list counts + n \<and> length counts' = length counts"
proof -
  assume "idx < length counts"
  then have "bump_count idx n counts = Some (counts[idx := counts ! idx + n])" by (simp add: bump_count_def)
  from bump_count_sum [OF this] this show ?thesis by blast
qed

lemma lat_idx_less: "lat_idx t < 10"
  by (simp add: lat_idx_def)

text \<open>Every latency is counted once, in the unit it belongs to, and no assertion fails.\<close>

lemma mark_latency_counts:
  assumes "stat_ok ts"
  shows "\<exists>ts'. io_u_mark_latency nsec ts = Some ts' \<and> stat_ok ts' \<and> latencies ts' = latencies ts + 1"
proof -
  have u: "nsec div 1000 < 1000 \<and> nsec div 1000 \<ge> 1" if "\<not> nsec < 1000" "nsec < 1000000"
    using that by (simp add: word_less_nat_alt word_le_nat_alt unat_div div_less_iff_less_mult less_eq_div_iff_mult_less_eq)
  have m: "nsec div 1000000 \<ge> 1" if "\<not> nsec < 1000000"
    using that by (simp add: word_less_nat_alt word_le_nat_alt unat_div less_eq_div_iff_mult_less_eq)
  have b: "\<exists>c. bump_count (lat_idx t) 1 xs = Some c \<and> sum_list c = sum_list xs + 1 \<and> length c = length xs" if "10 \<le> length xs" for t xs
    using that lat_idx_less [of t] by (intro bump_count_Some) simp
  consider "nsec < 1000" | "\<not> nsec < 1000" "nsec < 1000000" | "\<not> nsec < 1000" "\<not> nsec < 1000000" by blast
  then show ?thesis
  proof cases
    case 1
    then show ?thesis using assms b [of "ts_io_u_lat_n ts" nsec]
      by (auto simp: io_u_mark_latency_def io_u_mark_lat_nsec_def stat_ok_def stat_consts latencies_def)
  next
    case 2
    then show ?thesis using assms u b [of "ts_io_u_lat_u ts" "nsec div 1000"]
      by (auto simp: io_u_mark_latency_def io_u_mark_lat_usec_def stat_ok_def stat_consts latencies_def)
  next
    case 3
    let ?i = "if nsec div 1000000 \<le> 999 then lat_idx (nsec div 1000000) else if nsec div 1000000 \<le> 1999 then 10 else 11"
    have "?i < length (ts_io_u_lat_m ts)" using lat_idx_less [of "nsec div 1000000"] assms by (simp add: stat_ok_def stat_consts)
    from bump_count_Some [OF this, of 1] obtain c where c: "bump_count ?i 1 (ts_io_u_lat_m ts) = Some c"
      "sum_list c = sum_list (ts_io_u_lat_m ts) + 1" "length c = length (ts_io_u_lat_m ts)" by blast
    have "io_u_mark_latency nsec ts = Some (ts\<lparr>ts_io_u_lat_m := c\<rparr>)"
      using 3 m unfolding io_u_mark_latency_def io_u_mark_lat_msec_def c(1) by simp
    then show ?thesis using assms c(2,3) by (simp add: stat_ok_def latencies_def)
  qed
qed

section \<open>The properties\<close>

text \<open>
  C21: the buckets of the latency histogram. Every latency has a bucket inside the array. Below
  $2^{34}$ ns the value that the bucket stands for differs from the latency by at most one part in
  128, as the header promises, and from there on the last bucket is used. Longer latencies never get a
  smaller bucket, and every bucket contains its own value.
\<close>

theorem histogram_error:
  "plat_val_to_idx v < FIO_IO_U_PLAT_NR \<and>
   (unat v < 2 ^ 34 \<longrightarrow> (\<exists>w. plat_idx_to_val (plat_val_to_idx v) = Some w \<and> 128 * unat w \<le> 129 * unat v \<and> 127 * unat v \<le> 128 * unat w)) \<and>
   (2 ^ 34 \<le> unat v \<longrightarrow> plat_val_to_idx v = FIO_IO_U_PLAT_NR - 1) \<and>
   (v \<le> v' \<longrightarrow> plat_val_to_idx v \<le> plat_val_to_idx v') \<and>
   (i < FIO_IO_U_PLAT_NR \<longrightarrow> (\<exists>w. plat_idx_to_val i = Some w \<and> plat_val_to_idx w = i))"
proof -
  have n: "unat FIO_IO_U_PLAT_NR = 1856" by (simp add: plat_consts)
  show ?thesis using plat_idx_bound [of v] plat_error [of v] plat_idx_last [of v] plat_idx_mono [of v v'] plat_inverse [of i]
    unfolding word_less_nat_alt word_le_nat_alt n by blast
qed

theorem histogram_error_witness:
  "(\<exists>w. plat_idx_to_val (plat_val_to_idx 1000) = Some w \<and> 992 < unat w \<and> unat w < 1008) \<and>
   plat_val_to_idx 1000 \<le> plat_val_to_idx 2000 \<and> (\<exists>w. plat_idx_to_val 300 = Some w \<and> plat_val_to_idx w = 300)"
proof -
  have "300 < FIO_IO_U_PLAT_NR" by (simp add: plat_consts)
  then show ?thesis using histogram_error [of 1000 2000 300] by force
qed

text \<open>
  The percentiles. With percentiles in ascending order, none above 100, and the last of them
  reached by the samples, the value reported for each is that of the first bucket whose samples,
  together with those of the buckets before it, reach the percentile; smallest and largest of these
  values are returned with them.
\<close>

theorem percentiles_first_bucket:
  assumes "ascending len reached le100" and "0 < len" and "length plat = unat FIO_IO_U_PLAT_NR"
    and "i < length plat" and "reached (len - 1) (samples_to plat i)"
  shows "\<exists>ovals minv maxv. calc_clat_percentiles reached le100 len plat = Some (ovals, minv, maxv) \<and> length ovals = len \<and>
    (\<forall>j < len. \<exists>i. first_reached reached plat j i \<and> plat_idx_to_val (of_nat i) = Some (ovals ! j)) \<and>
    minv = Min (set ovals) \<and> maxv = Max (set ovals)"
proof -
  have l: "length plat = 1856" using assms(3) by (simp add: plat_consts)
  have "found reached plat (0, [], - 1, 0)" by (simp add: found_def)
  then obtain j' os mn mx where f: "percentile_for reached le100 len plat 0 0 (0, [], - 1, 0) = Some (True, j', os, mn, mx)"
    "found reached plat (j', os, mn, mx)" "length os = len"
    using for_found [of len reached le100 plat i plat 0 0 "[]" "- 1" 0, OF assms(1) l _ assms(5)] assms(2,4) l by auto
  have "os \<noteq> []" using f(3) assms(2) by auto
  then have "mn = Min (set os)" "mx = Max (set os)" using f(2) by (auto simp: found_def intro!: Min_eqI [symmetric] Max_eqI [symmetric])
  then show ?thesis using f assms(2) by (auto simp: calc_clat_percentiles_def found_def)
qed

theorem percentiles_first_bucket_witness:
  "\<exists>ovals minv maxv. calc_clat_percentiles (\<lambda>j s. (if j = 0 then 1 else 3) \<le> s) (\<lambda>_. True) 2 ((replicate 1856 0)[100 := 2, 300 := 2]) =
     Some (ovals, minv, maxv) \<and> length ovals = 2 \<and> minv = Min (set ovals)"
proof -
  let ?r = "\<lambda>(j::nat) (s::u64). (if j = 0 then 1 else 3) \<le> s" and ?p = "(replicate 1856 0)[100 := 2, 300 := 2] :: u64 list"
  have p: "?p = replicate 100 0 @ 2 # replicate 199 0 @ 2 # replicate 1555 0" by code_simp
  have "samples_to ?p 300 = 4" unfolding samples_to_def p by (simp add: take_Cons' sum_list_replicate)
  moreover have "1 \<le> s" if "3 \<le> s" for s :: u64 using that by (simp add: word_le_nat_alt)
  then have "ascending 2 ?r (\<lambda>_. True)" by (auto simp: ascending_def)
  ultimately show ?thesis using percentiles_first_bucket [of 2 ?r "\<lambda>_. True" ?p 300] by (auto simp: plat_consts)
qed

end
