(* ===== verification/Host_LLD.thy ===== *)
theory Host_LLD
  imports Reg_Bus
begin

text \<open>
  The NVMe low-level driver of the board, \<^verbatim>\<open>nvme/host_lld.h\<close> and
  \<^verbatim>\<open>nvme/host_lld.c\<close>: the registers of the host interface as bit fields, the interrupt
  handler, the queue and completion registers, and the direct and automatic DMA with their counters.
  The emulator does not compile this code.

  \<^verbatim>\<open>IO_READ32\<close>, \<^verbatim>\<open>IO_WRITE32\<close> and \<^verbatim>\<open>ASSERT\<close> come from headers
  that are not part of the repository: the first two are register accesses on the bus of
  \<open>Reg_Bus\<close>, and a call whose assertion fails has no result (\<open>None\<close>). A wait for the
  device that never ends has none either. Local register variables that the code does not
  initialise are the argument \<open>junk\<close>. Printing is left out.
\<close>

section \<open>Registers\<close>

definition HOST_IP_ADDR :: u32 where "HOST_IP_ADDR = 0x83c00000"
definition DEV_IRQ_MASK_REG_ADDR :: u32 where "DEV_IRQ_MASK_REG_ADDR = HOST_IP_ADDR + 0x4"
definition DEV_IRQ_CLEAR_REG_ADDR :: u32 where "DEV_IRQ_CLEAR_REG_ADDR = HOST_IP_ADDR + 0x8"
definition DEV_IRQ_STATUS_REG_ADDR :: u32 where "DEV_IRQ_STATUS_REG_ADDR = HOST_IP_ADDR + 0xC"
definition PCIE_STATUS_REG_ADDR :: u32 where "PCIE_STATUS_REG_ADDR = HOST_IP_ADDR + 0x100"
definition PCIE_FUNC_REG_ADDR :: u32 where "PCIE_FUNC_REG_ADDR = HOST_IP_ADDR + 0x104"
definition NVME_STATUS_REG_ADDR :: u32 where "NVME_STATUS_REG_ADDR = HOST_IP_ADDR + 0x200"
definition HOST_DMA_FIFO_CNT_REG_ADDR :: u32 where "HOST_DMA_FIFO_CNT_REG_ADDR = HOST_IP_ADDR + 0x204"
definition NVME_ADMIN_QUEUE_SET_REG_ADDR :: u32 where "NVME_ADMIN_QUEUE_SET_REG_ADDR = HOST_IP_ADDR + 0x21C"
definition NVME_IO_SQ_SET_REG_ADDR :: u32 where "NVME_IO_SQ_SET_REG_ADDR = HOST_IP_ADDR + 0x220"
definition NVME_IO_CQ_SET_REG_ADDR :: u32 where "NVME_IO_CQ_SET_REG_ADDR = HOST_IP_ADDR + 0x260"
definition ARBITRATION_PARAMETER_ADDR :: u32 where "ARBITRATION_PARAMETER_ADDR = HOST_IP_ADDR + 0x2A0"
definition NVME_CMD_FIFO_REG_ADDR :: u32 where "NVME_CMD_FIFO_REG_ADDR = HOST_IP_ADDR + 0x300"
definition NVME_CPL_FIFO_REG_ADDR :: u32 where "NVME_CPL_FIFO_REG_ADDR = HOST_IP_ADDR + 0x304"
definition HOST_DMA_CMD_FIFO_REG_ADDR :: u32 where "HOST_DMA_CMD_FIFO_REG_ADDR = HOST_IP_ADDR + 0x310"
definition NVME_CMD_SRAM_ADDR :: u32 where "NVME_CMD_SRAM_ADDR = HOST_IP_ADDR + 0x2000"

definition HOST_DMA_DIRECT_TYPE :: u32 where "HOST_DMA_DIRECT_TYPE = 1"
definition HOST_DMA_AUTO_TYPE :: u32 where "HOST_DMA_AUTO_TYPE = 0"
definition HOST_DMA_TX_DIRECTION :: u32 where "HOST_DMA_TX_DIRECTION = 1"
definition HOST_DMA_RX_DIRECTION :: u32 where "HOST_DMA_RX_DIRECTION = 0"
definition ONLY_CPL_TYPE :: u32 where "ONLY_CPL_TYPE = 0"
definition AUTO_CPL_TYPE :: u32 where "AUTO_CPL_TYPE = 1"
definition CMD_SLOT_RELEASE_TYPE :: u32 where "CMD_SLOT_RELEASE_TYPE = 2"

lemmas host_addr_defs [const_defs] = HOST_IP_ADDR_def DEV_IRQ_MASK_REG_ADDR_def DEV_IRQ_CLEAR_REG_ADDR_def DEV_IRQ_STATUS_REG_ADDR_def PCIE_STATUS_REG_ADDR_def PCIE_FUNC_REG_ADDR_def NVME_STATUS_REG_ADDR_def HOST_DMA_FIFO_CNT_REG_ADDR_def NVME_ADMIN_QUEUE_SET_REG_ADDR_def NVME_IO_SQ_SET_REG_ADDR_def NVME_IO_CQ_SET_REG_ADDR_def ARBITRATION_PARAMETER_ADDR_def NVME_CMD_FIFO_REG_ADDR_def NVME_CPL_FIFO_REG_ADDR_def HOST_DMA_CMD_FIFO_REG_ADDR_def NVME_CMD_SRAM_ADDR_def
lemmas host_type_defs [const_defs] = HOST_DMA_DIRECT_TYPE_def HOST_DMA_AUTO_TYPE_def HOST_DMA_TX_DIRECTION_def HOST_DMA_RX_DIRECTION_def ONLY_CPL_TYPE_def AUTO_CPL_TYPE_def CMD_SLOT_RELEASE_TYPE_def

section \<open>Register layouts\<close>

type_synonym DEV_IRQ_REG = "32 word"
definition irq_pcieLink :: bitfield where "irq_pcieLink = (0, 1)"
definition irq_busMaster :: bitfield where "irq_busMaster = (1, 1)"
definition irq_pcieIrq :: bitfield where "irq_pcieIrq = (2, 1)"
definition irq_pcieMsi :: bitfield where "irq_pcieMsi = (3, 1)"
definition irq_pcieMsix :: bitfield where "irq_pcieMsix = (4, 1)"
definition irq_nvmeCcEn :: bitfield where "irq_nvmeCcEn = (5, 1)"
definition irq_nvmeCcShn :: bitfield where "irq_nvmeCcShn = (6, 1)"
definition irq_mAxiWriteErr :: bitfield where "irq_mAxiWriteErr = (7, 1)"
definition irq_mAxiReadErr :: bitfield where "irq_mAxiReadErr = (8, 1)"
definition irq_pcieMreqErr :: bitfield where "irq_pcieMreqErr = (9, 1)"
definition irq_pcieCpldErr :: bitfield where "irq_pcieCpldErr = (10, 1)"
definition irq_pcieCpldLenErr :: bitfield where "irq_pcieCpldLenErr = (11, 1)"

type_synonym PCIE_STATUS_REG = "32 word"
definition pcie_ltssm :: bitfield where "pcie_ltssm = (0, 6)"
definition pcie_pcieLinkUp :: bitfield where "pcie_pcieLinkUp = (8, 1)"

type_synonym PCIE_FUNC_REG = "32 word"
definition func_busMaster :: bitfield where "func_busMaster = (0, 1)"
definition func_msiEnable :: bitfield where "func_msiEnable = (1, 1)"
definition func_msixEnable :: bitfield where "func_msixEnable = (2, 1)"
definition func_irqDisable :: bitfield where "func_irqDisable = (3, 1)"
definition func_msiVecNum :: bitfield where "func_msiVecNum = (4, 3)"

type_synonym NVME_STATUS_REG = "32 word"
definition nvme_ccEn :: bitfield where "nvme_ccEn = (0, 1)"
definition nvme_ccShn :: bitfield where "nvme_ccShn = (1, 2)"
definition nvme_cstsRdy :: bitfield where "nvme_cstsRdy = (4, 1)"
definition nvme_cstsShst :: bitfield where "nvme_cstsShst = (5, 2)"
definition nvme_ccAms :: bitfield where "nvme_ccAms = (7, 3)"

type_synonym HOST_DMA_FIFO_CNT_REG = "32 word"
definition fifo_directDmaRx :: bitfield where "fifo_directDmaRx = (0, 8)"
definition fifo_directDmaTx :: bitfield where "fifo_directDmaTx = (8, 8)"
definition fifo_autoDmaRx :: bitfield where "fifo_autoDmaRx = (16, 8)"
definition fifo_autoDmaTx :: bitfield where "fifo_autoDmaTx = (24, 8)"

type_synonym NVME_ADMIN_QUEUE_SET_REG = "32 word"
definition admin_cqValid :: bitfield where "admin_cqValid = (0, 1)"
definition admin_sqValid :: bitfield where "admin_sqValid = (1, 1)"
definition admin_cqIrqEn :: bitfield where "admin_cqIrqEn = (2, 1)"

type_synonym NVME_IO_SQ_SET_REG = "64 word"
definition iosq_pcieBaseAddrL :: bitfield where "iosq_pcieBaseAddrL = (0, 32)"
definition iosq_pcieBaseAddrH :: bitfield where "iosq_pcieBaseAddrH = (32, 4)"
definition iosq_valid :: bitfield where "iosq_valid = (47, 1)"
definition iosq_cqVector :: bitfield where "iosq_cqVector = (48, 4)"
definition iosq_sqPri :: bitfield where "iosq_sqPri = (52, 2)"
definition iosq_sqSize :: bitfield where "iosq_sqSize = (56, 8)"

type_synonym NVME_IO_CQ_SET_REG = "64 word"
definition iocq_pcieBaseAddrL :: bitfield where "iocq_pcieBaseAddrL = (0, 32)"
definition iocq_pcieBaseAddrH :: bitfield where "iocq_pcieBaseAddrH = (32, 4)"
definition iocq_valid :: bitfield where "iocq_valid = (47, 1)"
definition iocq_irqVector :: bitfield where "iocq_irqVector = (48, 3)"
definition iocq_irqEn :: bitfield where "iocq_irqEn = (51, 1)"
definition iocq_cqSize :: bitfield where "iocq_cqSize = (56, 8)"

type_synonym NVME_ARB_WEIGHT_SET_REG = "32 word"
definition arb_arbBurst :: bitfield where "arb_arbBurst = (0, 3)"
definition arb_valid :: bitfield where "arb_valid = (3, 1)"
definition arb_lpw :: bitfield where "arb_lpw = (8, 8)"
definition arb_mpw :: bitfield where "arb_mpw = (16, 8)"
definition arb_hpw :: bitfield where "arb_hpw = (24, 8)"

type_synonym NVME_CMD_FIFO_REG = "32 word"
definition cmd_qID :: bitfield where "cmd_qID = (0, 4)"
definition cmd_cmdSlotTag :: bitfield where "cmd_cmdSlotTag = (8, 7)"
definition cmd_cmdSeqNum :: bitfield where "cmd_cmdSeqNum = (16, 8)"
definition cmd_cmdValid :: bitfield where "cmd_cmdValid = (31, 1)"

type_synonym NVME_CPL_FIFO_REG = "96 word"
definition cpl_cid :: bitfield where "cpl_cid = (0, 16)"
definition cpl_sqId :: bitfield where "cpl_sqId = (16, 4)"
definition cpl_specific :: bitfield where "cpl_specific = (32, 32)"
definition cpl_cmdSlotTag :: bitfield where "cpl_cmdSlotTag = (64, 7)"
definition cpl_cplType :: bitfield where "cpl_cplType = (78, 2)"
definition cpl_statusFieldWord :: bitfield where "cpl_statusFieldWord = (80, 16)"
definition cpl_SC :: bitfield where "cpl_SC = (81, 8)"
definition cpl_SCT :: bitfield where "cpl_SCT = (89, 3)"
definition cpl_MORE :: bitfield where "cpl_MORE = (94, 1)"
definition cpl_DNR :: bitfield where "cpl_DNR = (95, 1)"

type_synonym HOST_DMA_CMD_FIFO_REG = "128 word"
definition dma_devAddr :: bitfield where "dma_devAddr = (0, 32)"
definition dma_pcieAddrH :: bitfield where "dma_pcieAddrH = (32, 32)"
definition dma_pcieAddrL :: bitfield where "dma_pcieAddrL = (64, 32)"
definition dma_dmaLen :: bitfield where "dma_dmaLen = (96, 13)"
definition dma_cmd4KBOffset :: bitfield where "dma_cmd4KBOffset = (110, 9)"
definition dma_cmdSlotTag :: bitfield where "dma_cmdSlotTag = (119, 7)"
definition dma_dmaDirection :: bitfield where "dma_dmaDirection = (126, 1)"
definition dma_dmaType :: bitfield where "dma_dmaType = (127, 1)"

lemmas host_field_defs [field_defs] = irq_pcieLink_def irq_busMaster_def irq_pcieIrq_def irq_pcieMsi_def irq_pcieMsix_def
  irq_nvmeCcEn_def irq_nvmeCcShn_def irq_mAxiWriteErr_def irq_mAxiReadErr_def
  irq_pcieMreqErr_def irq_pcieCpldErr_def irq_pcieCpldLenErr_def pcie_ltssm_def
  pcie_pcieLinkUp_def func_busMaster_def func_msiEnable_def func_msixEnable_def
  func_irqDisable_def func_msiVecNum_def nvme_ccEn_def nvme_ccShn_def nvme_cstsRdy_def
  nvme_cstsShst_def nvme_ccAms_def fifo_directDmaRx_def fifo_directDmaTx_def
  fifo_autoDmaRx_def fifo_autoDmaTx_def admin_cqValid_def admin_sqValid_def
  admin_cqIrqEn_def iosq_pcieBaseAddrL_def iosq_pcieBaseAddrH_def iosq_valid_def
  iosq_cqVector_def iosq_sqPri_def iosq_sqSize_def iocq_pcieBaseAddrL_def
  iocq_pcieBaseAddrH_def iocq_valid_def iocq_irqVector_def iocq_irqEn_def iocq_cqSize_def
  arb_arbBurst_def arb_valid_def arb_lpw_def arb_mpw_def arb_hpw_def cmd_qID_def
  cmd_cmdSlotTag_def cmd_cmdSeqNum_def cmd_cmdValid_def cpl_cid_def cpl_sqId_def
  cpl_specific_def cpl_cmdSlotTag_def cpl_cplType_def cpl_statusFieldWord_def cpl_SC_def
  cpl_SCT_def cpl_MORE_def cpl_DNR_def dma_devAddr_def dma_pcieAddrH_def dma_pcieAddrL_def
  dma_dmaLen_def dma_cmd4KBOffset_def dma_cmdSlotTag_def dma_dmaDirection_def
  dma_dmaType_def

section \<open>State\<close>

text \<open>The states of the NVMe task; the sources compare and assign only these names.\<close>

datatype nvme_task_status =
    NVME_TASK_IDLE | NVME_TASK_WAIT_CC_EN | NVME_TASK_RUNNING | NVME_TASK_SHUTDOWN
  | NVME_TASK_WAIT_RESET | NVME_TASK_RESET

record HOST_DMA_STATUS =
  fifoHead :: HOST_DMA_FIFO_CNT_REG
  fifoTail :: HOST_DMA_FIFO_CNT_REG
  directDmaTxCnt :: u32
  directDmaRxCnt :: u32
  autoDmaTxCnt :: u32
  autoDmaRxCnt :: u32

record HOST_DMA_ASSIST_STATUS =
  autoDmaTxOverFlowCnt :: u32
  autoDmaRxOverFlowCnt :: u32

text \<open>The global variables of the driver and the task (of \<^verbatim>\<open>NVME_CONTEXT\<close> the two
  members that the sources use), and the bus.\<close>

record host_state =
  hs_bus :: bus
  g_hostDmaStatus :: HOST_DMA_STATUS
  g_hostDmaAssistStatus :: HOST_DMA_ASSIST_STATUS
  task_status :: nvme_task_status
  cacheEn :: u32

record NVME_COMMAND =
  qID :: u16
  cmdSlotTag :: u16
  cmdSeqNum :: u32
  cmdDword :: "u32 list"

definition IO_WRITE32 :: "u32 \<Rightarrow> u32 \<Rightarrow> host_state \<Rightarrow> host_state" where
  "IO_WRITE32 addr v s = s\<lparr>hs_bus := Xil_Out32 addr v (hs_bus s)\<rparr>"

definition IO_READ32 :: "device \<Rightarrow> u32 \<Rightarrow> host_state \<Rightarrow> u32 \<times> host_state" where
  "IO_READ32 dev addr s = (let (v, b) = Xil_In32 dev addr (hs_bus s) in (v, s\<lparr>hs_bus := b\<rparr>))"

text \<open>Element \<open>n\<close> of the \<^verbatim>\<open>dword\<close> array of a register union.\<close>

definition dword :: "nat \<Rightarrow> 'a::len word \<Rightarrow> u32" where
  "dword n r = ucast (drop_bit (32 * n) r)"

definition set_dword :: "nat \<Rightarrow> u32 \<Rightarrow> 'a::len word \<Rightarrow> 'a word" where
  "set_dword n v r = field_set (32 * n, 32) (ucast v) r"

definition set_field :: "bitfield \<Rightarrow> u32 \<Rightarrow> 'a::len word \<Rightarrow> 'a word" where
  "set_field f v r = field_set f (ucast v) r"

section \<open>Interrupts\<close>

definition dev_irq_init :: "host_state \<Rightarrow> host_state" where
  "dev_irq_init s =
     (let devReg = fold (\<lambda>f. set_field f 1)
        [irq_pcieLink, irq_busMaster, irq_pcieIrq, irq_pcieMsi, irq_pcieMsix, irq_nvmeCcEn, irq_nvmeCcShn,
         irq_mAxiWriteErr, irq_pcieMreqErr, irq_pcieCpldErr, irq_pcieCpldLenErr] (0 :: DEV_IRQ_REG)
      in IO_WRITE32 DEV_IRQ_MASK_REG_ADDR devReg s)"

definition dev_irq_handler :: "device \<Rightarrow> host_state \<Rightarrow> host_state" where
  "dev_irq_handler dev s =
     (let (devReg, s1) = IO_READ32 dev DEV_IRQ_STATUS_REG_ADDR s;
          s2 = IO_WRITE32 DEV_IRQ_CLEAR_REG_ADDR devReg s1;
          s3 = (if field_get irq_pcieLink devReg = 1 then
                  let (pcieReg, t) = IO_READ32 dev PCIE_STATUS_REG_ADDR s2
                  in if field_get pcie_pcieLinkUp pcieReg = 0 then t\<lparr>task_status := NVME_TASK_RESET\<rparr> else t
                else s2);
          s4 = (if field_get irq_busMaster devReg = 1 then snd (IO_READ32 dev PCIE_FUNC_REG_ADDR s3) else s3);
          s5 = (if field_get irq_pcieIrq devReg = 1 then snd (IO_READ32 dev PCIE_FUNC_REG_ADDR s4) else s4);
          s6 = (if field_get irq_pcieMsi devReg = 1 then snd (IO_READ32 dev PCIE_FUNC_REG_ADDR s5) else s5);
          s7 = (if field_get irq_pcieMsix devReg = 1 then snd (IO_READ32 dev PCIE_FUNC_REG_ADDR s6) else s6);
          s8 = (if field_get irq_nvmeCcEn devReg = 1 then
                  let (nvmeReg, t) = IO_READ32 dev NVME_STATUS_REG_ADDR s7
                  in if field_get nvme_ccEn nvmeReg = 1 then t\<lparr>task_status := NVME_TASK_WAIT_CC_EN\<rparr>
                     else t\<lparr>task_status := NVME_TASK_RESET\<rparr>
                else s7)
      in if field_get irq_nvmeCcShn devReg = 1 then
           let (nvmeReg, t) = IO_READ32 dev NVME_STATUS_REG_ADDR s8
           in if field_get nvme_ccShn nvmeReg = 1 then t\<lparr>task_status := NVME_TASK_SHUTDOWN\<rparr> else t
         else s8)"

section \<open>Controller status and queues\<close>

definition check_nvme_cc_en :: "device \<Rightarrow> host_state \<Rightarrow> u32 \<times> host_state" where
  "check_nvme_cc_en dev s = (let (nvmeReg, s1) = IO_READ32 dev NVME_STATUS_REG_ADDR s in (field_get nvme_ccEn nvmeReg, s1))"

definition check_nvme_cc_ams :: "device \<Rightarrow> host_state \<Rightarrow> u32 \<times> host_state" where
  "check_nvme_cc_ams dev s = (let (nvmeReg, s1) = IO_READ32 dev NVME_STATUS_REG_ADDR s in (field_get nvme_ccAms nvmeReg, s1))"

definition set_nvme_csts_rdy :: "device \<Rightarrow> u32 \<Rightarrow> host_state \<Rightarrow> host_state" where
  "set_nvme_csts_rdy dev rdy s =
     (let (nvmeReg, s1) = IO_READ32 dev NVME_STATUS_REG_ADDR s
      in IO_WRITE32 NVME_STATUS_REG_ADDR (set_field nvme_cstsRdy rdy nvmeReg) s1)"

definition set_nvme_csts_shst :: "device \<Rightarrow> u32 \<Rightarrow> host_state \<Rightarrow> host_state" where
  "set_nvme_csts_shst dev shst s =
     (let (nvmeReg, s1) = IO_READ32 dev NVME_STATUS_REG_ADDR s
      in IO_WRITE32 NVME_STATUS_REG_ADDR (set_field nvme_cstsShst shst nvmeReg) s1)"

definition set_nvme_admin_queue :: "device \<Rightarrow> u32 \<Rightarrow> u32 \<Rightarrow> u32 \<Rightarrow> host_state \<Rightarrow> host_state" where
  "set_nvme_admin_queue dev sqValid cqValid cqIrqEn s =
     (let (nvmeReg, s1) = IO_READ32 dev NVME_ADMIN_QUEUE_SET_REG_ADDR s;
          nvmeReg = set_field admin_cqIrqEn cqIrqEn (set_field admin_cqValid cqValid (set_field admin_sqValid sqValid nvmeReg))
      in IO_WRITE32 NVME_ADMIN_QUEUE_SET_REG_ADDR nvmeReg s1)"

text \<open>\<^verbatim>\<open>IO_READ32(addr + idx * 4)\<close> for \<open>n\<close> values of \<^verbatim>\<open>idx\<close>.\<close>

primrec read_words :: "device \<Rightarrow> u32 \<Rightarrow> nat \<Rightarrow> host_state \<Rightarrow> u32 list \<times> host_state" where
  "read_words dev addr 0 s = ([], s)"
| "read_words dev addr (Suc n) s =
     (let (v, s1) = IO_READ32 dev addr s; (vs, s2) = read_words dev (addr + 4) n s1 in (v # vs, s2))"

text \<open>The four pointer arguments are the members of a command record.\<close>

definition get_nvme_cmd :: "device \<Rightarrow> NVME_COMMAND \<Rightarrow> host_state \<Rightarrow> (u32 \<times> NVME_COMMAND) \<times> host_state" where
  "get_nvme_cmd dev c s =
     (let (nvmeReg, s1) = IO_READ32 dev NVME_CMD_FIFO_REG_ADDR s
      in if field_get cmd_cmdValid nvmeReg = 1 then
           let (ws, s2) = read_words dev (NVME_CMD_SRAM_ADDR + field_get cmd_cmdSlotTag nvmeReg * 64) 16 s1
           in ((field_get cmd_cmdValid nvmeReg,
                c\<lparr>qID := ucast (field_get cmd_qID nvmeReg), cmdSlotTag := ucast (field_get cmd_cmdSlotTag nvmeReg),
                  cmdSeqNum := field_get cmd_cmdSeqNum nvmeReg, cmdDword := ws @ drop 16 (cmdDword c)\<rparr>), s2)
         else ((field_get cmd_cmdValid nvmeReg, c), s1))"

definition set_auto_nvme_cpl :: "NVME_CPL_FIFO_REG \<Rightarrow> u32 \<Rightarrow> u32 \<Rightarrow> u32 \<Rightarrow> u32 \<Rightarrow> host_state \<Rightarrow> host_state" where
  "set_auto_nvme_cpl junk slotTag specific statusFieldWord nvme_cpl_dw0 s =
     (let r1 = set_field cpl_specific specific junk;
          r2 = set_field cpl_cmdSlotTag slotTag r1;
          r3 = set_field cpl_statusFieldWord statusFieldWord r2;
          r4 = set_field cpl_cplType AUTO_CPL_TYPE r3;
          nvmeReg = set_dword 1 nvme_cpl_dw0 r4
      in IO_WRITE32 (NVME_CPL_FIFO_REG_ADDR + 8) (dword 2 nvmeReg)
           (IO_WRITE32 (NVME_CPL_FIFO_REG_ADDR + 4) (dword 1 nvmeReg) s))"

definition set_nvme_slot_release :: "NVME_CPL_FIFO_REG \<Rightarrow> u32 \<Rightarrow> host_state \<Rightarrow> host_state" where
  "set_nvme_slot_release junk slotTag s =
     (let nvmeReg = set_field cpl_cplType CMD_SLOT_RELEASE_TYPE (set_field cpl_cmdSlotTag slotTag junk)
      in IO_WRITE32 (NVME_CPL_FIFO_REG_ADDR + 8) (dword 2 nvmeReg)
           (IO_WRITE32 NVME_CPL_FIFO_REG_ADDR (dword 0 nvmeReg) s))"

definition set_nvme_cpl :: "NVME_CPL_FIFO_REG \<Rightarrow> u32 \<Rightarrow> u32 \<Rightarrow> u32 \<Rightarrow> u32 \<Rightarrow> host_state \<Rightarrow> host_state" where
  "set_nvme_cpl junk sqId cid specific statusFieldWord s =
     (let r1 = set_field cpl_cid cid junk;
          r2 = set_field cpl_sqId sqId r1;
          r3 = set_field cpl_specific specific r2;
          r4 = set_field cpl_statusFieldWord statusFieldWord r3;
          nvmeReg = set_field cpl_cplType ONLY_CPL_TYPE r4
      in IO_WRITE32 (NVME_CPL_FIFO_REG_ADDR + 8) (dword 2 nvmeReg)
           (IO_WRITE32 (NVME_CPL_FIFO_REG_ADDR + 4) (dword 1 nvmeReg)
           (IO_WRITE32 NVME_CPL_FIFO_REG_ADDR (dword 0 nvmeReg) s)))"

definition set_io_sq ::
  "NVME_IO_SQ_SET_REG \<Rightarrow> u32 \<Rightarrow> u32 \<Rightarrow> u32 \<Rightarrow> u32 \<Rightarrow> u32 \<Rightarrow> u32 \<Rightarrow> u32 \<Rightarrow> host_state \<Rightarrow> host_state" where
  "set_io_sq junk ioSqIdx valid cqVector qSzie pcieBaseAddrL pcieBaseAddrH Qprio s =
     (let nvmeReg = set_field iosq_sqPri Qprio (set_field iosq_pcieBaseAddrH pcieBaseAddrH
            (set_field iosq_pcieBaseAddrL pcieBaseAddrL (set_field iosq_sqSize qSzie
            (set_field iosq_cqVector cqVector (set_field iosq_valid valid junk)))));
          addr = NVME_IO_SQ_SET_REG_ADDR + ioSqIdx * 8
      in IO_WRITE32 (addr + 4) (dword 1 nvmeReg) (IO_WRITE32 addr (dword 0 nvmeReg) s))"

definition set_arb_weight :: "u32 \<Rightarrow> host_state \<Rightarrow> host_state" where
  "set_arb_weight dword11 s = IO_WRITE32 ARBITRATION_PARAMETER_ADDR (set_field arb_valid 1 dword11) s"

definition set_io_cq ::
  "NVME_IO_CQ_SET_REG \<Rightarrow> u32 \<Rightarrow> u32 \<Rightarrow> u32 \<Rightarrow> u32 \<Rightarrow> u32 \<Rightarrow> u32 \<Rightarrow> u32 \<Rightarrow> host_state \<Rightarrow> host_state" where
  "set_io_cq junk ioCqIdx valid irqEn irqVector qSzie pcieBaseAddrL pcieBaseAddrH s =
     (let nvmeReg = set_field iocq_pcieBaseAddrH pcieBaseAddrH (set_field iocq_pcieBaseAddrL pcieBaseAddrL
            (set_field iocq_cqSize qSzie (set_field iocq_irqVector irqVector
            (set_field iocq_irqEn irqEn (set_field iocq_valid valid junk)))));
          addr = NVME_IO_CQ_SET_REG_ADDR + ioCqIdx * 8
      in IO_WRITE32 (addr + 4) (dword 1 nvmeReg) (IO_WRITE32 addr (dword 0 nvmeReg) s))"

section \<open>DMA\<close>

text \<open>The increment of one of the four 8-bit counters.\<close>

definition bump :: "bitfield \<Rightarrow> HOST_DMA_FIFO_CNT_REG \<Rightarrow> HOST_DMA_FIFO_CNT_REG" where
  "bump f r = field_set f (field_get f r + 1) r"

definition direct_dma_assert :: "u32 \<Rightarrow> u32 \<Rightarrow> u32 \<Rightarrow> bool" where
  "direct_dma_assert len pcieAddrH pcieAddrL \<longleftrightarrow> len \<le> 0x1000 \<and> pcieAddrH < 0x10 \<and> pcieAddrL AND 0xF = 0"

definition set_direct_tx_dma :: "HOST_DMA_CMD_FIFO_REG \<Rightarrow> u32 \<Rightarrow> u32 \<Rightarrow> u32 \<Rightarrow> u32 \<Rightarrow> host_state \<Rightarrow> host_state option" where
  "set_direct_tx_dma junk devAddr pcieAddrH pcieAddrL len s =
     (if direct_dma_assert len pcieAddrH pcieAddrL then
        let r1 = set_field dma_pcieAddrH pcieAddrH (set_field dma_pcieAddrL pcieAddrL (set_field dma_devAddr devAddr junk));
            r2 = set_dword 3 0 r1;
            r3 = set_field dma_dmaType HOST_DMA_DIRECT_TYPE r2;
            r4 = set_field dma_dmaDirection HOST_DMA_TX_DIRECTION r3;
            r5 = set_field dma_dmaLen len r4;
            s1 = fold (\<lambda>n. IO_WRITE32 (HOST_DMA_CMD_FIFO_REG_ADDR + of_nat (4 * n)) (dword n r5)) [0, 1, 2, 3] s;
            st = g_hostDmaStatus s1
        in Some (s1\<lparr>g_hostDmaStatus := st\<lparr>fifoTail := bump fifo_directDmaTx (fifoTail st), directDmaTxCnt := directDmaTxCnt st + 1\<rparr>\<rparr>)
      else None)"

definition set_direct_rx_dma :: "HOST_DMA_CMD_FIFO_REG \<Rightarrow> u32 \<Rightarrow> u32 \<Rightarrow> u32 \<Rightarrow> u32 \<Rightarrow> host_state \<Rightarrow> host_state option" where
  "set_direct_rx_dma junk devAddr pcieAddrH pcieAddrL len s =
     (if direct_dma_assert len pcieAddrH pcieAddrL then
        let r1 = set_field dma_pcieAddrL pcieAddrL (set_field dma_pcieAddrH pcieAddrH (set_field dma_devAddr devAddr junk));
            r2 = set_dword 3 0 r1;
            r3 = set_field dma_dmaType HOST_DMA_DIRECT_TYPE r2;
            r4 = set_field dma_dmaDirection HOST_DMA_RX_DIRECTION r3;
            r5 = set_field dma_dmaLen len r4;
            s1 = fold (\<lambda>n. IO_WRITE32 (HOST_DMA_CMD_FIFO_REG_ADDR + of_nat (4 * n)) (dword n r5)) [0, 1, 2, 3] s;
            st = g_hostDmaStatus s1
        in Some (s1\<lparr>g_hostDmaStatus := st\<lparr>fifoTail := bump fifo_directDmaRx (fifoTail st), directDmaRxCnt := directDmaRxCnt st + 1\<rparr>\<rparr>)
      else None)"

text \<open>\<^verbatim>\<open>g_hostDmaStatus.fifoHead.dword = IO_READ32(HOST_DMA_FIFO_CNT_REG_ADDR)\<close>\<close>

definition read_head :: "device \<Rightarrow> host_state \<Rightarrow> host_state" where
  "read_head dev s =
     (let (v, s1) = IO_READ32 dev HOST_DMA_FIFO_CNT_REG_ADDR s
      in s1\<lparr>g_hostDmaStatus := (g_hostDmaStatus s1)\<lparr>fifoHead := v\<rparr>\<rparr>)"

text \<open>The wait for room in one of the automatic queues, and the wait until a queue is empty.\<close>

partial_function (option) wait_room :: "bitfield \<Rightarrow> device \<Rightarrow> host_state \<Rightarrow> host_state option" where
  "wait_room f dev s =
     (if (unat (field_get f (fifoTail (g_hostDmaStatus s))) + 1) mod 256 = unat (field_get f (fifoHead (g_hostDmaStatus s)))
      then wait_room f dev (read_head dev s)
      else Some s)"

partial_function (option) wait_done :: "bitfield \<Rightarrow> device \<Rightarrow> host_state \<Rightarrow> host_state option" where
  "wait_done f dev s =
     (if field_get f (fifoHead (g_hostDmaStatus s)) \<noteq> field_get f (fifoTail (g_hostDmaStatus s))
      then wait_done f dev (read_head dev s)
      else Some s)"

definition set_auto_tx_dma :: "device \<Rightarrow> HOST_DMA_CMD_FIFO_REG \<Rightarrow> u32 \<Rightarrow> u32 \<Rightarrow> u32 \<Rightarrow> host_state \<Rightarrow> host_state option" where
  "set_auto_tx_dma dev junk slotTag cmd4KBOffset devAddr s =
     (if cmd4KBOffset < 256 then do {
        s1 \<leftarrow> wait_room fifo_autoDmaTx dev (read_head dev s);
        let r1 = set_dword 3 0 (set_field dma_devAddr devAddr junk);
        let r2 = set_field dma_dmaDirection HOST_DMA_TX_DIRECTION (set_field dma_dmaType HOST_DMA_AUTO_TYPE r1);
        let r3 = set_field dma_cmdSlotTag slotTag (set_field dma_cmd4KBOffset cmd4KBOffset r2);
        let s2 = IO_WRITE32 (HOST_DMA_CMD_FIFO_REG_ADDR + 12) (dword 3 r3) (IO_WRITE32 HOST_DMA_CMD_FIFO_REG_ADDR (dword 0 r3) s1);
        let st = g_hostDmaStatus s2;
        let tempTail = field_get fifo_autoDmaTx (fifoTail st);
        let tail = bump fifo_autoDmaTx (fifoTail st);
        let as = g_hostDmaAssistStatus s2;
        let as' = (if field_get fifo_autoDmaTx tail < tempTail
                   then as\<lparr>autoDmaTxOverFlowCnt := autoDmaTxOverFlowCnt as + 1\<rparr> else as);
        Some (s2\<lparr>g_hostDmaStatus := st\<lparr>fifoTail := tail, autoDmaTxCnt := autoDmaTxCnt st + 1\<rparr>, g_hostDmaAssistStatus := as'\<rparr>)
      }
      else None)"

definition set_auto_rx_dma :: "device \<Rightarrow> HOST_DMA_CMD_FIFO_REG \<Rightarrow> u32 \<Rightarrow> u32 \<Rightarrow> u32 \<Rightarrow> host_state \<Rightarrow> host_state option" where
  "set_auto_rx_dma dev junk slotTag cmd4KBOffset devAddr s =
     (if cmd4KBOffset < 256 then do {
        s1 \<leftarrow> wait_room fifo_autoDmaRx dev (read_head dev s);
        let r1 = set_dword 3 0 (set_field dma_devAddr devAddr junk);
        let r2 = set_field dma_dmaDirection HOST_DMA_RX_DIRECTION (set_field dma_dmaType HOST_DMA_AUTO_TYPE r1);
        let r3 = set_field dma_cmdSlotTag slotTag (set_field dma_cmd4KBOffset cmd4KBOffset r2);
        let s2 = IO_WRITE32 (HOST_DMA_CMD_FIFO_REG_ADDR + 12) (dword 3 r3) (IO_WRITE32 HOST_DMA_CMD_FIFO_REG_ADDR (dword 0 r3) s1);
        let st = g_hostDmaStatus s2;
        let tempTail = field_get fifo_autoDmaRx (fifoTail st);
        let tail = bump fifo_autoDmaRx (fifoTail st);
        let as = g_hostDmaAssistStatus s2;
        let as' = (if field_get fifo_autoDmaRx tail < tempTail
                   then as\<lparr>autoDmaRxOverFlowCnt := autoDmaRxOverFlowCnt as + 1\<rparr> else as);
        Some (s2\<lparr>g_hostDmaStatus := st\<lparr>fifoTail := tail, autoDmaRxCnt := autoDmaRxCnt st + 1\<rparr>, g_hostDmaAssistStatus := as'\<rparr>)
      }
      else None)"

definition check_direct_tx_dma_done :: "device \<Rightarrow> host_state \<Rightarrow> host_state option" where
  "check_direct_tx_dma_done dev s = wait_done fifo_directDmaTx dev s"

definition check_direct_rx_dma_done :: "device \<Rightarrow> host_state \<Rightarrow> host_state option" where
  "check_direct_rx_dma_done dev s = wait_done fifo_directDmaRx dev s"

definition check_auto_tx_dma_done :: "device \<Rightarrow> host_state \<Rightarrow> host_state option" where
  "check_auto_tx_dma_done dev s = wait_done fifo_autoDmaTx dev s"

definition check_auto_rx_dma_done :: "device \<Rightarrow> host_state \<Rightarrow> host_state option" where
  "check_auto_rx_dma_done dev s = wait_done fifo_autoDmaRx dev s"

text \<open>The decision that both partial checks make, from the head and tail counters and the number of
  times the tail has wrapped around.\<close>

definition partial_done :: "u32 \<Rightarrow> u32 \<Rightarrow> u32 \<Rightarrow> u32 \<Rightarrow> u32 \<Rightarrow> u32" where
  "partial_done hd_cnt tl_cnt overflow tailIndex tailAssistIndex =
     (if hd_cnt = tl_cnt then 1
      else if hd_cnt < tailIndex then
        (if tl_cnt < tailIndex then
           (if tl_cnt > hd_cnt then 1 else if overflow \<noteq> tailAssistIndex + 1 then 1 else 0)
         else if overflow \<noteq> tailAssistIndex then 1 else 0)
      else if hd_cnt = tailIndex then 1
      else if tl_cnt < tailIndex then 1
      else if tl_cnt > hd_cnt then 1
      else if overflow \<noteq> tailAssistIndex then 1 else 0)"

definition check_auto_tx_dma_partial_done :: "device \<Rightarrow> u32 \<Rightarrow> u32 \<Rightarrow> host_state \<Rightarrow> u32 \<times> host_state" where
  "check_auto_tx_dma_partial_done dev tailIndex tailAssistIndex s =
     (let s1 = read_head dev s; st = g_hostDmaStatus s1
      in (partial_done (field_get fifo_autoDmaTx (fifoHead st)) (field_get fifo_autoDmaTx (fifoTail st))
            (autoDmaTxOverFlowCnt (g_hostDmaAssistStatus s1)) tailIndex tailAssistIndex, s1))"

definition check_auto_rx_dma_partial_done :: "device \<Rightarrow> u32 \<Rightarrow> u32 \<Rightarrow> host_state \<Rightarrow> u32 \<times> host_state" where
  "check_auto_rx_dma_partial_done dev tailIndex tailAssistIndex s =
     (let s1 = read_head dev s; st = g_hostDmaStatus s1
      in (partial_done (field_get fifo_autoDmaRx (fifoHead st)) (field_get fifo_autoDmaRx (fifoTail st))
            (autoDmaRxOverFlowCnt (g_hostDmaAssistStatus s1)) tailIndex tailAssistIndex, s1))"

section \<open>The automatic DMA queues\<close>

text \<open>Both directions at once: the counter, the count of its wraps, and the two operations.\<close>

definition auto_field :: "bool \<Rightarrow> bitfield" where
  "auto_field tx = (if tx then fifo_autoDmaTx else fifo_autoDmaRx)"

definition auto_overflow :: "bool \<Rightarrow> host_state \<Rightarrow> u32" where
  "auto_overflow tx s = (if tx then autoDmaTxOverFlowCnt else autoDmaRxOverFlowCnt) (g_hostDmaAssistStatus s)"

definition set_auto_dma :: "bool \<Rightarrow> device \<Rightarrow> HOST_DMA_CMD_FIFO_REG \<Rightarrow> u32 \<Rightarrow> u32 \<Rightarrow> u32 \<Rightarrow> host_state \<Rightarrow> host_state option" where
  "set_auto_dma tx = (if tx then set_auto_tx_dma else set_auto_rx_dma)"

definition check_auto_dma_partial_done :: "bool \<Rightarrow> device \<Rightarrow> u32 \<Rightarrow> u32 \<Rightarrow> host_state \<Rightarrow> u32 \<times> host_state" where
  "check_auto_dma_partial_done tx = (if tx then check_auto_tx_dma_partial_done else check_auto_rx_dma_partial_done)"

text \<open>\<open>n\<close> transfers have been given to the queue so far.\<close>

definition issued :: "bool \<Rightarrow> nat \<Rightarrow> host_state \<Rightarrow> bool" where
  "issued tx n s \<longleftrightarrow> unat (field_get (auto_field tx) (fifoTail (g_hostDmaStatus s))) = n mod 256 \<and> unat (auto_overflow tx s) = n div 256"

text \<open>The count register shows how many transfers are done, a function of the history of the bus.\<close>

definition shows_done :: "bool \<Rightarrow> device \<Rightarrow> (bus \<Rightarrow> nat) \<Rightarrow> bool" where
  "shows_done tx dev dn \<longleftrightarrow> (\<forall>b. unat (field_get (auto_field tx) (dev b HOST_DMA_FIFO_CNT_REG_ADDR)) = dn b mod 256)"

lemma auto_field_width: "snd (auto_field tx) = 8" "field_fits (auto_field tx) TYPE(32)"
  by (simp_all add: auto_field_def field_defs field_fits_def)

lemma read_head_simps [simp]:
  "hs_bus (read_head dev s) = snd (Xil_In32 dev HOST_DMA_FIFO_CNT_REG_ADDR (hs_bus s))"
  "fifoHead (g_hostDmaStatus (read_head dev s)) = dev (hs_bus s) HOST_DMA_FIFO_CNT_REG_ADDR"
  "fifoTail (g_hostDmaStatus (read_head dev s)) = fifoTail (g_hostDmaStatus s)"
  "g_hostDmaAssistStatus (read_head dev s) = g_hostDmaAssistStatus s"
  by (simp_all add: read_head_def IO_READ32_def Xil_In32_def)

lemma issued_read_head [simp]: "issued tx n (read_head dev s) = issued tx n s"
  by (simp add: issued_def auto_overflow_def)

text \<open>The position of a counter among the 8-bit values, and how often it has wrapped around.\<close>

lemma ring_pos:
  fixes hq hr tq tr :: nat
  assumes "256 * hq + hr \<le> 256 * tq + tr" and "256 * tq + tr \<le> 256 * hq + hr + 255" and "hr < 256" and "tr < 256"
  shows "tq = hq \<and> hr \<le> tr \<or> tq = Suc hq \<and> tr < hr"
proof -
  have "\<not> tq < hq" "\<not> Suc hq < tq" using assms by linarith+
  then consider "tq = hq" | "tq = Suc hq" by linarith
  then show ?thesis using assms by cases simp_all
qed

lemma ring_full:
  fixes n d :: nat
  assumes "d \<le> n" and "n \<le> d + 255"
  shows "(n mod 256 + 1) mod 256 = d mod 256 \<longleftrightarrow> n = d + 255"
proof -
  have "(n mod 256 + 1) mod 256 = (n + 1) mod 256" by (simp add: mod_simps)
  moreover have "(n + 1) mod 256 = d mod 256 \<longleftrightarrow> 256 dvd n + 1 - d" using assms(1) mod_eq_dvd_iff_nat [of d "n + 1" 256] by simp
  moreover have "256 dvd n + 1 - d \<longleftrightarrow> n = d + 255" using assms by (auto dest: dvd_imp_le)
  ultimately show ?thesis by simp
qed

lemma partial_done_nat:
  fixes hq hr tq tr mq mr :: nat
  assumes "256 * hq + hr \<le> 256 * tq + tr" and "256 * tq + tr \<le> 256 * hq + hr + 255" and "256 * mq + mr \<le> 256 * tq + tr"
    and "hr < 256" and "tr < 256" and "mr < 256" and "tq < 2 ^ 32"
  shows "partial_done (of_nat hr) (of_nat tr) (of_nat tq) (of_nat mr) (of_nat mq) = (if 256 * mq + mr \<le> 256 * hq + hr then 1 else 0)"
proof -
  have b: "unat (of_nat n :: u32) = n" if "n < 256" for n using that by (intro unat_of_nat_u32) simp
  note cmp = word_less_nat_alt word_unat_eq_iff b [OF assms(4)] b [OF assms(5)] b [OF assms(6)]
  have q: "mq \<le> tq" using assms(3,5) by linarith
  have u: "unat (of_nat tq :: u32) = tq" "unat (of_nat mq :: u32) = mq" using q assms(7) by (auto intro!: unat_of_nat_u32)
  have u1: "mq < tq \<Longrightarrow> unat (of_nat mq + 1 :: u32) = Suc mq"
    using assms(7) unat_of_nat_u32 [of "Suc mq"] by (simp add: add.commute)
  consider (same) "tq = hq" "hr \<le> tr" | (wrapped) "tq = Suc hq" "tr < hr" using ring_pos [OF assms(1,2,4,5)] by blast
  then show ?thesis
  proof cases
    case same
    consider "mq = tq" | "mq < tq" using q by linarith
    then show ?thesis using same assms(3-6) u u1 by cases (auto simp: partial_done_def cmp)
  next
    case wrapped
    consider "mq = tq" | "Suc mq = tq" | "Suc mq < tq" using q by linarith
    then show ?thesis using wrapped assms(3-6) u u1 by cases (auto simp: partial_done_def cmp)
  qed
qed

lemma partial_done_issued:
  assumes "issued tx t s" and "unat (field_get (auto_field tx) (dev (hs_bus s) HOST_DMA_FIFO_CNT_REG_ADDR)) = h mod 256"
    and "h \<le> t" and "t \<le> h + 255" and "m \<le> t"
  shows "fst (check_auto_dma_partial_done tx dev (of_nat (m mod 256)) (of_nat (m div 256)) s) = (if m \<le> h then 1 else 0)"
proof -
  let ?s = "read_head dev s"
  have e: "fst (check_auto_dma_partial_done tx dev i j s) = partial_done (field_get (auto_field tx) (fifoHead (g_hostDmaStatus ?s)))
      (field_get (auto_field tx) (fifoTail (g_hostDmaStatus ?s))) (auto_overflow tx ?s) i j" for i j
    by (simp add: check_auto_dma_partial_done_def check_auto_tx_dma_partial_done_def check_auto_rx_dma_partial_done_def
        auto_field_def auto_overflow_def Let_def)
  have w: "unat x = n \<Longrightarrow> x = of_nat n" for x :: u32 and n by auto
  have "t div 256 < 2 ^ 32" using assms(1) unsigned_less [of "auto_overflow tx s", where 'a = nat] by (simp add: issued_def)
  moreover have "field_get (auto_field tx) (fifoHead (g_hostDmaStatus ?s)) = of_nat (h mod 256)" using assms(2) by (intro w) simp
  moreover have "field_get (auto_field tx) (fifoTail (g_hostDmaStatus ?s)) = of_nat (t mod 256)" using assms(1) by (intro w) (simp add: issued_def)
  moreover have "auto_overflow tx ?s = of_nat (t div 256)" using assms(1) by (intro w) (simp add: issued_def auto_overflow_def)
  ultimately show ?thesis
    using assms(3-5) partial_done_nat [of "h div 256" "h mod 256" "t div 256" "t mod 256" "m div 256" "m mod 256"] e by simp
qed

lemma wait_room_returns:
  assumes "issued tx n s" and "shows_done tx dev dn"
    and "\<And>k. dn (polls dev HOST_DMA_FIFO_CNT_REG_ADDR k (hs_bus s)) \<le> n \<and> n \<le> dn (polls dev HOST_DMA_FIFO_CNT_REG_ADDR k (hs_bus s)) + 255"
    and "n < dn (polls dev HOST_DMA_FIFO_CNT_REG_ADDR k (hs_bus s)) + 255"
  shows "\<exists>s1 h. wait_room (auto_field tx) dev (read_head dev s) = Some s1 \<and> fifoTail (g_hostDmaStatus s1) = fifoTail (g_hostDmaStatus s) \<and>
    g_hostDmaAssistStatus s1 = g_hostDmaAssistStatus s \<and> bus_writes (hs_bus s1) = bus_writes (hs_bus s) \<and>
    unat (field_get (auto_field tx) (fifoHead (g_hostDmaStatus s1))) = h mod 256 \<and> h \<le> n \<and> n + 1 \<le> h + 255"
  using assms(1,3,4)
proof (induction k arbitrary: s)
  case 0
  have b: "dn (hs_bus s) \<le> n" "n \<le> dn (hs_bus s) + 255" "n < dn (hs_bus s) + 255" using 0(2) [of 0] 0(3) by simp_all
  have "(unat (field_get (auto_field tx) (fifoTail (g_hostDmaStatus s))) + 1) mod 256 \<noteq> unat (field_get (auto_field tx) (dev (hs_bus s) HOST_DMA_FIFO_CNT_REG_ADDR))"
    using 0(1) assms(2) ring_full [OF b(1,2)] b(3) by (simp add: issued_def shows_done_def)
  then show ?case using b assms(2)
    by (intro exI [of _ "read_head dev s"] exI [of _ "dn (hs_bus s)"]) (simp add: wait_room.simps shows_done_def)
next
  case (Suc k)
  have b: "dn (hs_bus s) \<le> n" "n \<le> dn (hs_bus s) + 255" using Suc.prems(2) [of 0] by simp_all
  have full: "(unat (field_get (auto_field tx) (fifoTail (g_hostDmaStatus s))) + 1) mod 256 = unat (field_get (auto_field tx) (dev (hs_bus s) HOST_DMA_FIFO_CNT_REG_ADDR)) \<longleftrightarrow>
      n = dn (hs_bus s) + 255"
    using Suc.prems(1) assms(2) ring_full [OF b] by (simp add: issued_def shows_done_def)
  show ?case
  proof (cases "n = dn (hs_bus s) + 255")
    case False
    then show ?thesis using b full assms(2)
      by (intro exI [of _ "read_head dev s"] exI [of _ "dn (hs_bus s)"]) (simp add: wait_room.simps shows_done_def)
  next
    case True
    have "wait_room (auto_field tx) dev (read_head dev s) = wait_room (auto_field tx) dev (read_head dev (read_head dev s))"
      using True full by (subst wait_room.simps) simp
    moreover have "\<And>k. dn (polls dev HOST_DMA_FIFO_CNT_REG_ADDR k (hs_bus (read_head dev s))) \<le> n \<and>
        n \<le> dn (polls dev HOST_DMA_FIFO_CNT_REG_ADDR k (hs_bus (read_head dev s))) + 255"
      using Suc.prems(2) [of "Suc _"] by simp
    moreover have "n < dn (polls dev HOST_DMA_FIFO_CNT_REG_ADDR k (hs_bus (read_head dev s))) + 255" using Suc.prems(3) by simp
    ultimately show ?thesis using Suc.IH [of "read_head dev s"] Suc.prems(1) by simp
  qed
qed

lemma bump_value:
  assumes "snd f = 8" and "field_fits f TYPE(32)"
  shows "unat (field_get f (bump f r)) = (unat (field_get f r) + 1) mod 256"
proof -
  have "unat (field_get f r) < 256" using field_get_bound [of f r] assms(1) by simp
  then have "unat (field_get f r + 1) = unat (field_get f r) + 1" by (simp add: unat_word_ariths)
  moreover have "unat (field_get f (bump f r)) = take_bit 8 (unat (field_get f r + 1))"
    using assms unsigned_take_bit_eq [of 8 "field_get f r + 1", where 'a = nat] by (simp add: bump_def field_get_set_same)
  ultimately show ?thesis by (simp add: take_bit_eq_mod)
qed

lemma count_step:
  fixes n :: nat
  shows "(n mod 256 + 1) mod 256 = (n + 1) mod 256" and "(n + 1) mod 256 < n mod 256 \<longleftrightarrow> n mod 256 = 255"
    and "(n + 1) div 256 = (if n mod 256 = 255 then n div 256 + 1 else n div 256)"
proof -
  show e: "(n mod 256 + 1) mod 256 = (n + 1) mod 256" by (simp add: mod_simps)
  have "n mod 256 < 256" by simp
  then show "(n + 1) mod 256 < n mod 256 \<longleftrightarrow> n mod 256 = 255" by (simp add: mod_Suc)
  show "(n + 1) div 256 = (if n mod 256 = 255 then n div 256 + 1 else n div 256)" by (simp add: div_Suc mod_Suc)
qed

text \<open>The command word of an automatic transfer.\<close>

definition auto_word :: "bool \<Rightarrow> u32 \<Rightarrow> u32 \<Rightarrow> u32" where
  "auto_word tx slotTag off = push_bit 30 (of_bool tx) OR push_bit 23 (take_bit 7 slotTag) OR push_bit 14 (take_bit 9 off)"

lemma bit_set_field: "bit (set_field f v x) n \<longleftrightarrow>
     n < LENGTH('a) \<and> (if fst f \<le> n \<and> n < fst f + snd f then n - fst f < 32 \<and> bit v (n - fst f) else bit x n)"
  for x :: "'a::len word"
  by (auto simp: set_field_def bit_field_set bit_simps dest: bit_imp_le_length)

lemma bit_set_dword: "bit (set_dword k v x) n \<longleftrightarrow>
     n < LENGTH('a) \<and> (if 32 * k \<le> n \<and> n < 32 * k + 32 then bit v (n - 32 * k) else bit x n)"
  for x :: "'a::len word"
  by (auto simp: set_dword_def bit_field_set bit_simps dest: bit_imp_le_length)

lemma bit_dword: "bit (dword k x) n \<longleftrightarrow> n < 32 \<and> bit x (32 * k + n)"
  by (auto simp: dword_def bit_simps)

lemma auto_words:
  "dword 3 (set_field dma_cmdSlotTag tag (set_field dma_cmd4KBOffset off
     (set_field dma_dmaDirection (of_bool tx)
     (set_field dma_dmaType HOST_DMA_AUTO_TYPE (set_dword 3 0 (set_field dma_devAddr a (junk :: HOST_DMA_CMD_FIFO_REG))))))) =
   auto_word tx tag off" (is "dword 3 ?r = _")
  "dword 0 (set_field dma_cmdSlotTag tag (set_field dma_cmd4KBOffset off
     (set_field dma_dmaDirection (of_bool tx)
     (set_field dma_dmaType HOST_DMA_AUTO_TYPE (set_dword 3 0 (set_field dma_devAddr a (junk :: HOST_DMA_CMD_FIFO_REG))))))) = a"
proof -
  show "dword 3 ?r = auto_word tx tag off"
  proof (rule bit_word_eqI)
    fix n assume "n < LENGTH(32)"
    then have "n < 32" by simp
    then show "bit (dword 3 ?r) n \<longleftrightarrow> bit (auto_word tx tag off) n"
      by (auto simp: bit_dword bit_set_field bit_set_dword field_defs host_type_defs auto_word_def bit_simps)
  qed
  show "dword 0 ?r = a"
    by (rule bit_word_eqI) (auto simp: bit_dword bit_set_field bit_set_dword field_defs)
qed

lemma set_auto_dma_eq:
  assumes "off < 256" and "wait_room (auto_field tx) dev (read_head dev s) = Some s1"
  shows "\<exists>s'. set_auto_dma tx dev junk tag off a s = Some s' \<and>
    fifoTail (g_hostDmaStatus s') = bump (auto_field tx) (fifoTail (g_hostDmaStatus s1)) \<and>
    fifoHead (g_hostDmaStatus s') = fifoHead (g_hostDmaStatus s1) \<and>
    auto_overflow tx s' = auto_overflow tx s1 +
      (if field_get (auto_field tx) (fifoTail (g_hostDmaStatus s')) < field_get (auto_field tx) (fifoTail (g_hostDmaStatus s1)) then 1 else 0) \<and>
    bus_writes (hs_bus s') = bus_writes (hs_bus s1) @
      [(HOST_DMA_CMD_FIFO_REG_ADDR, a), (HOST_DMA_CMD_FIFO_REG_ADDR + 12, auto_word tx tag off)]"
proof (cases tx)
  case True
  then show ?thesis using assms auto_words [of tag off True a junk]
    by (simp add: set_auto_dma_def set_auto_tx_dma_def auto_field_def auto_overflow_def Let_def IO_WRITE32_def HOST_DMA_TX_DIRECTION_def)
next
  case False
  then show ?thesis using assms auto_words [of tag off False a junk]
    by (simp add: set_auto_dma_def set_auto_rx_dma_def auto_field_def auto_overflow_def Let_def IO_WRITE32_def HOST_DMA_RX_DIRECTION_def)
qed

section \<open>Properties\<close>

text \<open>
  An automatic DMA transfer is issued without overrunning the queue. When \<open>n\<close> transfers
  have been given to the hardware and the hardware, which counts the finished ones modulo 256,
  eventually finishes one if the queue is full, \<^verbatim>\<open>set_auto_tx_dma\<close> and
  \<^verbatim>\<open>set_auto_rx_dma\<close> return; they write exactly the device address and the command word, the
  tail counter and its count of wraps stand for \<open>n + 1\<close>, and at most 255 transfers are then
  unfinished, so that head and tail cannot be confused.
\<close>

theorem auto_dma_issue:
  assumes "issued tx n s" and "off < 256" and "(n + 1) div 256 < 2 ^ 32" and "shows_done tx dev dn"
    and "\<forall>k. dn (polls dev HOST_DMA_FIFO_CNT_REG_ADDR k (hs_bus s)) \<le> n \<and> n \<le> dn (polls dev HOST_DMA_FIFO_CNT_REG_ADDR k (hs_bus s)) + 255"
    and "\<exists>k. n < dn (polls dev HOST_DMA_FIFO_CNT_REG_ADDR k (hs_bus s)) + 255"
  shows "\<exists>s' h. set_auto_dma tx dev junk tag off a s = Some s' \<and> issued tx (n + 1) s' \<and>
    bus_writes (hs_bus s') = bus_writes (hs_bus s) @
      [(HOST_DMA_CMD_FIFO_REG_ADDR, a), (HOST_DMA_CMD_FIFO_REG_ADDR + 12, auto_word tx tag off)] \<and>
    unat (field_get (auto_field tx) (fifoHead (g_hostDmaStatus s'))) = h mod 256 \<and> h \<le> n \<and> n + 1 \<le> h + 255"
proof -
  obtain k where "n < dn (polls dev HOST_DMA_FIFO_CNT_REG_ADDR k (hs_bus s)) + 255" using assms(6) by blast
  then obtain s1 h where s1: "wait_room (auto_field tx) dev (read_head dev s) = Some s1" "fifoTail (g_hostDmaStatus s1) = fifoTail (g_hostDmaStatus s)"
    "g_hostDmaAssistStatus s1 = g_hostDmaAssistStatus s" "bus_writes (hs_bus s1) = bus_writes (hs_bus s)"
    "unat (field_get (auto_field tx) (fifoHead (g_hostDmaStatus s1))) = h mod 256" "h \<le> n" "n + 1 \<le> h + 255"
    using wait_room_returns [OF assms(1,4)] assms(5) by blast
  obtain s' where s': "set_auto_dma tx dev junk tag off a s = Some s'"
    "fifoTail (g_hostDmaStatus s') = bump (auto_field tx) (fifoTail (g_hostDmaStatus s1))" "fifoHead (g_hostDmaStatus s') = fifoHead (g_hostDmaStatus s1)"
    "auto_overflow tx s' = auto_overflow tx s1 +
      (if field_get (auto_field tx) (fifoTail (g_hostDmaStatus s')) < field_get (auto_field tx) (fifoTail (g_hostDmaStatus s1)) then 1 else 0)"
    "bus_writes (hs_bus s') = bus_writes (hs_bus s1) @
      [(HOST_DMA_CMD_FIFO_REG_ADDR, a), (HOST_DMA_CMD_FIFO_REG_ADDR + 12, auto_word tx tag off)]"
    using set_auto_dma_eq [OF assms(2) s1(1)] by blast
  have t: "unat (field_get (auto_field tx) (fifoTail (g_hostDmaStatus s'))) = (n + 1) mod 256"
    using assms(1) s1(2) s'(2) bump_value [OF auto_field_width] count_step(1) by (simp add: issued_def)
  have "unat (auto_overflow tx s1) = n div 256" using assms(1) s1(3) by (simp add: issued_def auto_overflow_def)
  moreover have "field_get (auto_field tx) (fifoTail (g_hostDmaStatus s')) < field_get (auto_field tx) (fifoTail (g_hostDmaStatus s1)) \<longleftrightarrow> n mod 256 = 255"
    using assms(1) s1(2) t count_step(2) [of n] by (simp add: word_less_nat_alt issued_def)
  ultimately have "unat (auto_overflow tx s') = (n + 1) div 256"
    using s'(4) count_step(3) [of n] assms(3) by (simp add: unat_word_ariths split: if_splits)
  with t have "issued tx (n + 1) s'" by (simp add: issued_def)
  then show ?thesis using s' s1 by (intro exI [of _ s'] exI [of _ h]) simp
qed

definition idle_host :: host_state where
  "idle_host = \<lparr>hs_bus = [], g_hostDmaStatus = \<lparr>fifoHead = 0, fifoTail = 0, directDmaTxCnt = 0, directDmaRxCnt = 0, autoDmaTxCnt = 0, autoDmaRxCnt = 0\<rparr>,
     g_hostDmaAssistStatus = \<lparr>autoDmaTxOverFlowCnt = 0, autoDmaRxOverFlowCnt = 0\<rparr>, task_status = NVME_TASK_IDLE, cacheEn = 0\<rparr>"

theorem auto_dma_issue_witness:
  "\<exists>s'. set_auto_tx_dma (\<lambda>_ _. 0) 0 3 1 0x25800000 idle_host = Some s' \<and> issued True 1 s'"
proof -
  have "issued True 0 idle_host" "shows_done True (\<lambda>_ _. 0) (\<lambda>_. 0)"
    by (simp_all add: issued_def idle_host_def auto_overflow_def shows_done_def)
  then show ?thesis
    using auto_dma_issue [of True 0 idle_host 1 "\<lambda>_ _. 0" "\<lambda>_. 0" 0 3 "0x25800000"] by (auto simp: set_auto_dma_def)
qed

text \<open>
  C35: the partial checks are exact. When \<open>t\<close> transfers have been issued, \<open>h\<close> of them are
  done and at most 255 are not, \<^verbatim>\<open>check_auto_tx_dma_partial_done\<close> and
  \<^verbatim>\<open>check_auto_rx_dma_partial_done\<close>, given the tail index and wrap count that stood after
  the first \<open>m\<close> transfers were issued, return 1 exactly when these \<open>m\<close> are done.
\<close>

theorem dma_partial_done_exact:
  assumes "issued tx t s" and "unat (field_get (auto_field tx) (dev (hs_bus s) HOST_DMA_FIFO_CNT_REG_ADDR)) = h mod 256"
    and "h \<le> t" and "t \<le> h + 255" and "m \<le> t"
  shows "fst (check_auto_dma_partial_done tx dev (of_nat (m mod 256)) (of_nat (m div 256)) s) = (if m \<le> h then 1 else 0)"
  using assms by (rule partial_done_issued)

theorem dma_partial_done_exact_witness:
  "fst (check_auto_tx_dma_partial_done (\<lambda>_ _. 0xFA000000) 4 1
     (idle_host\<lparr>g_hostDmaStatus := (g_hostDmaStatus idle_host)\<lparr>fifoTail := 0x07000000\<rparr>, g_hostDmaAssistStatus := \<lparr>autoDmaTxOverFlowCnt = 1, autoDmaRxOverFlowCnt = 0\<rparr>\<rparr>)) = 0"
proof -
  let ?s = "idle_host\<lparr>g_hostDmaStatus := (g_hostDmaStatus idle_host)\<lparr>fifoTail := 0x07000000\<rparr>, g_hostDmaAssistStatus := \<lparr>autoDmaTxOverFlowCnt = 1, autoDmaRxOverFlowCnt = 0\<rparr>\<rparr>"
  have "issued True 263 ?s" "unat (field_get (auto_field True) (0xFA000000 :: u32)) = 250 mod 256"
    by (simp_all add: issued_def auto_field_def auto_overflow_def field_get_def field_defs)
  then show ?thesis using dma_partial_done_exact [of True 263 ?s "\<lambda>_ _. 0xFA000000" 250 260] by (simp add: check_auto_dma_partial_done_def)
qed

text \<open>
  The completion registers. \<^verbatim>\<open>set_nvme_cpl\<close> writes the three words of a completion with
  the given command identifier, queue, status and result; \<^verbatim>\<open>set_auto_nvme_cpl\<close> writes the
  last two, with the result taken from \<^verbatim>\<open>nvme_cpl_dw0\<close> whatever \<^verbatim>\<open>specific\<close>
  is; \<^verbatim>\<open>set_nvme_slot_release\<close> writes the slot to be released. Reserved and unused fields
  carry whatever the uninitialised variable held.
\<close>

theorem completion_words:
  "\<exists>w0 w2 a2 r2. bus_writes (hs_bus (set_nvme_cpl junk sq cid res st s)) =
     bus_writes (hs_bus s) @ [(NVME_CPL_FIFO_REG_ADDR, w0), (NVME_CPL_FIFO_REG_ADDR + 4, res), (NVME_CPL_FIFO_REG_ADDR + 8, w2)] \<and>
   field_get cpl_cid w0 = take_bit 16 cid \<and> field_get cpl_sqId w0 = take_bit 4 sq \<and>
   field_get (16, 16) w2 = take_bit 16 st \<and> field_get (14, 2) w2 = ONLY_CPL_TYPE \<and>
   bus_writes (hs_bus (set_auto_nvme_cpl junk tag spec st dw0 s)) =
     bus_writes (hs_bus s) @ [(NVME_CPL_FIFO_REG_ADDR + 4, dw0), (NVME_CPL_FIFO_REG_ADDR + 8, a2)] \<and>
   field_get (0, 7) a2 = take_bit 7 tag \<and> field_get (16, 16) a2 = take_bit 16 st \<and> field_get (14, 2) a2 = AUTO_CPL_TYPE \<and>
   bus_writes (hs_bus (set_nvme_slot_release junk tag s)) =
     bus_writes (hs_bus s) @ [(NVME_CPL_FIFO_REG_ADDR, dword 0 junk), (NVME_CPL_FIFO_REG_ADDR + 8, r2)] \<and>
   field_get (0, 7) r2 = take_bit 7 tag \<and> field_get (14, 2) r2 = CMD_SLOT_RELEASE_TYPE"
proof -
  let ?c = "set_field cpl_cplType ONLY_CPL_TYPE (set_field cpl_statusFieldWord st (set_field cpl_specific res
      (set_field cpl_sqId sq (set_field cpl_cid cid junk))))"
  let ?a = "set_dword 1 dw0 (set_field cpl_cplType AUTO_CPL_TYPE (set_field cpl_statusFieldWord st (set_field cpl_cmdSlotTag tag
      (set_field cpl_specific spec junk))))"
  let ?r = "set_field cpl_cplType CMD_SLOT_RELEASE_TYPE (set_field cpl_cmdSlotTag tag junk)"
  note b = bit_dword bit_set_field bit_set_dword bit_field_get bit_take_bit_iff field_defs
  have d: "dword 1 ?c = res" "dword 1 ?a = dw0" "dword 0 ?r = dword 0 junk" by (rule bit_word_eqI; auto simp: b)+
  have f: "field_get cpl_cid (dword 0 ?c) = take_bit 16 cid" "field_get cpl_sqId (dword 0 ?c) = take_bit 4 sq"
    "field_get (16, 16) (dword 2 ?c) = take_bit 16 st" "field_get (0, 7) (dword 2 ?a) = take_bit 7 tag"
    "field_get (16, 16) (dword 2 ?a) = take_bit 16 st" "field_get (0, 7) (dword 2 ?r) = take_bit 7 tag"
    "field_get (14, 2) (dword 2 ?a) = take_bit 2 AUTO_CPL_TYPE" "field_get (14, 2) (dword 2 ?c) = take_bit 2 ONLY_CPL_TYPE"
    "field_get (14, 2) (dword 2 ?r) = take_bit 2 CMD_SLOT_RELEASE_TYPE"
    by (rule bit_word_eqI; auto simp: b)+
  have t: "take_bit 2 ONLY_CPL_TYPE = ONLY_CPL_TYPE" "take_bit 2 AUTO_CPL_TYPE = AUTO_CPL_TYPE"
    "take_bit 2 CMD_SLOT_RELEASE_TYPE = CMD_SLOT_RELEASE_TYPE" by (simp_all add: host_type_defs)
  show ?thesis
    by (rule exI [of _ "dword 0 ?c"], rule exI [of _ "dword 2 ?c"], rule exI [of _ "dword 2 ?a"], rule exI [of _ "dword 2 ?r"])
      (simp add: set_nvme_cpl_def set_auto_nvme_cpl_def set_nvme_slot_release_def Let_def IO_WRITE32_def d f t del: One_nat_def)
qed

end
