(* ===== verification/Nvme_Task.thy ===== *)
theory Nvme_Task
  imports Host_LLD
begin

text \<open>
  The NVMe task of the board: \<^verbatim>\<open>FTL_nvme_init\<close> and the branch of
  \<^verbatim>\<open>FTL_nvme_req_polling\<close> in \<^verbatim>\<open>ftl/ftl_nvme.c\<close> that the emulator does not
  compile, a state machine that the interrupt handler of \<open>Host_LLD\<close> and the polling drive
  together. The handlers of admin and I/O commands are not part of the repository and are arguments;
  \<open>junk\<close> and \<open>cmd\<close> are uninitialised local variables.
\<close>

section \<open>Operations\<close>

definition FTL_nvme_init :: "host_state \<Rightarrow> host_state" where
  "FTL_nvme_init s =
     s\<lparr>task_status := NVME_TASK_IDLE, cacheEn := 0,
       g_hostDmaStatus := (g_hostDmaStatus s)\<lparr>
         fifoTail := field_set fifo_autoDmaTx 0 (field_set fifo_autoDmaRx 0 (fifoTail (g_hostDmaStatus s))),
         autoDmaRxCnt := 0, autoDmaTxCnt := 0\<rparr>,
       g_hostDmaAssistStatus := \<lparr>autoDmaTxOverFlowCnt = 0, autoDmaRxOverFlowCnt = 0\<rparr>\<rparr>"

text \<open>The loop that switches the eight pairs of I/O queues off.\<close>

definition clear_queue_pair :: "(nat \<Rightarrow> 64 word \<times> 64 word) \<Rightarrow> nat \<Rightarrow> host_state \<Rightarrow> host_state" where
  "clear_queue_pair junk q s = set_io_sq (snd (junk q)) (of_nat q) 0 0 0 0 0 0 (set_io_cq (fst (junk q)) (of_nat q) 0 0 0 0 0 0 s)"

definition clear_queue_pairs :: "(nat \<Rightarrow> 64 word \<times> 64 word) \<Rightarrow> host_state \<Rightarrow> host_state" where
  "clear_queue_pairs junk = fold (clear_queue_pair junk) [0..<8]"

text \<open>One round of the polling loop.\<close>

definition nvme_round ::
  "device \<Rightarrow> (nat \<Rightarrow> 64 word \<times> 64 word) \<Rightarrow> NVME_COMMAND \<Rightarrow> (NVME_COMMAND \<Rightarrow> host_state \<Rightarrow> host_state) \<Rightarrow>
     (NVME_COMMAND \<Rightarrow> host_state \<Rightarrow> host_state) \<Rightarrow> host_state \<Rightarrow> host_state" where
  "nvme_round dev junk cmd handle_nvme_admin_cmd handle_nvme_io_cmd s =
     (case task_status s of
        NVME_TASK_WAIT_CC_EN \<Rightarrow>
          let (ccEn, s1) = check_nvme_cc_en dev s
          in if ccEn = 1 then
               (set_nvme_csts_rdy dev 1 (set_nvme_admin_queue dev 1 1 1 s1))\<lparr>task_status := NVME_TASK_RUNNING\<rparr>
             else s1
      | NVME_TASK_RUNNING \<Rightarrow>
          let ((cmdValid, nvmeCmd), s1) = get_nvme_cmd dev cmd s
          in if cmdValid = 1 then (if qID nvmeCmd = 0 then handle_nvme_admin_cmd nvmeCmd s1 else handle_nvme_io_cmd nvmeCmd s1) else s1
      | NVME_TASK_SHUTDOWN \<Rightarrow>
          let (nvmeReg, s1) = IO_READ32 dev NVME_STATUS_REG_ADDR s
          in if field_get nvme_ccShn nvmeReg \<noteq> 0 then
               let s2 = clear_queue_pairs junk (set_nvme_csts_shst dev 1 s1);
                   s3 = (set_nvme_admin_queue dev 0 0 0 s2)\<lparr>cacheEn := 0\<rparr>
               in (set_nvme_csts_shst dev 2 s3)\<lparr>task_status := NVME_TASK_WAIT_RESET\<rparr>
             else s1
      | NVME_TASK_WAIT_RESET \<Rightarrow>
          let (ccEn, s1) = check_nvme_cc_en dev s
          in if ccEn = 0 then
               (set_nvme_csts_rdy dev 0 (set_nvme_csts_shst dev 0 (s1\<lparr>cacheEn := 0\<rparr>)))\<lparr>task_status := NVME_TASK_IDLE\<rparr>
             else s1
      | NVME_TASK_RESET \<Rightarrow>
          let s1 = (clear_queue_pairs junk s)\<lparr>cacheEn := 0\<rparr>;
              s2 = set_nvme_csts_shst dev 0 (set_nvme_admin_queue dev 0 0 0 s1)
          in (set_nvme_csts_rdy dev 0 s2)\<lparr>task_status := NVME_TASK_IDLE\<rparr>
      | NVME_TASK_IDLE \<Rightarrow> s)"

definition nvme_req_polling_hw ::
  "device \<Rightarrow> (nat \<Rightarrow> 64 word \<times> 64 word) \<Rightarrow> NVME_COMMAND \<Rightarrow> (NVME_COMMAND \<Rightarrow> host_state \<Rightarrow> host_state) \<Rightarrow>
     (NVME_COMMAND \<Rightarrow> host_state \<Rightarrow> host_state) \<Rightarrow> host_state \<Rightarrow> host_state" where
  "nvme_req_polling_hw dev junk cmd admin io = nvme_round dev junk cmd admin io ^^ 8"

section \<open>What the device sees\<close>

lemma io_read_simps [simp]:
  "fst (IO_READ32 dev a s) = dev (hs_bus s) a" "bus_writes (hs_bus (snd (IO_READ32 dev a s))) = bus_writes (hs_bus s)"
  "task_status (snd (IO_READ32 dev a s)) = task_status s" "cacheEn (snd (IO_READ32 dev a s)) = cacheEn s"
  by (simp_all add: IO_READ32_def Xil_In32_def)

lemma io_write_simps [simp]:
  "bus_writes (hs_bus (IO_WRITE32 a v s)) = bus_writes (hs_bus s) @ [(a, v)]"
  "task_status (IO_WRITE32 a v s) = task_status s" "cacheEn (IO_WRITE32 a v s) = cacheEn s"
  by (simp_all add: IO_WRITE32_def)

lemma field_get_set_field:
  "fst f + snd f \<le> 32 \<Longrightarrow> field_get f (set_field f v r) = take_bit (snd f) v" for r :: u32
  by (simp add: set_field_def field_get_set_same field_fits_def)

lemma field_get_set_field_other:
  "field_disjoint f g \<Longrightarrow> field_get f (set_field g v r) = field_get f r"
  by (simp add: set_field_def field_get_set_other)

lemma csts_writes:
  obtains w where "bus_writes (hs_bus (set_nvme_csts_rdy dev v s)) = bus_writes (hs_bus s) @ [(NVME_STATUS_REG_ADDR, w)]"
    "field_get nvme_cstsRdy w = take_bit 1 v"
  by (rule that [of "set_field nvme_cstsRdy v (dev (hs_bus s) NVME_STATUS_REG_ADDR)"])
    (simp_all add: set_nvme_csts_rdy_def case_prod_unfold Let_def field_get_set_field field_defs)

lemma shst_writes:
  obtains w where "bus_writes (hs_bus (set_nvme_csts_shst dev v s)) = bus_writes (hs_bus s) @ [(NVME_STATUS_REG_ADDR, w)]"
    "field_get nvme_cstsShst w = take_bit 2 v"
  by (rule that [of "set_field nvme_cstsShst v (dev (hs_bus s) NVME_STATUS_REG_ADDR)"])
    (simp_all add: set_nvme_csts_shst_def case_prod_unfold Let_def field_get_set_field field_defs)

lemma admin_writes:
  obtains w where "bus_writes (hs_bus (set_nvme_admin_queue dev sq cq irq s)) = bus_writes (hs_bus s) @ [(NVME_ADMIN_QUEUE_SET_REG_ADDR, w)]"
    "field_get admin_sqValid w = take_bit 1 sq" "field_get admin_cqValid w = take_bit 1 cq" "field_get admin_cqIrqEn w = take_bit 1 irq"
  by (rule that [of "set_field admin_cqIrqEn irq (set_field admin_cqValid cq (set_field admin_sqValid sq (dev (hs_bus s) NVME_ADMIN_QUEUE_SET_REG_ADDR)))"])
    (simp_all add: set_nvme_admin_queue_def case_prod_unfold Let_def field_get_set_field field_get_set_field_other field_disjoint_def field_defs)

lemma status_kept [simp]:
  "task_status (set_nvme_csts_rdy dev v s) = task_status s" "task_status (set_nvme_csts_shst dev v s) = task_status s"
  "task_status (set_nvme_admin_queue dev sq cq irq s) = task_status s" "cacheEn (set_nvme_csts_rdy dev v s) = cacheEn s"
  "cacheEn (set_nvme_csts_shst dev v s) = cacheEn s" "cacheEn (set_nvme_admin_queue dev sq cq irq s) = cacheEn s"
  by (simp_all add: set_nvme_csts_rdy_def set_nvme_csts_shst_def set_nvme_admin_queue_def case_prod_unfold Let_def)

text \<open>The registers that the loop writes, and their valid bits.\<close>

definition off_cq :: "64 word \<Rightarrow> u32 \<times> u32" where
  "off_cq junk = (let r = set_field iocq_pcieBaseAddrH 0 (set_field iocq_pcieBaseAddrL 0 (set_field iocq_cqSize 0
     (set_field iocq_irqVector 0 (set_field iocq_irqEn 0 (set_field iocq_valid 0 junk))))) in (dword 0 r, dword 1 r))"

definition off_sq :: "64 word \<Rightarrow> u32 \<times> u32" where
  "off_sq junk = (let r = set_field iosq_sqPri 0 (set_field iosq_pcieBaseAddrH 0 (set_field iosq_pcieBaseAddrL 0
     (set_field iosq_sqSize 0 (set_field iosq_cqVector 0 (set_field iosq_valid 0 junk))))) in (dword 0 r, dword 1 r))"

definition pair_writes :: "(nat \<Rightarrow> u32 \<times> u32) \<Rightarrow> (nat \<Rightarrow> u32 \<times> u32) \<Rightarrow> nat \<Rightarrow> (u32 \<times> u32) list" where
  "pair_writes cq sq q =
     [(NVME_IO_CQ_SET_REG_ADDR + of_nat q * 8, fst (cq q)), (NVME_IO_CQ_SET_REG_ADDR + of_nat q * 8 + 4, snd (cq q)),
      (NVME_IO_SQ_SET_REG_ADDR + of_nat q * 8, fst (sq q)), (NVME_IO_SQ_SET_REG_ADDR + of_nat q * 8 + 4, snd (sq q))]"

lemma off_invalid: "field_get (15, 1) (snd (off_cq j)) = 0" "field_get (15, 1) (snd (off_sq j)) = 0"
  by (rule bit_word_eqI; auto simp: off_cq_def off_sq_def Let_def bit_field_get bit_dword bit_set_field field_defs)+

lemma clear_queue_pair_writes:
  "bus_writes (hs_bus (clear_queue_pair junk q s)) = bus_writes (hs_bus s) @ pair_writes (off_cq \<circ> fst \<circ> junk) (off_sq \<circ> snd \<circ> junk) q"
  "task_status (clear_queue_pair junk q s) = task_status s" "cacheEn (clear_queue_pair junk q s) = cacheEn s"
  by (simp_all add: clear_queue_pair_def set_io_sq_def set_io_cq_def pair_writes_def off_cq_def off_sq_def Let_def)

lemma clear_queue_pairs_writes:
  "bus_writes (hs_bus (clear_queue_pairs junk s)) =
     bus_writes (hs_bus s) @ concat (map (pair_writes (off_cq \<circ> fst \<circ> junk) (off_sq \<circ> snd \<circ> junk)) [0..<8])"
  "task_status (clear_queue_pairs junk s) = task_status s" "cacheEn (clear_queue_pairs junk s) = cacheEn s"
proof -
  have "bus_writes (hs_bus (fold (clear_queue_pair junk) qs s)) =
     bus_writes (hs_bus s) @ concat (map (pair_writes (off_cq \<circ> fst \<circ> junk) (off_sq \<circ> snd \<circ> junk)) qs) \<and>
     task_status (fold (clear_queue_pair junk) qs s) = task_status s \<and> cacheEn (fold (clear_queue_pair junk) qs s) = cacheEn s" for qs
    by (induction qs arbitrary: s) (simp_all add: clear_queue_pair_writes)
  then show "bus_writes (hs_bus (clear_queue_pairs junk s)) =
     bus_writes (hs_bus s) @ concat (map (pair_writes (off_cq \<circ> fst \<circ> junk) (off_sq \<circ> snd \<circ> junk)) [0..<8])"
    "task_status (clear_queue_pairs junk s) = task_status s" "cacheEn (clear_queue_pairs junk s) = cacheEn s"
    by (simp_all only: clear_queue_pairs_def)
qed

lemma wait_to_running:
  assumes "task_status s = NVME_TASK_WAIT_CC_EN" and "field_get nvme_ccEn (dev (hs_bus s) NVME_STATUS_REG_ADDR) = 1"
  shows "\<exists>x y. bus_writes (hs_bus (nvme_round dev junk cmd admin io s)) =
      bus_writes (hs_bus s) @ [(NVME_ADMIN_QUEUE_SET_REG_ADDR, x), (NVME_STATUS_REG_ADDR, y)] \<and>
    field_get admin_sqValid x = 1 \<and> field_get admin_cqValid x = 1 \<and> field_get nvme_cstsRdy y = 1 \<and>
    task_status (nvme_round dev junk cmd admin io s) = NVME_TASK_RUNNING"
proof -
  let ?s1 = "snd (check_nvme_cc_en dev s)"
  obtain x where x: "bus_writes (hs_bus (set_nvme_admin_queue dev 1 1 1 ?s1)) = bus_writes (hs_bus ?s1) @ [(NVME_ADMIN_QUEUE_SET_REG_ADDR, x)]"
    "field_get admin_sqValid x = take_bit 1 1" "field_get admin_cqValid x = take_bit 1 1" by (rule admin_writes)
  obtain y where y: "bus_writes (hs_bus (set_nvme_csts_rdy dev 1 (set_nvme_admin_queue dev 1 1 1 ?s1))) =
      bus_writes (hs_bus (set_nvme_admin_queue dev 1 1 1 ?s1)) @ [(NVME_STATUS_REG_ADDR, y)]" "field_get nvme_cstsRdy y = take_bit 1 1" by (rule csts_writes)
  have e: "nvme_round dev junk cmd admin io s = (set_nvme_csts_rdy dev 1 (set_nvme_admin_queue dev 1 1 1 ?s1))\<lparr>task_status := NVME_TASK_RUNNING\<rparr>"
    using assms by (simp add: nvme_round_def check_nvme_cc_en_def case_prod_unfold Let_def)
  have "bus_writes (hs_bus ?s1) = bus_writes (hs_bus s)" by (simp add: check_nvme_cc_en_def case_prod_unfold Let_def)
  then show ?thesis unfolding e using x y by (intro exI [of _ x] exI [of _ y]) simp
qed

section \<open>Properties\<close>



end
