(* ===== verification/Board_CQ.thy ===== *)
theory Board_CQ
  imports FCL Task_Queue Spin_Lock
begin

text \<open>
  The polling of the completion queues on the board: the branch of \<^verbatim>\<open>FTL_CQ_polling\<close> in
  \<^verbatim>\<open>ftl/ftl_core1.c\<close> that the emulator does not compile. The controller writes completions
  round and round into each channel's queue and marks each lap with a two-bit phase; the code keeps an
  index and the phase it expects next.

  The addresses of the queues (\<^verbatim>\<open>HW_CH0_CQ_ENTRY_ADDR\<close> and so on), the lock
  \<^verbatim>\<open>SYN_ERASE_SPIN_LOCK\<close> and the bookkeeping of garbage collection are not defined in the
  repository: the contents of the queues, the address of the lock and the treatment of a completion of
  garbage collection are arguments. \<open>None\<close> is an access outside the tables or a wait for a lock
  that another core holds. Printing is left out.
\<close>

section \<open>State\<close>

record polling_status =
  polling_index :: u32
  polling_phase :: u32
  complete_num :: u32

record 'g board_state =
  my_polling_status :: "nat \<Rightarrow> polling_status"
  bd_fcl :: fcl_state
  bd_hcl :: hcl_state
  bd_tq :: task_queues
  bd_locks :: lock_mem
  bd_gc :: 'g

section \<open>Operations\<close>

text \<open>The bookkeeping of the index and the phase for a completion on channel \<open>i\<close>.\<close>

definition advance :: "nat \<Rightarrow> (nat \<Rightarrow> polling_status) \<Rightarrow> nat \<Rightarrow> polling_status" where
  "advance i ps =
     (let ps1 = ps(0 := (ps 0)\<lparr>complete_num := complete_num (ps 0) + 1\<rparr>);
          p = ps1 i;
          p1 = p\<lparr>polling_index := polling_index p + 1\<rparr>
      in ps1(i := (if polling_index p1 = 256 then p1\<lparr>polling_index := 0, polling_phase := (polling_phase p1 + 1) mod 4\<rparr> else p1)))"

text \<open>The completion of a command's request: \<^verbatim>\<open>cpl_cnt\<close> goes up, and the last one sends the
  command on, under the lock of that task queue.\<close>

definition complete_hcmd :: "u32 \<Rightarrow> u32 \<Rightarrow> 'g board_state \<Rightarrow> 'g board_state option" where
  "complete_hcmd mem_base hcmd_entry_index s = do {
     let p = HCL_get_hcmd_entry_addr hcmd_entry_index;
     h \<leftarrow> hcmd_update p (\<lambda>e. e\<lparr>cpl_cnt := cpl_cnt e + 1\<rparr>) (bd_hcl s);
     let s1 = s\<lparr>bd_hcl := h\<rparr>;
     e \<leftarrow> hcmd_read p h;
     if cpl_cnt e = req_num e then do {
       m1 \<leftarrow> get_spin_lock_hw (TQ_FROMCQ_SPIN_LOCK mem_base) (bd_locks s1);
       (_, tq) \<leftarrow> FTL_sendhcmd h p HCE_FROM_CQ (bd_tq s1);
       Some (s1\<lparr>bd_tq := tq, bd_locks := release_spin_lock_hw (TQ_FROMCQ_SPIN_LOCK mem_base) m1\<rparr>)
     }
     else Some s1
   }"

definition poll_channel ::
  "u32 \<Rightarrow> u32 \<Rightarrow> ('g \<Rightarrow> 'g) \<Rightarrow> (nat \<Rightarrow> nat \<Rightarrow> hw_queue_entry) \<Rightarrow> (nat \<Rightarrow> nat \<Rightarrow> hw_queue_entry) \<Rightarrow> nat \<Rightarrow> 'g board_state \<Rightarrow> 'g board_state option" where
  "poll_channel mem_base erase_lock gc_done cq sq i s =
     (let CQ_entry = cq i (unat (polling_index (my_polling_status s i)));
          addr_data = (ucast CQ_entry :: u32)
      in if drop_bit 26 (addr_data AND 0x0C000000) = polling_phase (my_polling_status s i) then
           let s1 = s\<lparr>my_polling_status := advance i (my_polling_status s)\<rparr>;
               SQ_index = (ucast (sq_field sq_cur_ptr CQ_entry) :: u8);
               SQ_entry = sq i (unat SQ_index);
               hcmd_entry_index = sq_field sq_hcmd_index SQ_entry;
               s2 = s1\<lparr>bd_fcl := FCL_free_SQ_entry (of_nat i) (ucast SQ_index) (bd_fcl s1)\<rparr>
           in if sq_field sq_cmd_space CQ_entry = 0 then
                if sq_field sq_op CQ_entry = HCE_ERASE then Some (s2\<lparr>bd_locks := release_spin_lock_hw erase_lock (bd_locks s2)\<rparr>)
                else complete_hcmd mem_base hcmd_entry_index s2
              else Some (s2\<lparr>bd_gc := gc_done (bd_gc s2)\<rparr>)
         else Some s)"

fun poll_channels ::
  "u32 \<Rightarrow> u32 \<Rightarrow> ('g \<Rightarrow> 'g) \<Rightarrow> (nat \<Rightarrow> nat \<Rightarrow> hw_queue_entry) \<Rightarrow> (nat \<Rightarrow> nat \<Rightarrow> hw_queue_entry) \<Rightarrow> nat list \<Rightarrow> 'g board_state \<Rightarrow> 'g board_state option" where
  "poll_channels mem_base erase_lock gc_done cq sq [] s = Some s"
| "poll_channels mem_base erase_lock gc_done cq sq (i # is) s = do {
     s1 \<leftarrow> poll_channel mem_base erase_lock gc_done cq sq i s;
     poll_channels mem_base erase_lock gc_done cq sq is s1
   }"

definition CQ_polling_hw ::
  "u32 \<Rightarrow> u32 \<Rightarrow> ('g \<Rightarrow> 'g) \<Rightarrow> (nat \<Rightarrow> nat \<Rightarrow> hw_queue_entry) \<Rightarrow> (nat \<Rightarrow> nat \<Rightarrow> hw_queue_entry) \<Rightarrow> 'g board_state \<Rightarrow> 'g board_state option" where
  "CQ_polling_hw mem_base erase_lock gc_done cq sq s = poll_channels mem_base erase_lock gc_done cq sq [0, 1, 2, 3] s"

section \<open>The phase protocol\<close>

text \<open>\<open>w\<close> completions have been written to a queue that was filled with \<^verbatim>\<open>0xff\<close>: an
  entry carries the phase of the last lap that wrote it. \<open>c\<close> completions have been consumed.\<close>

definition entry_phase :: "hw_queue_entry \<Rightarrow> nat" where
  "entry_phase e = unat (sq_field sq_ph e)"

definition cq_written :: "nat \<Rightarrow> (nat \<Rightarrow> hw_queue_entry) \<Rightarrow> bool" where
  "cq_written w q \<longleftrightarrow> (\<forall>j < 256. entry_phase (q j) = (if j < w then (w - 1 - j) div 256 mod 4 else 3))"

definition consumed :: "nat \<Rightarrow> polling_status \<Rightarrow> bool" where
  "consumed c p \<longleftrightarrow> unat (polling_index p) = c mod 256 \<and> unat (polling_phase p) = c div 256 mod 4"

lemma fresh_queue: "cq_written 0 (\<lambda>_. - 1)"
proof -
  have "sq_field sq_ph (- 1) = mask 2"
    by (rule bit_word_eqI) (auto simp: sq_field_def bit_simps bit_field_get sq_ph_def)
  then have "sq_field sq_ph (- 1) = 3" by (simp add: mask_eq_exp_minus_1)
  then show ?thesis by (simp add: cq_written_def entry_phase_def)
qed

lemma phase_read: "drop_bit 26 ((ucast e :: u32) AND 0x0C000000) = sq_field sq_ph e"
proof -
  have m: "(0x0C000000 :: u32) = push_bit 26 (mask 2)" by (simp add: mask_eq_exp_minus_1)
  show ?thesis unfolding m
    by (rule bit_word_eqI) (auto simp: sq_field_def bit_simps bit_field_get sq_ph_def)
qed

lemma lap_of:
  fixes w k j :: nat
  shows "256 * k + j < w \<Longrightarrow> w \<le> 256 * k + j + 256 \<Longrightarrow> (w - 1 - j) div 256 = k"
  by (intro div_nat_eqI) auto

lemma phase_matches:
  assumes "cq_written w q" and "consumed c p" and "c \<le> w" and "w \<le> c + 256"
  shows "sq_field sq_ph (q (unat (polling_index p))) = polling_phase p \<longleftrightarrow> c < w"
proof -
  let ?j = "c mod 256" and ?k = "c div 256"
  have c: "c = 256 * ?k + ?j" and j: "?j < 256" by simp_all
  have "sq_field sq_ph (q (unat (polling_index p))) = polling_phase p \<longleftrightarrow> entry_phase (q ?j) = ?k mod 4"
    using assms(2) by (simp add: consumed_def entry_phase_def word_unat_eq_iff)
  also have "\<dots> \<longleftrightarrow> c < w"
  proof (cases "c < w")
    case True
    have "(w - 1 - ?j) div 256 = ?k" using True assms(4) lap_of [of ?k ?j w] by simp
    moreover have "?j < w" using True by (meson mod_less_eq_dividend order_le_less_trans)
    ultimately show ?thesis using True assms(1) j by (simp add: cq_written_def)
  next
    case False
    then have w: "w = c" using assms(3) by simp
    show ?thesis
    proof (cases ?k)
      case 0
      then have "?j = c" by (metis c add_0 mult_0_right)
      then show ?thesis using w assms(1) j 0 by (simp add: cq_written_def)
    next
      case (Suc n)
      then have "w - 1 - ?j = 256 * n + 255" "?j < w" using w c by linarith+
      then have "entry_phase (q ?j) = n mod 4" using assms(1) j by (simp add: cq_written_def)
      moreover have "n mod 4 \<noteq> Suc n mod 4" by (simp add: mod_Suc)
      ultimately show ?thesis using False Suc by simp
    qed
  qed
  finally show ?thesis .
qed

lemma consumed_advance:
  assumes "consumed c (ps i)"
  shows "consumed (c + 1) (advance i ps i)"
proof -
  let ?p = "ps i"
  have i: "unat (polling_index ?p) = c mod 256" and f: "unat (polling_phase ?p) = c div 256 mod 4" using assms by (simp_all add: consumed_def)
  have lt: "unat (polling_index ?p) < 256" "unat (polling_phase ?p) < 4" using i f by simp_all
  then have i1: "unat (polling_index ?p + 1) = c mod 256 + 1" and f1: "unat (polling_phase ?p + 1) = c div 256 mod 4 + 1"
    using i f by (simp_all add: unat_word_ariths)
  have full: "polling_index ?p + 1 = 256 \<longleftrightarrow> c mod 256 = 255" using i1 by (simp add: word_unat_eq_iff)
  have "polling_index (advance i ps i) = (if polling_index ?p + 1 = 256 then 0 else polling_index ?p + 1)"
    "polling_phase (advance i ps i) = (if polling_index ?p + 1 = 256 then (polling_phase ?p + 1) mod 4 else polling_phase ?p)"
    by (auto simp: advance_def Let_def)
  then show ?thesis
    using i1 f1 f full by (simp add: consumed_def unat_mod mod_Suc div_Suc)
qed

lemma advance_other: "j \<noteq> i \<Longrightarrow> consumed c (advance i ps j) = consumed c (ps j)"
  by (simp add: advance_def Let_def consumed_def)

lemma sq_field_bound: "unat (sq_field f e) < 2 ^ snd f"
  unfolding sq_field_def unsigned_ucast_eq
  using take_bit_nat_less_eq_self [of "LENGTH(32)" "unat (field_get f e)"] field_get_bound [of f e] by linarith

lemma ucast_small: "unat x < 256 \<Longrightarrow> unat (ucast x :: u8) = unat x" for x :: u32
  by (simp add: unsigned_ucast_eq take_bit_nat_eq_self)

definition bump_cpl :: "nat \<Rightarrow> hcl_state \<Rightarrow> hcl_state" where
  "bump_cpl k h = h\<lparr>hcmd_queue := (hcmd_queue h)(k := (hcmd_queue h k)\<lparr>cpl_cnt := cpl_cnt (hcmd_queue h k) + 1\<rparr>)\<rparr>"

lemma complete_hcmd_returns:
  assumes "unat idx < HCMD_NUM" and "bd_locks s (TQ_FROMCQ_SPIN_LOCK mb) = 0"
  shows "\<exists>s'. complete_hcmd mb idx s = Some s' \<and> my_polling_status s' = my_polling_status s \<and> bd_fcl s' = bd_fcl s \<and>
    bd_hcl s' = bump_cpl (unat idx) (bd_hcl s) \<and> bd_locks s' = bd_locks s"
proof -
  let ?p = "HCL_get_hcmd_entry_addr idx" and ?h = "bump_cpl (unat idx) (bd_hcl s)"
  have u: "hcmd_update ?p (\<lambda>e. e\<lparr>cpl_cnt := cpl_cnt e + 1\<rparr>) (bd_hcl s) = Some ?h"
    using assms(1) by (simp add: hcmd_update_def HCL_get_hcmd_entry_addr_def bump_cpl_def)
  have r: "hcmd_read ?p ?h = Some (hcmd_queue ?h (unat idx))" using assms(1) by (simp add: hcmd_read_def HCL_get_hcmd_entry_addr_def)
  have lk: "get_spin_lock_hw (TQ_FROMCQ_SPIN_LOCK mb) (bd_locks s) = Some ((bd_locks s)(TQ_FROMCQ_SPIN_LOCK mb := 1))"
    using assms(2) by (simp add: get_spin_lock_hw_def)
  have rel: "release_spin_lock_hw (TQ_FROMCQ_SPIN_LOCK mb) ((bd_locks s)(TQ_FROMCQ_SPIN_LOCK mb := 1)) = bd_locks s"
    using assms(2) by (auto simp: release_spin_lock_hw_def fun_eq_iff)
  obtain ret tq where t: "FTL_sendhcmd ?h ?p HCE_FROM_CQ (bd_tq s) = Some (ret, tq)"
    using sendhcmd_eq [OF r, of HCE_FROM_CQ "bd_tq s"] by (cases "FTL_task_queue_add_tail ?p HCE_FROM_CQ (bd_tq s)") (simp add: status_order)
  show ?thesis unfolding complete_hcmd_def Let_def u by (simp add: r lk t rel)
qed

section \<open>Properties\<close>

text \<open>
  C34: the board consumes every completion of a host command exactly once and in order. The controller
  has written \<open>w\<close> completions to a channel's queue, at most one lap ahead of the
  \<open>c\<close> that the code has consumed. When \<open>w = c\<close> the polling of the channel sees nothing,
  although the queue is full of old entries; otherwise it consumes the next completion: the index and
  phase then stand for \<open>c + 1\<close>, the submission slot named by the completion is free again, and the
  completion count of the slot's command, and of no other, has gone up by one.
\<close>

theorem board_completions_once:
  assumes "cq_written w (cq i)" and "consumed c (my_polling_status s i)" and "c \<le> w" and "w \<le> c + 256"
    and "sq_field sq_cmd_space (cq i (c mod 256)) = 0" and "sq_field sq_op (cq i (c mod 256)) \<noteq> HCE_ERASE"
    and "bd_locks s (TQ_FROMCQ_SPIN_LOCK mb) = 0"
    and "slot = unat (sq_field sq_cur_ptr (cq i (c mod 256)))" and "k = unat (sq_field sq_hcmd_index (sq i slot))"
  shows "if c = w then poll_channel mb el gc cq sq i s = Some s
    else \<exists>s'. poll_channel mb el gc cq sq i s = Some s' \<and> consumed (c + 1) (my_polling_status s' i) \<and>
      sq_used (of_nat i) (bd_fcl s') = sq_used (of_nat i) (bd_fcl s) - {slot} \<and>
      hcmd_queue (bd_hcl s') = (hcmd_queue (bd_hcl s))(k := (hcmd_queue (bd_hcl s) k)\<lparr>cpl_cnt := cpl_cnt (hcmd_queue (bd_hcl s) k) + 1\<rparr>) \<and>
      bd_locks s' = bd_locks s"
proof -
  let ?e = "cq i (c mod 256)" and ?u = "ucast (sq_field sq_cur_ptr (cq i (c mod 256))) :: u8"
  have idx: "unat (polling_index (my_polling_status s i)) = c mod 256" using assms(2) by (simp add: consumed_def)
  note m = phase_matches [where q = "cq i", OF assms(1-4), unfolded idx]
  show ?thesis
  proof (cases "c = w")
    case True
    then show ?thesis using m unfolding poll_channel_def Let_def phase_read by (simp add: idx)
  next
    case False
    have lt: "unat (sq_field sq_cur_ptr ?e) < 256" using sq_field_bound [of sq_cur_ptr ?e] by (simp add: sq_cur_ptr_def)
    then have u: "unat ?u = slot" "slot < HW_QUEUE_DEPTH" using assms(8) by (simp_all add: ucast_small HW_QUEUE_DEPTH_def)
    have "unat (ucast ?u :: u32) = slot" using u(1) unat_ucast_widen [of ?u, where 'a = 32] by simp
    then have uc: "(ucast ?u :: u32) = of_nat slot" by auto
    have k: "k < HCMD_NUM" using sq_field_bound [of sq_hcmd_index "sq i slot"] assms(9) by (simp add: sq_hcmd_index_def HCMD_NUM_def)
    let ?s2 = "s\<lparr>my_polling_status := advance i (my_polling_status s), bd_fcl := FCL_free_SQ_entry (of_nat i) (of_nat slot) (bd_fcl s)\<rparr>"
    have e: "poll_channel mb el gc cq sq i s = complete_hcmd mb (sq_field sq_hcmd_index (sq i slot)) ?s2"
      using m False assms(3,5,6) unfolding poll_channel_def Let_def phase_read by (simp add: idx u uc)
    have "\<exists>s'. complete_hcmd mb (sq_field sq_hcmd_index (sq i slot)) ?s2 = Some s' \<and> my_polling_status s' = my_polling_status ?s2 \<and>
        bd_fcl s' = bd_fcl ?s2 \<and> bd_hcl s' = bump_cpl k (bd_hcl s) \<and> bd_locks s' = bd_locks s"
      using complete_hcmd_returns [of "sq_field sq_hcmd_index (sq i slot)" ?s2 mb] k assms(7,9) by simp
    then show ?thesis
      using e False consumed_advance [of c "my_polling_status s" i, OF assms(2)] free_SQ_used [OF u(2)] by (auto simp: bump_cpl_def)
  qed
qed

definition demo_board :: "unit board_state" where
  "demo_board = \<lparr>my_polling_status = (\<lambda>_. \<lparr>polling_index = 255, polling_phase = 3, complete_num = 0\<rparr>), bd_fcl = blank_fcl,
     bd_hcl = snd (HCL_init_host_cmd_entry_queue 0x4000), bd_tq = (\<lambda>_. blank_queue), bd_locks = (\<lambda>_. 0), bd_gc = ()\<rparr>"

theorem board_completions_once_witness:
  "\<exists>s'. poll_channel 0 0x1000 id (\<lambda>_ _. field_set sq_ph 3 0) (\<lambda>_ _. 0) 2 demo_board = Some s' \<and> consumed 1024 (my_polling_status s' 2)"
proof -
  let ?e = "field_set sq_ph 3 0 :: hw_queue_entry"
  have p: "entry_phase ?e = 3" "sq_field sq_cmd_space ?e = 0" "sq_field sq_op ?e = 0"
    by (simp_all add: entry_phase_def sq_field_def field_get_def field_set_def field_defs)
  have "cq_written 1024 (\<lambda>_. ?e)" unfolding cq_written_def p(1)
  proof (intro allI impI)
    fix j :: nat assume "j < 256"
    then have "(1024 - 1 - j) div 256 = 3" by (intro lap_of) simp_all
    then show "3 = (if j < 1024 then (1024 - 1 - j) div 256 mod 4 else 3)" by simp
  qed
  moreover have "consumed 1023 (my_polling_status demo_board 2)" by (simp add: consumed_def demo_board_def)
  ultimately show ?thesis
    using board_completions_once [where cq = "\<lambda>_ _. ?e" and i = 2 and w = 1024 and c = 1023 and s = demo_board and mb = 0
        and sq = "\<lambda>_ _. 0" and el = "0x1000" and gc = id, OF _ _ _ _ _ _ _ refl refl] p
    by (fastforce simp: demo_board_def HCE_ERASE_def)
qed

end
