(* ===== verification/Erase_Init.thy ===== *)
theory Erase_Init
  imports Backend
begin

text \<open>
  \<^verbatim>\<open>FTL_erase_init\<close> of \<^verbatim>\<open>l2p/l2p.c\<close>, as the emulator compiles it: five nested
  loops over the blocks of the drive, each round of which is meant to erase one block. The call is
  commented out in \<^verbatim>\<open>main\<close>. The local address that the loops fill in is not used, because
  the call of \<^verbatim>\<open>FCL_set_SQ_entry\<close> is commented out; it is left out here.
\<close>

section \<open>Operations\<close>

text \<open>The state of the loops: \<^verbatim>\<open>sq_id\<close>, \<^verbatim>\<open>ret\<close>, the controller's queues and the back end.\<close>

type_synonym erase_state = "u32 \<times> u32 \<times> fcl_state \<times> be_state"

text \<open>\<^verbatim>\<open>while (sq_id == INVALID_INDEX) sq_id = FCL_get_free_SQ_entry(0)\<close> and
  \<^verbatim>\<open>while (ret == FAIL) ret = FCL_send_SQ_entry(sq_id, ch, ce)\<close>.\<close>

partial_function (option) erase_slot :: "u32 \<Rightarrow> fcl_state \<Rightarrow> (u32 \<times> fcl_state) option" where
  "erase_slot sq_id f =
     (if sq_id = INVALID_ID then erase_slot (fst (FCL_get_free_SQ_entry 0 f)) (snd (FCL_get_free_SQ_entry 0 f)) else Some (sq_id, f))"

partial_function (option) erase_send :: "u32 \<Rightarrow> u32 \<Rightarrow> u32 \<Rightarrow> u32 \<Rightarrow> fcl_state \<Rightarrow> be_state \<Rightarrow> (u32 \<times> be_state) option" where
  "erase_send ret sq_id ch ce f b =
     (if ret = FAIL then do { r \<leftarrow> FCL_send_SQ_entry sq_id ch ce f b; erase_send (fst r) sq_id ch ce f (snd r) }
      else Some (ret, b))"

definition erase_round :: "nat \<times> nat \<Rightarrow> erase_state \<Rightarrow> erase_state option" where
  "erase_round = (\<lambda>(ch, ce) (sq_id, ret, f, b). do {
     (sq_id, f) \<leftarrow> erase_slot sq_id f;
     (ret, b) \<leftarrow> erase_send ret sq_id (of_nat ch) (of_nat ce) f b;
     Some (sq_id, ret, f, b)
   })"

definition erase_iterations :: "(nat \<times> nat) list" where
  "erase_iterations = [(ch, ce). block \<leftarrow> [0..<BLOCK_PER_PLANE], lun \<leftarrow> [0..<LUN_PER_CE], plane \<leftarrow> [0..<PLANE_PER_LUN],
     ce \<leftarrow> [0..<CE_PER_CH], ch \<leftarrow> [0..<CH_PER_BOARD]]"

primrec erase_rounds :: "(nat \<times> nat) list \<Rightarrow> erase_state \<Rightarrow> erase_state option" where
  "erase_rounds [] s = Some s"
| "erase_rounds (i # is) s = do { s1 \<leftarrow> erase_round i s; erase_rounds is s1 }"

definition FTL_erase_init :: "fcl_state \<Rightarrow> be_state \<Rightarrow> (fcl_state \<times> be_state) option" where
  "FTL_erase_init f b = map_option (\<lambda>(_, _, f', b'). (f', b')) (erase_rounds erase_iterations (INVALID_ID, FAIL, f, b))"

section \<open>Only the first round does anything\<close>

lemma erase_round_idle: "sq_id \<noteq> INVALID_ID \<Longrightarrow> erase_round c (sq_id, SUCCESS, f, b) = Some (sq_id, SUCCESS, f, b)"
  by (cases c) (simp add: erase_round_def erase_slot.simps [of sq_id] erase_send.simps)

lemma erase_rounds_idle: "sq_id \<noteq> INVALID_ID \<Longrightarrow> erase_rounds cs (sq_id, SUCCESS, f, b) = Some (sq_id, SUCCESS, f, b)"
  by (induction cs) (simp_all add: erase_round_idle)

lemma erase_iterations_Cons: "\<exists>cs. erase_iterations = (0, 0) # cs"
proof -
  have u: "0 < n \<Longrightarrow> [0..<n] = 0 # [1..<n]" for n :: nat using upt_conv_Cons [of 0 n] by simp
  have "0 < BLOCK_PER_PLANE" "0 < LUN_PER_CE" "0 < PLANE_PER_LUN" "0 < CE_PER_CH" "0 < CH_PER_BOARD"
    by (simp_all add: BLOCK_PER_PLANE_def LUN_PER_CE_def PLANE_PER_LUN_def CE_PER_CH_def CH_PER_BOARD_def)
  note e = this [THEN u]
  show ?thesis unfolding erase_iterations_def e by (simp del: upt_Suc)
qed

lemma first_erase:
  assumes "FCL_get_free_SQ_entry 0 f = (of_nat k, f')" and "k < HW_QUEUE_DEPTH" and "be_repr b reg busy cmp"
  shows "\<exists>b'. erase_round (0, 0) (INVALID_ID, FAIL, f, b) = Some (of_nat k, SUCCESS, f', b') \<and> BE_send_sq (of_nat k) (hw_SQ f' 0 k) 0 0 b = Some b'"
proof -
  have k: "(of_nat k :: u32) \<noteq> INVALID_ID" "unat (of_nat k :: u32) = k"
    using of_nat_slot_valid [OF assms(2)] assms(2) by (simp_all add: unat_of_nat_u32 HW_QUEUE_DEPTH_def)
  obtain b' where b': "BE_send_sq (of_nat k) (hw_SQ f' 0 k) 0 0 b = Some b'" using send_sq_repr [OF assms(3)] by blast
  have s: "FCL_send_SQ_entry (of_nat k) 0 0 f' b = Some (SUCCESS, b')" using b' k assms(2) by (simp add: FCL_send_SQ_entry_def TOTAL_CHANNEL_def)
  have "erase_slot INVALID_ID f = Some (of_nat k, f')" using k(1) by (simp add: erase_slot.simps assms(1))
  moreover have "erase_send FAIL (of_nat k) 0 0 f' b = Some (SUCCESS, b')"
    by (subst erase_send.simps) (simp add: s erase_send.simps [of SUCCESS])
  ultimately show ?thesis using b' by (simp add: erase_round_def)
qed

lemma length_erase_iterations: "length erase_iterations = 64384"
  by (simp add: erase_iterations_def length_concat comp_def sum_list_triv BLOCK_PER_PLANE_def LUN_PER_CE_def PLANE_PER_LUN_def
      CE_PER_CH_def CH_PER_BOARD_def del: upt_Suc)

section \<open>Properties\<close>

text \<open>
  The initial erase of the drive sends one request only. \<^verbatim>\<open>sq_id\<close> and
  \<^verbatim>\<open>ret\<close> are set before the loops and never reset, so when channel 0 has a free slot,
  \<^verbatim>\<open>FTL_erase_init\<close> returns after registering exactly one request, for chip 0 of channel 0,
  with whatever that slot's entry held before, and keeps the slot; the other 64383 rounds do nothing.
\<close>

theorem erase_init_sends_one:
  assumes "sq_used 0 f \<noteq> {..<HW_QUEUE_DEPTH}" and "be_repr b reg busy cmp"
  shows "\<exists>k f' b'. FTL_erase_init f b = Some (f', b') \<and> k \<notin> sq_used 0 f \<and> sq_used 0 f' = insert k (sq_used 0 f) \<and>
    be_repr b' (reg @ [malloc_next b]) busy cmp \<and> length erase_iterations = 64384 \<and>
    emu_sqs b' = (emu_sqs b)(malloc_next b \<mapsto> \<lparr>sq_ch = 0, sq_ce_no = 0, sq_index = of_nat k, sq_entry = hw_SQ f 0 k\<rparr>)"
proof (cases rule: get_free_SQ_cases [of 0 f])
  case full
  then show ?thesis using assms(1) by simp
next
  case (slot k f')
  obtain b' where b': "erase_round (0, 0) (INVALID_ID, FAIL, f, b) = Some (of_nat k, SUCCESS, f', b')"
    "BE_send_sq (of_nat k) (hw_SQ f' 0 k) 0 0 b = Some b'" using first_erase [OF slot(1,2) assms(2)] by blast
  obtain cs where cs: "erase_iterations = (0, 0) # cs" using erase_iterations_Cons by blast
  have "FTL_erase_init f b = Some (f', b')"
    using b'(1) erase_rounds_idle [OF of_nat_slot_valid [OF slot(2)], of cs f' b'] unfolding FTL_erase_init_def cs by simp
  moreover have "be_repr b' (reg @ [malloc_next b]) busy cmp"
    "emu_sqs b' = (emu_sqs b)(malloc_next b \<mapsto> \<lparr>sq_ch = 0, sq_ce_no = 0, sq_index = of_nat k, sq_entry = hw_SQ f 0 k\<rparr>)"
    using send_sq_repr [OF assms(2), of "of_nat k" "hw_SQ f' 0 k" 0 0] b'(2) slot(7) by auto
  ultimately show ?thesis using slot length_erase_iterations by blast
qed

theorem erase_init_sends_one_witness:
  "\<exists>f' b'. FTL_erase_init blank_fcl be_start = Some (f', b') \<and> be_repr b' [0] [] []"
proof -
  have "sq_used 0 blank_fcl = {}" by (simp add: sq_used_def used_slots_def blank_fcl_def)
  moreover have "0 \<in> {..<HW_QUEUE_DEPTH}" by (simp add: HW_QUEUE_DEPTH_def)
  ultimately have "sq_used 0 blank_fcl \<noteq> {..<HW_QUEUE_DEPTH}" by blast
  from erase_init_sends_one [OF this be_start_repr] show ?thesis by (auto simp: be_start_def)
qed

end
