(* ===== verification/Emu_Log.thy ===== *)
theory Emu_Log
  imports Emu_Prelude
begin

text \<open>
  Log output, \<^verbatim>\<open>emu/emu_log.h\<close>, \<^verbatim>\<open>emu/emu_log.c\<close> and
  \<^verbatim>\<open>lib/dprint.c\<close>: the mutex that the threads share for printing. \<open>msg\<close> is the text
  that \<^verbatim>\<open>vprintf\<close> makes of the format and its arguments. \<open>None\<close>: the caller waits for
  the mutex. The other theories leave log output out; that is sound because no caller in the
  repository uses the type \<^verbatim>\<open>XIL\<close>, the one for which the mutex stays locked.
\<close>

datatype LOG_TYPE = LOG | ERR | WARN | XIL | DEBUG

record log_state =
  log_mu :: bool
  log_out :: string

definition locked_print :: "string \<Rightarrow> string \<Rightarrow> log_state \<Rightarrow> log_state option" where
  "locked_print tag msg s = (if log_mu s then None else Some (s\<lparr>log_out := log_out s @ tag @ msg\<rparr>))"

definition EMU_log_println :: "LOG_TYPE \<Rightarrow> string \<Rightarrow> log_state \<Rightarrow> log_state option" where
  "EMU_log_println T msg s =
     (if log_mu s then None
      else let s1 = s\<lparr>log_mu := True\<rparr>;
               put = (\<lambda>tag. Some (s1\<lparr>log_out := log_out s1 @ tag @ msg @ [CHR 0x0A], log_mu := False\<rparr>))
      in case T of
           LOG \<Rightarrow> put ''[EMU LOG]''
         | WARN \<Rightarrow> put ''[EMU WARN]''
         | ERR \<Rightarrow> put ''[EMU ERR]''
         | DEBUG \<Rightarrow> put ''[EMU DEBUG]''
         | _ \<Rightarrow> Some (s1\<lparr>log_out := log_out s1 @ ''Log not identified'' @ [CHR 0x0A]\<rparr>))"

definition dprint :: "string \<Rightarrow> log_state \<Rightarrow> log_state option" where
  "dprint msg = locked_print ''[DEBUG]'' msg"

definition xil_printf :: "string \<Rightarrow> log_state \<Rightarrow> log_state option" where
  "xil_printf msg = locked_print ''[XIL]'' msg"

definition debug_printf :: "string \<Rightarrow> log_state \<Rightarrow> log_state option" where
  "debug_printf msg = EMU_log_println DEBUG msg"

primrec log_all :: "(LOG_TYPE \<times> string) list \<Rightarrow> log_state \<Rightarrow> log_state option" where
  "log_all [] s = Some s"
| "log_all (l # ls) s = (case EMU_log_println (fst l) (snd l) s of None \<Rightarrow> None | Some s1 \<Rightarrow> log_all ls s1)"

text \<open>Without \<^verbatim>\<open>XIL\<close> every line is printed, whole and in order, and the mutex is free
  afterwards; a line of type \<^verbatim>\<open>XIL\<close> makes every later print wait forever.\<close>

lemma log_lines:
  assumes "XIL \<notin> fst ` set ls" and "\<not> log_mu s"
  shows "\<exists>s'. log_all ls s = Some s' \<and> \<not> log_mu s' \<and>
    log_out s' = log_out s @ concat (map (\<lambda>(t, m).
      (case t of LOG \<Rightarrow> ''[EMU LOG]'' | WARN \<Rightarrow> ''[EMU WARN]'' | ERR \<Rightarrow> ''[EMU ERR]'' | DEBUG \<Rightarrow> ''[EMU DEBUG]'' | XIL \<Rightarrow> '''') @ m @ [CHR 0x0A]) ls)"
  using assms
proof (induction ls arbitrary: s)
  case (Cons l ls)
  obtain t m where l: "l = (t, m)" by fastforce
  then have "t \<noteq> XIL" using Cons.prems(1) by auto
  then have "\<exists>s1. EMU_log_println t m s = Some s1 \<and> \<not> log_mu s1 \<and> log_out s1 = log_out s @
      (case t of LOG \<Rightarrow> ''[EMU LOG]'' | WARN \<Rightarrow> ''[EMU WARN]'' | ERR \<Rightarrow> ''[EMU ERR]'' | DEBUG \<Rightarrow> ''[EMU DEBUG]'' | XIL \<Rightarrow> '''') @ m @ [CHR 0x0A]"
    using Cons.prems(2) by (cases t) (simp_all add: EMU_log_println_def)
  then obtain s1 where s1: "EMU_log_println t m s = Some s1" "\<not> log_mu s1" "log_out s1 = log_out s @
      (case t of LOG \<Rightarrow> ''[EMU LOG]'' | WARN \<Rightarrow> ''[EMU WARN]'' | ERR \<Rightarrow> ''[EMU ERR]'' | DEBUG \<Rightarrow> ''[EMU DEBUG]'' | XIL \<Rightarrow> '''') @ m @ [CHR 0x0A]"
    by blast
  have "XIL \<notin> fst ` set ls" using Cons.prems(1) by simp
  from Cons.IH [OF this s1(2)] show ?case using s1 l by auto
qed simp

lemma xil_type_blocks:
  assumes "\<not> log_mu s"
  shows "\<exists>s'. EMU_log_println XIL m s = Some s' \<and> EMU_log_println t m' s' = None \<and> xil_printf m' s' = None \<and> dprint m' s' = None \<and> debug_printf m' s' = None"
  using assms by (simp add: EMU_log_println_def xil_printf_def dprint_def debug_printf_def locked_print_def)

end
