(* ===== verification/Spec2Isabelle.thy ===== *)
theory Spec2Isabelle
  imports Emu_Job Fio_Zones Fio_Pattern Fio_CRC Fio_Units Fio_Stat Nvme_Task Board_CQ Erase_Init Emu_Log
begin

text \<open>
  A verification of OpenSSDEmu, a flash translation layer (FTL) for an SSD board together with an
  emulator that runs it on a PC and a fio engine that drives the emulator.

  \<^bold>\<open>The program.\<close> fio submits commands through a shared memory segment. The FTL thread
  (\<^verbatim>\<open>ftl/ftl.c\<close>) polls the segment (\<^verbatim>\<open>ftl/ftl_nvme.c\<close>), copies each
  command into a host command entry (\<^verbatim>\<open>hcl\<close>) and moves it through task queues
  (\<^verbatim>\<open>ftl/ftl_taskqueue.c\<close>), whose handlers (\<^verbatim>\<open>ftl/ftl_core0.c\<close>) look at
  the page buffer (\<^verbatim>\<open>buffer\<close>), take a submission slot, fill in a submission entry
  (\<^verbatim>\<open>fcl\<close>) and hand a copy to the back end (\<^verbatim>\<open>emu/be\<close>). The back-end thread
  appends written pages to a log file or searches the log for a page to read, and puts the request on
  the complete list, which the FTL thread polls (\<^verbatim>\<open>ftl/ftl_core1.c\<close>) to finish the command.
  fio itself (\<^verbatim>\<open>fio4emu\<close>) chooses the offset and the length of each unit of a job
  (\<^verbatim>\<open>io_u.c\<close>), for a random job with a map of used blocks or a shift register
  (\<^verbatim>\<open>lib/axmap.c\<close>, \<^verbatim>\<open>lib/lfsr.c\<close>) and its own random numbers
  (\<^verbatim>\<open>lib/rand.c\<close>), and gives the unit to the engine.
  On the board the same FTL talks to an NVMe host interface (\<^verbatim>\<open>nvme\<close>) and to the queues of
  a flash controller.

  \<^bold>\<open>The theories\<close>, in the order of their imports:
  \<^item> \<open>Emu_Prelude\<close>: words, bit fields of packed structures, facts about lists;
    \<open>Emu_Config\<close>: \<^verbatim>\<open>config/*.h\<close>, the geometry and the memory map;
    \<open>Interfaces\<close>: the locales \<open>fifo\<close> (a queue that represents a list),
    \<open>slot_pool\<close> (a pool of numbered slots) and \<open>block_map\<close> (the used blocks of a file),
    interpreted on the task queues, the request list of the back end, the lists of the shared memory,
    fio's ring of units, the host command entries, the submission slots and fio's block map; \<open>CList\<close>: \<^verbatim>\<open>lib/list.c\<close> over a heap of links; \<open>Slot_Bitmap\<close>: the
    bitmap search that \<^verbatim>\<open>hcl.c\<close> and \<^verbatim>\<open>fcl.c\<close> share; \<open>Reg_Bus\<close>:
    \<^verbatim>\<open>emu/emu_io.h\<close>, register accesses; \<open>Spin_Lock\<close>: \<^verbatim>\<open>lib/lock.c\<close>;
    \<open>Emu_Log\<close>: \<^verbatim>\<open>emu/emu_log.c\<close>, \<^verbatim>\<open>lib/dprint.c\<close>.
  \<^item> \<open>HCL\<close>, \<open>Task_Queue\<close>, \<open>Buffer\<close>, \<open>FCL\<close>, \<open>L2P\<close>,
    \<open>Shmem\<close>: the components of the same names. Each has its state as a record, its operations
    under the names of the source, a predicate that says which abstract value the state represents
    (\<open>tq_repr\<close>, \<open>cache_repr\<close>, \<open>shm_repr\<close>, ...), and lemmas that each operation
    acts on that value as it should.
  \<^item> \<open>Flash_Log\<close> and \<open>Backend\<close>: \<^verbatim>\<open>emu/be/be.c\<close>, the log file as a list of
    bytes with the printf and scanf formats it uses, and the request lists.
  \<^item> \<open>FTL\<close>: the handlers, the polling and one round of the FTL thread; \<open>Fio_Engine\<close>:
    \<^verbatim>\<open>fio4emu/engines/emu_io.c\<close> and the test thread \<^verbatim>\<open>emu/fe/fe.c\<close>;
    \<open>Emu_System\<close>: \<^verbatim>\<open>emu/emu_main.c\<close>, the initialisation and the step relation
    \<open>emu_step\<close>, whose steps are one polled command, one polled request, one round of completion
    polling, the three parts of the back-end thread's loop, and one submission of fio or of the test
    thread.
  \<^item> \<open>Emu_Invariant\<close>: the invariant \<open>emu_ok\<close> of all components together and that every
    handler keeps it; \<open>Emu_Progress\<close>: the state diagram of a command, and how many rounds it
    has left; \<open>Emu_EndToEnd\<close>: the life of a single command from the ready list to the log;
    \<open>Emu_Job\<close>: a job of fio on the emulator, unit by unit.
  \<^item> \<open>Fio_Axmap\<close>: \<^verbatim>\<open>fio4emu/lib/axmap.c\<close> with its levels of bitmaps, and that
    marking blocks refines a set of blocks; \<open>Fio_Axmap_Free\<close>: the search for the next free
    block; \<open>Fio_LFSR\<close>: \<^verbatim>\<open>lib/lfsr.c\<close>; \<open>Fio_Rand\<close>:
    \<^verbatim>\<open>lib/rand.c\<close>, \<^verbatim>\<open>lib/rand.h\<close>; \<open>Fio_Offset\<close>: the functions of
    \<^verbatim>\<open>io_u.c\<close> and \<^verbatim>\<open>filesetup.c\<close> that choose direction, offset and length of a unit;
    \<open>Fio_Jobs\<close>: what a whole job visits; \<open>Fio_Direction\<close>: which directions are chosen;
    \<open>Fio_Zones\<close>: \<^verbatim>\<open>zone-dist.c\<close> and the blocks of zoned jobs; \<open>Fio_Units\<close>:
    \<^verbatim>\<open>io_u_queue.c\<close> and the pool of units in \<^verbatim>\<open>io_u.c\<close>, whose ring is another
    interpretation of \<open>fifo\<close>.
  \<^item> \<open>Fio_Pattern\<close>: the contents of buffers, \<^verbatim>\<open>lib/pattern.c\<close> and the partly random
    buffers of \<^verbatim>\<open>lib/rand.c\<close>; \<open>Fio_CRC\<close>: the checksums \<^verbatim>\<open>crc/crc7.c\<close>,
    \<^verbatim>\<open>crc16.c\<close>, \<^verbatim>\<open>crc32.c\<close>, \<^verbatim>\<open>crc32c.c\<close> and
    \<^verbatim>\<open>crc64.c\<close>, with the locale \<open>byte_crc\<close> interpreted on four of them;
    \<open>Fio_Stat\<close>: the latency histogram of \<^verbatim>\<open>stat.c\<close>.
  \<^item> \<open>Host_LLD\<close>, \<open>Nvme_Task\<close>, \<open>Board_CQ\<close>, \<open>Erase_Init\<close>: code that the
    emulator does not compile or does not call: the NVMe driver \<^verbatim>\<open>nvme/host_lld.c\<close>, the
    NVMe state machine of \<^verbatim>\<open>ftl/ftl_nvme.c\<close>, the completion polling of the board in
    \<^verbatim>\<open>ftl/ftl_core1.c\<close>, and \<^verbatim>\<open>FTL_erase_init\<close>.

  \<^bold>\<open>Conventions.\<close> Machine integers are words of their width. \<open>None\<close> is undefined
  behaviour (a NULL or out-of-range access), a loop that does not end, or a wait for a lock that is not
  released; \<open>Inl\<close> of a sum is a process that ends or blocks. Loops over data that the program
  owns are total functions with a termination proof; loops that depend on a device, on the contents of
  the log or on links that may be damaged are partial functions, and the theorems show where they
  return and where they do not. No fuel is used. Uninitialised local variables are arguments. Results of
  system calls and of code outside the repository are arguments too.

  \<^bold>\<open>What is shown.\<close> In every reachable state of the emulator a round of the FTL thread
  returns, every command and slot has one owner, and one-page commands make progress until they are
  done; a write of one page ends up in the log and a read fetches it back. The components refine their
  abstract values (queues, pools, a cache). Flash addresses survive their encodings, the address mapping
  is injective, the memory map has no overlaps, and the two processes agree on the shared segment.
  fio's jobs visit every block of their file once, in random order over the map or the register, or in
  sequence, and a random write job served by the emulator ends with one log record per block. Their units
  move only in the directions that the options name and are never lost or used twice; patterns written
  are recognised exactly, the checksums are those of their polynomials and notice every short burst, and
  the histogram keeps latencies up to one part in 128. For
  the board, the controller is programmed with the right sequence, completions are consumed once each,
  the DMA queues are never overrun and the partial checks are exact, and a reset leaves no queue on.
  Other theorems pin down where the code does not do what it means to: commands of other sizes never
  finish, only the newest log record can be read, a TRIM leaves both processes blocked, and so on.

  \<^bold>\<open>Not modelled.\<close> Garbage collection (\<^verbatim>\<open>gc/\<close> is commented out as a whole), of
  the vendored fio everything but the engine and the parts named above (in these parts, zoned block
  devices, the Zipf, Pareto and Gauss distributions, the barrier flag, parsing of patterns, the other
  hashes, means and deviations in floating point, reference counts of files, asynchronous verification,
  and floating-point products and comparisons, which are arguments such as
  \<open>scale\<close> and \<open>reached\<close>), the registration of the engine, the start of the second core of
  the board (assembly), the configurations \<^verbatim>\<open>OBJECT_MODE\<close>,
  \<^verbatim>\<open>SINGLE_CORE_MODE\<close> and \<^verbatim>\<open>BYPASS_BUFFER\<close> that are switched off, and the
  effect of log output on the threads (\<open>Emu_Log\<close> shows that it has none unless the unused log
  type \<^verbatim>\<open>XIL\<close> is printed). Steps of \<open>emu_step\<close> are atomic at the granularity named
  above; the FTL thread and the back-end thread share only the request lists, under a mutex, and the
  buffers. fio's TRIM is not a step of the system, because it blocks everything
  (\<open>Fio_Engine\<close> shows this).
\<close>

section \<open>The emulator as a whole\<close>

text \<open>
  C1: the FTL thread never gets stuck. In every state that the emulator reaches from its start, by
  any interleaving of the FTL thread, the back-end thread, the test thread and fio (TRIM requests
  aside), a round of the FTL thread's loop returns: none of its handlers uses an invalid pointer,
  overflows a queue or runs an endless loop. The state after the round is again reachable.
\<close>

theorem ftl_round_safe:
  assumes "emu_reach s"
  shows "\<exists>t. FTL_core0_task_run junk (sys_ftl s) = Some t \<and> emu_reach (s\<lparr>sys_ftl := t\<rparr>)"
proof -
  obtain f reg cmp fs rs where "emu_ok (sys_ftl s) f reg (be_holds (sys_be s)) cmp fs rs"
    using reach_sys_ok [OF assms] by (auto simp: sys_ok_def)
  then obtain t where "FTL_core0_task_run junk (sys_ftl s) = Some t" using round_ok by blast
  then show ?thesis using reach_steps [OF round_steps assms] by blast
qed

theorem ftl_round_safe_witness:
  "\<exists>t. FTL_core0_task_run \<lparr>ppa_ch = 0, ppa_ce = 0, nand_flash_addr = 0\<rparr> (sys_ftl (demo_submit [] (demo_io DDIR_WRITE))) = Some t"
  using ftl_round_safe [OF demo_submit_ok(8) [where log = "[]" and io = "demo_io DDIR_WRITE" and ops = SHM_WRITE_OPS]] by (auto simp: demo_io_def ddir_ops_def)




text \<open>
  C4: a write of one page completes. On a reachable emulator with no command in progress and one
  ready write of 16 KB, the threads can carry the command to its end: its host command entry and its
  submission slot are free again, its shared-memory slot is back on the free list, and the flash log
  has grown by exactly one record, with the contents of the first buffer, at the one flash address
  that the handler uses for every command.
\<close>

theorem write_completes:
  assumes "emu_reach s" and "hcmd_used (st_hcl (sys_ftl s)) = {}" and "sys_be s = Be_Idle"
    and "shm_repr (st_shm (sys_ftl s)) fs [x]" and "sys_file s = Some old"
    and "cmd_payload (shm_slots (st_shm (sys_ftl s)) x) = (SHM_WRITE_OPS, lpn, sz)" and "sz div HOST_BLOCK_SIZE div 4 = 1"
  shows "\<exists>t. emu_step\<^sup>*\<^sup>* s t \<and> hcmd_used (st_hcl (sys_ftl t)) = {} \<and> sq_used 1 (st_fcl (sys_ftl t)) = {} \<and>
    shm_repr (st_shm (sys_ftl t)) (fs @ [x]) [] \<and> sys_be t = Be_Idle \<and> sys_mem t = sys_mem s \<and>
    sys_file t = Some (old @ log_record (fixed_page, mem_bytes (sys_mem s) (L2P_get_buffer_addr (st_mem_base (sys_ftl s)) 0) LOG_DATA_LEN))"
proof -
  obtain t f where "emu_step\<^sup>*\<^sup>* s t" "emu_ok (sys_ftl t) f [] [] [] (fs @ [x]) []" "hcmd_used (st_hcl (sys_ftl t)) = {}"
    "sys_mem t = sys_mem s" "sys_be t = Be_Idle"
    "sys_file t = Some (old @ log_record (fixed_page, mem_bytes (sys_mem s) (L2P_get_buffer_addr (st_mem_base (sys_ftl s)) 0) LOG_DATA_LEN))"
    using write_trace [OF assms] by blast
  then show ?thesis by (auto simp: emu_ok_def slots_ok_def)
qed

theorem write_completes_witness:
  "\<exists>t. emu_step\<^sup>*\<^sup>* (demo_submit [] (demo_io DDIR_WRITE)) t \<and> hcmd_used (st_hcl (sys_ftl t)) = {} \<and>
     (\<exists>d. sys_file t = Some (log_record (fixed_page, d)) \<and> length d = LOG_DATA_LEN)"
proof -
  have d: "ddir_ops (io_ddir (demo_io DDIR_WRITE)) = Some SHM_WRITE_OPS" by (simp add: demo_io_def ddir_ops_def)
  note s = demo_submit_ok [OF d, where log = "[]"]
  have r: "shm_repr (st_shm (sys_ftl (demo_submit [] (demo_io DDIR_WRITE)))) [1..<CMD_SLOT_NUM] [0]" using s(1) by (simp add: emu_ok_def)
  have "(ucast (io_xfer_buflen (demo_io DDIR_WRITE)) :: u32) div HOST_BLOCK_SIZE div 4 = 1" by (simp add: demo_io_def HOST_BLOCK_SIZE_def KB_def)
  from write_completes [OF s(8,3,4) r s(5) s(2) this] obtain t where
    "emu_step\<^sup>*\<^sup>* (demo_submit [] (demo_io DDIR_WRITE)) t" "hcmd_used (st_hcl (sys_ftl t)) = {}"
    "sys_file t = Some ([] @ log_record (fixed_page, mem_bytes (sys_mem (demo_submit [] (demo_io DDIR_WRITE)))
      (L2P_get_buffer_addr (st_mem_base (sys_ftl (demo_submit [] (demo_io DDIR_WRITE)))) 0) LOG_DATA_LEN))"
    by blast
  then show ?thesis unfolding append_Nil using length_mem_bytes by blast
qed

text \<open>
  C3: a read of one page completes and fetches what the newest write stored. Under the same
  conditions, with a ready read of 16 KB and a log that ends with a record of the fixed address whose
  page does not begin with white space, the command comes to its end and the first buffer then holds
  the page of that record.
\<close>

theorem read_completes:
  assumes "emu_reach s" and "hcmd_used (st_hcl (sys_ftl s)) = {}" and "sys_be s = Be_Idle"
    and "shm_repr (st_shm (sys_ftl s)) fs [x]" and "sys_file s = Some (old @ log_record (fixed_page, d))"
    and "length d = LOG_DATA_LEN" and "\<not> is_space (d ! 0)"
    and "cmd_payload (shm_slots (st_shm (sys_ftl s)) x) = (SHM_READ_OPS, lpn, sz)" and "sz div HOST_BLOCK_SIZE div 4 = 1"
  shows "\<exists>t. emu_step\<^sup>*\<^sup>* s t \<and> hcmd_used (st_hcl (sys_ftl t)) = {} \<and> sq_used 1 (st_fcl (sys_ftl t)) = {} \<and>
    shm_repr (st_shm (sys_ftl t)) (fs @ [x]) [] \<and> sys_be t = Be_Idle \<and> sys_file t = sys_file s \<and>
    mem_bytes (sys_mem t) (L2P_get_buffer_addr (st_mem_base (sys_ftl s)) 0) LOG_DATA_LEN = d"
proof -
  fix junk vars
  obtain f where ok: "emu_ok (sys_ftl s) f [] [] [] fs [x]" using reach_idle(1) [OF assms(1-4)] by blast
  have mb: "aligned16K (st_mem_base (sys_ftl s))" using reach_idle(2) [OF assms(1-4)] .
  have p: "cmd_payload (shm_slots (st_shm (sys_ftl s)) x) = (if HCE_READ = HCE_WRITE then SHM_WRITE_OPS else SHM_READ_OPS, lpn, sz)"
    using assms(8) by simp
  let ?a = "L2P_get_buffer_addr (st_mem_base (sys_ftl s)) 0"
  have fl: "be_flash junk vars sq (sys_mem s, sys_file s) = Some (Inr (mem_write ?a (dropWhile is_space d) (sys_mem s), sys_file s))"
    if "is_request (st_mem_base (sys_ftl s)) k HCE_READ sq" for k sq using read_request_flash [OF that assms(6)] assms(5) by simp
  obtain t f' where t: "emu_step\<^sup>*\<^sup>* s t" "emu_ok (sys_ftl t) f' [] [] [] (fs @ [x]) []" "hcmd_used (st_hcl (sys_ftl t)) = {}"
    "sys_mem t = mem_write ?a (dropWhile is_space d) (sys_mem s)" "sys_be t = Be_Idle" "sys_file t = sys_file s"
    using command_trace [OF ok assms(2,3) p disjI2 [OF refl] assms(9) mb,
      where junk = junk and vars = vars and fl = "sys_file s" and mem = "mem_write ?a (dropWhile is_space d) (sys_mem s)"] fl by blast
  have "d \<noteq> []" using assms(6) by (auto simp: LOG_DATA_LEN_def)
  then have "dropWhile is_space d = d" using assms(7) by (cases d) simp_all
  then have "mem_bytes (sys_mem t) ?a LOG_DATA_LEN = d" using t(4) mem_bytes_write [of d ?a "sys_mem s"] assms(6) by (simp add: LOG_DATA_LEN_def)
  then show ?thesis using t by (auto simp: emu_ok_def slots_ok_def)
qed

theorem read_completes_witness:
  "\<exists>t. emu_step\<^sup>*\<^sup>* (demo_submit (log_record (fixed_page, replicate LOG_DATA_LEN 65)) (demo_io DDIR_READ)) t \<and> hcmd_used (st_hcl (sys_ftl t)) = {} \<and>
     mem_bytes (sys_mem t) (L2P_get_buffer_addr (align_base 0x10000000) 0) LOG_DATA_LEN = replicate LOG_DATA_LEN 65"
proof -
  let ?d = "replicate LOG_DATA_LEN 65 :: u8 list"
  have d: "ddir_ops (io_ddir (demo_io DDIR_READ)) = Some SHM_READ_OPS" by (simp add: demo_io_def ddir_ops_def)
  note s = demo_submit_ok [OF d, where log = "log_record (fixed_page, ?d)"]
  have r: "shm_repr (st_shm (sys_ftl (demo_submit (log_record (fixed_page, ?d)) (demo_io DDIR_READ)))) [1..<CMD_SLOT_NUM] [0]"
    using s(1) by (simp add: emu_ok_def)
  have l: "sys_file (demo_submit (log_record (fixed_page, ?d)) (demo_io DDIR_READ)) = Some ([] @ log_record (fixed_page, ?d))"
    unfolding append_Nil by (rule s(5))
  have n: "length ?d = LOG_DATA_LEN" by simp
  have "(0::nat) < LOG_DATA_LEN" by (simp add: LOG_DATA_LEN_def)
  then have w: "\<not> is_space (?d ! 0)" by (simp add: is_space_def)
  have "(ucast (io_xfer_buflen (demo_io DDIR_READ)) :: u32) div HOST_BLOCK_SIZE div 4 = 1" by (simp add: demo_io_def HOST_BLOCK_SIZE_def KB_def)
  from read_completes [OF s(8,3,4) r l n w s(2) this, unfolded s(7)] show ?thesis by blast
qed

end
